(* ===== verification/Prelude.thy ===== *)
theory Prelude
  imports Complex_Main "HOL-Library.Word" "HOL-Library.Char_ord" "HOL-Library.List_Lexorder" "HOL-Library.Product_Lexorder"
begin

text \<open>
  Shared material of the Cognis development: the types that stand for Rust's primitive types,
  the string operations of the standard library the sources call, saturating arithmetic on
  machine words, and the ordered maps (\<open>BTreeMap\<close>) used where the code iterates in key order.

  A Rust \<open>str\<close> is a sequence of UTF-8 bytes and is modelled by Isabelle's \<open>string\<close>, a list of
  8-bit characters. Its order is Rust's order (bytewise lexicographic). A \<open>f64\<close> is modelled by
  \<open>real\<close>: the arithmetic is exact and there is no NaN; every comparison the code does on floats
  is the comparison of the real values.
\<close>

named_theorems inv_intros \<open>how an operation keeps an invariant\<close>
named_theorems size_bounds \<open>bounds on the length of a result\<close>

type_synonym u8 = "8 word"
type_synonym u32 = "32 word"
type_synonym u64 = "64 word"
type_synonym f64 = real

declare of_nat_unat [simp del]

subsection \<open>Saturating machine arithmetic\<close>

definition sat_add8 :: "u8 \<Rightarrow> u8 \<Rightarrow> u8" where
  "sat_add8 a b = (if unat a + unat b < 256 then a + b else 255)"

definition sat_mul8 :: "u8 \<Rightarrow> u8 \<Rightarrow> u8" where
  "sat_mul8 a b = (if unat a * unat b < 256 then a * b else 255)"

lemma unat_sat_add8: "unat (sat_add8 a b) = min 255 (unat a + unat b)"
proof (cases "unat a + unat b < 256")
  case True
  then have "unat (a + b) = unat a + unat b"
    by (subst unat_add_lem [THEN iffD1]) auto
  with True show ?thesis by (simp add: sat_add8_def)
next
  case False
  then show ?thesis by (simp add: sat_add8_def)
qed

lemma unat_sat_mul8: "unat (sat_mul8 a b) = min 255 (unat a * unat b)"
proof (cases "unat a * unat b < 256")
  case True
  then have "unat (a * b) = unat a * unat b"
    by (subst unat_mult_lem [THEN iffD1]) auto
  with True show ?thesis by (simp add: sat_mul8_def)
next
  case False
  then show ?thesis by (simp add: sat_mul8_def)
qed

lemma sat_add8_commute: "sat_add8 a b = sat_add8 b a"
  by (simp add: sat_add8_def add.commute)

lemma sat_mul8_commute: "sat_mul8 a b = sat_mul8 b a"
  by (simp add: sat_mul8_def mult.commute)

lemma unat_u8_le: "unat (a :: u8) \<le> 255"
proof -
  have "unat a < 2 ^ LENGTH(8)"
    by (rule unsigned_less)
  then show ?thesis by simp
qed

lemma unat_max: "unat (max a b) = max (unat a) (unat b)"
  by (simp add: max_def word_le_nat_alt)

subsection \<open>Strings\<close>

text \<open>Decimal rendering, as \<open>format!("{n}")\<close> does for an unsigned integer.\<close>

fun digit_char :: "nat \<Rightarrow> char" where
  "digit_char d = char_of (48 + d)"

fun show_nat :: "nat \<Rightarrow> string" where
  "show_nat n = (if n < 10 then [digit_char n] else show_nat (n div 10) @ [digit_char (n mod 10)])"

declare show_nat.simps [simp del]

text \<open>
  \<open>format!("{x:.d}")\<close> for a non-negative float: rounded to \<open>d\<close> decimals, ties to even.
\<close>

definition round_half_even :: "f64 \<Rightarrow> int" where
  "round_half_even x =
     (let l = \<lfloor>x\<rfloor>; r = x - of_int l
      in if r < 1/2 then l else if r > 1/2 then l + 1 else if even l then l else l + 1)"

fun pad_zeros :: "nat \<Rightarrow> string \<Rightarrow> string" where
  "pad_zeros d s = replicate (d - length s) (CHR ''0'') @ s"

definition fmt_fixed :: "nat \<Rightarrow> f64 \<Rightarrow> string" where
  "fmt_fixed d x =
     (let n = nat (round_half_even (x * 10 ^ d))
      in show_nat (n div 10 ^ d) @ (if d = 0 then [] else ''.'' @ pad_zeros d (show_nat (n mod 10 ^ d))))"

text \<open>\<open>starts_with\<close>, \<open>ends_with\<close> and \<open>contains\<close> of \<open>str\<close>.\<close>

fun starts_with :: "string \<Rightarrow> string \<Rightarrow> bool" where
  "starts_with s [] = True"
| "starts_with [] (p # ps) = False"
| "starts_with (c # cs) (p # ps) = (c = p \<and> starts_with cs ps)"

definition ends_with :: "string \<Rightarrow> string \<Rightarrow> bool" where
  "ends_with s p = starts_with (rev s) (rev p)"

fun str_contains :: "string \<Rightarrow> string \<Rightarrow> bool" where
  "str_contains s p = (starts_with s p \<or> (case s of [] \<Rightarrow> False | _ # cs \<Rightarrow> str_contains cs p))"

declare str_contains.simps [simp del]

lemma starts_with_iff: "starts_with s p \<longleftrightarrow> (\<exists>r. s = p @ r)"
  by (induction s p rule: starts_with.induct) auto

lemma ends_with_iff: "ends_with s p \<longleftrightarrow> (\<exists>r. s = r @ p)"
proof -
  have "ends_with s p \<longleftrightarrow> (\<exists>r. rev s = rev p @ r)"
    by (simp add: ends_with_def starts_with_iff)
  also have "\<dots> \<longleftrightarrow> (\<exists>r. s = r @ p)"
    by (metis rev_append rev_rev_ident)
  finally show ?thesis .
qed

lemma str_contains_iff: "str_contains s p \<longleftrightarrow> (\<exists>a b. s = a @ p @ b)"
proof (induction s)
  case Nil
  show ?case by (auto simp: str_contains.simps starts_with_iff)
next
  case (Cons c s)
  have "str_contains (c # s) p \<longleftrightarrow> (\<exists>r. c # s = p @ r) \<or> (\<exists>a b. s = a @ p @ b)"
    by (subst str_contains.simps) (simp add: starts_with_iff Cons.IH)
  also have "\<dots> \<longleftrightarrow> (\<exists>a b. c # s = a @ p @ b)"
    by (metis append_Cons append_Nil neq_Nil_conv list.inject)
  finally show ?case .
qed

text \<open>
  \<open>str::trim\<close> removes leading and trailing characters of the Unicode property \<open>White_Space\<close>;
  the table lists their UTF-8 encodings.
\<close>

definition ws_encodings :: "string list" where
  "ws_encodings =
     [[CHR 0x09], [CHR 0x0A], [CHR 0x0B], [CHR 0x0C], [CHR 0x0D], [CHR 0x20],
      [CHR 0xC2, CHR 0x85], [CHR 0xC2, CHR 0xA0], [CHR 0xE1, CHR 0x9A, CHR 0x80],
      [CHR 0xE2, CHR 0x80, CHR 0x80], [CHR 0xE2, CHR 0x80, CHR 0x81], [CHR 0xE2, CHR 0x80, CHR 0x82],
      [CHR 0xE2, CHR 0x80, CHR 0x83], [CHR 0xE2, CHR 0x80, CHR 0x84], [CHR 0xE2, CHR 0x80, CHR 0x85],
      [CHR 0xE2, CHR 0x80, CHR 0x86], [CHR 0xE2, CHR 0x80, CHR 0x87], [CHR 0xE2, CHR 0x80, CHR 0x88],
      [CHR 0xE2, CHR 0x80, CHR 0x89], [CHR 0xE2, CHR 0x80, CHR 0x8A], [CHR 0xE2, CHR 0x80, CHR 0xA8],
      [CHR 0xE2, CHR 0x80, CHR 0xA9], [CHR 0xE2, CHR 0x80, CHR 0xAF], [CHR 0xE2, CHR 0x81, CHR 0x9F],
      [CHR 0xE3, CHR 0x80, CHR 0x80]]"

function strip_all :: "string list \<Rightarrow> string \<Rightarrow> string" where
  "strip_all ws s =
     (case find (\<lambda>w. w \<noteq> [] \<and> starts_with s w) ws of
        None \<Rightarrow> s
      | Some w \<Rightarrow> strip_all ws (drop (length w) s))"
  by pat_completeness auto
termination
proof (relation "measure (length \<circ> snd)")
  fix ws s w
  assume "find (\<lambda>w. w \<noteq> [] \<and> starts_with s w) ws = Some w"
  then have "w \<noteq> []" and "starts_with s w"
    by (auto simp: find_Some_iff)
  then show "((ws, drop (length w) s), (ws, s)) \<in> measure (length \<circ> snd)"
    by (cases w) (auto simp: starts_with_iff)
qed simp

declare strip_all.simps [simp del]

definition trim_start :: "string \<Rightarrow> string" where
  "trim_start s = strip_all ws_encodings s"

definition trim_end :: "string \<Rightarrow> string" where
  "trim_end s = rev (strip_all (map rev ws_encodings) (rev s))"

definition trim :: "string \<Rightarrow> string" where
  "trim s = trim_end (trim_start s)"

lemma strip_all_length: "length (strip_all ws s) \<le> length s"
proof (induction ws s rule: strip_all.induct)
  case (1 ws s)
  show ?case
  proof (cases "find (\<lambda>w. w \<noteq> [] \<and> starts_with s w) ws")
    case None
    then show ?thesis by (simp add: strip_all.simps)
  next
    case (Some w)
    with "1.IH" [of w] have "length (strip_all ws (drop (length w) s)) \<le> length s"
      by simp
    with Some show ?thesis by (subst strip_all.simps) simp
  qed
qed

lemma strip_all_done: "find (\<lambda>w. w \<noteq> [] \<and> starts_with (strip_all ws s) w) ws = None"
proof (induction ws s rule: strip_all.induct)
  case (1 ws s)
  show ?case
  proof (cases "find (\<lambda>w. w \<noteq> [] \<and> starts_with s w) ws")
    case None
    then have "strip_all ws s = s" by (simp add: strip_all.simps)
    with None show ?thesis by simp
  next
    case (Some w)
    then have "strip_all ws s = strip_all ws (drop (length w) s)"
      by (subst strip_all.simps) simp
    with "1.IH" [OF Some] show ?thesis by simp
  qed
qed

lemma strip_all_idem [simp]: "strip_all ws (strip_all ws s) = strip_all ws s"
  by (subst strip_all.simps) (simp add: strip_all_done)

lemma trim_start_idem [simp]: "trim_start (trim_start s) = trim_start s"
  by (simp add: trim_start_def)

lemma trim_end_idem [simp]: "trim_end (trim_end s) = trim_end s"
  by (simp add: trim_end_def)

lemma strip_all_suffix: "\<exists>p. s = p @ strip_all ws s"
proof (induction ws s rule: strip_all.induct)
  case (1 ws s)
  show ?case
  proof (cases "find (\<lambda>w. w \<noteq> [] \<and> starts_with s w) ws")
    case (Some w)
    then obtain p where "drop (length w) s = p @ strip_all ws (drop (length w) s)" using "1.IH" by blast
    then have "s = (take (length w) s @ p) @ strip_all ws (drop (length w) s)" by (metis append.assoc append_take_drop_id)
    moreover have "strip_all ws s = strip_all ws (drop (length w) s)" using Some by (subst strip_all.simps) simp
    ultimately show ?thesis by metis
  qed (simp add: strip_all.simps)
qed

lemma trim_idem [simp]: "trim (trim s) = trim s"
proof -
  obtain p where p: "rev (trim_start s) = p @ strip_all (map rev ws_encodings) (rev (trim_start s))"
    using strip_all_suffix by blast
  then have x: "trim_start s = trim s @ rev p"
    by (metis rev_append rev_rev_ident trim_def trim_end_def)
  have "find (\<lambda>w. w \<noteq> [] \<and> starts_with (trim s) w) ws_encodings = None"
    using strip_all_done [of ws_encodings s] x
    by (auto simp: find_None_iff starts_with_iff trim_start_def)
  then have "trim_start (trim s) = trim s" by (simp add: trim_start_def strip_all.simps)
  then show ?thesis by (metis trim_def trim_end_idem)
qed

text \<open>\<open>[..].join(sep)\<close>.\<close>

fun join :: "string \<Rightarrow> string list \<Rightarrow> string" where
  "join sep [] = []"
| "join sep [s] = s"
| "join sep (s # ss) = s @ sep @ join sep ss"

text \<open>\<open>to_ascii_lowercase\<close>, \<open>to_ascii_uppercase\<close>: the ASCII letters, byte by byte.\<close>

definition ascii_lower :: "char \<Rightarrow> char" where
  "ascii_lower c = (if 65 \<le> (of_char c :: nat) \<and> (of_char c :: nat) \<le> 90 then char_of (of_char c + (32 :: nat)) else c)"

definition ascii_upper :: "char \<Rightarrow> char" where
  "ascii_upper c = (if 97 \<le> (of_char c :: nat) \<and> (of_char c :: nat) \<le> 122 then char_of (of_char c - (32 :: nat)) else c)"

definition to_ascii_lowercase :: "string \<Rightarrow> string" where
  "to_ascii_lowercase s = map ascii_lower s"

definition to_ascii_uppercase :: "string \<Rightarrow> string" where
  "to_ascii_uppercase s = map ascii_upper s"

lemma ascii_lower_idem [simp]: "ascii_lower (ascii_lower c) = ascii_lower c"
  by (simp add: ascii_lower_def)

lemma to_ascii_lowercase_idem [simp]:
  "to_ascii_lowercase (to_ascii_lowercase s) = to_ascii_lowercase s"
  by (simp add: to_ascii_lowercase_def)

text \<open>\<open>str::parse::<u64>\<close>: an optional plus sign and decimal digits, within 64 bits.\<close>

definition is_digit :: "char \<Rightarrow> bool" where
  "is_digit c \<longleftrightarrow> 48 \<le> (of_char c :: nat) \<and> (of_char c :: nat) \<le> 57"

definition digits_value :: "string \<Rightarrow> nat" where
  "digits_value ds = fold (\<lambda>c n. 10 * n + (of_char c - 48)) ds 0"

definition parse_u64 :: "string \<Rightarrow> nat option" where
  "parse_u64 s =
     (let ds = (case s of c # cs \<Rightarrow> if c = CHR ''+'' then cs else s | [] \<Rightarrow> [])
      in if ds \<noteq> [] \<and> list_all is_digit ds \<and> digits_value ds < 2 ^ 64 then Some (digits_value ds) else None)"

lemma of_digit_char: "d < 10 \<Longrightarrow> (of_char (digit_char d) :: nat) = 48 + d"
  by simp

lemma show_nat_digits:
  "list_all is_digit (show_nat n) \<and> show_nat n \<noteq> [] \<and> digits_value (show_nat n) = n"
proof (induction n rule: show_nat.induct)
  case (1 n)
  show ?case
  proof (cases "n < 10")
    case True
    then show ?thesis
      by (subst (1 2 3) show_nat.simps) (simp add: is_digit_def digits_value_def of_digit_char del: digit_char.simps)
  next
    case False
    have "is_digit (digit_char (n mod 10))" "(of_char (digit_char (n mod 10)) :: nat) = 48 + n mod 10"
      by (simp_all add: is_digit_def of_digit_char del: digit_char.simps)
    with 1 [OF False] False show ?thesis
      by (subst (1 2 3) show_nat.simps) (simp add: digits_value_def del: digit_char.simps)
  qed
qed

lemma parse_u64_show_nat [simp]:
  assumes "n < 2 ^ 64"
  shows "parse_u64 (show_nat n) = Some n"
proof -
  obtain c cs where c: "show_nat n = c # cs" using show_nat_digits [of n] by (cases "show_nat n") auto
  then have "is_digit c" using show_nat_digits [of n] by simp
  then have "c \<noteq> CHR ''+''" by (auto simp: is_digit_def)
  with c show ?thesis using show_nat_digits [of n] assms by (simp add: parse_u64_def Let_def)
qed

subsection \<open>Lists without repetition\<close>

text \<open>
  The \<open>HashSet\<close>-guarded loops keep the first occurrence of each item that was not seen before.
\<close>

fun dedup_from :: "'a list \<Rightarrow> 'a list \<Rightarrow> 'a list" where
  "dedup_from seen [] = []"
| "dedup_from seen (x # xs) =
     (if x \<in> set seen then dedup_from seen xs else x # dedup_from (seen @ [x]) xs)"

abbreviation dedup :: "'a list \<Rightarrow> 'a list" where
  "dedup \<equiv> dedup_from []"

lemma set_dedup_from [simp]: "set (dedup_from seen xs) = set xs - set seen"
  by (induction seen xs rule: dedup_from.induct) auto

lemma distinct_dedup_from [simp]: "distinct (dedup_from seen xs)"
  by (induction seen xs rule: dedup_from.induct) auto

lemma length_dedup_from: "length (dedup_from seen xs) \<le> length xs"
  by (induction seen xs rule: dedup_from.induct) auto

lemma dedup_from_distinct: "distinct xs \<Longrightarrow> set xs \<inter> set seen = {} \<Longrightarrow> dedup_from seen xs = xs"
  by (induction seen xs rule: dedup_from.induct) auto

lemma dedup_from_snoc:
  "dedup_from seen (xs @ [x]) =
     dedup_from seen xs @ (if x \<in> set seen \<union> set xs then [] else [x])"
  by (induction seen xs rule: dedup_from.induct) auto

text \<open>The position of the first occurrence.\<close>

definition pos :: "'a \<Rightarrow> 'a list \<Rightarrow> nat" where
  "pos x xs = length (takeWhile (\<lambda>y. y \<noteq> x) xs)"

lemma pos_Cons [simp]: "pos x (y # ys) = (if y = x then 0 else Suc (pos x ys))"
  by (simp add: pos_def)

lemma pos_less: "x \<in> set xs \<Longrightarrow> pos x xs < length xs"
  by (induction xs) auto

lemma nth_pos: "x \<in> set xs \<Longrightarrow> xs ! pos x xs = x"
  by (induction xs) auto

text \<open>A stable sort depends only on how the keys compare.\<close>

lemma insort_key_cong:
  "(\<And>y. y \<in> set ys \<Longrightarrow> f x \<le> f y \<longleftrightarrow> g x \<le> g y) \<Longrightarrow> insort_key f x ys = insort_key g x ys"
  by (induction ys) auto

lemma sort_key_cong:
  assumes "\<And>x y. x \<in> set xs \<Longrightarrow> y \<in> set xs \<Longrightarrow> f x \<le> f y \<longleftrightarrow> g x \<le> g y"
  shows "sort_key f xs = sort_key g xs"
  using assms
proof (induction xs)
  case (Cons x xs)
  then have "sort_key f xs = sort_key g xs" by simp
  moreover have "insort_key f x (sort_key g xs) = insort_key g x (sort_key g xs)"
    by (rule insort_key_cong) (use Cons.prems in simp)
  ultimately show ?case by simp
qed simp

lemma map_insort_key: "map g (insort_key (\<lambda>a. f (g a)) x ys) = insort_key f (g x) (map g ys)"
  by (induction ys) auto

lemma map_sort_key: "map g (sort_key (\<lambda>a. f (g a)) xs) = sort_key f (map g xs)"
  by (induction xs) (simp_all add: map_insort_key)

subsection \<open>Ordered maps\<close>

text \<open>A \<open>BTreeMap\<close> is its list of entries in key order.\<close>

type_synonym ('k, 'v) btree = "('k \<times> 'v) list"

fun bt_insert :: "'k::linorder \<Rightarrow> 'v \<Rightarrow> ('k, 'v) btree \<Rightarrow> ('k, 'v) btree" where
  "bt_insert k v [] = [(k, v)]"
| "bt_insert k v ((k', v') # m) =
     (if k < k' then (k, v) # (k', v') # m
      else if k = k' then (k, v) # m
      else (k', v') # bt_insert k v m)"

definition bt_wf :: "('k::linorder, 'v) btree \<Rightarrow> bool" where
  "bt_wf m \<longleftrightarrow> sorted_wrt (<) (map fst m)"

lemma bt_wf_Nil [simp]: "bt_wf []"
  by (simp add: bt_wf_def)

lemma set_keys_bt_insert: "fst ` set (bt_insert k v m) = insert k (fst ` set m)"
  by (induction k v m rule: bt_insert.induct) auto

lemma bt_insert_not_Nil [simp]: "bt_insert k v m \<noteq> []"
  by (induction k v m rule: bt_insert.induct) auto

lemma fold_bt_insert_Nil [simp]: "fold (\<lambda>x. bt_insert (f x) (g x)) xs [] = [] \<longleftrightarrow> xs = []"
  by (cases xs rule: rev_cases) simp_all

lemma bt_wf_insert [inv_intros]: "bt_wf m \<Longrightarrow> bt_wf (bt_insert k v m)"
proof (induction k v m rule: bt_insert.induct)
  case (2 k v k' v' m)
  then show ?case
    using set_keys_bt_insert [of k v m]
    by (auto simp: bt_wf_def image_iff; force)
qed (simp add: bt_wf_def)

lemma map_of_bt_insert: "map_of (bt_insert k v m) = (map_of m)(k \<mapsto> v)"
  if "bt_wf m"
  using that
proof (induction k v m rule: bt_insert.induct)
  case (2 k v k' v' m)
  then show ?case by (auto simp: bt_wf_def fun_eq_iff)
qed simp

lemma map_of_bt_insert_same [simp]: "map_of (bt_insert k v m) k = Some v"
  by (induction k v m rule: bt_insert.induct) auto

lemma length_bt_insert:
  "length (bt_insert k v m) = (if k \<in> fst ` set m then length m else Suc (length m))" if "bt_wf m"
  using that
proof (induction k v m rule: bt_insert.induct)
  case (2 k v k' v' m)
  then show ?case by (auto simp: bt_wf_def)
qed simp

lemma bt_wf_filter [inv_intros]: "bt_wf m \<Longrightarrow> bt_wf (filter P m)"
  by (induction m) (auto simp: bt_wf_def)

lemma bt_wf_distinct: "bt_wf m \<Longrightarrow> distinct (map fst m)"
  by (simp add: bt_wf_def strict_sorted_iff)

lemma map_of_filter_key: "map_of (filter (\<lambda>e. P (fst e)) m) k = (if P k then map_of m k else None)"
  by (induction m) auto

lemma bt_wf_map_of: "bt_wf m \<Longrightarrow> (k, v) \<in> set m \<longleftrightarrow> map_of m k = Some v"
  by (simp add: bt_wf_distinct)

lemma bt_wf_map_snd [inv_intros]: "bt_wf m \<Longrightarrow> bt_wf (map (\<lambda>(k, v). (k, f k v)) m)"
  by (simp add: bt_wf_def split_def o_def)

text \<open>Two ordered maps with the same entries are the same list.\<close>

lemma bt_set_eqI: "bt_wf m \<Longrightarrow> bt_wf m' \<Longrightarrow> set m = set m' \<Longrightarrow> m = m'"
  by (rule map_sorted_distinct_set_unique [where f = fst])
     (auto simp: bt_wf_def strict_sorted_iff distinct_map)

lemma bt_eqI: "bt_wf m \<Longrightarrow> bt_wf m' \<Longrightarrow> map_of m = map_of m' \<Longrightarrow> m = m'"
  by (rule bt_set_eqI) (auto simp: bt_wf_map_of)

text \<open>A \<open>BTreeSet\<close> is its list of elements in order.\<close>

definition bset :: "'a::linorder list \<Rightarrow> 'a list" where
  "bset xs = sort (remdups xs)"

lemma set_bset [simp]: "set (bset xs) = set xs"
  by (simp add: bset_def)

lemma distinct_bset [simp]: "distinct (bset xs)"
  by (simp add: bset_def)

lemma sorted_bset [simp]: "sorted (bset xs)"
  by (simp add: bset_def)

lemma bset_Nil [simp]: "bset [] = []"
  by (simp add: bset_def)

lemma bset_eq_Nil [simp]: "bset xs = [] \<longleftrightarrow> xs = []"
  by (metis list.set(1) set_bset set_empty)

lemma bset_cong: "set xs = set ys \<Longrightarrow> bset xs = bset ys"
  by (rule sorted_distinct_set_unique) simp_all

lemma bset_idem [simp]: "bset (bset xs) = bset xs"
  by (rule bset_cong) simp

text \<open>\<open>slice::chunks\<close>.\<close>

function chunks :: "nat \<Rightarrow> 'a list \<Rightarrow> 'a list list" where
  "chunks n xs = (if xs = [] \<or> n = 0 then [] else take n xs # chunks n (drop n xs))"
  by pat_completeness auto
termination by (relation "measure (length \<circ> snd)") auto

declare chunks.simps [simp del]

lemma concat_chunks: "0 < n \<Longrightarrow> concat (chunks n xs) = xs"
proof (induction n xs rule: chunks.induct)
  case (1 n xs)
  then show ?case by (subst chunks.simps) simp
qed

subsection \<open>Fallible steps\<close>

text \<open>The \<open>?\<close> operator and a loop whose body may return an error.\<close>

definition and_then :: "'e + 'a \<Rightarrow> ('a \<Rightarrow> 'e + 'b) \<Rightarrow> 'e + 'b" where
  "and_then r f = (case r of Inl e \<Rightarrow> Inl e | Inr x \<Rightarrow> f x)"

fun try_fold :: "('a \<Rightarrow> 's \<Rightarrow> 'e + 's) \<Rightarrow> 'a list \<Rightarrow> 's \<Rightarrow> 'e + 's" where
  "try_fold f [] s = Inr s"
| "try_fold f (x # xs) s = and_then (f x s) (try_fold f xs)"

lemma and_then_simps [simp]: "and_then (Inl e) f = Inl e" "and_then (Inr x) f = f x"
  by (simp_all add: and_then_def)

lemma and_then_Inr: "and_then r f = Inr y \<longleftrightarrow> (\<exists>x. r = Inr x \<and> f x = Inr y)"
  by (cases r) auto

lemma and_then_Inl: "and_then r f = Inl e \<longleftrightarrow> r = Inl e \<or> (\<exists>x. r = Inr x \<and> f x = Inl e)"
  by (cases r) auto

lemma try_fold_total: "(\<And>x s. x \<in> set xs \<Longrightarrow> f x s = Inr (g x s)) \<Longrightarrow> try_fold f xs s = Inr (fold g xs s)"
  by (induction xs arbitrary: s) auto

lemma try_fold_ok: "(\<And>x s. x \<in> set xs \<Longrightarrow> \<exists>t. f x s = Inr t) \<Longrightarrow> \<exists>t. try_fold f xs s = Inr t"
proof (induction xs arbitrary: s)
  case (Cons x xs)
  then obtain t where "f x s = Inr t" by fastforce
  with Cons show ?case by simp
qed simp

lemma try_fold_fails:
  assumes "x \<in> set xs" "P s" "\<And>y s t. P s \<Longrightarrow> f y s = Inr t \<Longrightarrow> P t" "\<And>s. P s \<Longrightarrow> \<exists>e. f x s = Inl e"
  shows "\<exists>e. try_fold f xs s = Inl e"
  using assms(1,2)
proof (induction xs arbitrary: s)
  case (Cons y xs)
  show ?case
  proof (cases "f y s")
    case (Inr t)
    with assms(4) [OF Cons.prems(2)] have "x \<noteq> y" by auto
    with Cons assms(3) [OF Cons.prems(2) Inr] Inr show ?thesis by simp
  qed simp
qed simp

lemma try_fold_inv:
  assumes "try_fold f xs s = Inr t" "P s" "\<And>x s t. x \<in> set xs \<Longrightarrow> P s \<Longrightarrow> f x s = Inr t \<Longrightarrow> P t"
  shows "P t"
  using assms by (induction xs arbitrary: s) (auto simp: and_then_Inr)

lemma fold_inv: "P s \<Longrightarrow> (\<And>x s. x \<in> set xs \<Longrightarrow> P s \<Longrightarrow> P (f x s)) \<Longrightarrow> P (fold f xs s)"
  by (induction xs arbitrary: s) auto

end
