(* ===== verification/Complexity.thy ===== *)
theory Complexity
  imports Prelude
begin

text \<open>
  The complexity algebra of \<open>crates/cognis-core/src/complexity.rs\<close>: the growth classes, their
  printed form, the scalar degree the code compares them by, sequential composition
  (\<open>seq_max\<close>), nesting (\<open>nest_mul\<close>) and the partial order \<open>impl PartialOrd\<close> gives them.
  The counters are \<open>u8\<close> and saturate as in the code.
\<close>

subsection \<open>Growth classes\<close>

datatype complexity_class =
    Constant
  | Logarithmic (power: u8)
  | Sqrt
  | Polynomial (degree: u8) (log_power: u8)
  | Exponential (base_calls: u8)
  | Factorial

definition constant_class :: complexity_class where "constant_class = Constant"
definition log_n :: complexity_class where "log_n = Logarithmic 1"
definition sqrt_n :: complexity_class where "sqrt_n = Sqrt"
definition linear :: complexity_class where "linear = Polynomial 1 0"
definition n_log_n :: complexity_class where "n_log_n = Polynomial 1 1"
definition quadratic :: complexity_class where "quadratic = Polynomial 2 0"
definition cubic :: complexity_class where "cubic = Polynomial 3 0"

definition polynomial :: "u8 \<Rightarrow> complexity_class" where
  "polynomial d = (if d = 0 then Constant else Polynomial d 0)"

definition show_u8 :: "u8 \<Rightarrow> string" where
  "show_u8 w = show_nat (unat w)"

definition log_notation :: "u8 \<Rightarrow> string" where
  "log_notation p =
     (if p = 0 then ''O(1)''
      else if p = 1 then ''O(log n)''
      else ''O((log n)^'' @ show_u8 p @ '')'')"

fun notation_of :: "complexity_class \<Rightarrow> string" where
  "notation_of Constant = ''O(1)''"
| "notation_of (Logarithmic p) = log_notation p"
| "notation_of Sqrt = ''O(sqrt(n))''"
| "notation_of (Polynomial d p) =
     (if d = 0 \<and> p = 0 then ''O(1)''
      else if d = 0 then log_notation p
      else if d = 1 \<and> p = 0 then ''O(n)''
      else if d = 1 \<and> p = 1 then ''O(n log n)''
      else if d = 1 then ''O(n (log n)^'' @ show_u8 p @ '')''
      else if p = 0 then ''O(n^'' @ show_u8 d @ '')''
      else if p = 1 then ''O(n^'' @ show_u8 d @ '' log n)''
      else ''O(n^'' @ show_u8 d @ '' (log n)^'' @ show_u8 p @ '')'')"
| "notation_of (Exponential b) = ''O('' @ show_u8 (max b 2) @ ''^n)''"
| "notation_of Factorial = ''O(n!)''"

fun effective_degree :: "complexity_class \<Rightarrow> f64" where
  "effective_degree Constant = 0"
| "effective_degree (Logarithmic p) = 1/4 * real (unat p)"
| "effective_degree Sqrt = 1/2"
| "effective_degree (Polynomial d p) = real (unat d) + 1/4 * real (unat p)"
| "effective_degree (Exponential b) = 8 + 1/10 * real (unat (max b 2))"
| "effective_degree Factorial = 10"

fun risk_weight :: "complexity_class \<Rightarrow> f64" where
  "risk_weight Constant = 5/100"
| "risk_weight (Logarithmic _) = 15/100"
| "risk_weight Sqrt = 20/100"
| "risk_weight (Polynomial d p) =
     (if d = 1 \<and> p = 0 then 30/100
      else if d = 1 then 45/100
      else if d = 2 then 75/100
      else if d = 3 then 90/100
      else 95/100)"
| "risk_weight (Exponential _) = 1"
| "risk_weight Factorial = 1"

definition seq_max :: "complexity_class \<Rightarrow> complexity_class \<Rightarrow> complexity_class" where
  "seq_max a b = (if effective_degree a \<ge> effective_degree b then a else b)"

fun nest_mul :: "complexity_class \<Rightarrow> complexity_class \<Rightarrow> complexity_class" where
  "nest_mul Constant x = x"
| "nest_mul x Constant = x"
| "nest_mul Factorial _ = Factorial"
| "nest_mul _ Factorial = Factorial"
| "nest_mul (Exponential b1) (Exponential b2) = Exponential (max (sat_mul8 b1 b2) 2)"
| "nest_mul (Exponential b) _ = Exponential b"
| "nest_mul _ (Exponential b) = Exponential b"
| "nest_mul (Logarithmic p1) (Logarithmic p2) = Logarithmic (sat_add8 p1 p2)"
| "nest_mul Sqrt Sqrt = linear"
| "nest_mul Sqrt (Logarithmic p) = Polynomial 1 p"
| "nest_mul (Logarithmic p) Sqrt = Polynomial 1 p"
| "nest_mul Sqrt (Polynomial d p) = Polynomial (sat_add8 d 1) p"
| "nest_mul (Polynomial d p) Sqrt = Polynomial (sat_add8 d 1) p"
| "nest_mul (Polynomial d p) (Logarithmic q) = Polynomial d (sat_add8 p q)"
| "nest_mul (Logarithmic q) (Polynomial d p) = Polynomial d (sat_add8 p q)"
| "nest_mul (Polynomial d1 p1) (Polynomial d2 p2) = Polynomial (sat_add8 d1 d2) (sat_add8 p1 p2)"

text \<open>\<open>impl PartialOrd\<close>: the classes are compared by their degree.\<close>

instantiation complexity_class :: preorder
begin

definition less_eq_complexity_class :: "complexity_class \<Rightarrow> complexity_class \<Rightarrow> bool" where
  "a \<le> b \<longleftrightarrow> effective_degree a \<le> effective_degree b"

definition less_complexity_class :: "complexity_class \<Rightarrow> complexity_class \<Rightarrow> bool" where
  "a < b \<longleftrightarrow> effective_degree a < effective_degree b"

instance
  by standard (auto simp: less_eq_complexity_class_def less_complexity_class_def)

end

datatype ordering = Less | Equal | Greater

definition partial_cmp :: "complexity_class \<Rightarrow> complexity_class \<Rightarrow> ordering option" where
  "partial_cmp a b =
     Some (if effective_degree a < effective_degree b then Less
           else if effective_degree a = effective_degree b then Equal else Greater)"

subsection \<open>Loop bounds\<close>

datatype loop_bound =
    LoopConstant u32
  | LoopLogarithmic
  | LoopSqrt
  | LoopLinear "string option"

fun to_complexity :: "loop_bound \<Rightarrow> complexity_class" where
  "to_complexity (LoopConstant _) = Constant"
| "to_complexity LoopLogarithmic = log_n"
| "to_complexity LoopSqrt = sqrt_n"
| "to_complexity (LoopLinear _) = linear"

datatype io_effect_kind = DatabaseQuery | NetworkRpc | FilesystemBlocking | SequentialAwaitInLoop

fun io_label :: "io_effect_kind \<Rightarrow> string" where
  "io_label DatabaseQuery = ''db_query_in_loop''"
| "io_label NetworkRpc = ''network_rpc_in_loop''"
| "io_label FilesystemBlocking = ''fs_blocking_in_loop''"
| "io_label SequentialAwaitInLoop = ''sequential_await_in_loop''"

subsection \<open>Composition chooses by degree\<close>

text \<open>
  Choosing the operand with the larger key, the left one on a tie, is a semilattice up to the
  key: the interface is stated for any key into a linear order.
\<close>

locale keyed_choice =
  fixes key :: "'a \<Rightarrow> 'b::linorder" and pick :: "'a \<Rightarrow> 'a \<Rightarrow> 'a"
  assumes pick_left: "key b \<le> key a \<Longrightarrow> pick a b = a"
    and pick_right: "key a < key b \<Longrightarrow> pick a b = b"
begin

lemma pick_key: "key (pick a b) = max (key a) (key b)"
  by (cases "key b \<le> key a") (auto simp: pick_left pick_right max_def)

lemma pick_one_of: "pick a b = a \<or> pick a b = b"
  by (cases "key b \<le> key a") (simp_all add: pick_left pick_right)

lemma pick_idem: "pick a a = a"
  by (simp add: pick_left)

lemma pick_assoc: "pick (pick a b) c = pick a (pick b c)"
proof (cases "key b \<le> key a")
  case True
  then show ?thesis
    by (cases "key c \<le> key b"; cases "key c \<le> key a") (auto simp: pick_left pick_right)
next
  case False
  then have ab: "pick a b = b" by (simp add: pick_right)
  show ?thesis
  proof (cases "key c \<le> key b")
    case True
    then show ?thesis using ab by (simp add: pick_left)
  next
    case bc: False
    with False have "key a < key c" by simp
    with bc ab show ?thesis by (simp add: pick_right)
  qed
qed

lemma pick_fold_key: "key (foldl pick a xs) = foldl max (key a) (map key xs)"
  by (induction xs arbitrary: a) (simp_all add: pick_key)

end

interpretation sm: keyed_choice effective_degree seq_max
  by unfold_locales (auto simp: seq_max_def)

lemma effective_degree_nonneg: "0 \<le> effective_degree c"
  by (cases c) auto

lemma nest_mul_commute: "nest_mul a b = nest_mul b a"
  by (cases a; cases b) (simp_all add: sat_add8_commute sat_mul8_commute)


subsection \<open>Nesting\<close>

lemma unat_sat_add8_1: "unat (sat_add8 d 1) = min 255 (Suc (unat d))"
  by (simp add: unat_sat_add8)

lemma sat_add8_assoc: "sat_add8 (sat_add8 a b) c = sat_add8 a (sat_add8 b c)"
  by (rule word_unat_eq_iff [THEN iffD2]) (simp add: unat_sat_add8)

lemma sat_mul8_assoc:
  assumes "unat a \<ge> 1" and "unat b \<ge> 1" and "unat c \<ge> 1"
  shows "sat_mul8 (sat_mul8 a b) c = sat_mul8 a (sat_mul8 b c)"
proof -
  have cap: "min 255 (min 255 x * y) = min 255 (x * y)" if "1 \<le> y" for x y :: nat
  proof (cases "x \<le> 255")
    case False
    with that have "255 \<le> 255 * y" and "255 \<le> x * y"
      by (auto intro: order_trans [of _ x])
    with False show ?thesis by simp
  qed simp
  have "unat (sat_mul8 (sat_mul8 a b) c) = min 255 (unat a * unat b * unat c)"
    using cap [of "unat c" "unat a * unat b"] assms by (simp add: unat_sat_mul8)
  moreover have "unat (sat_mul8 a (sat_mul8 b c)) = min 255 (unat a * unat b * unat c)"
    using cap [of "unat a" "unat b * unat c"] assms
    by (simp add: unat_sat_mul8 mult.commute mult.left_commute)
  ultimately show ?thesis by (simp add: word_unat_eq_iff)
qed

lemma sat_mul8_ge2: "2 \<le> unat a \<Longrightarrow> 2 \<le> unat b \<Longrightarrow> 2 \<le> unat (sat_mul8 a b)"
  using mult_le_mono [of 2 "unat a" 2 "unat b"] by (simp add: unat_sat_mul8)

lemma max2_sat_mul8: "2 \<le> unat a \<Longrightarrow> 2 \<le> unat b \<Longrightarrow> max (sat_mul8 a b) 2 = sat_mul8 a b"
  using sat_mul8_ge2 [of a b] by (intro max_absorb1) (simp add: word_le_nat_alt)

text \<open>The classes on which nesting is associative: no \<open>Sqrt\<close>, and exponentials of base at least 2.\<close>

fun regular_class :: "complexity_class \<Rightarrow> bool" where
  "regular_class Sqrt = False"
| "regular_class (Exponential b) = (2 \<le> unat b)"
| "regular_class _ = True"

lemma nest_mul_regular: "regular_class a \<Longrightarrow> regular_class b \<Longrightarrow> regular_class (nest_mul a b)"
  by (cases a; cases b) (simp_all add: max2_sat_mul8 sat_mul8_ge2)

text \<open>The polylogarithmic classes, and those whose degree stays in the range reserved for them.\<close>

fun polylog :: "complexity_class \<Rightarrow> bool" where
  "polylog (Exponential _) = False"
| "polylog Factorial = False"
| "polylog _ = True"

fun unsaturated :: "complexity_class \<Rightarrow> complexity_class \<Rightarrow> bool" where
  "unsaturated a b =
     (let d = (\<lambda>c. case c of Polynomial d _ \<Rightarrow> unat d | _ \<Rightarrow> 0);
          p = (\<lambda>c. case c of Polynomial _ p \<Rightarrow> unat p | Logarithmic p \<Rightarrow> unat p | _ \<Rightarrow> 0)
      in d a + d b + 1 \<le> 255 \<and> p a + p b \<le> 255)"

fun tame :: "complexity_class \<Rightarrow> bool" where
  "tame (Exponential b) = (1 \<le> unat b \<and> unat b \<le> 20)"
| "tame Factorial = True"
| "tame c = (effective_degree c \<le> 8)"

text \<open>
  The documented dominance chain
  O(1) < O(log n) < O(sqrt n) < O(n) < O(n log n) < O(n^2) < O(n^3) < O(2^n) < O(n!)
  holds in the order the code gives the classes.
\<close>

theorem canonical_chain_increasing:
  "sorted_wrt (<) [constant_class, log_n, sqrt_n, linear, n_log_n, quadratic, cubic,
     Exponential 2, Factorial]"
  by (simp add: less_complexity_class_def constant_class_def log_n_def sqrt_n_def linear_def
      n_log_n_def quadratic_def cubic_def)

text \<open>
  Nesting (\<open>nest_mul\<close>) is a commutative operation with unit O(1), and it is associative on
  the classes without \<open>Sqrt\<close> whose exponential bases are at least 2.
\<close>

theorem nest_mul_monoid:
  assumes "regular_class a" and "regular_class b" and "regular_class c"
  shows "nest_mul (nest_mul a b) c = nest_mul a (nest_mul b c)
    \<and> nest_mul a b = nest_mul b a \<and> nest_mul constant_class a = a"
proof -
  have "nest_mul (nest_mul a b) c = nest_mul a (nest_mul b c)"
    using assms
    by (cases a; cases b; cases c)
      (simp_all add: sat_add8_assoc sat_mul8_assoc max2_sat_mul8 sat_mul8_ge2,
       simp_all add: sat_add8_commute)
  then show ?thesis by (simp add: nest_mul_commute constant_class_def)
qed

theorem nest_mul_monoid_witness:
  "nest_mul (nest_mul n_log_n (Exponential 3)) log_n = nest_mul n_log_n (nest_mul (Exponential 3) log_n)
    \<and> nest_mul n_log_n (Exponential 3) = nest_mul (Exponential 3) n_log_n
    \<and> nest_mul constant_class n_log_n = n_log_n"
  by (rule nest_mul_monoid) (simp_all add: n_log_n_def log_n_def)

text \<open>
  Nesting is not associative once \<open>Sqrt\<close> takes part: the bound the code computes for a
  \<open>sqrt\<close> loop around a logarithmic one around a \<open>sqrt\<close> one depends on the bracketing, so the
  documented closed semiring of classes is not one.
\<close>

theorem nest_mul_sqrt_not_associative:
  "nest_mul (nest_mul sqrt_n sqrt_n) log_n = n_log_n
   \<and> nest_mul sqrt_n (nest_mul sqrt_n log_n) = Polynomial 2 1"
  by (simp add: sqrt_n_def log_n_def linear_def n_log_n_def sat_add8_def)

text \<open>
  On polylogarithmic classes whose counters do not saturate the degree of a nesting is the
  sum of the degrees, up to the half a \<open>Sqrt\<close> loop is rounded up by.
\<close>

theorem nest_mul_degree_bounds:
  assumes "polylog a" and "polylog b" and "unsaturated a b"
  shows "effective_degree a + effective_degree b \<le> effective_degree (nest_mul a b)
    \<and> effective_degree (nest_mul a b) \<le> effective_degree a + effective_degree b + 1/2"
  using assms
  by (cases a; cases b) (auto simp: unat_sat_add8 unat_sat_add8_1 linear_def min_def)

theorem nest_mul_degree_bounds_witness:
  "effective_degree sqrt_n + effective_degree quadratic \<le> effective_degree (nest_mul sqrt_n quadratic)
    \<and> effective_degree (nest_mul sqrt_n quadratic) \<le> effective_degree sqrt_n + effective_degree quadratic + 1/2"
  by (rule nest_mul_degree_bounds) (simp_all add: sqrt_n_def quadratic_def)

text \<open>
  Nesting never lowers a bound: on the range of classes the degree scale is made for (degree
  at most 8, exponential bases 1 to 20), both operands stay below their nesting.
\<close>

theorem nest_mul_dominates:
  assumes "tame a" and "tame b"
  shows "a \<le> nest_mul a b \<and> b \<le> nest_mul a b"
proof -
  have half: "a \<le> nest_mul a b" if "tame a" "tame b" for a b
  proof (cases a; cases b)
    fix b1 b2 assume e: "a = Exponential b1" "b = Exponential b2"
    have "unat b1 \<le> unat b1 * unat b2" using that e by simp
    moreover have "unat b1 \<le> 255" by (rule unat_u8_le)
    ultimately have "unat (max b1 2) \<le> unat (max (sat_mul8 b1 b2) 2)"
      unfolding unat_max unat_sat_mul8 by linarith
    with e show ?thesis by (simp add: less_eq_complexity_class_def)
  qed (use that in \<open>auto simp: less_eq_complexity_class_def unat_max unat_sat_add8
         unat_sat_add8_1 linear_def min_def max_def add_divide_distrib\<close>)
  show ?thesis using half [OF assms] half [OF assms(2,1)] by (simp add: nest_mul_commute)
qed

theorem nest_mul_dominates_witness:
  "cubic \<le> nest_mul cubic (Exponential 2) \<and> Exponential 2 \<le> nest_mul cubic (Exponential 2)"
  by (rule nest_mul_dominates) (simp_all add: cubic_def)

text \<open>
  Outside that range the comparison disagrees with growth: two distinct classes compare equal
  (so \<open>PartialOrd\<close> disagrees with \<open>Eq\<close>), a polynomial ranks above an exponential and an
  exponential above a factorial, and nesting then lowers the bound.
\<close>

theorem degree_order_anomalies:
  "partial_cmp (Logarithmic 2) Sqrt = Some Equal \<and> Logarithmic 2 \<noteq> Sqrt
   \<and> Exponential 2 < polynomial 9 \<and> Factorial < Exponential 21
   \<and> nest_mul (polynomial 9) (Exponential 2) < polynomial 9"
  by (simp add: partial_cmp_def less_complexity_class_def polynomial_def)

end
