(* ===== verification/Watcher.thy ===== *)
theory Watcher
  imports Prelude
begin

text \<open>
  The bounded, latest-wins queue between the file-system watcher and the planner
  (\<open>crates/cognis-owner/src/queue.rs\<close>) and the requests it hands over
  (\<open>PlanRequest\<close> of \<open>crates/cognis-indexer/src/planner.rs\<close>). The mutex makes every operation
  atomic, so a concurrent history is a sequence of offers and takes. Paths are of any linearly
  ordered type, as the queue only compares them; the clock reading of an offer is an argument.
\<close>

subsection \<open>State and operations\<close>

datatype 'p plan_request = Touched "'p list" | Reconcile | Full

datatype observation_kind = Create | Modify | Delete

record 'p observation =
  path :: 'p
  kind :: observation_kind

record 'p watcher_queue =
  entries :: "('p, 'p observation) btree"
  wcap :: nat
  overflowed :: bool
  last_offer_at :: "nat option"

definition new_queue :: "nat \<Rightarrow> 'p::linorder watcher_queue" where
  "new_queue cap = \<lparr>entries = [], wcap = cap, overflowed = False, last_offer_at = None\<rparr>"

definition offer :: "nat \<Rightarrow> 'p::linorder observation \<Rightarrow> 'p watcher_queue \<Rightarrow> 'p watcher_queue" where
  "offer now ob q =
     (let q = q\<lparr>last_offer_at := Some now\<rparr>
      in if overflowed q then q
         else if path ob \<in> set (map fst (entries q))
         then q\<lparr>entries := bt_insert (path ob) ob (entries q)\<rparr>
         else if wcap q = 0 \<or> wcap q \<le> length (entries q)
         then q\<lparr>entries := [], overflowed := True\<rparr>
         else q\<lparr>entries := bt_insert (path ob) ob (entries q)\<rparr>)"

definition depth :: "'p watcher_queue \<Rightarrow> nat" where
  "depth q = (if overflowed q then 1 else length (entries q))"

definition take_request :: "'p watcher_queue \<Rightarrow> 'p plan_request option \<times> 'p watcher_queue" where
  "take_request q =
     (if overflowed q
      then (Some Reconcile, q\<lparr>overflowed := False, entries := [], last_offer_at := None\<rparr>)
      else if entries q = [] then (None, q)
      else (Some (Touched (map fst (entries q))), q\<lparr>entries := [], last_offer_at := None\<rparr>))"

subsection \<open>The interface the planner relies on\<close>

text \<open>
  A change queue takes items and hands out requests; an item's key stays pending from the moment
  it is put until a request that covers it is handed out.
\<close>

fun queue_run :: "('o \<Rightarrow> 's \<Rightarrow> 's) \<Rightarrow> ('s \<Rightarrow> 'r option \<times> 's) \<Rightarrow> 's \<Rightarrow> 'o option list \<Rightarrow> 'r list \<times> 's" where
  "queue_run put get s [] = ([], s)"
| "queue_run put get s (Some ob # es) = queue_run put get (put ob s) es"
| "queue_run put get s (None # es) =
     (case get s of (r, s') \<Rightarrow>
        (case queue_run put get s' es of (rs, t) \<Rightarrow> (case r of None \<Rightarrow> rs | Some q \<Rightarrow> q # rs, t)))"

locale change_queue =
  fixes put :: "'o \<Rightarrow> 's \<Rightarrow> 's" and get :: "'s \<Rightarrow> 'r option \<times> 's"
    and okay :: "'s \<Rightarrow> bool" and key :: "'o \<Rightarrow> 'p"
    and pending :: "'s \<Rightarrow> 'p \<Rightarrow> bool" and covers :: "'r \<Rightarrow> 'p \<Rightarrow> bool"
  assumes put_okay: "okay s \<Longrightarrow> okay (put ob s)"
    and get_okay: "okay s \<Longrightarrow> okay (snd (get s))"
    and put_pending: "okay s \<Longrightarrow> pending (put ob s) (key ob)"
    and put_keeps: "okay s \<Longrightarrow> pending s p \<Longrightarrow> pending (put ob s) p"
    and get_delivers: "okay s \<Longrightarrow> pending s p \<Longrightarrow> \<exists>q. fst (get s) = Some q \<and> covers q p"
    and get_empties: "okay s \<Longrightarrow> \<not> pending (snd (get s)) p"
begin

lemma run_okay: "okay s \<Longrightarrow> okay (snd (queue_run put get s es))"
proof (induction es arbitrary: s)
  case (Cons e es)
  then show ?case
    using get_okay [of s]
    by (cases e) (auto simp: put_okay split: prod.splits, metis snd_conv)
qed simp

lemma pending_delivered:
  "okay s \<Longrightarrow> pending s p \<Longrightarrow> \<exists>q \<in> set (fst (queue_run put get s (es @ [None]))). covers q p"
proof (induction es arbitrary: s)
  case Nil
  then obtain q where "fst (get s) = Some q" "covers q p" using get_delivers by blast
  then show ?case by (cases "get s") auto
next
  case (Cons e es)
  show ?case
  proof (cases e)
    case None
    from Cons.prems obtain q where "fst (get s) = Some q" "covers q p"
      using get_delivers by blast
    with None show ?thesis by (cases "get s") (auto split: prod.splits)
  next
    case (Some ob)
    with Cons show ?thesis by (simp add: put_okay put_keeps)
  qed
qed

lemma put_delivered:
  "okay s \<Longrightarrow> \<exists>q \<in> set (fst (queue_run put get (put ob s) (es @ [None]))). covers q (key ob)"
  by (rule pending_delivered) (simp_all add: put_okay put_pending)

end

subsection \<open>The queue keeps its bound and its keys in order\<close>

definition queue_inv :: "'p::linorder watcher_queue \<Rightarrow> bool" where
  "queue_inv q \<longleftrightarrow> bt_wf (entries q) \<and> length (entries q) \<le> wcap q
     \<and> (overflowed q \<longrightarrow> entries q = []) \<and> (\<forall>e \<in> set (entries q). path (snd e) = fst e)"

definition queue_pending :: "'p watcher_queue \<Rightarrow> 'p \<Rightarrow> bool" where
  "queue_pending q p \<longleftrightarrow> overflowed q \<or> p \<in> fst ` set (entries q)"

fun request_covers :: "'p plan_request \<Rightarrow> 'p \<Rightarrow> bool" where
  "request_covers (Touched ps) p = (p \<in> set ps)"
| "request_covers Reconcile _ = True"
| "request_covers Full _ = True"

lemma set_bt_insert: "set (bt_insert k v m) \<subseteq> insert (k, v) (set m)"
  by (induction k v m rule: bt_insert.induct) auto

lemma queue_inv_new [inv_intros]: "queue_inv (new_queue cap)"
  by (simp add: queue_inv_def new_queue_def)

lemma queue_inv_offer [inv_intros]: "queue_inv q \<Longrightarrow> queue_inv (offer now ob q)"
  using set_bt_insert [of "path ob" ob "entries q"]
  by (auto simp: queue_inv_def offer_def Let_def length_bt_insert intro!: inv_intros split: if_splits)

lemma queue_inv_take [inv_intros]: "queue_inv q \<Longrightarrow> queue_inv (snd (take_request q))"
  by (auto simp: queue_inv_def take_request_def)

lemma wcap_offer [simp]: "wcap (offer now ob q) = wcap q"
  by (simp add: offer_def Let_def)

lemma wcap_take [simp]: "wcap (snd (take_request q)) = wcap q"
  by (simp add: take_request_def)

lemma keys_offer:
  "overflowed (offer now ob q) \<longleftrightarrow>
     overflowed q \<or> path ob \<notin> fst ` set (entries q) \<and> wcap q \<le> length (entries q)"
  "\<not> overflowed (offer now ob q) \<Longrightarrow>
     entries (offer now ob q) = bt_insert (path ob) ob (entries q)"
  by (auto simp: offer_def Let_def split: if_splits)

lemma queue_pending_offer:
  assumes "queue_inv q"
  shows "queue_pending (offer now ob q) p \<longleftrightarrow>
    overflowed (offer now ob q) \<or> p = path ob \<or> queue_pending q p"
proof (cases "overflowed (offer now ob q)")
  case False
  then have "\<not> overflowed q" by (simp add: keys_offer(1))
  with False show ?thesis
    by (simp add: queue_pending_def keys_offer(2) set_keys_bt_insert)
qed (simp add: queue_pending_def)

interpretation wq: change_queue "\<lambda>(now, ob). offer now ob" take_request queue_inv "\<lambda>(now, ob). path ob"
    queue_pending request_covers
proof unfold_locales
  fix s :: "'a watcher_queue" and p :: 'a
  assume "queue_inv s" and "queue_pending s p"
  then show "\<exists>r. fst (take_request s) = Some r \<and> request_covers r p"
    by (auto simp: queue_pending_def take_request_def)
next
  fix s :: "'a watcher_queue" and p :: 'a
  assume "queue_inv s"
  show "\<not> queue_pending (snd (take_request s)) p"
    by (auto simp: queue_pending_def take_request_def)
qed (auto simp: queue_pending_offer inv_intros)

text \<open>The abstraction: the observations since the last take, newest last.\<close>

definition offer_all :: "(nat \<times> 'p::linorder observation) list \<Rightarrow> 'p watcher_queue \<Rightarrow> 'p watcher_queue" where
  "offer_all obs q = fold (\<lambda>(now, ob). offer now ob) obs q"

definition offered_paths :: "(nat \<times> 'p observation) list \<Rightarrow> 'p set" where
  "offered_paths obs = (\<lambda>(now, ob). path ob) ` set obs"

lemma offered_paths_snoc: "offered_paths (obs @ [(now, ob)]) = insert (path ob) (offered_paths obs)"
  by (simp add: offered_paths_def)

lemma finite_offered_paths [simp]: "finite (offered_paths obs)"
  by (simp add: offered_paths_def)

lemma offer_all_snoc: "offer_all (obs @ [(now, ob)]) q = offer now ob (offer_all obs q)"
  by (simp add: offer_all_def)

lemma queue_inv_offer_all [inv_intros]: "queue_inv q \<Longrightarrow> queue_inv (offer_all obs q)"
  by (induction obs rule: rev_induct) (auto simp: offer_all_snoc inv_intros offer_all_def)

lemma wcap_offer_all [simp]: "wcap (offer_all obs q) = wcap q"
  by (induction obs rule: rev_induct) (auto simp: offer_all_snoc, simp add: offer_all_def)

lemma length_keys_card: "bt_wf m \<Longrightarrow> length m = card (fst ` set m)"
  unfolding bt_wf_def
  by (metis distinct_card length_map list.set_map strict_sorted_iff)

lemma offer_all_state:
  fixes cap :: nat and obs :: "(nat \<times> 'p::linorder observation) list"
  defines "q \<equiv> \<lambda>obs :: (nat \<times> 'p observation) list. offer_all obs (new_queue cap)"
  shows "(overflowed (q obs) \<longleftrightarrow> cap < card (offered_paths obs))
    \<and> (\<not> overflowed (q obs) \<longrightarrow> fst ` set (entries (q obs)) = offered_paths obs)"
proof (induction obs rule: rev_induct)
  case Nil
  show ?case by (simp add: q_def offer_all_def new_queue_def offered_paths_def)
next
  case (snoc e obs)
  obtain now ob where e: "e = (now, ob)" by (cases e)
  have step: "q (obs @ [(now, ob)]) = offer now ob (q obs)"
    by (simp add: q_def offer_all_snoc)
  have wf: "queue_inv (q obs)" and cap: "wcap (q obs) = cap"
    by (auto simp: q_def new_queue_def intro: inv_intros queue_inv_new [unfolded new_queue_def])
  then have len: "length (entries (q obs)) = card (fst ` set (entries (q obs)))"
    by (simp add: queue_inv_def length_keys_card)
  show ?case
  proof (cases "overflowed (q obs)")
    case True
    with snoc.IH have "cap < card (offered_paths (obs @ [e]))"
      by (simp add: e offered_paths_snoc card_insert_if)
    with True show ?thesis by (simp add: e step keys_offer(1))
  next
    case False
    with snoc.IH have keys: "fst ` set (entries (q obs)) = offered_paths obs"
      and le: "card (offered_paths obs) \<le> cap" by auto
    with len cap False show ?thesis
      by (auto simp: step keys_offer e offered_paths_snoc set_keys_bt_insert card_insert_if)
  qed
qed

lemma offer_all_last:
  assumes "\<not> overflowed (offer_all (obs @ [(now, ob)]) (new_queue cap))"
  shows "map_of (entries (offer_all (obs @ [(now, ob)]) (new_queue cap))) =
    (map_of (entries (offer_all obs (new_queue cap))))(path ob \<mapsto> ob)"
proof -
  have "queue_inv (offer_all obs (new_queue cap))" by (intro inv_intros)
  with assms show ?thesis
    by (simp add: offer_all_snoc keys_offer(2) map_of_bt_insert queue_inv_def)
qed

text \<open>
  What the planner is handed after any burst of offers on a fresh queue: nothing if there was
  none, one reconcile if more distinct paths than the cap were seen, and otherwise exactly the
  distinct paths in increasing order; the queue is then empty and free to fill again.
\<close>

theorem take_after_offers:
  "take_request (offer_all obs (new_queue cap)) =
    (if obs = [] then None
     else if cap < card (offered_paths obs) then Some Reconcile
     else Some (Touched (sorted_list_of_set (offered_paths obs))),
     new_queue cap)"
proof (cases "obs = []")
  case True
  then show ?thesis by (simp add: offer_all_def new_queue_def take_request_def)
next
  case ne: False
  let ?q = "offer_all obs (new_queue cap)"
  have reset: "?q\<lparr>overflowed := False, entries := [], last_offer_at := None\<rparr> = new_queue cap"
    using wcap_offer_all [of obs "new_queue cap"] by (simp add: new_queue_def)
  show ?thesis
  proof (cases "overflowed ?q")
    case True
    with ne reset offer_all_state [of obs cap] show ?thesis by (simp add: take_request_def)
  next
    case False
    with offer_all_state [of obs cap]
    have keys: "fst ` set (entries ?q) = offered_paths obs" and le: "\<not> cap < card (offered_paths obs)"
      by auto
    have "queue_inv ?q" by (intro inv_intros)
    then have "map fst (entries ?q) = sorted_list_of_set (offered_paths obs)"
      unfolding keys [symmetric] queue_inv_def bt_wf_def
      by (metis list.set_map sorted_list_of_set.idem_if_sorted_distinct strict_sorted_iff)
    moreover have "entries ?q \<noteq> []" using keys ne by (auto simp: offered_paths_def)
    moreover have "?q\<lparr>entries := [], last_offer_at := None\<rparr> = new_queue cap"
      using False wcap_offer_all [of obs "new_queue cap"]
      by (intro watcher_queue.equality) (simp_all add: new_queue_def)
    ultimately show ?thesis using ne le False by (simp add: take_request_def)
  qed
qed

text \<open>
  The queue never holds more entries than its cap, its depth is one while a reconcile is
  pending, and no history of offers and takes breaks that.
\<close>

theorem queue_bound:
  "queue_inv (snd (queue_run (\<lambda>(now, ob). offer now ob) take_request (new_queue cap) es))
   \<and> depth (snd (queue_run (\<lambda>(now, ob). offer now ob) take_request (new_queue cap) es)) \<le> max 1 cap"
proof -
  let ?q = "snd (queue_run (\<lambda>(now, ob). offer now ob) take_request (new_queue cap) es)"
  have cap: "wcap (snd (queue_run (\<lambda>(now, ob). offer now ob) take_request q es)) = wcap q"
    for q :: "'a watcher_queue"
  proof (induction es arbitrary: q)
    case (Cons e es)
    show ?case
    proof (cases e)
      case None
      with Cons.IH [of "snd (take_request q)"] show ?thesis
        by (auto split: prod.splits)
    next
      case (Some a)
      with Cons.IH show ?thesis by (cases a) simp
    qed
  qed simp
  have "queue_inv ?q" by (rule wq.run_okay) (rule queue_inv_new)
  moreover have "wcap ?q = cap" by (simp add: cap new_queue_def)
  ultimately show ?thesis by (auto simp: queue_inv_def depth_def)
qed

text \<open>
  C30: No change is lost: in every history, once an observation was offered, the requests handed
  out up to the next take that follows contain one that covers its path.
\<close>

theorem no_change_lost:
  assumes "queue_inv q"
  shows "\<exists>r \<in> set (fst (queue_run (\<lambda>(now, ob). offer now ob) take_request (offer now ob q) (es @ [None]))).
    request_covers r (path ob)"
  using wq.put_delivered [OF assms, of "(now, ob)" es] by simp

theorem no_change_lost_witness:
  "\<exists>r \<in> set (fst (queue_run (\<lambda>(now, ob). offer now ob) take_request
      (offer 5 \<lparr>path = (7::nat), kind = Modify\<rparr> (new_queue 1)) ([Some (6, \<lparr>path = 8, kind = Delete\<rparr>)] @ [None]))).
    request_covers r (path \<lparr>path = (7::nat), kind = Modify\<rparr>)"
  by (rule no_change_lost) (rule queue_inv_new)

end
