(* ===== verification/Json.thy ===== *)
theory Json
  imports Prelude
begin

text \<open>
  JSON values as \<open>serde_json::Value\<close> presents them to the sources, and the MCP error envelope of
  \<open>crates/cognis-mcp/src/errors.rs\<close>. The workspace builds \<open>serde_json\<close> with insertion-ordered
  objects (its lock file pulls in \<open>indexmap\<close>), so an object is an association list: inserting a
  key that is present replaces its value in place, a new key goes to the end.
\<close>

subsection \<open>Values\<close>

datatype json =
    JNull
  | JBool bool
  | JInt int
  | JFloat f64
  | JStr string
  | JArr "json list"
  | JObj "(string \<times> json) list"

fun obj_insert :: "string \<Rightarrow> json \<Rightarrow> (string \<times> json) list \<Rightarrow> (string \<times> json) list" where
  "obj_insert k v [] = [(k, v)]"
| "obj_insert k v ((k', v') # m) = (if k = k' then (k, v) # m else (k', v') # obj_insert k v m)"

fun jget :: "json \<Rightarrow> string \<Rightarrow> json option" where
  "jget (JObj m) k = map_of m k"
| "jget _ _ = None"

text \<open>\<open>value[key] = v\<close>; it is only used on objects.\<close>

fun jset :: "json \<Rightarrow> string \<Rightarrow> json \<Rightarrow> json" where
  "jset (JObj m) k v = JObj (obj_insert k v m)"
| "jset j _ _ = j"

fun as_str :: "json \<Rightarrow> string option" where
  "as_str (JStr s) = Some s"
| "as_str _ = None"

fun as_i64 :: "json \<Rightarrow> int option" where
  "as_i64 (JInt i) = (if - (2 ^ 63) \<le> i \<and> i < 2 ^ 63 then Some i else None)"
| "as_i64 _ = None"

fun as_u64 :: "json \<Rightarrow> nat option" where
  "as_u64 (JInt i) = (if 0 \<le> i \<and> i < 2 ^ 64 then Some (nat i) else None)"
| "as_u64 _ = None"

fun as_f64 :: "json \<Rightarrow> f64 option" where
  "as_f64 (JInt i) = Some (of_int i)"
| "as_f64 (JFloat x) = Some x"
| "as_f64 _ = None"

fun as_bool :: "json \<Rightarrow> bool option" where
  "as_bool (JBool b) = Some b"
| "as_bool _ = None"

fun as_array :: "json \<Rightarrow> json list option" where
  "as_array (JArr xs) = Some xs"
| "as_array _ = None"

fun is_object :: "json \<Rightarrow> bool" where
  "is_object (JObj _) = True"
| "is_object _ = False"

definition opt_str :: "string option \<Rightarrow> json" where
  "opt_str s = (case s of None \<Rightarrow> JNull | Some t \<Rightarrow> JStr t)"

lemma map_of_obj_insert [simp]: "map_of (obj_insert k v m) = (map_of m)(k \<mapsto> v)"
  by (induction k v m rule: obj_insert.induct) (auto simp: fun_eq_iff)

lemma keys_obj_insert: "fst ` set (obj_insert k v m) = insert k (fst ` set m)"
  by (induction k v m rule: obj_insert.induct) auto

lemma distinct_obj_insert: "distinct (map fst m) \<Longrightarrow> distinct (map fst (obj_insert k v m))"
proof (induction k v m rule: obj_insert.induct)
  case (2 k v k' v' m)
  then show ?case using keys_obj_insert [of k v m] by (auto simp: image_iff)
qed simp

lemma jget_jset: "jget (JObj (obj_insert k v m)) k' = (if k' = k then Some v else jget (JObj m) k')"
  by simp

subsection \<open>Typed tool errors\<close>

definition SYMBOL_NOT_FOUND :: string where "SYMBOL_NOT_FOUND = ''SYMBOL_NOT_FOUND''"
definition INDEX_NOT_READY :: string where "INDEX_NOT_READY = ''INDEX_NOT_READY''"
definition TIMEOUT :: string where "TIMEOUT = ''TIMEOUT''"
definition EMBEDDER_UNAVAILABLE :: string where "EMBEDDER_UNAVAILABLE = ''EMBEDDER_UNAVAILABLE''"
definition INVALID_ARGUMENT :: string where "INVALID_ARGUMENT = ''INVALID_ARGUMENT''"
definition INTERNAL_ERROR :: string where "INTERNAL_ERROR = ''INTERNAL_ERROR''"

definition RETRYABLE_CODES :: "string list" where
  "RETRYABLE_CODES = [TIMEOUT, INDEX_NOT_READY]"

record mcp_error =
  code :: string
  message :: string
  retryable :: "bool option"

definition err_new :: "string \<Rightarrow> string \<Rightarrow> mcp_error" where
  "err_new c m = \<lparr>code = c, message = m, retryable = None\<rparr>"

definition with_retryable :: "string \<Rightarrow> string \<Rightarrow> bool \<Rightarrow> mcp_error" where
  "with_retryable c m r = \<lparr>code = c, message = m, retryable = Some r\<rparr>"

definition invalid_argument :: "string \<Rightarrow> mcp_error" where
  "invalid_argument m = with_retryable INVALID_ARGUMENT m False"

definition timeout :: "string \<Rightarrow> mcp_error" where
  "timeout m = with_retryable TIMEOUT m True"

definition not_found :: "string \<Rightarrow> mcp_error" where
  "not_found m = with_retryable SYMBOL_NOT_FOUND m False"

definition internal :: "string \<Rightarrow> mcp_error" where
  "internal m = with_retryable INTERNAL_ERROR m False"

definition index_not_ready :: "string \<Rightarrow> mcp_error" where
  "index_not_ready m = with_retryable INDEX_NOT_READY m True"

definition is_retryable :: "mcp_error \<Rightarrow> bool" where
  "is_retryable e = (case retryable e of Some r \<Rightarrow> r | None \<Rightarrow> code e \<in> set RETRYABLE_CODES)"

definition error_envelope :: "string \<Rightarrow> string \<Rightarrow> bool \<Rightarrow> json" where
  "error_envelope c m r =
     JObj [(''error'', JObj [(''code'', JStr c), (''message'', JStr m), (''retryable'', JBool r)])]"

definition to_envelope :: "mcp_error \<Rightarrow> json" where
  "to_envelope e = error_envelope (code e) (message e) (is_retryable e)"

definition is_error_envelope :: "json \<Rightarrow> bool" where
  "is_error_envelope v = (case jget v ''error'' of None \<Rightarrow> False | Some e \<Rightarrow> is_object e)"

lemma is_error_to_envelope [simp]: "is_error_envelope (to_envelope e)"
  by (simp add: to_envelope_def error_envelope_def is_error_envelope_def)

lemma is_object_to_envelope [simp]: "is_object (to_envelope e)"
  by (simp add: to_envelope_def error_envelope_def)

lemma err_new_retryable: "is_retryable (err_new c m) \<longleftrightarrow> c = TIMEOUT \<or> c = INDEX_NOT_READY"
  by (auto simp: is_retryable_def err_new_def RETRYABLE_CODES_def)

end
