(* ===== verification/Caps.thy ===== *)
theory Caps
  imports Json
begin

text \<open>
  The hard caps of the MCP server (\<open>crates/cognis-mcp/src/caps.rs\<close>): clamping of what a caller
  asks for, the wall-time deadline of one call, and the concurrency limiter. A duration is a
  number of nanoseconds. The limiter's compare-and-swap loop is a step relation over the threads
  that run it, so that every interleaving is covered.
\<close>

subsection \<open>Caps and clamping\<close>

definition MAX_K :: nat where "MAX_K = 50"
definition MAX_DEPTH :: nat where "MAX_DEPTH = 8"
definition MAX_TOKENS :: nat where "MAX_TOKENS = 32000"
definition MIN_TOKENS :: nat where "MIN_TOKENS = 500"
definition MAX_RESOLVE_IDS :: nat where "MAX_RESOLVE_IDS = 50"
definition DEFAULT_MAX_CONCURRENCY :: nat where "DEFAULT_MAX_CONCURRENCY = 16"
definition secs :: "nat \<Rightarrow> nat" where "secs s = s * 10 ^ 9"
definition DEFAULT_SOFT_TIMEOUT :: nat where "DEFAULT_SOFT_TIMEOUT = secs 5"
definition DEFAULT_HARD_TIMEOUT :: nat where "DEFAULT_HARD_TIMEOUT = secs 10"

definition as_secs_f64 :: "nat \<Rightarrow> f64" where
  "as_secs_f64 ns = real ns / 10 ^ 9"

record caps =
  max_k :: nat
  max_depth :: nat
  max_tokens :: nat
  min_tokens :: nat
  max_resolve_ids :: nat
  max_concurrency :: nat
  soft_timeout :: nat
  hard_timeout :: nat

definition default_caps :: caps where
  "default_caps = \<lparr>max_k = MAX_K, max_depth = MAX_DEPTH, max_tokens = MAX_TOKENS,
     min_tokens = MIN_TOKENS, max_resolve_ids = MAX_RESOLVE_IDS,
     max_concurrency = DEFAULT_MAX_CONCURRENCY,
     soft_timeout = DEFAULT_SOFT_TIMEOUT, hard_timeout = DEFAULT_HARD_TIMEOUT\<rparr>"

text \<open>
  \<open>from_env\<close>: the two timeout variables, already parsed to finite non-negative durations where
  they are set (\<open>env_duration_secs\<close>), override the defaults.
\<close>

definition caps_from_env :: "nat option \<Rightarrow> nat option \<Rightarrow> caps" where
  "caps_from_env soft hard =
     (let c = default_caps;
          c = (case soft of Some s \<Rightarrow> c\<lparr>soft_timeout := s\<rparr> | None \<Rightarrow> c)
      in case hard of Some h \<Rightarrow> c\<lparr>hard_timeout := h\<rparr> | None \<Rightarrow> c)"

text \<open>\<open>Ord::clamp\<close> panics when the bounds are crossed: \<open>None\<close>.\<close>

definition clamp :: "int \<Rightarrow> int \<Rightarrow> int \<Rightarrow> int option" where
  "clamp lo hi x = (if lo \<le> hi then Some (if x < lo then lo else if hi < x then hi else x) else None)"

definition clamp_k :: "caps \<Rightarrow> int \<Rightarrow> nat option" where
  "clamp_k c k = map_option nat (clamp 1 (int (max_k c)) k)"

definition clamp_depth :: "caps \<Rightarrow> int \<Rightarrow> nat option" where
  "clamp_depth c d = map_option nat (clamp 1 (int (max_depth c)) d)"

definition clamp_tokens :: "caps \<Rightarrow> int \<Rightarrow> nat option" where
  "clamp_tokens c t = map_option nat (clamp (int (min_tokens c)) (int (max_tokens c)) t)"

definition check_resolve_ids :: "caps \<Rightarrow> nat \<Rightarrow> mcp_error + unit" where
  "check_resolve_ids c n =
     (if max_resolve_ids c < n
      then Inl (invalid_argument (''symbol_ids exceeds max '' @ show_nat (max_resolve_ids c) @ '' ids''))
      else Inr ())"

subsection \<open>Deadlines\<close>

datatype stage_decision = Continue | Truncate

record deadline =
  start_at :: nat
  soft :: nat
  hard :: nat

definition deadline_start :: "caps \<Rightarrow> nat \<Rightarrow> deadline" where
  "deadline_start c now = \<lparr>start_at = now, soft = soft_timeout c, hard = hard_timeout c\<rparr>"

definition elapsed :: "deadline \<Rightarrow> nat \<Rightarrow> nat" where
  "elapsed d now = now - start_at d"

definition wall_time_message :: "string \<Rightarrow> string \<Rightarrow> nat \<Rightarrow> nat \<Rightarrow> string" where
  "wall_time_message tool which e limit =
     ''Tool '' @ [CHR 0x27] @ tool @ [CHR 0x27] @ '' exceeded '' @ which @ '' wall time (''
     @ fmt_fixed 1 (as_secs_f64 e) @ ''s > '' @ fmt_fixed 1 (as_secs_f64 limit) @ ''s)''"

definition deadline_check :: "deadline \<Rightarrow> string \<Rightarrow> bool \<Rightarrow> nat \<Rightarrow> mcp_error + unit" where
  "deadline_check d tool enforce_soft now =
     (let e = elapsed d now
      in if hard d < e then Inl (timeout (wall_time_message tool ''hard'' e (hard d)))
         else if enforce_soft \<and> soft d < e then Inl (timeout (wall_time_message tool ''soft'' e (soft d)))
         else Inr ())"

subsection \<open>The concurrency limiter\<close>

text \<open>
  A thread in \<open>acquire\<close> has read the counter (\<open>Loaded n\<close>), then either rejects, or swaps
  \<open>n\<close> for \<open>n + 1\<close> if the counter still holds \<open>n\<close>, or (the weak swap may also fail spuriously)
  takes the observed value and goes round. \<open>Holding\<close> threads own a slot; dropping it decrements.
  A cap of zero disables the limit: the call gets a slot that belongs to no limiter (\<open>Uncounted\<close>), and
  neither taking nor dropping it touches the counter.
\<close>

datatype lim_pc = Outside | Loaded nat | Holding | Uncounted | Refused

record limiter =
  in_flight :: nat
  lcap :: nat
  pcs :: "nat \<Rightarrow> lim_pc"

definition limiter_new :: "nat \<Rightarrow> limiter" where
  "limiter_new c = \<lparr>in_flight = 0, lcap = c, pcs = \<lambda>_. Outside\<rparr>"

inductive lim_step :: "limiter \<Rightarrow> limiter \<Rightarrow> bool" where
  unlimited: "pcs s t = Outside \<Longrightarrow> lcap s = 0 \<Longrightarrow>
    lim_step s (s\<lparr>pcs := (pcs s)(t := Uncounted)\<rparr>)"
| drop_uncounted: "pcs s t = Uncounted \<Longrightarrow>
    lim_step s (s\<lparr>pcs := (pcs s)(t := Outside)\<rparr>)"
| load: "pcs s t = Outside \<Longrightarrow> lcap s \<noteq> 0 \<Longrightarrow>
    lim_step s (s\<lparr>pcs := (pcs s)(t := Loaded (in_flight s))\<rparr>)"
| refuse: "pcs s t = Loaded n \<Longrightarrow> lcap s \<le> n \<Longrightarrow>
    lim_step s (s\<lparr>pcs := (pcs s)(t := Refused)\<rparr>)"
| swap: "pcs s t = Loaded n \<Longrightarrow> n < lcap s \<Longrightarrow> in_flight s = n \<Longrightarrow>
    lim_step s (s\<lparr>in_flight := n + 1, pcs := (pcs s)(t := Holding)\<rparr>)"
| retry: "pcs s t = Loaded n \<Longrightarrow> n < lcap s \<Longrightarrow>
    lim_step s (s\<lparr>pcs := (pcs s)(t := Loaded (in_flight s))\<rparr>)"
| drop_slot: "pcs s t = Holding \<Longrightarrow>
    lim_step s (s\<lparr>in_flight := in_flight s - 1, pcs := (pcs s)(t := Outside)\<rparr>)"
| give_up: "pcs s t = Refused \<Longrightarrow>
    lim_step s (s\<lparr>pcs := (pcs s)(t := Outside)\<rparr>)"

inductive_cases lim_stepE: "lim_step s t"

inductive lim_reachable :: "nat \<Rightarrow> limiter \<Rightarrow> bool" for c :: nat where
  start: "lim_reachable c (limiter_new c)"
| step: "lim_reachable c s \<Longrightarrow> lim_step s t \<Longrightarrow> lim_reachable c t"

text \<open>What a call that meets no contention sees: one read and one successful swap.\<close>

definition at_capacity_message :: "nat \<Rightarrow> string \<Rightarrow> string" where
  "at_capacity_message c tool =
     ''Cognis MCP server is at capacity ('' @ show_nat c @ '' concurrent calls); tool ''
     @ [CHR 0x27] @ tool @ [CHR 0x27] @ '' was not admitted. Retry shortly.''"

definition acquire :: "nat \<Rightarrow> nat \<Rightarrow> string \<Rightarrow> mcp_error + nat" where
  "acquire c n tool =
     (if c = 0 then Inr n
      else if c \<le> n then Inl (timeout (at_capacity_message c tool))
      else Inr (n + 1))"

subsection \<open>Lemmas\<close>

definition holders :: "limiter \<Rightarrow> nat set" where
  "holders s = {t. pcs s t = Holding}"

text \<open>The calls that have been let in and have not returned their slot.\<close>

definition admitted_calls :: "limiter \<Rightarrow> nat set" where
  "admitted_calls s = {t. pcs s t = Holding \<or> pcs s t = Uncounted}"

definition lim_inv :: "nat \<Rightarrow> limiter \<Rightarrow> bool" where
  "lim_inv c s \<longleftrightarrow> lcap s = c \<and> finite (holders s) \<and> in_flight s = card (holders s)
     \<and> in_flight s \<le> c \<and> (c \<noteq> 0 \<longrightarrow> (\<forall>t. pcs s t \<noteq> Uncounted))
     \<and> (c = 0 \<longrightarrow> (\<forall>t. pcs s t = Outside \<or> pcs s t = Uncounted))"

lemma holders_upd: "holders (s\<lparr>pcs := (pcs s)(t := p)\<rparr>) =
    (if p = Holding then insert t (holders s) else holders s - {t})"
  by (auto simp: holders_def)

lemma holders_upd2: "holders (s\<lparr>in_flight := n, pcs := (pcs s)(t := p)\<rparr>) =
    (if p = Holding then insert t (holders s) else holders s - {t})"
  by (auto simp: holders_def)

lemma lim_inv_Loaded: "lim_inv c s \<Longrightarrow> pcs s t = Loaded n \<Longrightarrow> 0 < c"
  by (cases "c = 0") (auto simp: lim_inv_def dest: spec [of _ t])

lemma lim_inv_step: "lim_step s t \<Longrightarrow> lim_inv c s \<Longrightarrow> lim_inv c t"
proof (induction rule: lim_step.induct)
  case (swap s t n)
  then have "t \<notin> holders s" by (simp add: holders_def)
  with swap show ?case by (simp add: lim_inv_def holders_upd2)
next
  case (drop_slot s t)
  then have "t \<in> holders s" by (simp add: holders_def)
  with drop_slot show ?case
    using card_Diff_singleton [of t "holders s"] diff_le_self [of "card (holders s)" 1]
    by (auto simp: lim_inv_def holders_upd2 intro: order_trans)
next
  case (refuse s t n)
  then have "0 < c" by (intro lim_inv_Loaded)
  with refuse show ?case by (auto simp: lim_inv_def holders_upd) (auto simp: holders_def)
next
  case (retry s t n)
  then have "0 < c" by (intro lim_inv_Loaded)
  with retry show ?case by (auto simp: lim_inv_def holders_upd) (auto simp: holders_def)
qed (auto simp: lim_inv_def holders_upd, auto simp: holders_def)

lemma lim_inv_reachable: "lim_reachable c s \<Longrightarrow> lim_inv c s"
proof (induction rule: lim_reachable.induct)
  case start
  show ?case by (simp add: lim_inv_def limiter_new_def holders_def)
next
  case (step s t)
  then show ?case by (blast intro: lim_inv_step)
qed

lemma clamp_Some: "lo \<le> hi \<Longrightarrow> \<exists>y. clamp lo hi x = Some y \<and> lo \<le> y \<and> y \<le> hi \<and> (lo \<le> x \<and> x \<le> hi \<longrightarrow> y = x)"
  by (auto simp: clamp_def)

text \<open>
  With the default caps every request size is served inside its documented bound and no
  clamp panics: k in 1..50, depth in 1..8, tokens in 500..32000, and a value already in range is
  unchanged.
\<close>

theorem default_clamps_bounded:
  "(\<exists>y. clamp_k default_caps k = Some y \<and> 1 \<le> y \<and> y \<le> 50 \<and> (k \<in> {1..50} \<longrightarrow> int y = k))
   \<and> (\<exists>y. clamp_depth default_caps k = Some y \<and> 1 \<le> y \<and> y \<le> 8 \<and> (k \<in> {1..8} \<longrightarrow> int y = k))
   \<and> (\<exists>y. clamp_tokens default_caps k = Some y \<and> 500 \<le> y \<and> y \<le> 32000 \<and> (k \<in> {500..32000} \<longrightarrow> int y = k))"
  by (auto simp: clamp_k_def clamp_depth_def clamp_tokens_def clamp_def default_caps_def
      MAX_K_def MAX_DEPTH_def MAX_TOKENS_def MIN_TOKENS_def)

theorem default_clamps_bounded_witness:
  "clamp_k default_caps 1000000 = Some 50 \<and> (\<exists>y. clamp_k default_caps 7 = Some y \<and> int y = 7)"
  using default_clamps_bounded [of 7]
  by (auto simp: clamp_k_def clamp_def default_caps_def MAX_K_def)

text \<open>
  C23: In every interleaving of the compare-and-swap loop the counter is the number of calls that have
  been let in and not returned their slot, and that number never exceeds the cap. A cap of zero disables
  the limit: the counter stays at zero, whoever has been let in, and no call is ever refused.
\<close>

theorem limiter_never_over_cap:
  assumes "lim_reachable c s"
  shows "if c = 0 then in_flight s = 0 \<and> (\<forall>t. pcs s t = Outside \<or> t \<in> admitted_calls s)
    else finite (admitted_calls s) \<and> in_flight s = card (admitted_calls s) \<and> card (admitted_calls s) \<le> c"
proof -
  have inv: "lim_inv c s" by (rule lim_inv_reachable [OF assms])
  then have "c \<noteq> 0 \<Longrightarrow> admitted_calls s = holders s" by (auto simp: lim_inv_def admitted_calls_def holders_def)
  with inv show ?thesis by (auto simp: lim_inv_def admitted_calls_def)
qed

definition one_slot_held :: limiter where
  "one_slot_held = (limiter_new 1)\<lparr>in_flight := 1, pcs := (((\<lambda>_. Outside)(0 := Loaded 0))(1 := Loaded 0))(0 := Holding)\<rparr>"

lemma limiter_two_threads: "lim_reachable 1 one_slot_held"
proof -
  let ?s0 = "limiter_new 1"
  let ?s1 = "?s0\<lparr>pcs := (pcs ?s0)(0 := Loaded (in_flight ?s0))\<rparr>"
  let ?s2 = "?s1\<lparr>pcs := (pcs ?s1)(1 := Loaded (in_flight ?s1))\<rparr>"
  let ?s3 = "?s2\<lparr>in_flight := 0 + 1, pcs := (pcs ?s2)(0 := Holding)\<rparr>"
  have "lim_reachable 1 ?s1"
    by (rule lim_reachable.step [OF lim_reachable.start lim_step.load]) (simp_all add: limiter_new_def)
  then have "lim_reachable 1 ?s2"
    by (rule lim_reachable.step [OF _ lim_step.load]) (simp_all add: limiter_new_def)
  then have "lim_reachable 1 ?s3"
    by (rule lim_reachable.step [OF _ lim_step.swap]) (simp_all add: limiter_new_def)
  then show ?thesis by (simp add: limiter_new_def one_slot_held_def)
qed

theorem limiter_never_over_cap_witness:
  "finite (admitted_calls one_slot_held) \<and> in_flight one_slot_held = card (admitted_calls one_slot_held)
   \<and> card (admitted_calls one_slot_held) \<le> 1"
  using limiter_never_over_cap [OF limiter_two_threads] by simp

text \<open>With a cap of zero two calls are let in while the counter is zero.\<close>

lemma unlimited_two_threads:
  "lim_reachable 0 ((limiter_new 0)\<lparr>pcs := ((\<lambda>_. Outside)(0 := Uncounted))(1 := Uncounted)\<rparr>)"
proof -
  let ?s1 = "(limiter_new 0)\<lparr>pcs := (pcs (limiter_new 0))(0 := Uncounted)\<rparr>"
  have "lim_reachable 0 ?s1"
    by (rule lim_reachable.step [OF lim_reachable.start lim_step.unlimited]) (simp_all add: limiter_new_def)
  then have "lim_reachable 0 (?s1\<lparr>pcs := (pcs ?s1)(1 := Uncounted)\<rparr>)"
    by (rule lim_reachable.step [OF _ lim_step.unlimited]) (simp_all add: limiter_new_def)
  then show ?thesis by (simp add: limiter_new_def)
qed

text \<open>
  A read of the counter that finds the cap reached is a read of a state in which all slots
  are held, and an uncontended \<open>acquire\<close> is two steps of the loop: it admits below the cap and
  fails with a retryable timeout at it.
\<close>

theorem acquire_refines_loop:
  assumes "lim_reachable c s" and "c \<noteq> 0" and "pcs s t = Outside"
  shows "case acquire c (in_flight s) tool of
      Inl e \<Rightarrow> is_retryable e \<and> card {t. pcs s t = Holding} = c
        \<and> lim_step\<^sup>*\<^sup>* s (s\<lparr>pcs := (pcs s)(t := Refused)\<rparr>)
    | Inr n \<Rightarrow> lim_step\<^sup>*\<^sup>* s (s\<lparr>in_flight := n, pcs := (pcs s)(t := Holding)\<rparr>)"
proof -
  have inv: "lcap s = c" "in_flight s = card {t. pcs s t = Holding}" "in_flight s \<le> c"
    using lim_inv_reachable [OF assms(1)] by (simp_all add: lim_inv_def holders_def)
  let ?s1 = "s\<lparr>pcs := (pcs s)(t := Loaded (in_flight s))\<rparr>"
  have load: "lim_step s ?s1" using lim_step.load [OF assms(3)] inv assms(2) by simp
  show ?thesis
  proof (cases "c \<le> in_flight s")
    case True
    then have "lim_step ?s1 (?s1\<lparr>pcs := (pcs ?s1)(t := Refused)\<rparr>)"
      using inv True by (intro lim_step.refuse [where n = "in_flight s"]) auto
    then have "lim_step ?s1 (s\<lparr>pcs := (pcs s)(t := Refused)\<rparr>)" by simp
    with load have "lim_step\<^sup>*\<^sup>* s (s\<lparr>pcs := (pcs s)(t := Refused)\<rparr>)"
      by (meson converse_rtranclp_into_rtranclp r_into_rtranclp)
    moreover have "acquire c (in_flight s) tool = Inl (timeout (at_capacity_message c tool))"
      using True assms(2) by (simp add: acquire_def)
    moreover have "card {t. pcs s t = Holding} = c" using True inv by linarith
    ultimately show ?thesis
      by (simp add: timeout_def with_retryable_def is_retryable_def)
  next
    case False
    then have "lim_step ?s1 (?s1\<lparr>in_flight := in_flight s + 1, pcs := (pcs ?s1)(t := Holding)\<rparr>)"
      using inv False by (intro lim_step.swap [where n = "in_flight s"]) auto
    then have "lim_step ?s1 (s\<lparr>in_flight := in_flight s + 1, pcs := (pcs s)(t := Holding)\<rparr>)"
      by simp
    with load have "lim_step\<^sup>*\<^sup>* s (s\<lparr>in_flight := in_flight s + 1, pcs := (pcs s)(t := Holding)\<rparr>)"
      by (meson converse_rtranclp_into_rtranclp r_into_rtranclp)
    with False assms(2) show ?thesis by (simp add: acquire_def)
  qed
qed

theorem acquire_refines_loop_witness:
  "case acquire 2 (in_flight (limiter_new 2)) ''x'' of
      Inl e \<Rightarrow> is_retryable e \<and> card {t. pcs (limiter_new 2) t = Holding} = 2
        \<and> lim_step\<^sup>*\<^sup>* (limiter_new 2) ((limiter_new 2)\<lparr>pcs := (pcs (limiter_new 2))(0 := Refused)\<rparr>)
    | Inr n \<Rightarrow> lim_step\<^sup>*\<^sup>* (limiter_new 2) ((limiter_new 2)\<lparr>in_flight := n, pcs := (pcs (limiter_new 2))(0 := Holding)\<rparr>)"
  by (rule acquire_refines_loop [OF lim_reachable.start]) (simp_all add: limiter_new_def)

end
