(* ===== verification/Models.thy ===== *)
theory Models
  imports Json
begin

text \<open>
  The data model of \<open>crates/cognis-core\<close>: engine errors (\<open>error.rs\<close>), symbols, edges and their
  validation (\<open>models.rs\<close>), retrieval hits (\<open>hit.rs\<close>), and the command and tool lists of the
  extension contract (\<open>contract.rs\<close>).
\<close>

subsection \<open>Errors\<close>

datatype cognis_error =
    StoreError string
  | RetrievalError string
  | ConfigError string
  | ModelError string
  | EvalError string

fun show_error :: "cognis_error \<Rightarrow> string" where
  "show_error (StoreError m) = ''store error: '' @ m"
| "show_error (RetrievalError m) = ''retrieval error: '' @ m"
| "show_error (ConfigError m) = ''config error: '' @ m"
| "show_error (ModelError m) = ''model error: '' @ m"
| "show_error (EvalError m) = ''eval error: '' @ m"

subsection \<open>Symbols and edges\<close>

datatype symbol_kind = Function | Class | Method | Interface | Route | Module | Var | Const

fun kind_json :: "symbol_kind \<Rightarrow> string" where
  "kind_json Function = ''function''"
| "kind_json Class = ''class''"
| "kind_json Method = ''method''"
| "kind_json Interface = ''interface''"
| "kind_json Route = ''route''"
| "kind_json Module = ''module''"
| "kind_json Var = ''var''"
| "kind_json Const = ''const''"

datatype edge_kind = Calls | Imports | Inherits | Implements | Reads | Writes | RoutesTo | Tests

datatype parse_status = POk | PPartial | PFailed

record symbol =
  sid :: string
  skind :: symbol_kind
  sname :: string
  qualified_name :: string
  language :: string
  smodule :: string
  file_path :: string
  line_start :: nat
  line_end :: nat
  signature :: "string option"
  docstring :: "string option"
  content_hash :: string
  body_excerpt :: "string option"
  semantic_summary :: "string option"
  risk_score :: f64
  ambiguous :: bool
  untrusted_flags :: "string list"
  updated_at :: int

definition symbol_validate :: "symbol \<Rightarrow> cognis_error + unit" where
  "symbol_validate s =
     (if sid s = [] then Inl (ModelError ''symbol id must be non-empty'')
      else if line_start s < 1 \<or> line_end s < 1 then Inl (ModelError ''line numbers are 1-based'')
      else if line_end s < line_start s
      then Inl (ModelError (''line_end ('' @ show_nat (line_end s) @ '') must be >= line_start (''
             @ show_nat (line_start s) @ '')''))
      else if \<not> (0 \<le> risk_score s \<and> risk_score s \<le> 1)
      then Inl (ModelError ''risk_score must be in [0,1]'')
      else Inr ())"

record edge =
  src_id :: string
  dst_id :: string
  ekind :: edge_kind
  confidence :: f64
  meta :: json

definition edge_validate :: "edge \<Rightarrow> cognis_error + unit" where
  "edge_validate e =
     (if src_id e = [] \<or> dst_id e = [] then Inl (ModelError ''edge endpoints must be non-empty'')
      else if \<not> (0 \<le> confidence e \<and> confidence e \<le> 1)
      then Inl (ModelError ''confidence must be in [0,1]'')
      else Inr ())"

definition dst_missing :: "edge \<Rightarrow> bool" where
  "dst_missing e =
     (case Option.bind (jget (meta e) ''dst_missing'') as_bool of None \<Rightarrow> False | Some b \<Rightarrow> b)"

subsection \<open>Hits\<close>

record hit =
  symbol_id :: string
  score :: f64
  layer :: string
  reason :: string
  evidence :: json

definition hit_new :: "string \<Rightarrow> f64 \<Rightarrow> string \<Rightarrow> string \<Rightarrow> hit" where
  "hit_new i s l r = \<lparr>symbol_id = i, score = s, layer = l, reason = r, evidence = JObj []\<rparr>"

definition with_evidence :: "hit \<Rightarrow> json \<Rightarrow> hit" where
  "with_evidence h e = h\<lparr>evidence := e\<rparr>"

lemma hit_new_simps [simp]:
  "symbol_id (hit_new i s l r) = i" "score (hit_new i s l r) = s" "layer (hit_new i s l r) = l"
  by (simp_all add: hit_new_def)

lemma with_evidence_simps [simp]:
  "symbol_id (with_evidence h e) = symbol_id h" "score (with_evidence h e) = score h"
  "layer (with_evidence h e) = layer h" "evidence (with_evidence h e) = e"
  by (simp_all add: with_evidence_def)

subsection \<open>The extension contract\<close>

definition CONTRACT_VERSION :: nat where "CONTRACT_VERSION = 1"

definition CLI_COMMANDS :: "string list" where
  "CLI_COMMANDS = [''init'', ''bootstrap'', ''health'', ''paths'', ''doctor'', ''mcp-config'',
     ''index'', ''handshake'', ''digest'']"

definition MCP_TOOLS :: "string list" where
  "MCP_TOOLS = [''diffuse_context'', ''symbol_lookup'', ''symbol_search'', ''discover_symbols'',
     ''semantic_search'', ''resolve_symbols'', ''dependency_trace'', ''retrieve_context_capsule'',
     ''analyze_patch_impact'', ''inspect_symbol_complexity'', ''trace_blast_radius'',
     ''suggest_optimal_refactor'']"

record capabilities =
  semantic_backend :: bool
  accelerated_vector_search :: bool

definition capabilities_unavailable :: capabilities where
  "capabilities_unavailable = \<lparr>semantic_backend = False, accelerated_vector_search = False\<rparr>"

record handshake_payload =
  contract_version :: nat
  engine_version :: string
  cli_commands :: "string list"
  mcp_tools :: "string list"
  hcapabilities :: capabilities

text \<open>The engine version is the package version the build supplies.\<close>

definition handshake_payload_with_capabilities :: "string \<Rightarrow> capabilities \<Rightarrow> handshake_payload" where
  "handshake_payload_with_capabilities version c =
     \<lparr>contract_version = CONTRACT_VERSION, engine_version = version, cli_commands = CLI_COMMANDS,
      mcp_tools = MCP_TOOLS, hcapabilities = c\<rparr>"

lemma symbol_validate_ok:
  "symbol_validate s = Inr () \<longleftrightarrow>
     sid s \<noteq> [] \<and> 1 \<le> line_start s \<and> line_start s \<le> line_end s \<and> 0 \<le> risk_score s \<and> risk_score s \<le> 1"
  by (auto simp: symbol_validate_def)

end
