(* ===== verification/Mcp_Server.thy ===== *)
theory Mcp_Server
  imports Caps Models
begin

text \<open>
  The dispatcher of the MCP server (\<open>crates/cognis-mcp/src/server.rs\<close>) and the JSON-RPC messages
  it exchanges (\<open>jsonrpc.rs\<close>). A tool call carries a context: its pinned generation, its deadline,
  and the two flags its stages set. What a stage gate observes of the outside world, the clock
  and the cancellation flag, is the context's environment \<open>world\<close>: the \<open>n\<close>-th gate of the call
  reads \<open>world n\<close>. The retrieval tools themselves are in the theory of the tools; the dispatcher
  takes them as its argument.
\<close>

subsection \<open>The context of one call\<close>

record tool_ctx =
  pinned :: int
  semantic_generation :: int
  pending_vector_count :: int
  cdeadline :: deadline
  ccaps :: caps
  semantic_included :: bool
  truncated :: bool
  simulated_elapsed :: nat
  gates :: nat
  world :: "nat \<Rightarrow> nat \<times> bool"

type_synonym 'a tool = "tool_ctx \<Rightarrow> (mcp_error + 'a) \<times> tool_ctx"

definition note_semantic_included :: "tool_ctx \<Rightarrow> tool_ctx" where
  "note_semantic_included ctx = ctx\<lparr>semantic_included := True\<rparr>"

definition add_elapsed :: "nat \<Rightarrow> tool_ctx \<Rightarrow> tool_ctx" where
  "add_elapsed extra ctx = ctx\<lparr>simulated_elapsed := simulated_elapsed ctx + extra\<rparr>"

definition observed_elapsed :: "tool_ctx \<Rightarrow> nat \<Rightarrow> nat" where
  "observed_elapsed ctx now = elapsed (cdeadline ctx) now + simulated_elapsed ctx"

definition stage_gate :: "string \<Rightarrow> stage_decision tool" where
  "stage_gate tool ctx =
     (case world ctx (gates ctx) of (now, cancelled) \<Rightarrow>
        let ctx = ctx\<lparr>gates := gates ctx + 1\<rparr>; e = observed_elapsed ctx now in
        if cancelled
        then (Inl (timeout (''Tool '' @ [CHR 0x27] @ tool @ [CHR 0x27] @ '' was cancelled before completion'')), ctx)
        else if hard (cdeadline ctx) \<le> e
        then (Inl (timeout (wall_time_message tool ''hard'' e (hard (cdeadline ctx)))), ctx)
        else if soft (cdeadline ctx) \<le> e
        then (Inr Truncate, ctx\<lparr>truncated := True\<rparr>)
        else (Inr Continue, ctx))"

text \<open>How handlers chain their stages (the \<open>?\<close> operator): the first error ends the call.\<close>

definition ret :: "'a \<Rightarrow> 'a tool" where
  "ret x ctx = (Inr x, ctx)"

definition fail :: "mcp_error \<Rightarrow> 'a tool" where
  "fail e ctx = (Inl e, ctx)"

definition tbind :: "'a tool \<Rightarrow> ('a \<Rightarrow> 'b tool) \<Rightarrow> 'b tool" where
  "tbind m k ctx = (case m ctx of (Inl e, ctx') \<Rightarrow> (Inl e, ctx') | (Inr x, ctx') \<Rightarrow> k x ctx')"

definition continue_stage :: "string \<Rightarrow> bool tool" where
  "continue_stage tool = tbind (stage_gate tool) (\<lambda>d. ret (d = Continue))"

subsection \<open>JSON-RPC messages\<close>

definition PARSE_ERROR :: int where "PARSE_ERROR = - 32700"
definition INVALID_REQUEST :: int where "INVALID_REQUEST = - 32600"
definition METHOD_NOT_FOUND :: int where "METHOD_NOT_FOUND = - 32601"
definition INVALID_PARAMS :: int where "INVALID_PARAMS = - 32602"

record request =
  req_jsonrpc :: string
  req_id :: "json option"
  req_method :: string
  req_params :: "json option"

definition is_notification :: "request \<Rightarrow> bool" where
  "is_notification r = (req_id r = None)"

record rpc_error =
  rpc_code :: int
  rpc_message :: string
  rpc_data :: "json option"

definition rpc_error_new :: "int \<Rightarrow> string \<Rightarrow> rpc_error" where
  "rpc_error_new c m = \<lparr>rpc_code = c, rpc_message = m, rpc_data = None\<rparr>"

record response =
  resp_jsonrpc :: string
  resp_id :: json
  resp_result :: "json option"
  resp_error :: "rpc_error option"

definition response_success :: "json \<Rightarrow> json \<Rightarrow> response" where
  "response_success i r = \<lparr>resp_jsonrpc = ''2.0'', resp_id = i, resp_result = Some r, resp_error = None\<rparr>"

definition response_error :: "json \<Rightarrow> rpc_error \<Rightarrow> response" where
  "response_error i e = \<lparr>resp_jsonrpc = ''2.0'', resp_id = i, resp_result = None, resp_error = Some e\<rparr>"

text \<open>
  Newline-delimited framing over the lines of the input: each is what \<open>read_line\<close> gives for it, an error
  (bytes that are not UTF-8 among them) or the line, and \<open>None\<close> is the end of input; blank lines are
  skipped. The JSON parser and the request deserialiser of \<open>serde_json\<close> are parameters.
\<close>

definition parse_message ::
    "(string \<Rightarrow> string + json) \<Rightarrow> (json \<Rightarrow> string + request) \<Rightarrow> string \<Rightarrow> rpc_error + request" where
  "parse_message from_str from_value line =
     (case from_str line of
        Inr v \<Rightarrow> (case from_value v of
            Inr r \<Rightarrow> Inr r
          | Inl e \<Rightarrow> Inl (rpc_error_new INVALID_REQUEST (''invalid Request object: '' @ e)))
      | Inl e \<Rightarrow> Inl (rpc_error_new PARSE_ERROR (''parse error: '' @ e)))"

fun read_message :: "(string \<Rightarrow> string + json) \<Rightarrow> (json \<Rightarrow> string + request) \<Rightarrow> (string + string) list
    \<Rightarrow> (string + (rpc_error + request) option) \<times> (string + string) list" where
  "read_message from_str from_value [] = (Inr None, [])"
| "read_message from_str from_value (Inl e # rest) = (Inl e, rest)"
| "read_message from_str from_value (Inr line # rest) =
     (if trim line = [] then read_message from_str from_value rest
      else (Inr (Some (parse_message from_str from_value (trim line))), rest))"

subsection \<open>Shaping a tool's result\<close>

record freshness =
  f_source_generation :: int
  f_semantic_generation :: int
  f_pending_vector_count :: int
  f_semantic_available :: bool

definition freshness_from_ctx :: "tool_ctx \<Rightarrow> freshness" where
  "freshness_from_ctx ctx = \<lparr>f_source_generation = pinned ctx,
     f_semantic_generation = semantic_generation ctx,
     f_pending_vector_count = pending_vector_count ctx,
     f_semantic_available = semantic_included ctx\<rparr>"

definition freshness_attach :: "freshness \<Rightarrow> json \<Rightarrow> json" where
  "freshness_attach f s =
     jset (jset (jset (jset s ''source_generation'' (JInt (f_source_generation f)))
       ''semantic_generation'' (JInt (f_semantic_generation f)))
       ''pending_vector_count'' (JInt (f_pending_vector_count f)))
       ''semantic_available'' (JBool (f_semantic_available f))"

definition structured_result :: "json \<Rightarrow> freshness option \<Rightarrow> bool \<Rightarrow> json" where
  "structured_result payload fr trunc =
     (let s = (if is_object payload then payload else JObj [(''result'', payload)]);
          s = (case fr of None \<Rightarrow> s | Some f \<Rightarrow> freshness_attach f s)
      in if trunc \<and> \<not> is_error_envelope payload then jset s ''truncated'' (JBool True) else s)"

text \<open>\<open>to_text\<close> is the serialiser \<open>Value::to_string\<close>.\<close>

definition wrap_tool_result :: "(json \<Rightarrow> string) \<Rightarrow> json \<Rightarrow> freshness option \<Rightarrow> bool \<Rightarrow> json" where
  "wrap_tool_result to_text payload fr trunc =
     (let s = structured_result payload fr trunc
      in JObj [(''content'', JArr [JObj [(''type'', JStr ''text''), (''text'', JStr (to_text s))]]),
               (''structuredContent'', s),
               (''isError'', JBool (is_error_envelope payload))])"

subsection \<open>Dispatch\<close>

text \<open>
  A call is routed to the handler of its name, or fails as an invalid argument when the name is
  none of the twelve tools. A handler's error becomes the envelope the client reads.
\<close>

type_synonym tool_handlers = "string \<Rightarrow> json \<Rightarrow> json tool"

definition dispatch_tool :: "tool_handlers \<Rightarrow> string \<Rightarrow> json \<Rightarrow> tool_ctx \<Rightarrow> json \<times> tool_ctx" where
  "dispatch_tool tools name args ctx =
     (let r = (if name \<in> set [''symbol_search'', ''semantic_search'', ''discover_symbols'',
                 ''diffuse_context'', ''symbol_lookup'', ''dependency_trace'', ''resolve_symbols'',
                 ''retrieve_context_capsule'', ''analyze_patch_impact'', ''inspect_symbol_complexity'',
                 ''trace_blast_radius'', ''suggest_optimal_refactor'']
               then tools name args ctx
               else fail (invalid_argument (''unknown tool '' @ [CHR 0x27] @ name @ [CHR 0x27])) ctx)
      in case r of (Inr v, ctx') \<Rightarrow> (v, ctx') | (Inl e, ctx') \<Rightarrow> (to_envelope e, ctx'))"

record server =
  scaps :: caps
  slots_cap :: nat
  slots_used :: nat
  audit :: "(string \<times> json \<times> bool) list"

text \<open>
  What one call sees of the engine: the required indexes that are missing, and the snapshot it
  pins (its source and semantic generations and pending vectors), either of which can fail.
\<close>

record engine_view =
  missing_required_indexes :: "string + string list"
  open_snapshot :: "string + int \<times> int \<times> int"

definition ctx_new :: "caps \<Rightarrow> int \<times> int \<times> int \<Rightarrow> deadline \<Rightarrow> (nat \<Rightarrow> nat \<times> bool) \<Rightarrow> tool_ctx" where
  "ctx_new c snap d w = (case snap of (src, sem, pend) \<Rightarrow>
     \<lparr>pinned = src, semantic_generation = sem, pending_vector_count = pend, cdeadline = d, ccaps = c,
      semantic_included = False, truncated = False, simulated_elapsed = 0, gates = 0, world = w\<rparr>)"

definition call_payload :: "tool_handlers \<Rightarrow> engine_view \<Rightarrow> server \<Rightarrow> nat \<Rightarrow> (nat \<Rightarrow> nat \<times> bool)
    \<Rightarrow> string \<Rightarrow> json \<Rightarrow> json \<times> freshness option \<times> bool" where
  "call_payload tools eng srv now w name args =
     (case acquire (slots_cap srv) (slots_used srv) name of
        Inl e \<Rightarrow> (to_envelope e, None, False)
      | Inr _ \<Rightarrow>
         (case missing_required_indexes eng of
            Inr [] \<Rightarrow>
             (case open_snapshot eng of
                Inr snap \<Rightarrow>
                 (let ctx = ctx_new (scaps srv) snap (deadline_start (scaps srv) now) w
                  in case dispatch_tool tools name args ctx of (payload, ctx') \<Rightarrow>
                       (payload, Some (freshness_from_ctx ctx'), truncated ctx'))
              | Inl e \<Rightarrow> (to_envelope (internal (''failed to pin generation snapshot: '' @ e)), None, False))
          | Inr missing \<Rightarrow>
             (to_envelope (with_retryable INDEX_NOT_READY
                (''missing required index: '' @ join '', '' missing) False), None, False)
          | Inl e \<Rightarrow> (to_envelope (internal (''failed to verify required indexes: '' @ e)), None, False)))"

text \<open>The slot is released when the call ends, so \<open>slots_used\<close> is the same after it.\<close>

definition tools_call :: "(json \<Rightarrow> string) \<Rightarrow> tool_handlers \<Rightarrow> engine_view \<Rightarrow> nat \<Rightarrow> (nat \<Rightarrow> nat \<times> bool)
    \<Rightarrow> json \<Rightarrow> json option \<Rightarrow> server \<Rightarrow> response \<times> server" where
  "tools_call to_text tools eng now w i params srv =
     (let params = (case params of None \<Rightarrow> JNull | Some p \<Rightarrow> p) in
      case Option.bind (jget params ''name'') as_str of
        None \<Rightarrow> (response_error i (rpc_error_new INVALID_PARAMS
                  (''tools/call requires a '' @ [CHR 0x27] @ ''name'' @ [CHR 0x27])), srv)
      | Some name \<Rightarrow>
          let args = (case jget params ''arguments'' of None \<Rightarrow> JObj [] | Some a \<Rightarrow> a) in
          case call_payload tools eng srv now w name args of (payload, fr, trunc) \<Rightarrow>
            (response_success i (wrap_tool_result to_text payload fr trunc),
             srv\<lparr>audit := audit srv @ [(name, args, \<not> is_error_envelope payload)]\<rparr>))"

subsection \<open>What the server advertises\<close>

definition initialize_result :: "string \<Rightarrow> json" where
  "initialize_result version = JObj
     [(''protocolVersion'', JStr ''2024-11-05''),
      (''capabilities'', JObj [(''tools'', JObj []), (''resources'', JObj [])]),
      (''serverInfo'', JObj [(''name'', JStr ''cognis-mcpd''), (''version'', JStr version)]),
      (''contractVersion'', JInt (int CONTRACT_VERSION))]"

definition resources_list_result :: json where
  "resources_list_result = JObj [(''resources'', JArr [JObj
     [(''uri'', JStr ''cognis://live/guardrails''),
      (''name'', JStr ''Live Algorithmic Complexity & Impact Guardrails''),
      (''description'', JStr ''Real-time workspace complexity hotspots, optimization advisories, and blast radius summary.''),
      (''mimeType'', JStr ''application/json'')]])]"

definition tool_description :: "string \<Rightarrow> string" where
  "tool_description name =
     (if name = ''diffuse_context'' then ''Flagship CSAR diffusion: ranked on-path context with on_path/ppr_score.''
      else if name = ''symbol_lookup'' then ''Resolve one symbol by id, qualified name, or fuzzy name.''
      else if name = ''symbol_search'' then ''Lexical FTS5 search over the code knowledge graph.''
      else if name = ''discover_symbols'' then ''Hybrid lexical + semantic discovery, RRF-fused.''
      else if name = ''semantic_search'' then ''Semantic vector KNN search over symbol embeddings.''
      else if name = ''resolve_symbols'' then ''Batch-hydrate symbol ids into full records.''
      else if name = ''dependency_trace'' then ''Trace caller/callee dependencies over the call graph.''
      else if name = ''retrieve_context_capsule'' then ''Compose a token-budgeted Context Capsule for a task.''
      else if name = ''analyze_patch_impact'' then ''Real-time guardrail (<15ms): evaluate unsaved buffers/diffs or modified files for inter-procedural Big-O complexity, CSIA blast radius, contract breakages, and optimal refactorings.''
      else if name = ''inspect_symbol_complexity'' then ''Audit intra- and inter-procedural time/space complexity (Big-O), recursion SCCs, I/O-in-loop bottlenecks, and blame chains.''
      else if name = ''trace_blast_radius'' then ''CSIA reverse forward-push impact analysis: quantify blast radius, loop-amplified complexity regressions, affected entrypoints, and minimal test suite.''
      else if name = ''suggest_optimal_refactor'' then ''Prescribe concrete algorithmic and data-structure optimizations (HashMap indexing, batch queries, loop hoisting, memoization) grounded in existing repository symbols.''
      else ''cognis MCP tool.'')"

definition schema :: "(string \<times> json) list \<Rightarrow> string list \<Rightarrow> json" where
  "schema properties required =
     JObj ([(''type'', JStr ''object''), (''properties'', JObj properties)]
       @ (if required = [] then [] else [(''required'', JArr (map JStr required))]))"

definition typed :: "string \<Rightarrow> json" where
  "typed t = JObj [(''type'', JStr t)]"

definition array_of :: "json \<Rightarrow> json" where
  "array_of items = JObj [(''type'', JStr ''array''), (''items'', items)]"

definition tool_input_schema :: "string \<Rightarrow> json" where
  "tool_input_schema name =
     (if name = ''symbol_lookup''
      then schema [(''name_or_id'', typed ''string''), (''kind'', typed ''string'')] [''name_or_id'']
      else if name = ''resolve_symbols''
      then schema [(''symbol_ids'', array_of (typed ''string''))] [''symbol_ids'']
      else if name = ''dependency_trace''
      then schema [(''symbol_id'', typed ''string''),
                   (''direction'', JObj [(''type'', JStr ''string''),
                      (''enum'', JArr [JStr ''out'', JStr ''in'', JStr ''both''])]),
                   (''depth'', typed ''integer'')] [''symbol_id'']
      else if name = ''retrieve_context_capsule''
      then schema [(''task'', typed ''string''), (''max_tokens'', typed ''integer'')] [''task'']
      else if name = ''analyze_patch_impact''
      then schema [(''file_path'', typed ''string''), (''new_content'', typed ''string''),
                   (''proposed_content'', typed ''string''),
                   (''file_edits'', array_of (schema [(''file_path'', typed ''string''),
                      (''new_content'', typed ''string'')] [''file_path'', ''new_content''])),
                   (''targets'', array_of (typed ''string''))] []
      else if name = ''inspect_symbol_complexity''
      then schema [(''name_or_id'', typed ''string''), (''symbol_ids'', array_of (typed ''string'')),
                   (''k'', typed ''integer'')] []
      else if name = ''trace_blast_radius''
      then schema [(''symbol_id'', typed ''string''), (''signature_changed'', typed ''boolean''),
                   (''new_complexity'', typed ''string'')] [''symbol_id'']
      else if name = ''suggest_optimal_refactor''
      then schema [(''target'', typed ''string''), (''code_snippet'', typed ''string''),
                   (''file_path'', typed ''string'')] []
      else schema [(''query'', typed ''string''), (''k'', typed ''integer'')] [''query''])"

definition tools_list_result :: json where
  "tools_list_result = JObj [(''tools'', JArr (map (\<lambda>name. JObj
     [(''name'', JStr name), (''description'', JStr (tool_description name)),
      (''inputSchema'', tool_input_schema name)]) MCP_TOOLS))]"

text \<open>
  The live resource runs the guardrail tool without taking a concurrency slot and without an
  audit entry.
\<close>

definition resources_read :: "(json \<Rightarrow> string) \<Rightarrow> tool_handlers \<Rightarrow> engine_view \<Rightarrow> nat
    \<Rightarrow> (nat \<Rightarrow> nat \<times> bool) \<Rightarrow> json \<Rightarrow> json option \<Rightarrow> server \<Rightarrow> response" where
  "resources_read to_text tools eng now w i params srv =
     (let uri = (case Option.bind (Option.bind params (\<lambda>p. jget p ''uri'')) as_str of
            Some u \<Rightarrow> u | None \<Rightarrow> ''cognis://live/guardrails'');
          text = (case open_snapshot eng of
            Inr snap \<Rightarrow> to_text (fst (dispatch_tool tools ''analyze_patch_impact'' (JObj [])
                (ctx_new (scaps srv) snap (deadline_start (scaps srv) now) w)))
          | Inl e \<Rightarrow> to_text (JObj [(''error'', JStr e)]))
      in response_success i (JObj [(''contents'', JArr [JObj
           [(''uri'', JStr uri), (''mimeType'', JStr ''application/json''), (''text'', JStr text)]])]))"

definition handle_request ::
    "string \<Rightarrow> (json \<Rightarrow> string) \<Rightarrow> tool_handlers \<Rightarrow> engine_view \<Rightarrow> nat \<Rightarrow> (nat \<Rightarrow> nat \<times> bool)
     \<Rightarrow> request \<Rightarrow> server \<Rightarrow> response option \<times> server" where
  "handle_request version to_text tools eng now w req srv =
     (case req_id req of
        None \<Rightarrow> (None, srv)
      | Some i \<Rightarrow>
         (if req_method req = ''initialize'' then (Some (response_success i (initialize_result version)), srv)
          else if req_method req = ''ping'' then (Some (response_success i (JObj [])), srv)
          else if req_method req = ''tools/list'' then (Some (response_success i tools_list_result), srv)
          else if req_method req = ''tools/call''
          then (case tools_call to_text tools eng now w i (req_params req) srv of (r, srv') \<Rightarrow> (Some r, srv'))
          else if req_method req = ''resources/list'' then (Some (response_success i resources_list_result), srv)
          else if req_method req = ''resources/read''
          then (Some (resources_read to_text tools eng now w i (req_params req) srv), srv)
          else (Some (response_error i (rpc_error_new METHOD_NOT_FOUND
                  (''unknown method '' @ [CHR 0x27] @ req_method req @ [CHR 0x27]))), srv)))"

text \<open>
  The handler a request comes to, with its arguments: none for a notification, for another method, for a call
  that is refused before its snapshot is pinned, and for a name that is no tool.
\<close>

definition handler_of :: "engine_view \<Rightarrow> nat \<Rightarrow> nat \<Rightarrow> request \<Rightarrow> (string \<times> json) option" where
  "handler_of eng slots used req =
     (if req_id req = None \<or> (case open_snapshot eng of Inl _ \<Rightarrow> True | Inr _ \<Rightarrow> False) then None
      else if req_method req = ''resources/read'' then Some (''analyze_patch_impact'', JObj [])
      else if req_method req \<noteq> ''tools/call'' \<or> (slots \<noteq> 0 \<and> slots \<le> used) \<or> missing_required_indexes eng \<noteq> Inr [] then None
      else (let params = (case req_params req of None \<Rightarrow> JNull | Some p \<Rightarrow> p) in
            case Option.bind (jget params ''name'') as_str of
              None \<Rightarrow> None
            | Some name \<Rightarrow> (if name \<in> set MCP_TOOLS
                then Some (name, case jget params ''arguments'' of None \<Rightarrow> JObj [] | Some a \<Rightarrow> a) else None)))"

text \<open>
  What the \<open>n\<close>-th message of a session meets: the engine, the time, what its gates observe, the calls whose
  handler panics (\<open>tools.rs:564\<close> cuts a text inside a character, for instance), and whether writing its
  answer fails. A session ends with its input, at the first read or write that fails, or with the panic of a handler,
  which unwinds the loop and loses the answer.
\<close>

record moment =
  mo_engine :: engine_view
  mo_now :: nat
  mo_gates :: "nat \<Rightarrow> nat \<times> bool"
  mo_panics :: "string \<Rightarrow> json \<Rightarrow> bool"
  mo_write :: "string option"

datatype session_end = Closed | Read_Error string | Write_Error string | Panicked

definition panics :: "moment \<Rightarrow> nat \<Rightarrow> nat \<Rightarrow> request \<Rightarrow> bool" where
  "panics m slots used req =
     (case handler_of (mo_engine m) slots used req of None \<Rightarrow> False | Some (name, args) \<Rightarrow> mo_panics m name args)"

lemma read_message_shorter: "read_message fs fv input = (Inr (Some msg), rest) \<Longrightarrow> length rest < length input"
  by (induction fs fv input rule: read_message.induct) (auto split: if_splits)

text \<open>What the loop makes of one message: an answer or none, or \<open>None\<close> when its handler panics.\<close>

definition answer_message :: "string \<Rightarrow> (json \<Rightarrow> string) \<Rightarrow> tool_handlers \<Rightarrow> moment \<Rightarrow> rpc_error + request \<Rightarrow> server
    \<Rightarrow> (response option \<times> server) option" where
  "answer_message version to_text tools m msg srv =
     (case msg of
        Inr req \<Rightarrow> (if panics m (slots_cap srv) (slots_used srv) req then None
          else Some (handle_request version to_text tools (mo_engine m) (mo_now m) (mo_gates m) req srv))
      | Inl rpc \<Rightarrow> Some (Some (response_error JNull rpc), srv))"

text \<open>
  \<open>serve\<close>: one message after another; a line that does not parse is answered with an error under the null
  id. The result is the answers that were written, in order, and how the session ended.
\<close>

function serve :: "string \<Rightarrow> (json \<Rightarrow> string) \<Rightarrow> (string \<Rightarrow> string + json) \<Rightarrow> (json \<Rightarrow> string + request)
    \<Rightarrow> tool_handlers \<Rightarrow> (nat \<Rightarrow> moment) \<Rightarrow> nat \<Rightarrow> (string + string) list \<Rightarrow> server
    \<Rightarrow> response list \<times> session_end \<times> server" where
  "serve version to_text from_str from_value tools moments n input srv =
     (case read_message from_str from_value input of
        (Inl e, _) \<Rightarrow> ([], Read_Error e, srv)
      | (Inr None, _) \<Rightarrow> ([], Closed, srv)
      | (Inr (Some msg), rest) \<Rightarrow>
          (case answer_message version to_text tools (moments n) msg srv of
             None \<Rightarrow> ([], Panicked, srv)
           | Some (None, srv') \<Rightarrow> serve version to_text from_str from_value tools moments (Suc n) rest srv'
           | Some (Some x, srv') \<Rightarrow>
               (case mo_write (moments n) of
                  Some e \<Rightarrow> ([], Write_Error e, srv')
                | None \<Rightarrow> (case serve version to_text from_str from_value tools moments (Suc n) rest srv' of
                    (rs, en, srv'') \<Rightarrow> (x # rs, en, srv'')))))"
  by pat_completeness auto
termination
  by (relation "measure (\<lambda>(_, _, _, _, _, _, _, input, _). length input)") (auto intro: read_message_shorter [OF sym])

declare serve.simps [simp del]

subsection \<open>Lemmas\<close>

lemma tbind_assoc: "tbind (tbind m f) g = tbind m (\<lambda>x. tbind (f x) g)"
  by (rule ext) (simp add: tbind_def split: prod.splits sum.splits)

lemma ret_tbind [simp]: "tbind (ret x) f = f x"
  by (rule ext) (simp add: tbind_def ret_def)

lemma fail_tbind [simp]: "tbind (fail e) f = fail e"
  by (rule ext) (simp add: tbind_def fail_def)

lemma response_success_simps [simp]:
  "resp_id (response_success i r) = i" "resp_result (response_success i r) = Some r"
  "resp_error (response_success i r) = None" "resp_jsonrpc (response_success i r) = ''2.0''"
  by (simp_all add: response_success_def)

lemma response_error_simps [simp]:
  "resp_id (response_error i e) = i" "resp_result (response_error i e) = None"
  "resp_error (response_error i e) = Some e" "resp_jsonrpc (response_error i e) = ''2.0''"
  by (simp_all add: response_error_def)

text \<open>An answer carries the request's id, the protocol marker, and a result or an error, not both.\<close>

definition answers :: "json \<Rightarrow> response \<Rightarrow> bool" where
  "answers i r \<longleftrightarrow> resp_id r = i \<and> resp_jsonrpc r = ''2.0'' \<and> (resp_result r = None \<longleftrightarrow> resp_error r \<noteq> None)"

lemma answers_success [simp]: "answers i (response_success i r)"
  by (simp add: answers_def)

lemma answers_error [simp]: "answers i (response_error i e)"
  by (simp add: answers_def)

lemma tools_call_answers: "answers i (fst (tools_call to_text tools eng now w i params srv))"
  by (simp add: tools_call_def Let_def split: option.splits prod.splits)

lemma handle_request_answers:
  assumes "req_id req = Some i"
  shows "\<exists>r. fst (handle_request version to_text tools eng now w req srv) = Some r \<and> answers i r"
  using assms tools_call_answers [of i to_text tools eng now w "req_params req" srv]
  by (auto simp: handle_request_def resources_read_def Let_def split: prod.splits)

lemma is_object_jset [simp]: "is_object (jset s k v) = is_object s"
  by (cases s) auto

lemma jget_jset_is_object: "is_object s \<Longrightarrow> jget (jset s k v) k' = (if k' = k then Some v else jget s k')"
  by (cases s) auto

definition metadata_keys :: "string list" where
  "metadata_keys = [''source_generation'', ''semantic_generation'', ''pending_vector_count'',
     ''semantic_available'', ''truncated'']"

lemma structured_keeps:
  assumes "k \<notin> set metadata_keys"
  shows "jget (structured_result payload fr trunc) k =
    jget (if is_object payload then payload else JObj [(''result'', payload)]) k"
  using assms
  by (cases fr) (simp_all add: structured_result_def Let_def freshness_attach_def jget_jset_is_object
      metadata_keys_def)

text \<open>The messages of an input up to the first read that fails, and the ids they are owed an answer under, in order.\<close>

fun received :: "(string \<Rightarrow> string + json) \<Rightarrow> (json \<Rightarrow> string + request) \<Rightarrow> (string + string) list
    \<Rightarrow> (rpc_error + request) list \<times> string option" where
  "received from_str from_value [] = ([], None)"
| "received from_str from_value (Inl e # _) = ([], Some e)"
| "received from_str from_value (Inr line # rest) =
     (case received from_str from_value rest of (msgs, e) \<Rightarrow>
        (if trim line = [] then msgs else parse_message from_str from_value (trim line) # msgs, e))"

fun owed_id :: "rpc_error + request \<Rightarrow> json option" where
  "owed_id (Inl _) = Some JNull"
| "owed_id (Inr req) = req_id req"

abbreviation owed_ids :: "(rpc_error + request) list \<Rightarrow> json list" where
  "owed_ids msgs \<equiv> List.map_filter owed_id msgs"

lemma read_message_received:
  "case read_message fs fv input of
     (Inl e, _) \<Rightarrow> received fs fv input = ([], Some e)
   | (Inr None, _) \<Rightarrow> received fs fv input = ([], None)
   | (Inr (Some msg), rest) \<Rightarrow> received fs fv input = (msg # fst (received fs fv rest), snd (received fs fv rest))"
  by (induction fs fv input rule: read_message.induct) (auto split: prod.splits sum.splits option.splits)

lemma handle_request_slots:
  "slots_cap (snd (handle_request version to_text tools eng now w req srv)) = slots_cap srv"
  "slots_used (snd (handle_request version to_text tools eng now w req srv)) = slots_used srv"
  by (auto simp: handle_request_def tools_call_def Let_def split: option.splits prod.splits)

text \<open>The handler named by \<open>handler_of\<close> is the only one a request runs.\<close>

lemma handler_of_only:
  assumes "\<And>name args. handler_of eng (slots_cap srv) (slots_used srv) req = Some (name, args) \<Longrightarrow> tools name args = tools' name args"
  shows "handle_request version to_text tools eng now w req srv = handle_request version to_text tools' eng now w req srv"
proof -
  have listed: "name \<in> set [''symbol_search'', ''semantic_search'', ''discover_symbols'', ''diffuse_context'', ''symbol_lookup'',
      ''dependency_trace'', ''resolve_symbols'', ''retrieve_context_capsule'', ''analyze_patch_impact'', ''inspect_symbol_complexity'',
      ''trace_blast_radius'', ''suggest_optimal_refactor''] \<longleftrightarrow> name \<in> set MCP_TOOLS" for name
    unfolding MCP_TOOLS_def list.set insert_iff empty_iff by argo
  have read: "resources_read to_text tools eng now w i ps srv = resources_read to_text tools' eng now w i ps srv"
    if "req_id req = Some i" "req_method req = ''resources/read''" for i ps
    using assms [of "''analyze_patch_impact''" "JObj []"] that
    by (cases "open_snapshot eng") (simp_all add: resources_read_def handler_of_def dispatch_tool_def)
  have call: "call_payload tools eng srv now w name args = call_payload tools' eng srv now w name args"
    if "req_id req = Some i" "req_method req = ''tools/call''"
      "Option.bind (jget (case req_params req of None \<Rightarrow> JNull | Some p \<Rightarrow> p) ''name'') as_str = Some name"
      "args = (case jget (case req_params req of None \<Rightarrow> JNull | Some p \<Rightarrow> p) ''arguments'' of None \<Rightarrow> JObj [] | Some a \<Rightarrow> a)"
    for i name args
  proof (cases "slots_cap srv \<noteq> 0 \<and> slots_cap srv \<le> slots_used srv \<or> missing_required_indexes eng \<noteq> Inr [] \<or> (case open_snapshot eng of Inl _ \<Rightarrow> True | Inr _ \<Rightarrow> False)")
    case True
    then show ?thesis by (auto simp: call_payload_def acquire_def split: sum.splits list.splits)
  next
    case False
    then have "name \<in> set MCP_TOOLS \<Longrightarrow> tools name args = tools' name args"
      using assms [of name args] that by (auto simp: handler_of_def Let_def)
    then have "dispatch_tool tools name args ctx = dispatch_tool tools' name args ctx" for ctx
      unfolding dispatch_tool_def listed by (cases "name \<in> set MCP_TOOLS") simp_all
    then have same: "dispatch_tool tools name args = dispatch_tool tools' name args" by (rule ext)
    show ?thesis unfolding call_payload_def same ..
  qed
  show ?thesis
    using read call by (auto simp: handle_request_def tools_call_def Let_def split: option.split)
qed

lemma answer_message_panics:
  "answer_message version to_text tools m msg srv = None \<Longrightarrow> \<exists>req. msg = Inr req \<and> panics m (slots_cap srv) (slots_used srv) req"
  by (auto simp: answer_message_def split: sum.splits if_splits)

lemma answer_message_slots:
  "answer_message version to_text tools m msg srv = Some (y, srv') \<Longrightarrow> slots_cap srv' = slots_cap srv \<and> slots_used srv' = slots_used srv"
  using handle_request_slots by (auto simp: answer_message_def split: sum.splits if_splits, metis snd_conv, metis snd_conv)

lemma answer_message_answers:
  assumes "answer_message version to_text tools m msg srv = Some (y, srv')"
  shows "list_all2 answers (owed_ids [msg]) (case y of None \<Rightarrow> [] | Some x \<Rightarrow> [x])"
proof (cases msg)
  case (Inl rpc)
  then show ?thesis using assms by (auto simp: answer_message_def List.map_filter_simps)
next
  case (Inr req)
  then have h: "handle_request version to_text tools (mo_engine m) (mo_now m) (mo_gates m) req srv = (y, srv')"
    using assms by (simp add: answer_message_def split: if_splits)
  show ?thesis
  proof (cases "req_id req")
    case None
    then show ?thesis using h Inr by (auto simp: handle_request_def List.map_filter_simps)
  next
    case (Some i)
    from handle_request_answers [OF this] obtain x where "y = Some x" "answers i x" using h by (metis fst_conv)
    then show ?thesis using Inr Some by (simp add: List.map_filter_simps)
  qed
qed

text \<open>
  How a session that met the messages \<open>msgs\<close> before its input ended or failed stands when it ended as \<open>en\<close>
  with the answers \<open>rs\<close>.
\<close>

definition session_ok :: "(nat \<Rightarrow> moment) \<Rightarrow> nat \<Rightarrow> nat \<Rightarrow> nat \<Rightarrow> (rpc_error + request) list \<times> string option
    \<Rightarrow> response list \<Rightarrow> session_end \<Rightarrow> bool" where
  "session_ok moments n slots used input rs en \<longleftrightarrow>
     (case input of (msgs, failed) \<Rightarrow>
       \<exists>k \<le> length msgs. list_all2 answers (owed_ids (take k msgs)) rs
         \<and> (case en of
              Closed \<Rightarrow> k = length msgs \<and> failed = None
            | Read_Error e \<Rightarrow> k = length msgs \<and> failed = Some e
            | Write_Error e \<Rightarrow> k < length msgs \<and> owed_id (msgs ! k) \<noteq> None \<and> mo_write (moments (n + k)) = Some e
            | Panicked \<Rightarrow> k < length msgs \<and> (\<exists>req. msgs ! k = Inr req \<and> panics (moments (n + k)) slots used req)))"

lemma session_ok_cons:
  assumes "session_ok moments (Suc n) slots used (msgs, failed) rs en" "list_all2 answers (owed_ids [msg]) rs'"
  shows "session_ok moments n slots used (msg # msgs, failed) (rs' @ rs) en"
proof -
  from assms(1) obtain k where k: "k \<le> length msgs" "list_all2 answers (owed_ids (take k msgs)) rs"
    "case en of Closed \<Rightarrow> k = length msgs \<and> failed = None | Read_Error e \<Rightarrow> k = length msgs \<and> failed = Some e
      | Write_Error e \<Rightarrow> k < length msgs \<and> owed_id (msgs ! k) \<noteq> None \<and> mo_write (moments (Suc n + k)) = Some e
      | Panicked \<Rightarrow> k < length msgs \<and> (\<exists>req. msgs ! k = Inr req \<and> panics (moments (Suc n + k)) slots used req)"
    unfolding session_ok_def by auto
  have "owed_ids (take (Suc k) (msg # msgs)) = owed_ids [msg] @ owed_ids (take k msgs)"
    by (simp add: List.map_filter_simps split: option.split)
  then have "list_all2 answers (owed_ids (take (Suc k) (msg # msgs))) (rs' @ rs)"
    using assms(2) k(2) by (simp only: list_all2_appendI)
  with k(1,3) show ?thesis unfolding session_ok_def by (simp, intro exI [of _ "Suc k"]) (simp split: session_end.splits)
qed

text \<open>
  C26: A session answers what it reads, in order: of the first \<open>k\<close> messages each request that carries an id
  has exactly one answer written, under that id, with a result or an error and not both, each line that does not
  parse one under the null id, and a notification none. The session ends with its input, and then \<open>k\<close> is every
  message; at a line that cannot be read (one that is not UTF-8 ends the session unanswered, whatever follows it),
  and then \<open>k\<close> is every message before it; at an answer that cannot be written; or at a request whose
  handler panics, which is left unanswered. Nothing else ends it.
\<close>

theorem serve_answers_each_request:
  "case received from_str from_value input of (msgs, failed) \<Rightarrow>
     case serve version to_text from_str from_value tools moments n input srv of (rs, en, _) \<Rightarrow>
       \<exists>k \<le> length msgs. list_all2 answers (owed_ids (take k msgs)) rs
         \<and> (case en of
              Closed \<Rightarrow> k = length msgs \<and> failed = None
            | Read_Error e \<Rightarrow> k = length msgs \<and> failed = Some e
            | Write_Error e \<Rightarrow> k < length msgs \<and> owed_id (msgs ! k) \<noteq> None \<and> mo_write (moments (n + k)) = Some e
            | Panicked \<Rightarrow> k < length msgs
                \<and> (\<exists>req. msgs ! k = Inr req \<and> panics (moments (n + k)) (slots_cap srv) (slots_used srv) req))"
proof -
  let ?serve = "serve version to_text from_str from_value tools moments"
  have "session_ok moments n (slots_cap srv) (slots_used srv) (received from_str from_value input)
      (fst (?serve n input srv)) (fst (snd (?serve n input srv)))"
  proof (induction input arbitrary: n srv rule: length_induct)
    case (1 input)
    obtain res rest where r: "read_message from_str from_value input = (res, rest)" by fastforce
    note rec = read_message_received [of from_str from_value input, unfolded r]
    consider e where "res = Inl e" | "res = Inr None" | msg where "res = Inr (Some msg)" by (metis sumE option.exhaust)
    then show ?case
    proof cases
      case (3 msg)
      let ?out = "answer_message version to_text tools (moments n) msg srv"
      obtain msgs failed where more: "received from_str from_value rest = (msgs, failed)" by fastforce
      have all: "received from_str from_value input = (msg # msgs, failed)" using rec 3 more by simp
      show ?thesis
      proof (cases ?out)
        case None
        with answer_message_panics [OF None] all r 3 show ?thesis
          by (simp add: serve.simps session_ok_def exI [of _ 0])
      next
        case (Some out)
        obtain y srv' where o: "?out = Some (y, srv')" using Some by (cases out) simp
        have "session_ok moments (Suc n) (slots_cap srv) (slots_used srv) (msgs, failed)
            (fst (?serve (Suc n) rest srv')) (fst (snd (?serve (Suc n) rest srv')))"
          using 1 [rule_format, OF read_message_shorter [OF r [unfolded 3]], of "Suc n" srv'] more answer_message_slots [OF o] by simp
        note later = session_ok_cons [OF this answer_message_answers [OF o]]
        consider "y = None" | x where "y = Some x" "mo_write (moments n) = None"
          | x e where "y = Some x" "mo_write (moments n) = Some e" by (metis option.exhaust)
        then show ?thesis
        proof cases
          case (3 x e)
          then have "owed_id msg \<noteq> None" using answer_message_answers [OF o]
            by (cases "owed_id msg") (auto simp: List.map_filter_simps)
          then show ?thesis using 3 r all o \<open>res = Inr (Some msg)\<close> by (simp add: serve.simps session_ok_def exI [of _ 0])
        qed (use later r all o 3 in \<open>simp_all add: serve.simps case_prod_beta\<close>)
      qed
    qed (use rec r in \<open>simp_all add: serve.simps session_ok_def\<close>)
  qed
  then show ?thesis unfolding session_ok_def case_prod_beta .
qed

text \<open>
  A tool call never turns into a protocol error: once it names a tool the response is a
  success, \<open>isError\<close> tells whether the payload is an error envelope, the structured content keeps
  every key of an object payload (the envelope included) beside the freshness keys, and the audit
  log gains exactly one entry with the same verdict.
\<close>

theorem tools_call_result:
  assumes "jget params ''name'' = Some (JStr name)"
    and "jget params ''arguments'' = Some args"
    and "call_payload tools eng srv now w name args = (payload, fr, trunc)"
    and "tools_call to_text tools eng now w i (Some params) srv = (r, srv')"
  shows "\<exists>s. resp_result r = Some (JObj [(''content'', JArr [JObj [(''type'', JStr ''text''), (''text'', JStr (to_text s))]]),
        (''structuredContent'', s), (''isError'', JBool (is_error_envelope payload))])
      \<and> (\<forall>k. is_object payload \<and> k \<notin> set metadata_keys \<longrightarrow> jget s k = jget payload k)
      \<and> is_error_envelope s = is_error_envelope payload
      \<and> srv' = srv\<lparr>audit := audit srv @ [(name, args, \<not> is_error_envelope payload)]\<rparr>"
proof -
  let ?s = "structured_result payload fr trunc"
  have r: "resp_result r = Some (wrap_tool_result to_text payload fr trunc)"
    and srv': "srv' = srv\<lparr>audit := audit srv @ [(name, args, \<not> is_error_envelope payload)]\<rparr>"
    using assms by (auto simp: tools_call_def Let_def)
  have "jget ?s ''error'' = jget (if is_object payload then payload else JObj [(''result'', payload)]) ''error''"
    by (rule structured_keeps) (simp add: metadata_keys_def)
  then have "is_error_envelope ?s = is_error_envelope payload"
    by (cases payload) (simp_all add: is_error_envelope_def)
  with r srv' structured_keeps [of _ payload fr trunc] show ?thesis
    by (intro exI [of _ ?s]) (simp add: wrap_tool_result_def Let_def)
qed

definition sample_server :: "nat \<Rightarrow> server" where
  "sample_server used = \<lparr>scaps = default_caps, slots_cap = 16, slots_used = used, audit = []\<rparr>"

definition sample_engine :: engine_view where
  "sample_engine = \<lparr>missing_required_indexes = Inr [], open_snapshot = Inr (7, 6, 1)\<rparr>"

lemma sample_payload:
  "call_payload (\<lambda>_ _. ret (JArr [])) sample_engine (sample_server 0) 0 (\<lambda>_. (0, False)) ''symbol_search'' JNull
    = (JArr [], Some \<lparr>f_source_generation = 7, f_semantic_generation = 6, f_pending_vector_count = 1,
         f_semantic_available = False\<rparr>, False)"
  by (simp add: call_payload_def sample_engine_def sample_server_def acquire_def dispatch_tool_def
      ret_def ctx_new_def freshness_from_ctx_def)

theorem tools_call_result_witness:
  "\<exists>s. resp_result (fst (tools_call (\<lambda>_. []) (\<lambda>_ _. ret (JArr [])) sample_engine 0 (\<lambda>_. (0, False)) (JInt 1)
        (Some (JObj [(''name'', JStr ''symbol_search''), (''arguments'', JNull)])) (sample_server 0)))
      = Some (JObj [(''content'', JArr [JObj [(''type'', JStr ''text''), (''text'', JStr [])]]),
        (''structuredContent'', s), (''isError'', JBool False)])"
proof -
  let ?p = "JObj [(''name'', JStr ''symbol_search''), (''arguments'', JNull)]"
  have n: "jget ?p ''name'' = Some (JStr ''symbol_search'')" and a: "jget ?p ''arguments'' = Some JNull"
    by simp_all
  from tools_call_result [OF n a sample_payload surjective_pairing, of "\<lambda>_. []" "JInt 1"]
  show ?thesis by (simp add: is_error_envelope_def) blast
qed

text \<open>
  The between-stage gate: cancellation wins, then the hard limit (both a retryable timeout),
  then the soft limit, which truncates and marks the call truncated; otherwise the stage may run
  and nothing but the gate counter changes.
\<close>

theorem stage_gate_decides:
  "stage_gate tool ctx =
    (let now = fst (world ctx (gates ctx)); cancelled = snd (world ctx (gates ctx));
         e = observed_elapsed ctx now; ctx1 = ctx\<lparr>gates := gates ctx + 1\<rparr>
     in if cancelled \<or> hard (cdeadline ctx) \<le> e
     then (Inl (timeout (if cancelled
        then ''Tool '' @ [CHR 0x27] @ tool @ [CHR 0x27] @ '' was cancelled before completion''
        else wall_time_message tool ''hard'' e (hard (cdeadline ctx)))), ctx1)
     else if soft (cdeadline ctx) \<le> e then (Inr Truncate, ctx1\<lparr>truncated := True\<rparr>)
     else (Inr Continue, ctx1))"
  by (simp add: stage_gate_def observed_elapsed_def Let_def split: prod.splits)

text \<open>
  At capacity nothing runs: the payload is a retryable timeout envelope, no snapshot is
  pinned and no freshness is reported, whatever the tool and the engine would have done.
\<close>

theorem call_refused_at_capacity:
  assumes "0 < slots_cap srv" and "slots_cap srv \<le> slots_used srv"
  shows "call_payload tools eng srv now w name args =
    (error_envelope TIMEOUT (at_capacity_message (slots_cap srv) name) True, None, False)"
  using assms
  by (simp add: call_payload_def acquire_def to_envelope_def timeout_def with_retryable_def
      is_retryable_def)

theorem call_refused_at_capacity_witness:
  "call_payload (\<lambda>_ _. ret JNull) sample_engine (sample_server 16) 0 (\<lambda>_. (0, False)) ''symbol_search'' JNull
    = (error_envelope TIMEOUT (at_capacity_message 16 ''symbol_search'') True, None, False)"
proof -
  have "0 < slots_cap (sample_server 16)" "slots_cap (sample_server 16) \<le> slots_used (sample_server 16)"
    and "slots_cap (sample_server 16) = 16"
    by (simp_all add: sample_server_def)
  then show ?thesis using call_refused_at_capacity [of "sample_server 16"] by simp
qed

text \<open>
  The tools the server lists are exactly the tools it dispatches: a listed name always
  reaches its handler, any other name is answered with an \<open>INVALID_ARGUMENT\<close> envelope.
\<close>

theorem listed_tools_dispatched:
  "dispatch_tool tools name args ctx =
    (if name \<in> set MCP_TOOLS
     then (case tools name args ctx of (Inr v, ctx') \<Rightarrow> (v, ctx') | (Inl e, ctx') \<Rightarrow> (to_envelope e, ctx'))
     else (error_envelope INVALID_ARGUMENT (''unknown tool '' @ [CHR 0x27] @ name @ [CHR 0x27]) False, ctx))"
proof -
  have "name \<in> set MCP_TOOLS \<longleftrightarrow> name \<in> set [''symbol_search'', ''semantic_search'', ''discover_symbols'',
      ''diffuse_context'', ''symbol_lookup'', ''dependency_trace'', ''resolve_symbols'',
      ''retrieve_context_capsule'', ''analyze_patch_impact'', ''inspect_symbol_complexity'',
      ''trace_blast_radius'', ''suggest_optimal_refactor'']"
    unfolding MCP_TOOLS_def list.set insert_iff empty_iff by argo
  then show ?thesis
    unfolding dispatch_tool_def
    by (simp only:) (simp add: fail_def to_envelope_def invalid_argument_def with_retryable_def is_retryable_def)
qed

end
