(* ===== verification/Retrieval.thy ===== *)
theory Retrieval
  imports Models "HOL-Library.Multiset"
begin

text \<open>
  Rank fusion and capsule composition (\<open>crates/cognis-retrieval\<close>: \<open>fusion.rs\<close>, \<open>capsule.rs\<close>,
  \<open>layer.rs\<close>). Layers are searched through the store and the embedder, which are arguments.
  Ranks are natural numbers (the code counts them in 32 bits).
\<close>

subsection \<open>Reciprocal rank fusion\<close>

definition DEFAULT_RRF_K :: f64 where "DEFAULT_RRF_K = 60"

text \<open>The hits by layer, in the order the layers first appear.\<close>

fun group_push :: "hit \<Rightarrow> (string \<times> hit list) list \<Rightarrow> (string \<times> hit list) list" where
  "group_push h [] = [(layer h, [h])]"
| "group_push h ((n, hs) # gs) =
     (if n = layer h then (n, hs @ [h]) # gs else (n, hs) # group_push h gs)"

definition group_by_layer :: "hit list \<Rightarrow> (string \<times> hit list) list" where
  "group_by_layer hits = fold group_push hits []"

fun fused_add :: "string \<Rightarrow> f64 \<Rightarrow> (string \<times> f64) list \<Rightarrow> (string \<times> f64) list" where
  "fused_add i c [] = [(i, c)]"
| "fused_add i c ((j, s) # fused) = (if j = i then (j, s + c) # fused else (j, s) # fused_add i c fused)"

definition hit_key :: "hit \<Rightarrow> f64 \<times> string" where
  "hit_key h = (- score h, symbol_id h)"

fun rank_layer :: "f64 \<Rightarrow> hit list \<Rightarrow> nat \<Rightarrow> string list \<Rightarrow> (string \<times> f64) list \<Rightarrow> (string \<times> f64) list" where
  "rank_layer rrf_k [] rank seen fused = fused"
| "rank_layer rrf_k (h # hs) rank seen fused =
     (if symbol_id h \<in> set seen then rank_layer rrf_k hs rank seen fused
      else rank_layer rrf_k hs (rank + 1) (seen @ [symbol_id h])
             (fused_add (symbol_id h) (1 / (rrf_k + real (rank + 1))) fused))"

definition fused_scores :: "f64 \<Rightarrow> hit list \<Rightarrow> (string \<times> f64) list" where
  "fused_scores rrf_k hits =
     fold (\<lambda>g. rank_layer rrf_k (sort_key hit_key (snd g)) 0 []) (group_by_layer hits) []"

definition fused_hit :: "nat \<Rightarrow> string \<times> f64 \<Rightarrow> hit" where
  "fused_hit rank p =
     with_evidence
       (hit_new (fst p) (snd p) ''fused''
          (''RRF fused rank '' @ show_nat rank @ '' (score '' @ fmt_fixed 6 (snd p) @ '')''))
       (JObj [(''rrf_score'', JFloat (snd p)), (''rank'', JInt (int rank))])"

definition rrf_fuse :: "hit list list \<Rightarrow> nat \<Rightarrow> f64 \<Rightarrow> hit list" where
  "rrf_fuse layers k rrf_k =
     (if k = 0 \<or> rrf_k \<le> 0 then []
      else let grouped = group_by_layer (concat layers)
           in if grouped = [] then []
              else let ranked = take k (sort_key (\<lambda>p. (- snd p, fst p)) (fused_scores rrf_k (concat layers)))
                   in map (\<lambda>(i, p). fused_hit (i + 1) p) (enumerate 0 ranked))"

definition rrf_fuse_ids :: "hit list list \<Rightarrow> nat \<Rightarrow> f64 \<Rightarrow> string list" where
  "rrf_fuse_ids layers k rrf_k = map symbol_id (rrf_fuse layers k rrf_k)"

subsection \<open>The capsule\<close>

text \<open>
  The loop that appends context: \<open>n\<close> is the length so far, \<open>seen\<close> the symbols already present.
\<close>

fun new_context :: "nat \<Rightarrow> nat \<Rightarrow> string list \<Rightarrow> hit list \<Rightarrow> hit list" where
  "new_context k n seen [] = []"
| "new_context k n seen (h # hs) =
     (if k \<le> n then []
      else if symbol_id h \<in> set seen then new_context k n seen hs
      else h # new_context k (n + 1) (seen @ [symbol_id h]) hs)"

definition compose_capsule :: "hit list list \<Rightarrow> hit list \<Rightarrow> nat \<Rightarrow> f64 \<Rightarrow> hit list" where
  "compose_capsule direct_layers csar_hits k rrf_k =
     (if k = 0 then []
      else let composed = rrf_fuse direct_layers k rrf_k
           in composed @ new_context k (length composed) (map symbol_id composed) csar_hits)"

definition compose_capsule_with_edges ::
  "hit list list \<Rightarrow> hit list \<Rightarrow> hit list \<Rightarrow> nat \<Rightarrow> f64 \<Rightarrow> bool \<Rightarrow> hit list" where
  "compose_capsule_with_edges direct_layers csar_hits edge_context k rrf_k flag =
     (let composed = compose_capsule direct_layers csar_hits k rrf_k
      in if \<not> flag then composed
         else composed @ new_context k (length composed) (map symbol_id composed) edge_context)"

definition compose_capsule_ids :: "hit list list \<Rightarrow> hit list \<Rightarrow> nat \<Rightarrow> f64 \<Rightarrow> string list" where
  "compose_capsule_ids direct_layers csar_hits k rrf_k =
     map symbol_id (compose_capsule direct_layers csar_hits k rrf_k)"

subsection \<open>Layers\<close>

definition lexical_search ::
  "(string \<Rightarrow> nat \<Rightarrow> cognis_error + hit list) \<Rightarrow> string \<Rightarrow> nat \<Rightarrow> cognis_error + hit list" where
  "lexical_search fts_search query k =
     (if trim query = [] \<or> k = 0 then Inr [] else fts_search query k)"

definition semantic_search ::
  "(string \<Rightarrow> cognis_error + f64 list) \<Rightarrow> (f64 list \<Rightarrow> nat \<Rightarrow> cognis_error + hit list)
   \<Rightarrow> string \<Rightarrow> nat \<Rightarrow> cognis_error + hit list" where
  "semantic_search embed_text vec_search query k =
     (if trim query = [] \<or> k = 0 then Inr []
      else case embed_text query of Inl e \<Rightarrow> Inl e | Inr v \<Rightarrow> vec_search v k)"

subsection \<open>What the loops compute\<close>

definition weight :: "(string \<times> f64) list \<Rightarrow> string \<Rightarrow> f64" where
  "weight m d = (case map_of m d of None \<Rightarrow> 0 | Some s \<Rightarrow> s)"

lemma keys_fused_add [simp]: "fst ` set (fused_add i c m) = insert i (fst ` set m)"
  by (induction i c m rule: fused_add.induct) auto

lemma distinct_fused_add: "distinct (map fst m) \<Longrightarrow> distinct (map fst (fused_add i c m))"
proof (induction i c m rule: fused_add.induct)
  case (2 i c j s fused)
  then show ?case using keys_fused_add [of i c fused] by auto
qed simp

lemma weight_fused_add: "weight (fused_add i c m) d = weight m d + (if d = i then c else 0)"
  by (induction i c m rule: fused_add.induct) (auto simp: weight_def)

text \<open>The symbols of a layer, best first; a symbol's share is the reciprocal of its rank.\<close>

definition layer_ids :: "hit list \<Rightarrow> string list" where
  "layer_ids hs = dedup (map symbol_id (sort_key hit_key hs))"

lemma keys_rank_layer:
  "fst ` set (rank_layer r hs rank seen m) = fst ` set m \<union> (symbol_id ` set hs - set seen)"
  by (induction r hs rank seen m rule: rank_layer.induct) auto

lemma distinct_rank_layer:
  "distinct (map fst m) \<Longrightarrow> distinct (map fst (rank_layer r hs rank seen m))"
  by (induction r hs rank seen m rule: rank_layer.induct) (auto simp: distinct_fused_add)

lemma weight_rank_layer:
  "weight (rank_layer r hs rank seen m) d = weight m d
     + (let ids = dedup_from seen (map symbol_id hs)
        in if d \<in> set ids then 1 / (r + real (rank + pos d ids + 1)) else 0)"
  by (induction r hs rank seen m rule: rank_layer.induct)
     (auto simp: weight_fused_add Let_def add_ac)

lemma group_push_map:
  "distinct ns \<Longrightarrow> group_push h (map (\<lambda>n. (n, F n)) ns) =
     (if layer h \<in> set ns
      then map (\<lambda>n. (n, if layer h = n then F n @ [h] else F n)) ns
      else map (\<lambda>n. (n, F n)) ns @ [(layer h, [h])])"
proof (induction ns)
  case (Cons n ns)
  show ?case
  proof (cases "n = layer h")
    case True
    with Cons.prems have "map (\<lambda>n. (n, F n)) ns
        = map (\<lambda>n. (n, if layer h = n then F n @ [h] else F n)) ns"
      by auto
    with True show ?thesis by simp
  next
    case False
    with Cons show ?thesis by auto
  qed
qed simp

lemma group_by_layer_eq:
  "group_by_layer hits = map (\<lambda>n. (n, filter (\<lambda>h. layer h = n) hits)) (dedup (map layer hits))"
proof (induction hits rule: rev_induct)
  case Nil
  show ?case by (simp add: group_by_layer_def)
next
  case (snoc h hits)
  have "group_by_layer (hits @ [h]) = group_push h (group_by_layer hits)"
    by (simp add: group_by_layer_def)
  also have "\<dots> = map (\<lambda>n. (n, filter (\<lambda>h. layer h = n) (hits @ [h]))) (dedup (map layer (hits @ [h])))"
    by (auto simp: snoc.IH group_push_map dedup_from_snoc filter_empty_conv) (metis imageI)
  finally show ?case .
qed

lemma group_by_layer_Nil: "group_by_layer hits = [] \<longleftrightarrow> hits = []"
  by (cases hits) (simp_all add: group_by_layer_eq)

subsection \<open>The reference definition\<close>

text \<open>
  A layer ranks a symbol by its best hit there: higher score first, ties by symbol id. Its rank is
  one more than the number of symbols strictly ahead of it.
\<close>

definition best :: "hit list \<Rightarrow> string \<Rightarrow> f64 \<times> string" where
  "best hs d = Min (hit_key ` {h \<in> set hs. symbol_id h = d})"

definition rank_in :: "hit list \<Rightarrow> string \<Rightarrow> nat" where
  "rank_in hs d = card {e \<in> symbol_id ` set hs. best hs e < best hs d} + 1"

definition in_layer :: "string \<Rightarrow> hit list \<Rightarrow> hit list" where
  "in_layer n hits = filter (\<lambda>h. layer h = n) hits"

definition rrf_score :: "f64 \<Rightarrow> hit list \<Rightarrow> string \<Rightarrow> f64" where
  "rrf_score r hits d =
     (\<Sum>n \<in> layer ` set hits.
        if d \<in> symbol_id ` set (in_layer n hits) then 1 / (r + real (rank_in (in_layer n hits) d)) else 0)"

lemma best_Cons_other: "symbol_id h \<noteq> e \<Longrightarrow> best (h # hs) e = best hs e"
  by (simp add: best_def) (metis (no_types, lifting))

lemma best_Cons_head:
  assumes "sorted (map hit_key (h # hs))"
  shows "best (h # hs) (symbol_id h) = hit_key h"
  unfolding best_def using assms by (intro Min_eqI) auto

lemma best_id: "e \<in> symbol_id ` set hs \<Longrightarrow> snd (best hs e) = e"
proof -
  assume "e \<in> symbol_id ` set hs"
  then have "best hs e \<in> hit_key ` {h \<in> set hs. symbol_id h = e}"
    unfolding best_def by (intro Min_in) auto
  then show ?thesis by (auto simp: hit_key_def)
qed

lemma best_after_head:
  assumes "sorted (map hit_key (h # hs))" "e \<in> symbol_id ` set hs" "e \<noteq> symbol_id h"
  shows "hit_key h < best (h # hs) e"
proof -
  have "best hs e \<in> hit_key ` {h \<in> set hs. symbol_id h = e}"
    unfolding best_def using assms(2) by (intro Min_in) auto
  then have "hit_key h \<le> best hs e" using assms(1) by auto
  moreover have "snd (best hs e) \<noteq> snd (hit_key h)"
    using best_id [OF assms(2)] assms(3) by (simp add: hit_key_def)
  ultimately show ?thesis
    using assms(3) by (metis best_Cons_other order_less_le)
qed

lemma pos_dedup_ahead:
  "sorted (map hit_key hs) \<Longrightarrow> d \<in> symbol_id ` set hs - set seen \<Longrightarrow>
     pos d (dedup_from seen (map symbol_id hs))
       = card {e \<in> symbol_id ` set hs - set seen. best hs e < best hs d}"
proof (induction hs arbitrary: seen)
  case (Cons h hs)
  let ?i = "symbol_id h"
  let ?ahead = "\<lambda>hs seen. {e \<in> symbol_id ` set hs - set seen. best hs e < best hs d}"
  have sorted_tail: "sorted (map hit_key hs)" using Cons.prems(1) by simp
  show ?case
  proof (cases "?i \<in> set seen")
    case True
    with Cons.prems(2) have d: "d \<noteq> ?i" "d \<in> symbol_id ` set hs - set seen" by auto
    have "?ahead (h # hs) seen = ?ahead hs seen"
      using True d by (auto simp: best_Cons_other) (metis best_Cons_other)+
    with True Cons.IH [OF sorted_tail d(2)] show ?thesis by simp
  next
    case False
    show ?thesis
    proof (cases "d = ?i")
      case True
      have "?ahead (h # hs) seen = {}"
        using best_after_head [OF Cons.prems(1)] best_Cons_head [OF Cons.prems(1)] True
        by (force simp: not_less)
      then have "card (?ahead (h # hs) seen) = 0" by (simp only: card.empty)
      with True False show ?thesis by simp
    next
      case other: False
      with Cons.prems(2) have d: "d \<in> symbol_id ` set hs - set (seen @ [?i])" by auto
      have "?ahead (h # hs) seen = insert ?i (?ahead hs (seen @ [?i]))"
        using False other d best_after_head [OF Cons.prems(1), of d] best_Cons_head [OF Cons.prems(1)]
        by (auto simp: best_Cons_other)
      moreover have "?i \<notin> ?ahead hs (seen @ [?i])" by simp
      ultimately have "card (?ahead (h # hs) seen) = Suc (card (?ahead hs (seen @ [?i])))"
        by (simp only: card_insert_disjoint finite_Collect_conjI finite_imageI finite_set finite_Diff
              Collect_mem_eq mem_Collect_eq) (simp add: card_insert_disjoint)
      with False other Cons.IH [OF sorted_tail d] show ?thesis by simp
    qed
  qed
qed simp

lemma best_set: "set hs = set hs' \<Longrightarrow> best hs = best hs'"
  by (simp add: best_def fun_eq_iff)

lemma layer_ids_rank:
  assumes "d \<in> symbol_id ` set hs"
  shows "pos d (layer_ids hs) + 1 = rank_in hs d"
proof -
  have "pos d (layer_ids hs) = card {e \<in> symbol_id ` set hs. best (sort_key hit_key hs) e < best (sort_key hit_key hs) d}"
    using pos_dedup_ahead [of "sort_key hit_key hs" d "[]"] assms by (simp add: layer_ids_def)
  moreover have "best (sort_key hit_key hs) = best hs" by (rule best_set) simp
  ultimately show ?thesis by (simp add: rank_in_def)
qed

lemma weight_fold_layers:
  "weight (fold (\<lambda>g. rank_layer r (sort_key hit_key (snd g)) 0 []) gs m) d = weight m d
     + (\<Sum>g\<leftarrow>gs. if d \<in> symbol_id ` set (snd g) then 1 / (r + real (rank_in (snd g) d)) else 0)"
proof (induction gs arbitrary: m)
  case (Cons g gs)
  have "weight (rank_layer r (sort_key hit_key (snd g)) 0 [] m) d = weight m d
      + (if d \<in> symbol_id ` set (snd g) then 1 / (r + real (rank_in (snd g) d)) else 0)"
    using layer_ids_rank [of d "snd g"] by (simp add: weight_rank_layer layer_ids_def Let_def)
  with Cons show ?case by simp
qed simp

lemma keys_fold_layers:
  "fst ` set (fold (\<lambda>g. rank_layer r (sort_key hit_key (snd g)) 0 []) gs m)
     = fst ` set m \<union> (\<Union>g \<in> set gs. symbol_id ` set (snd g))"
  by (induction gs arbitrary: m) (auto simp: keys_rank_layer)

lemma distinct_fold_layers:
  "distinct (map fst m) \<Longrightarrow>
     distinct (map fst (fold (\<lambda>g. rank_layer r (sort_key hit_key (snd g)) 0 []) gs m))"
  by (induction gs arbitrary: m) (auto simp: distinct_rank_layer)

lemma keys_fused_scores: "fst ` set (fused_scores r hits) = symbol_id ` set hits"
  by (auto simp: fused_scores_def keys_fold_layers group_by_layer_eq)

lemma distinct_fused_scores: "distinct (map fst (fused_scores r hits))"
  by (simp add: fused_scores_def distinct_fold_layers)

lemma weight_fused_scores: "weight (fused_scores r hits) d = rrf_score r hits d"
proof -
  have "weight (fused_scores r hits) d =
      (\<Sum>n\<leftarrow>dedup (map layer hits). if d \<in> symbol_id ` set (in_layer n hits)
         then 1 / (r + real (rank_in (in_layer n hits) d)) else 0)"
    unfolding fused_scores_def weight_fold_layers group_by_layer_eq
    by (simp add: o_def in_layer_def weight_def cong: if_cong)
  also have "\<dots> = rrf_score r hits d"
    by (simp add: rrf_score_def sum_list_distinct_conv_sum_set)
  finally show ?thesis .
qed

lemma set_fused_scores:
  "set (fused_scores r hits) = (\<lambda>d. (d, rrf_score r hits d)) ` symbol_id ` set hits"
proof -
  have "p \<in> set (fused_scores r hits) \<Longrightarrow> snd p = rrf_score r hits (fst p)" for p
    using weight_fused_scores [of r hits "fst p"] distinct_fused_scores [of r hits]
    by (cases p) (simp add: weight_def)
  then have "set (fused_scores r hits) = (\<lambda>d. (d, rrf_score r hits d)) ` fst ` set (fused_scores r hits)"
    by (force simp: image_iff)
  then show ?thesis by (simp add: keys_fused_scores)
qed

text \<open>The symbols, best fused score first, ties by id.\<close>

definition rrf_ranking :: "f64 \<Rightarrow> hit list \<Rightarrow> string list" where
  "rrf_ranking r hits =
     sort_key (\<lambda>d. (- rrf_score r hits d, d)) (sorted_list_of_set (symbol_id ` set hits))"

lemma sorted_fused_scores:
  "sort_key (\<lambda>p. (- snd p, fst p)) (fused_scores r hits)
     = map (\<lambda>d. (d, rrf_score r hits d)) (rrf_ranking r hits)"
proof (rule sort_key_inj_key_eq)
  have "distinct (fused_scores r hits)"
    using distinct_fused_scores [of r hits] by (simp add: distinct_map)
  moreover have "distinct (map (\<lambda>d. (d, rrf_score r hits d)) (rrf_ranking r hits))"
    by (simp add: rrf_ranking_def distinct_map inj_on_def)
  ultimately show "mset (fused_scores r hits) = mset (map (\<lambda>d. (d, rrf_score r hits d)) (rrf_ranking r hits))"
    by (subst set_eq_iff_mset_eq_distinct [symmetric]) (simp_all add: set_fused_scores rrf_ranking_def)
  show "inj_on (\<lambda>p. (- snd p, fst p)) (set (fused_scores r hits))"
    by (auto simp: inj_on_def)
  show "sorted (map (\<lambda>p. (- snd p, fst p)) (map (\<lambda>d. (d, rrf_score r hits d)) (rrf_ranking r hits)))"
    by (simp add: rrf_ranking_def o_def)
qed

lemma rrf_fuse_spec:
  assumes "0 < k" "0 < r"
  shows "rrf_fuse layers k r =
    map (\<lambda>(i, d). fused_hit (i + 1) (d, rrf_score r (concat layers) d))
      (enumerate 0 (take k (rrf_ranking r (concat layers))))"
proof (cases "concat layers = []")
  case True
  show ?thesis
    by (unfold rrf_fuse_def Let_def True) (simp add: group_by_layer_def rrf_ranking_def)
next
  case False
  then have "group_by_layer (concat layers) \<noteq> []"
    by (cases "concat layers") (simp_all add: group_by_layer_eq)
  with assms show ?thesis
    by (simp add: rrf_fuse_def Let_def sorted_fused_scores take_map enumerate_map_upt
          o_def split_def enumerate_eq_zip zip_map2)
qed

subsection \<open>Rankings within a budget, and their additive extension\<close>

lemma new_context_ids:
  "map symbol_id (new_context k n seen hs) = take (k - n) (dedup_from seen (map symbol_id hs))"
proof (induction k n seen hs rule: new_context.induct)
  case (2 k n seen h hs)
  then show ?case by (auto simp: Suc_diff_Suc [symmetric] not_le)
qed simp

lemma set_new_context: "set (new_context k n seen hs) \<subseteq> set hs"
  by (induction k n seen hs rule: new_context.induct) auto

lemma length_new_context [size_bounds]: "length (new_context k n seen hs) \<le> k - n"
  using arg_cong [OF new_context_ids, of length k n seen hs] by simp

abbreviation extend :: "nat \<Rightarrow> hit list \<Rightarrow> hit list \<Rightarrow> hit list" where
  "extend k core ctx \<equiv> core @ new_context k (length core) (map symbol_id core) ctx"

locale budgeted_ranking =
  fixes ranking :: "nat \<Rightarrow> hit list"
  assumes within: "length (ranking k) \<le> k"
    and distinct_ids: "distinct (map symbol_id (ranking k))"
begin

lemma extend_within: "length (extend k (ranking k) ctx) \<le> k"
  using within [of k] length_new_context [of k "length (ranking k)" "map symbol_id (ranking k)" ctx]
  by simp

lemma extend_distinct: "distinct (map symbol_id (extend k (ranking k) ctx))"
  using distinct_ids [of k] set_take_subset by (fastforce simp: new_context_ids)

lemma extend_full:
  assumes "length (extend k (ranking k) ctx) < k"
  shows "symbol_id ` set ctx \<subseteq> symbol_id ` set (extend k (ranking k) ctx)"
proof -
  let ?new = "dedup_from (map symbol_id (ranking k)) (map symbol_id ctx)"
  have "length (map symbol_id (new_context k (length (ranking k)) (map symbol_id (ranking k)) ctx)) < k - length (ranking k)"
    using assms by simp
  then have "length ?new < k - length (ranking k)"
    unfolding new_context_ids by simp
  then have "map symbol_id (new_context k (length (ranking k)) (map symbol_id (ranking k)) ctx) = ?new"
    by (simp add: new_context_ids)
  then have "symbol_id ` set (new_context k (length (ranking k)) (map symbol_id (ranking k)) ctx) = set ?new"
    by (metis list.set_map)
  then show ?thesis by auto
qed

end

lemma rrf_fuse_length [size_bounds]: "length (rrf_fuse layers k r) \<le> k"
  by (simp add: rrf_fuse_def Let_def)

lemma map_fst_zip_ids:
  "map (\<lambda>x. symbol_id ((\<lambda>(i, d). fused_hit (f i) (d, w d)) x)) (enumerate n ds) = ds"
  by (induction ds arbitrary: n) (simp_all add: fused_hit_def)

lemma rrf_fuse_ids_ranking:
  "map symbol_id (rrf_fuse layers k r) = (if r \<le> 0 then [] else take k (rrf_ranking r (concat layers)))"
proof (cases "k = 0 \<or> r \<le> 0")
  case True
  then show ?thesis by (auto simp: rrf_fuse_def)
next
  case False
  then show ?thesis
    by (simp add: rrf_fuse_spec map_fst_zip_ids o_def del: enumerate_Suc_eq)
qed

interpretation rrf: budgeted_ranking "\<lambda>k. rrf_fuse layers k r" for layers r
  by unfold_locales (auto simp: size_bounds rrf_fuse_ids_ranking rrf_ranking_def)

lemma compose_capsule_extend: "compose_capsule d c k r = extend k (rrf_fuse d k r) c"
proof (cases "k = 0")
  case True
  then have "rrf_fuse d k r = []" using rrf_fuse_length [of d k r] by simp
  moreover have "new_context 0 n seen c = []" for n seen by (cases c) simp_all
  ultimately show ?thesis using True by (simp add: compose_capsule_def)
qed (simp add: compose_capsule_def Let_def)

interpretation capsule: budgeted_ranking "\<lambda>k. compose_capsule d c k r" for d c r
  by unfold_locales (simp_all only: compose_capsule_extend rrf.extend_within rrf.extend_distinct)

lemma rank_layer_ids:
  "map symbol_id hs = map symbol_id hs' \<Longrightarrow> rank_layer r hs rank seen m = rank_layer r hs' rank seen m"
proof (induction r hs rank seen m arbitrary: hs' rule: rank_layer.induct)
  case (2 r h hs rank seen m)
  then show ?case by (cases hs') auto
qed simp

definition rescale :: "(string \<Rightarrow> f64 \<Rightarrow> f64) \<Rightarrow> hit \<Rightarrow> hit" where
  "rescale g h = h\<lparr>score := g (layer h) (score h)\<rparr>"

lemma rescale_simps [simp]:
  "symbol_id (rescale g h) = symbol_id h" "layer (rescale g h) = layer h"
  "score (rescale g h) = g (layer h) (score h)"
  by (simp_all add: rescale_def)

lemma rescale_order:
  assumes "strict_mono (g (layer h))" "layer h' = layer h"
  shows "hit_key (rescale g h) \<le> hit_key (rescale g h') \<longleftrightarrow> hit_key h \<le> hit_key h'"
  using assms by (auto simp: hit_key_def less_eq_prod_def strict_mono_less strict_mono_eq
      strict_mono_less_eq)

lemma in_layer_rescale: "in_layer n (map (rescale g) hits) = map (rescale g) (in_layer n hits)"
  by (simp add: in_layer_def filter_map o_def)

lemma fused_scores_rescale:
  assumes "\<And>n. strict_mono (g n)"
  shows "fused_scores r (map (rescale g) hits) = fused_scores r hits"
proof -
  have "map symbol_id (sort_key hit_key (map (rescale g) (in_layer n hits)))
      = map symbol_id (sort_key hit_key (in_layer n hits))" for n
  proof -
    have "sort_key hit_key (map (rescale g) (in_layer n hits))
        = map (rescale g) (sort_key (\<lambda>h. hit_key (rescale g h)) (in_layer n hits))"
      by (simp add: map_sort_key)
    also have "sort_key (\<lambda>h. hit_key (rescale g h)) (in_layer n hits) = sort_key hit_key (in_layer n hits)"
      by (rule sort_key_cong) (auto simp: in_layer_def assms rescale_order)
    finally show ?thesis by (simp add: o_def)
  qed
  then have "rank_layer r (sort_key hit_key (in_layer n (map (rescale g) hits))) 0 [] m
      = rank_layer r (sort_key hit_key (in_layer n hits)) 0 [] m" for n m
    unfolding in_layer_rescale by (rule rank_layer_ids)
  then have step: "(\<lambda>n. rank_layer r (sort_key hit_key (in_layer n (map (rescale g) hits))) 0 [])
      = (\<lambda>n. rank_layer r (sort_key hit_key (in_layer n hits)) 0 [])"
    by (intro ext)
  show ?thesis
    using step
    by (simp add: fused_scores_def group_by_layer_eq in_layer_def [symmetric] fold_map o_def)
qed

subsection \<open>Properties\<close>

text \<open>
  C21: Rank fusion computes its reference definition: the first k symbols by decreasing reciprocal
  rank score, ties by id, where a symbol's score sums, over the layers that hold it, the reciprocal
  of rrf_k plus its rank there, and its rank is one more than the number of symbols whose best hit
  in that layer is strictly ahead; a zero k or a non-positive rrf_k gives nothing.
\<close>

theorem rrf_fuse_reference:
  "rrf_fuse layers k r =
     (if k = 0 \<or> r \<le> 0 then []
      else map (\<lambda>(i, d). fused_hit (i + 1) (d, rrf_score r (concat layers) d))
             (enumerate 0 (take k (rrf_ranking r (concat layers)))))"
proof (cases "k = 0 \<or> r \<le> 0")
  case True
  then show ?thesis by (auto simp: rrf_fuse_def)
next
  case False
  then show ?thesis using rrf_fuse_spec [of k r layers] by simp
qed

text \<open>
  The fused ranking depends on the set of hits only: splitting, reordering or repeating the
  hits of the input layer lists changes nothing.
\<close>

theorem rrf_fuse_set:
  assumes "set (concat a) = set (concat b)"
  shows "rrf_fuse a k r = rrf_fuse b k r"
proof (cases "k = 0 \<or> r \<le> 0")
  case True
  then show ?thesis by (auto simp: rrf_fuse_def)
next
  case False
  have "in_layer n (concat a) = in_layer n (concat b) \<or> set (in_layer n (concat a)) = set (in_layer n (concat b))" for n
    using assms by (auto simp: in_layer_def)
  then have layers: "set (in_layer n (concat a)) = set (in_layer n (concat b))" for n by metis
  have rank: "rank_in (in_layer n (concat a)) = rank_in (in_layer n (concat b))" for n
    unfolding rank_in_def fun_eq_iff by (simp only: layers best_set [OF layers] simp_thms)
  have score: "rrf_score r (concat a) = rrf_score r (concat b)"
    unfolding rrf_score_def fun_eq_iff layers assms rank by simp
  then have "rrf_ranking r (concat a) = rrf_ranking r (concat b)"
    unfolding rrf_ranking_def assms by simp
  with False score show ?thesis
    by (simp only: rrf_fuse_spec not_le de_Morgan_disj neq0_conv)
qed

theorem rrf_fuse_set_witness:
  "rrf_fuse [[hit_new ''a'' 1 ''lexical'' [], hit_new ''b'' 2 ''semantic'' []]] 5 60
     = rrf_fuse [[hit_new ''b'' 2 ''semantic'' []], [hit_new ''a'' 1 ''lexical'' []], []] 5 60"
  by (rule rrf_fuse_set) auto

text \<open>
  Fusion is scale invariant: replacing the scores of each layer by any strictly increasing
  function of them (a different one per layer) leaves the fused list as it was.
\<close>

theorem rrf_fuse_scale_invariant:
  assumes "\<And>n. strict_mono (g n)"
  shows "rrf_fuse (map (map (rescale g)) layers) k r = rrf_fuse layers k r"
proof -
  have "concat (map (map (rescale g)) layers) = map (rescale g) (concat layers)"
    by (simp add: map_concat)
  moreover have "(group_by_layer (map (rescale g) (concat layers)) = []) = (group_by_layer (concat layers) = [])"
    by (simp only: group_by_layer_Nil map_is_Nil_conv)
  ultimately show ?thesis
    using fused_scores_rescale [OF assms] by (simp only: rrf_fuse_def Let_def)
qed

theorem rrf_fuse_scale_invariant_witness:
  "rrf_fuse (map (map (rescale (\<lambda>n x. if n = ''lexical'' then 1000 * x else x - 3)))
       [[hit_new ''a'' 1 ''lexical'' []], [hit_new ''a'' 2 ''semantic'' []]]) 5 60
     = rrf_fuse [[hit_new ''a'' 1 ''lexical'' []], [hit_new ''a'' 2 ''semantic'' []]] 5 60"
  by (rule rrf_fuse_scale_invariant) (auto simp: strict_mono_def)

text \<open>
  A capsule is additive: whatever the flag, the fused direct ranking is its prefix, what
  follows is structural or edge context, no symbol appears twice, and the budget k is respected;
  without the flag the edge context has no effect.
\<close>

theorem capsule_additive:
  "\<exists>ctx. compose_capsule_with_edges d c e k r flag = rrf_fuse d k r @ ctx
       \<and> set ctx \<subseteq> set c \<union> (if flag then set e else {})
       \<and> distinct (map symbol_id (rrf_fuse d k r @ ctx))
       \<and> length (rrf_fuse d k r @ ctx) \<le> k"
proof (cases flag)
  case False
  then show ?thesis
    using rrf.extend_within [of d k r c] rrf.extend_distinct [of d k r c] set_new_context
    by (simp add: compose_capsule_with_edges_def compose_capsule_extend Let_def)
next
  case True
  obtain ctx where core: "compose_capsule d c k r = rrf_fuse d k r @ ctx" "set ctx \<subseteq> set c"
    unfolding compose_capsule_extend using set_new_context by blast
  have eq: "compose_capsule_with_edges d c e k r flag = extend k (compose_capsule d c k r) e"
    using True by (simp add: compose_capsule_with_edges_def Let_def)
  show ?thesis
    using capsule.extend_within [of d c k r e] capsule.extend_distinct [of d c k r e] core True
      set_new_context [of k "length (compose_capsule d c k r)" "map symbol_id (compose_capsule d c k r)" e]
    unfolding eq core(1) append_assoc by (intro exI conjI) (rule refl, auto)
qed

text \<open>
  A capsule that does not fill its budget left no context out: every structural hit is then in
  it, either itself or as a direct hit of the same symbol.
\<close>

theorem capsule_complete:
  assumes "length (compose_capsule d c k r) < k"
  shows "symbol_id ` set c \<subseteq> set (compose_capsule_ids d c k r)"
  using assms rrf.extend_full [where k = k and layers = d and r = r and ctx = c]
  by (simp only: compose_capsule_extend compose_capsule_ids_def list.set_map)

theorem capsule_complete_witness:
  "symbol_id ` set [hit_new ''c'' 1 ''csar'' []]
     \<subseteq> set (compose_capsule_ids [[hit_new ''a'' 1 ''lexical'' []]] [hit_new ''c'' 1 ''csar'' []] 5 0)"
  by (rule capsule_complete) (simp add: compose_capsule_def rrf_fuse_def)

end
