(* ===== verification/Graph.thy ===== *)
theory Graph
  imports Models
begin

text \<open>
  The resident code graph (\<open>crates/cognis-core/src/graph.rs\<close>): a compressed sparse row matrix
  built from weighted triples, and the four projections of the impact graph. Row pointers and
  neighbour indices are 32-bit signed integers in the code; \<open>as_i32\<close> and \<open>as_usize\<close> are its
  casts.
\<close>

definition as_i32 :: "nat \<Rightarrow> int" where
  "as_i32 n = sint (word_of_nat n :: 32 word)"

text \<open>A 32-bit value is sign extended to 64 bits.\<close>

definition as_usize :: "int \<Rightarrow> nat" where
  "as_usize v = (if 0 \<le> v then nat v else nat (2 ^ 64 + v))"

lemma as_i32_small: "n < 2 ^ 31 \<Longrightarrow> as_i32 n = int n"
  by (simp add: as_i32_def signed_of_nat signed_take_bit_int_eq_self)

lemma as_usize_int [simp]: "as_usize (int n) = n"
  by (simp add: as_usize_def)

lemma as_i32_one [simp]: "as_i32 0 = 0" "as_i32 (Suc 0) = 1"
  by (simp_all add: as_i32_def)

lemma as_usize_lit [simp]: "as_usize 0 = 0" "as_usize 1 = 1" "as_usize (numeral k) = numeral k"
  by (simp_all add: as_usize_def)

subsection \<open>The graph\<close>

record code_graph =
  indptr :: "int list"
  indices :: "int list"
  weights :: "f64 list"
  degree :: "f64 list"
  node_ids :: "string list"
  index :: "string \<rightharpoonup> nat"

definition n_nodes :: "code_graph \<Rightarrow> nat" where
  "n_nodes g = length (node_ids g)"

definition nnz :: "code_graph \<Rightarrow> nat" where
  "nnz g = length (indices g)"

definition is_empty :: "code_graph \<Rightarrow> bool" where
  "is_empty g \<longleftrightarrow> node_ids g = []"

text \<open>\<open>&xs[s..e]\<close>; out of range it panics, which a well-formed graph rules out.\<close>

definition slice :: "nat \<Rightarrow> nat \<Rightarrow> 'a list \<Rightarrow> 'a list" where
  "slice s e xs = take (e - s) (drop s xs)"

definition neighbors :: "code_graph \<Rightarrow> nat \<Rightarrow> int list \<times> f64 list" where
  "neighbors g u =
     (if n_nodes g \<le> u then ([], [])
      else let s = as_usize (indptr g ! u); e = as_usize (indptr g ! (u + 1))
           in (slice s e (indices g), slice s e (weights g)))"

definition node_index :: "string list \<Rightarrow> string \<rightharpoonup> nat" where
  "node_index ids = fold (\<lambda>(i, s) m. m(s \<mapsto> i)) (enumerate 0 ids) Map.empty"

text \<open>\<open>*acc.entry(v).or_insert(0.0) += w\<close>.\<close>

definition entry_add :: "int \<Rightarrow> f64 \<Rightarrow> (int, f64) btree \<Rightarrow> (int, f64) btree" where
  "entry_add v w m = bt_insert v ((case map_of m v of None \<Rightarrow> 0 | Some x \<Rightarrow> x) + w) m"

fun add_triple :: "nat \<Rightarrow> bool \<Rightarrow> nat \<times> nat \<times> f64 \<Rightarrow> (int, f64) btree list \<Rightarrow> (int, f64) btree list" where
  "add_triple n symmetrize (u, v, w) acc =
     (if n \<le> u \<or> n \<le> v \<or> u = v \<or> w \<le> 0 then acc
      else let acc = acc[u := entry_add (as_i32 v) w (acc ! u)]
           in if symmetrize then acc[v := entry_add (as_i32 u) w (acc ! v)] else acc)"

type_synonym csr = "int list \<times> int list \<times> f64 list \<times> f64 list"

fun push_row :: "nat \<times> (int, f64) btree \<Rightarrow> csr \<Rightarrow> csr" where
  "push_row (u, nb) (ip, ix, ws, dg) =
     (let (ix, ws, dg) =
        (if nb = [] then (ix @ [as_i32 u], ws @ [1], dg @ [1])
         else (ix @ map fst nb, ws @ map snd nb, dg @ [fold (\<lambda>(v, w) d. d + w) nb 0]))
      in (ip @ [as_i32 (length ix)], ix, ws, dg))"

definition from_weighted_triples :: "string list \<Rightarrow> (nat \<times> nat \<times> f64) list \<Rightarrow> bool \<Rightarrow> code_graph" where
  "from_weighted_triples ids triples symmetrize =
     (let n = length ids;
          acc = fold (add_triple n symmetrize) triples (replicate n []);
          (ip, ix, ws, dg) = fold push_row (enumerate 0 acc) ([0], [], [], [])
      in \<lparr>indptr = ip, indices = ix, weights = ws, degree = dg, node_ids = ids, index = node_index ids\<rparr>)"

subsection \<open>The impact graph\<close>

record impact_graph =
  forward :: code_graph
  reverse_structural :: code_graph
  reverse_complexity :: code_graph
  symmetrized :: code_graph

fun struct_gamma :: "edge_kind \<Rightarrow> f64" where
  "struct_gamma Calls = 95/100"
| "struct_gamma Inherits = 90/100"
| "struct_gamma Implements = 85/100"
| "struct_gamma RoutesTo = 95/100"
| "struct_gamma Tests = 1"
| "struct_gamma Reads = 80/100"
| "struct_gamma Writes = 80/100"
| "struct_gamma Imports = 45/100"

fun cplx_gamma :: "edge_kind \<Rightarrow> f64" where
  "cplx_gamma Calls = 1"
| "cplx_gamma RoutesTo = 1"
| "cplx_gamma Tests = 8/10"
| "cplx_gamma Inherits = 5/10"
| "cplx_gamma Implements = 5/10"
| "cplx_gamma Reads = 6/10"
| "cplx_gamma Writes = 6/10"
| "cplx_gamma Imports = 5/100"

text \<open>The table first, then the edge's metadata cast to eight bits, then zero; capped at four.\<close>

definition edge_loop_depth :: "(string \<times> string \<rightharpoonup> u8) \<Rightarrow> edge \<Rightarrow> u8" where
  "edge_loop_depth depths e =
     min 4 (case depths (src_id e, dst_id e) of
              Some d \<Rightarrow> d
            | None \<Rightarrow> (case Option.bind (jget (meta e) ''loop_depth'') as_u64 of
                         Some d \<Rightarrow> word_of_nat d
                       | None \<Rightarrow> 0))"

text \<open>The endpoints of an edge the projections keep.\<close>

definition kept_edge :: "(string \<rightharpoonup> nat) \<Rightarrow> edge \<Rightarrow> (nat \<times> nat) option" where
  "kept_edge ix e =
     (if dst_missing e \<or> confidence e \<le> 0 then None
      else case (ix (src_id e), ix (dst_id e)) of
             (Some u, Some v) \<Rightarrow> if u = v then None else Some (u, v)
           | _ \<Rightarrow> None)"

type_synonym triples = "(nat \<times> nat \<times> f64) list"

definition project_edge :: "(string \<rightharpoonup> nat) \<Rightarrow> (string \<times> string \<rightharpoonup> u8) \<Rightarrow> edge
    \<Rightarrow> triples \<times> triples \<times> triples \<times> triples \<Rightarrow> triples \<times> triples \<times> triples \<times> triples" where
  "project_edge ix depths e = (\<lambda>(fwd, rev_struct, rev_cplx, sym).
     case kept_edge ix e of
       None \<Rightarrow> (fwd, rev_struct, rev_cplx, sym)
     | Some (u, v) \<Rightarrow>
         let conf = confidence e; loop_boost = 4 ^ unat (edge_loop_depth depths e)
         in (fwd @ [(u, v, conf)],
             rev_struct @ [(v, u, conf * struct_gamma (ekind e))],
             rev_cplx @ [(v, u, conf * cplx_gamma (ekind e) * loop_boost)],
             sym @ [(u, v, conf)]))"

definition impact_graph_build ::
  "string list \<Rightarrow> edge list \<Rightarrow> (string \<times> string \<rightharpoonup> u8) \<Rightarrow> impact_graph" where
  "impact_graph_build ids edges depths =
     (let (fwd, rev_struct, rev_cplx, sym) =
            fold (project_edge (node_index ids) depths) edges ([], [], [], [])
      in \<lparr>forward = from_weighted_triples ids fwd False,
          reverse_structural = from_weighted_triples ids rev_struct False,
          reverse_complexity = from_weighted_triples ids rev_cplx False,
          symmetrized = from_weighted_triples ids sym True\<rparr>)"

subsection \<open>Well-formed graphs\<close>

text \<open>
  Every row is non-empty, sorted and in range, its weights are positive and sum to the degree.
\<close>

definition wf_row :: "nat \<Rightarrow> int list \<times> f64 list \<Rightarrow> bool" where
  "wf_row n row \<longleftrightarrow> fst row \<noteq> [] \<and> length (fst row) = length (snd row) \<and> sorted_wrt (<) (fst row)
     \<and> (\<forall>v \<in> set (fst row). 0 \<le> v \<and> v < int n) \<and> (\<forall>w \<in> set (snd row). 0 < w)"

definition wf_graph :: "code_graph \<Rightarrow> bool" where
  "wf_graph g \<longleftrightarrow> n_nodes g < 2 ^ 31 \<and> length (degree g) = n_nodes g
     \<and> (\<forall>u < n_nodes g. wf_row (n_nodes g) (neighbors g u)
          \<and> degree g ! u = sum_list (snd (neighbors g u)))"

subsection \<open>Rows of the accumulator\<close>

text \<open>The row a node gets: its entries, or a unit self-loop when it has none.\<close>

definition stored_row :: "nat \<Rightarrow> (int, f64) btree \<Rightarrow> (int, f64) btree" where
  "stored_row u nb = (if nb = [] then [(as_i32 u, 1)] else nb)"

definition stored_rows :: "(int, f64) btree list \<Rightarrow> (int, f64) btree list" where
  "stored_rows acc = map (\<lambda>(u, nb). stored_row u nb) (enumerate 0 acc)"

lemma length_stored_rows [simp]: "length (stored_rows acc) = length acc"
  by (simp add: stored_rows_def)

lemma nth_stored_rows: "u < length acc \<Longrightarrow> stored_rows acc ! u = stored_row u (acc ! u)"
  by (simp add: stored_rows_def nth_enumerate_eq)

lemma stored_rows_snoc: "stored_rows (acc @ [nb]) = stored_rows acc @ [stored_row (length acc) nb]"
  by (simp add: stored_rows_def enumerate_append_eq)

lemma fold_weights: "fold (\<lambda>(v, w) d. d + w) nb (d :: f64) = d + sum_list (map snd nb)"
  by (induction nb arbitrary: d) auto

lemma csr_closed_form:
  "fold push_row (enumerate 0 acc) ([0], [], [], []) =
     (map (\<lambda>i. as_i32 (length (concat (take i (stored_rows acc))))) [0..<Suc (length acc)],
      map fst (concat (stored_rows acc)), map snd (concat (stored_rows acc)),
      map (\<lambda>r. sum_list (map snd r)) (stored_rows acc))"
proof (induction acc rule: rev_induct)
  case Nil
  show ?case by (simp add: stored_rows_def as_i32_def)
next
  case (snoc nb acc)
  let ?rows = "stored_rows acc"
  have "map (\<lambda>i. as_i32 (length (concat (take i (?rows @ [r]))))) [0..<Suc (length acc)]
      = map (\<lambda>i. as_i32 (length (concat (take i ?rows)))) [0..<Suc (length acc)]" for r
    by (rule map_cong) auto
  with snoc.IH show ?case
    by (simp add: enumerate_append_eq stored_rows_snoc stored_row_def fold_weights Let_def)
qed

lemma slice_concat:
  assumes "u < length rows"
  shows "slice (length (concat (take u rows))) (length (concat (take (Suc u) rows))) (map f (concat rows))
       = map f (rows ! u)"
proof -
  have "concat rows = concat (take u rows) @ rows ! u @ concat (drop (Suc u) rows)"
    using assms by (metis concat.simps(2) concat_append id_take_nth_drop)
  moreover have "length (concat (take (Suc u) rows)) = length (concat (take u rows)) + length (rows ! u)"
    using assms by (simp add: take_Suc_conv_app_nth)
  ultimately show ?thesis by (simp add: slice_def)
qed

lemma length_concat_take: "length (concat (take i rows)) \<le> length (concat rows)"
  by (metis append_take_drop_id concat_append le_add1 length_append)

text \<open>Reading the graph back gives the stored rows, as long as the entry count fits 32 bits.\<close>

definition accumulate :: "nat \<Rightarrow> bool \<Rightarrow> triples \<Rightarrow> (int, f64) btree list" where
  "accumulate n symmetrize ts = fold (add_triple n symmetrize) ts (replicate n [])"

lemma length_add_triple [simp]: "length (add_triple n s t acc) = length acc"
  by (cases t) (simp add: Let_def)

lemma length_fold_add_triple: "length (fold (add_triple n s) ts acc) = length acc"
  by (induction ts arbitrary: acc) simp_all

lemma length_accumulate [simp]: "length (accumulate n s ts) = n"
  by (simp add: accumulate_def length_fold_add_triple)

lemma from_weighted_triples_simps:
  "node_ids (from_weighted_triples ids ts s) = ids"
  "index (from_weighted_triples ids ts s) = node_index ids"
  "degree (from_weighted_triples ids ts s) =
     map (\<lambda>r. sum_list (map snd r)) (stored_rows (accumulate (length ids) s ts))"
  by (simp_all add: from_weighted_triples_def accumulate_def csr_closed_form Let_def del: upt_Suc)

lemma n_nodes_from_weighted_triples [simp]: "n_nodes (from_weighted_triples ids ts s) = length ids"
  by (simp add: n_nodes_def from_weighted_triples_simps)

lemma neighbors_from_weighted_triples:
  assumes "length (concat (stored_rows (accumulate (length ids) s ts))) < 2 ^ 31" "u < length ids"
  shows "neighbors (from_weighted_triples ids ts s) u =
    (let row = stored_row u (accumulate (length ids) s ts ! u) in (map fst row, map snd row))"
proof -
  let ?rows = "stored_rows (accumulate (length ids) s ts)"
  have g: "indptr (from_weighted_triples ids ts s) =
        map (\<lambda>i. as_i32 (length (concat (take i ?rows)))) [0..<Suc (length ids)]"
    "indices (from_weighted_triples ids ts s) = map fst (concat ?rows)"
    "weights (from_weighted_triples ids ts s) = map snd (concat ?rows)"
    by (simp_all add: from_weighted_triples_def accumulate_def [symmetric] csr_closed_form Let_def del: upt_Suc)
  have "as_usize (indptr (from_weighted_triples ids ts s) ! i) = length (concat (take i ?rows))"
    if "i \<le> length ids" for i
  proof -
    have "length (concat (take i ?rows)) < 2 ^ 31"
      using assms(1) length_concat_take order_le_less_trans by blast
    with that show ?thesis by (simp add: g as_i32_small del: upt_Suc)
  qed
  then show ?thesis
    using assms(2) slice_concat [of u ?rows fst] slice_concat [of u ?rows snd]
    by (simp add: neighbors_def g Let_def nth_stored_rows)
qed

definition row_inv :: "nat \<Rightarrow> nat \<Rightarrow> (int, f64) btree \<Rightarrow> bool" where
  "row_inv n u m \<longleftrightarrow> bt_wf m \<and> (\<forall>(v, w) \<in> set m. 0 \<le> v \<and> v < int n \<and> v \<noteq> int u \<and> 0 < w)"

definition entry :: "(int, f64) btree \<Rightarrow> nat \<Rightarrow> f64" where
  "entry m v = (case map_of m (int v) of None \<Rightarrow> 0 | Some x \<Rightarrow> x)"

lemma in_set_bt_insert: "p \<in> set (bt_insert k v m) \<Longrightarrow> p = (k, v) \<or> p \<in> set m"
  by (induction k v m rule: bt_insert.induct) (auto split: if_splits)

lemma length_bt_insert_le: "length (bt_insert k v m) \<le> Suc (length m)"
  by (induction k v m rule: bt_insert.induct) auto

lemma row_inv_entry_add [inv_intros]:
  assumes "row_inv n u m" "v < n" "v \<noteq> u" "0 < w"
  shows "row_inv n u (entry_add (int v) w m)"
proof -
  have "0 \<le> (case map_of m (int v) of None \<Rightarrow> 0 | Some x \<Rightarrow> x)"
    using assms(1) by (auto simp: row_inv_def split: option.splits dest!: map_of_SomeD)
  with assms show ?thesis
    unfolding row_inv_def entry_add_def
    by (auto simp: bt_wf_insert dest!: in_set_bt_insert)
qed

lemma entry_entry_add:
  "bt_wf m \<Longrightarrow> entry (entry_add (int v) w m) v' = entry m v' + (if v' = v then w else 0)"
  by (simp add: entry_def entry_add_def map_of_bt_insert)

definition acc_inv :: "nat \<Rightarrow> (int, f64) btree list \<Rightarrow> bool" where
  "acc_inv n acc \<longleftrightarrow> n < 2 ^ 31 \<and> length acc = n \<and> (\<forall>u < n. row_inv n u (acc ! u))"

lemma acc_inv_update:
  assumes "acc_inv n acc" "u < n" "v < n" "u \<noteq> v" "0 < w"
  shows "acc_inv n (acc[u := entry_add (as_i32 v) w (acc ! u)])"
  using assms row_inv_entry_add [of n u "acc ! u" v w]
  by (auto simp: acc_inv_def as_i32_small nth_list_update)

lemma acc_inv_add_triple [inv_intros]: "acc_inv n acc \<Longrightarrow> acc_inv n (add_triple n s t acc)"
proof (cases t)
  case (fields u v w)
  assume inv: "acc_inv n acc"
  show ?thesis
  proof (cases "n \<le> u \<or> n \<le> v \<or> u = v \<or> w \<le> 0")
    case True
    with fields inv show ?thesis by auto
  next
    case False
    then have "acc_inv n (acc[u := entry_add (as_i32 v) w (acc ! u)])"
      using acc_inv_update [OF inv] by auto
    with False fields acc_inv_update [of n "acc[u := entry_add (as_i32 v) w (acc ! u)]" v u w]
    show ?thesis by (auto simp: Let_def)
  qed
qed

lemma acc_inv_fold: "acc_inv n acc \<Longrightarrow> acc_inv n (fold (add_triple n s) ts acc)"
  by (induction ts arbitrary: acc) (simp_all add: inv_intros)

lemma acc_inv_accumulate: "n < 2 ^ 31 \<Longrightarrow> acc_inv n (accumulate n s ts)"
  unfolding accumulate_def
  by (rule acc_inv_fold) (simp add: acc_inv_def row_inv_def)

lemma acc_inv_row: "acc_inv n acc \<Longrightarrow> u < n \<Longrightarrow> row_inv n u (acc ! u)"
  by (simp add: acc_inv_def)

text \<open>What a row holds: the summed weights of the triples between the two nodes.\<close>

definition triple_weight :: "nat \<Rightarrow> bool \<Rightarrow> nat \<Rightarrow> nat \<Rightarrow> nat \<times> nat \<times> f64 \<Rightarrow> f64" where
  "triple_weight n s u v = (\<lambda>(a, b, w).
     if n \<le> a \<or> n \<le> b \<or> a = b \<or> w \<le> 0 then 0
     else (if a = u \<and> b = v then w else 0) + (if s \<and> a = v \<and> b = u then w else 0))"

definition arc_weight :: "nat \<Rightarrow> bool \<Rightarrow> triples \<Rightarrow> nat \<Rightarrow> nat \<Rightarrow> f64" where
  "arc_weight n s ts u v = (\<Sum>t\<leftarrow>ts. triple_weight n s u v t)"

lemma entry_update:
  assumes "acc_inv n acc" "u < n" "v < n" "x < n"
  shows "entry (acc[u := entry_add (as_i32 v) w (acc ! u)] ! x) y
       = entry (acc ! x) y + (if x = u \<and> y = v then w else 0)"
  using assms acc_inv_row [OF assms(1,2)]
  by (auto simp: acc_inv_def as_i32_small nth_list_update entry_entry_add row_inv_def)

lemma entry_add_triple:
  assumes "acc_inv n acc" "x < n"
  shows "entry (add_triple n s t acc ! x) y = entry (acc ! x) y + triple_weight n s x y t"
proof (cases t)
  case (fields u v w)
  show ?thesis
  proof (cases "n \<le> u \<or> n \<le> v \<or> u = v \<or> w \<le> 0")
    case True
    with fields show ?thesis by (auto simp: triple_weight_def)
  next
    case False
    let ?acc = "acc[u := entry_add (as_i32 v) w (acc ! u)]"
    have one: "entry (?acc ! x) y = entry (acc ! x) y + (if x = u \<and> y = v then w else 0)"
      using False entry_update [OF assms(1)] assms(2) by simp
    have "acc_inv n ?acc" using False acc_inv_update [OF assms(1)] by auto
    then have two: "entry (?acc[v := entry_add (as_i32 u) w (?acc ! v)] ! x) y
        = entry (?acc ! x) y + (if x = v \<and> y = u then w else 0)"
      using False assms(2) by (intro entry_update) auto
    have "add_triple n s t acc = (if s then ?acc[v := entry_add (as_i32 u) w (?acc ! v)] else ?acc)"
      using False fields by (simp add: Let_def)
    with one two fields False show ?thesis by (auto simp: triple_weight_def)
  qed
qed

lemma entry_fold:
  "acc_inv n acc \<Longrightarrow> x < n \<Longrightarrow>
     entry (fold (add_triple n s) ts acc ! x) y = entry (acc ! x) y + arc_weight n s ts x y"
proof (induction ts arbitrary: acc)
  case (Cons t ts)
  then show ?case by (simp add: acc_inv_add_triple entry_add_triple arc_weight_def)
qed (simp add: arc_weight_def)

lemma entry_accumulate:
  assumes "n < 2 ^ 31" "x < n"
  shows "entry (accumulate n s ts ! x) y = arc_weight n s ts x y"
  using assms entry_fold [of n "replicate n []" x s ts y]
  by (simp add: accumulate_def acc_inv_def row_inv_def entry_def)

lemma sum_length_update:
  assumes "u < length acc" "length r \<le> Suc (length (acc ! u))"
  shows "sum_list (map length (acc[u := r])) \<le> Suc (sum_list (map length acc))"
  using assms elem_le_sum_list [of u "map length acc"]
  by (simp add: map_update sum_list_update)

lemma size_add_triple [size_bounds]:
  assumes "length acc = n"
  shows "sum_list (map length (add_triple n s t acc)) \<le> sum_list (map length acc) + 2"
proof (cases t)
  case (fields u v w)
  show ?thesis
  proof (cases "n \<le> u \<or> n \<le> v \<or> u = v \<or> w \<le> 0")
    case True
    with fields show ?thesis by auto
  next
    case False
    let ?acc = "acc[u := entry_add (as_i32 v) w (acc ! u)]"
    have one: "sum_list (map length ?acc) \<le> Suc (sum_list (map length acc))"
      using False assms by (intro sum_length_update) (simp_all add: entry_add_def length_bt_insert_le)
    have two: "sum_list (map length (?acc[v := entry_add (as_i32 u) w (?acc ! v)])) \<le> Suc (sum_list (map length ?acc))"
      using False assms by (intro sum_length_update) (simp_all add: entry_add_def length_bt_insert_le)
    have "add_triple n s t acc = (if s then ?acc[v := entry_add (as_i32 u) w (?acc ! v)] else ?acc)"
      using False fields by (simp add: Let_def)
    then show ?thesis using one two by (simp only: split: if_split) linarith
  qed
qed

lemma size_accumulate: "sum_list (map length (accumulate n s ts)) \<le> 2 * length ts"
proof -
  have "length acc = n \<Longrightarrow>
    sum_list (map length (fold (add_triple n s) ts acc)) \<le> sum_list (map length acc) + 2 * length ts" for acc
  proof (induction ts arbitrary: acc)
    case (Cons t ts)
    have "length (add_triple n s t acc) = n" using Cons.prems by simp
    from Cons.IH [OF this] show ?case
      using size_add_triple [OF Cons.prems, of s t] by simp
  qed simp
  from this [of "replicate n []"] show ?thesis by (simp add: accumulate_def sum_list_replicate)
qed

lemma size_stored_rows: "length (concat (stored_rows acc)) \<le> length acc + sum_list (map length acc)"
  by (induction acc rule: rev_induct) (auto simp: stored_rows_def enumerate_append_eq stored_row_def)

lemma fits_i32:
  assumes "n + 2 * length ts < 2 ^ 31"
  shows "length (concat (stored_rows (accumulate n s ts))) < 2 ^ 31"
  using assms size_stored_rows [of "accumulate n s ts"] size_accumulate [of n s ts] by simp

lemma wf_row_stored:
  assumes "row_inv n u m" "u < n" "n < 2 ^ 31"
  shows "wf_row n (map fst (stored_row u m), map snd (stored_row u m))"
  using assms by (auto simp: wf_row_def stored_row_def row_inv_def bt_wf_def as_i32_small)

text \<open>The weight of the arc between two different nodes, read from the graph.\<close>

definition arc :: "code_graph \<Rightarrow> nat \<Rightarrow> nat \<Rightarrow> f64" where
  "arc g u v = entry (zip (fst (neighbors g u)) (snd (neighbors g u))) v"

lemma arc_from_weighted_triples:
  assumes "length ids + 2 * length ts < 2 ^ 31" "u < length ids" "u \<noteq> v"
  shows "arc (from_weighted_triples ids ts s) u v = arc_weight (length ids) s ts u v"
proof -
  have small: "length ids < 2 ^ 31" using assms(1) by simp
  have "arc (from_weighted_triples ids ts s) u v = entry (stored_row u (accumulate (length ids) s ts ! u)) v"
    using neighbors_from_weighted_triples [OF fits_i32 [OF assms(1)] assms(2)]
    by (simp add: arc_def Let_def zip_map_fst_snd)
  also have "\<dots> = entry (accumulate (length ids) s ts ! u) v"
    using assms small by (simp add: stored_row_def entry_def as_i32_small)
  also have "\<dots> = arc_weight (length ids) s ts u v"
    by (rule entry_accumulate [OF small assms(2)])
  finally show ?thesis .
qed

lemma triple_weight_sym: "triple_weight n True u v t = triple_weight n False u v t + triple_weight n False v u t"
  by (cases t) (auto simp: triple_weight_def)

lemma arc_weight_sym: "arc_weight n True ts u v = arc_weight n False ts u v + arc_weight n False ts v u"
  unfolding arc_weight_def by (induction ts) (simp_all add: triple_weight_sym)

subsection \<open>The projections\<close>

lemma node_index_Nil [simp]: "node_index [] = Map.empty"
  by (simp add: node_index_def)

lemma node_index_snoc: "node_index (ids @ [s]) = (node_index ids)(s \<mapsto> length ids)"
  by (simp add: node_index_def enumerate_append_eq)

lemma node_index_Some: "node_index ids s = Some i \<Longrightarrow> i < length ids \<and> ids ! i = s"
  by (induction ids rule: rev_induct)
     (auto simp: node_index_snoc nth_append split: if_splits)

lemma node_index_distinct: "distinct ids \<Longrightarrow> i < length ids \<Longrightarrow> node_index ids (ids ! i) = Some i"
proof (induction ids rule: rev_induct)
  case (snoc s ids)
  then show ?case by (cases "i = length ids") (auto simp: node_index_snoc nth_append)
qed simp

lemma node_index_None: "node_index ids s = None \<longleftrightarrow> s \<notin> set ids"
  by (induction ids rule: rev_induct) (auto simp: node_index_snoc)

definition projected :: "(string \<rightharpoonup> nat) \<Rightarrow> (edge \<Rightarrow> nat \<times> nat \<Rightarrow> nat \<times> nat \<times> f64) \<Rightarrow> edge list \<Rightarrow> triples" where
  "projected ix f es = concat (map (\<lambda>e. case kept_edge ix e of None \<Rightarrow> [] | Some p \<Rightarrow> [f e p]) es)"

lemma fold_project_edge:
  "fold (project_edge ix depths) es ([], [], [], []) =
     (projected ix (\<lambda>e (u, v). (u, v, confidence e)) es,
      projected ix (\<lambda>e (u, v). (v, u, confidence e * struct_gamma (ekind e))) es,
      projected ix (\<lambda>e (u, v). (v, u, confidence e * cplx_gamma (ekind e) * 4 ^ unat (edge_loop_depth depths e))) es,
      projected ix (\<lambda>e (u, v). (u, v, confidence e)) es)"
  by (induction es rule: rev_induct)
     (auto simp: projected_def project_edge_def Let_def split: option.splits)

lemma length_projected: "length (projected ix f es) \<le> length es"
  by (induction es) (auto simp: projected_def split: option.splits)

lemma kept_edgeD: "kept_edge ix e = Some (u, v) \<Longrightarrow> 0 < confidence e \<and> u \<noteq> v \<and> ix (src_id e) = Some u \<and> ix (dst_id e) = Some v"
  by (auto simp: kept_edge_def split: if_splits option.splits)

definition kept_weight :: "(string \<rightharpoonup> nat) \<Rightarrow> (edge \<Rightarrow> f64) \<Rightarrow> edge list \<Rightarrow> nat \<Rightarrow> nat \<Rightarrow> f64" where
  "kept_weight ix c es u v = (\<Sum>e\<leftarrow>es. if kept_edge ix e = Some (u, v) then c e else 0)"

lemma projected_Cons:
  "projected ix f (e # es) = (case kept_edge ix e of None \<Rightarrow> [] | Some p \<Rightarrow> [f e p]) @ projected ix f es"
  by (simp add: projected_def)

lemma arc_weight_append: "arc_weight n s (ts @ ts') u v = arc_weight n s ts u v + arc_weight n s ts' u v"
  by (simp add: arc_weight_def)

lemma arc_weight_projected:
  assumes pos: "\<And>e. 0 < confidence e \<Longrightarrow> 0 < c e" and n: "n = length ids"
  shows "arc_weight n False (projected (node_index ids) (\<lambda>e (u, v). (u, v, c e)) es) u v
           = kept_weight (node_index ids) c es u v"
    and "arc_weight n False (projected (node_index ids) (\<lambda>e (u, v). (v, u, c e)) es) v u
           = kept_weight (node_index ids) c es u v"
proof -
  have step: "arc_weight n False (case kept_edge (node_index ids) e of None \<Rightarrow> [] | Some p \<Rightarrow> [(\<lambda>(u, v). (u, v, c e)) p]) u v
        = (if kept_edge (node_index ids) e = Some (u, v) then c e else 0)
     \<and> arc_weight n False (case kept_edge (node_index ids) e of None \<Rightarrow> [] | Some p \<Rightarrow> [(\<lambda>(u, v). (v, u, c e)) p]) v u
        = (if kept_edge (node_index ids) e = Some (u, v) then c e else 0)" for e
  proof (cases "kept_edge (node_index ids) e")
    case None
    then show ?thesis by (simp add: arc_weight_def)
  next
    case (Some p)
    obtain a b where p: "p = (a, b)" by (cases p)
    from Some p have "0 < confidence e" "a \<noteq> b" "a < n" "b < n"
      using kept_edgeD [of "node_index ids" e a b] node_index_Some n by auto
    with Some p pos [of e] show ?thesis by (simp add: arc_weight_def triple_weight_def)
  qed
  show "arc_weight n False (projected (node_index ids) (\<lambda>e (u, v). (u, v, c e)) es) u v
      = kept_weight (node_index ids) c es u v"
  proof (induction es)
    case (Cons e es)
    with step [of e] show ?case
      by (simp only: projected_Cons arc_weight_append kept_weight_def list.map sum_list.Cons)
  qed (simp add: projected_def arc_weight_def kept_weight_def)
  show "arc_weight n False (projected (node_index ids) (\<lambda>e (u, v). (v, u, c e)) es) v u
      = kept_weight (node_index ids) c es u v"
  proof (induction es)
    case (Cons e es)
    with step [of e] show ?case
      by (simp only: projected_Cons arc_weight_append kept_weight_def list.map sum_list.Cons)
  qed (simp add: projected_def arc_weight_def kept_weight_def)
qed

lemma kept_weight_bounds:
  assumes "\<And>e. 0 < confidence e \<Longrightarrow> a * confidence e \<le> c e \<and> c e \<le> b * confidence e"
  shows "a * kept_weight ix confidence es u v \<le> kept_weight ix c es u v
       \<and> kept_weight ix c es u v \<le> b * kept_weight ix confidence es u v"
proof (induction es)
  case (Cons e es)
  then show ?case
    using assms [of e] by (auto simp: kept_weight_def distrib_left dest!: kept_edgeD)
qed (simp add: kept_weight_def)

lemma wf_from_weighted_triples:
  assumes "length ids + 2 * length ts < 2 ^ 31"
  shows "wf_graph (from_weighted_triples ids ts s)"
  unfolding wf_graph_def n_nodes_from_weighted_triples
proof (intro conjI allI impI)
  let ?n = "length ids" and ?acc = "accumulate (length ids) s ts"
  show small: "?n < 2 ^ 31" using assms by simp
  show "length (degree (from_weighted_triples ids ts s)) = ?n"
    by (simp add: from_weighted_triples_simps)
  fix u assume u: "u < ?n"
  have nb: "neighbors (from_weighted_triples ids ts s) u
      = (map fst (stored_row u (?acc ! u)), map snd (stored_row u (?acc ! u)))"
    using neighbors_from_weighted_triples [OF fits_i32 [OF assms] u] by (simp add: Let_def)
  show "wf_row ?n (neighbors (from_weighted_triples ids ts s) u)"
    unfolding nb by (rule wf_row_stored [OF acc_inv_row [OF acc_inv_accumulate [OF small] u] u small])
  show "degree (from_weighted_triples ids ts s) ! u = sum_list (snd (neighbors (from_weighted_triples ids ts s) u))"
    using u by (simp add: nb from_weighted_triples_simps nth_stored_rows)
qed

subsection \<open>Properties\<close>

text \<open>
  C31: The CSR graph built from weighted triples is well formed, as long as its entries fit the
  32-bit row pointers: every node has a non-empty row, sorted and in range, with positive weights
  that sum to the stored degree (isolated nodes get a unit self-loop).
\<close>

theorem from_weighted_triples_wf:
  assumes "length ids + 2 * length ts < 2 ^ 31"
  shows "wf_graph (from_weighted_triples ids ts s)"
  by (rule wf_from_weighted_triples [OF assms])

theorem from_weighted_triples_wf_witness:
  "wf_graph (from_weighted_triples [''a'', ''b'', ''c''] [(0, 1, 1/2), (1, 0, 1), (7, 0, 1)] True)"
  by (rule from_weighted_triples_wf) simp

text \<open>
  What the graph holds between two different nodes is the sum of the weights of the valid
  triples between them, in the direction given or, when symmetrized, in both (so the weight is then
  the same both ways).
\<close>

theorem from_weighted_triples_arcs:
  assumes "length ids + 2 * length ts < 2 ^ 31" "u < length ids" "v < length ids" "u \<noteq> v"
  shows "arc (from_weighted_triples ids ts False) u v =
           (\<Sum>(a, b, w)\<leftarrow>ts. if a = u \<and> b = v \<and> 0 < w then w else 0)
       \<and> arc (from_weighted_triples ids ts True) u v =
           arc (from_weighted_triples ids ts False) u v + arc (from_weighted_triples ids ts False) v u"
proof -
  have "arc_weight (length ids) False ts u v = (\<Sum>(a, b, w)\<leftarrow>ts. if a = u \<and> b = v \<and> 0 < w then w else 0)"
    unfolding arc_weight_def using assms(2-4)
    by (intro arg_cong [where f = sum_list] map_cong) (auto simp: triple_weight_def)
  with assms show ?thesis
    by (simp add: arc_from_weighted_triples arc_weight_sym)
qed

theorem from_weighted_triples_arcs_witness:
  "arc (from_weighted_triples [''a'', ''b''] [(0, 1, 1/2), (0, 1, 2), (1, 0, - 3)] False) 0 1 = 5/2"
  using from_weighted_triples_arcs [of "[''a'', ''b'']" "[(0, 1, 1/2), (0, 1, 2), (1, 0, - 3)]" 0 1] by simp

text \<open>
  The projections of an impact graph agree: a reverse structural arc carries between 45% and
  100% of the forward weight it reverses, a complexity arc between 5% and 256 times it, and the
  symmetrized graph holds the sum of the two directions.
\<close>

theorem impact_graph_projections:
  assumes "length ids + 2 * length es < 2 ^ 31" "u < length ids" "v < length ids" "u \<noteq> v"
  shows "let g = impact_graph_build ids es depths; w = arc (forward g) u v
         in 9/20 * w \<le> arc (reverse_structural g) v u \<and> arc (reverse_structural g) v u \<le> w
          \<and> 1/20 * w \<le> arc (reverse_complexity g) v u \<and> arc (reverse_complexity g) v u \<le> 256 * w
          \<and> arc (symmetrized g) u v = w + arc (forward g) v u"
proof -
  let ?ix = "node_index ids"
  let ?cs = "\<lambda>e. confidence e * struct_gamma (ekind e)"
  let ?cc = "\<lambda>e. confidence e * cplx_gamma (ekind e) * 4 ^ unat (edge_loop_depth depths e)"
  have fits: "length ids + 2 * length (projected ?ix f es) < 2 ^ 31" for f
    using assms(1) length_projected [of ?ix f es] by simp
  have sg: "9/20 \<le> struct_gamma k \<and> struct_gamma k \<le> 1" for k by (cases k) simp_all
  have cg: "1/20 \<le> cplx_gamma k \<and> cplx_gamma k \<le> 1" for k by (cases k) simp_all
  have "edge_loop_depth depths e \<le> 4" for e
    by (simp add: edge_loop_depth_def)
  then have "unat (edge_loop_depth depths e) \<le> 4" for e
    by (simp add: word_le_nat_alt)
  then have boost: "(1 :: f64) \<le> 4 ^ unat (edge_loop_depth depths e) \<and> (4 :: f64) ^ unat (edge_loop_depth depths e) \<le> 256" for e
    using power_increasing [of "unat (edge_loop_depth depths e)" 4 "4 :: f64"] by simp
  have bs: "9/20 * confidence e \<le> ?cs e \<and> ?cs e \<le> 1 * confidence e" if "0 < confidence e" for e
    using that sg [of "ekind e"] by (simp add: mult.commute mult_left_le)
  have bc: "1/20 * confidence e \<le> ?cc e \<and> ?cc e \<le> 256 * confidence e" if "0 < confidence e" for e
  proof -
    have "1/20 * 1 \<le> cplx_gamma (ekind e) * 4 ^ unat (edge_loop_depth depths e)"
      using cg [of "ekind e"] boost [of e] by (intro mult_mono) auto
    moreover have "cplx_gamma (ekind e) * 4 ^ unat (edge_loop_depth depths e) \<le> 1 * 256"
      using cg [of "ekind e"] boost [of e] by (intro mult_mono) auto
    ultimately show ?thesis using that by (simp add: mult.assoc mult.commute [of "confidence e"])
  qed
  have pos: "0 < ?cs e" "0 < ?cc e" if "0 < confidence e" for e
    using bs [OF that] bc [OF that] that by linarith+
  let ?g = "impact_graph_build ids es depths"
  have fwd: "arc (forward ?g) x y = kept_weight ?ix confidence es x y" if "x < length ids" "x \<noteq> y" for x y
    using that fits
    by (simp add: impact_graph_build_def fold_project_edge arc_from_weighted_triples arc_weight_projected)
  have rev: "arc (reverse_structural ?g) v u = kept_weight ?ix ?cs es u v"
    "arc (reverse_complexity ?g) v u = kept_weight ?ix ?cc es u v"
    using assms fits pos
    by (simp_all add: impact_graph_build_def fold_project_edge arc_from_weighted_triples arc_weight_projected)
  have sym: "arc (symmetrized ?g) u v = kept_weight ?ix confidence es u v + kept_weight ?ix confidence es v u"
    using assms fits
    by (simp add: impact_graph_build_def fold_project_edge arc_from_weighted_triples arc_weight_projected
        arc_weight_sym)
  show ?thesis
    using kept_weight_bounds [of "9/20" ?cs 1 ?ix es u v, OF bs] kept_weight_bounds [of "1/20" ?cc 256 ?ix es u v, OF bc]
      fwd [of u v] fwd [of v u] assms(2-4) by (simp add: Let_def rev sym)
qed

theorem impact_graph_projections_witness:
  "let es = [\<lparr>src_id = ''a'', dst_id = ''b'', ekind = Calls, confidence = 1/2, meta = JObj []\<rparr>];
       g = impact_graph_build [''a'', ''b''] es Map.empty; w = arc (forward g) 0 1
   in 9/20 * w \<le> arc (reverse_structural g) 1 0 \<and> arc (reverse_structural g) 1 0 \<le> w
    \<and> 1/20 * w \<le> arc (reverse_complexity g) 1 0 \<and> arc (reverse_complexity g) 1 0 \<le> 256 * w
    \<and> arc (symmetrized g) 0 1 = w + arc (forward g) 1 0"
  unfolding Let_def
  by (rule impact_graph_projections [unfolded Let_def]) simp_all

end
