(* ===== verification/Push.thy ===== *)
theory Push
  imports Graph "HOL-Library.While_Combinator"
begin

text \<open>
  Personalized PageRank by forward push (\<open>crates/cognis-csar/src/push.rs\<close>). The work list is a
  loop that need not end on an arbitrary graph, so the result is an option: \<open>None\<close> is
  non-termination. Result maps are the lists of their entries. \<open>show_f64\<close> is the rendering of a
  float in an error message.
\<close>

record push_result =
  estimate :: "(int \<times> f64) list"
  residual :: "(int \<times> f64) list"
  pr_work :: f64
  pr_pushes :: int

record push_state =
  est :: "f64 list"
  res :: "f64 list"
  in_active :: "bool list"
  active :: "int list"
  work :: f64
  pushes :: int

definition in_range :: "nat \<Rightarrow> int \<Rightarrow> bool" where
  "in_range n u \<longleftrightarrow> \<not> (u < 0 \<or> n \<le> as_usize u)"

definition seed_residual :: "nat \<Rightarrow> (int \<times> f64) list \<Rightarrow> f64 list" where
  "seed_residual n seed =
     fold (\<lambda>(u, m) r. if \<not> in_range n u then r
                      else if m \<noteq> 0 then r[as_usize u := r ! as_usize u + m] else r)
       seed (replicate n 0)"

definition seed_active :: "code_graph \<Rightarrow> f64 \<Rightarrow> (int \<times> f64) list \<Rightarrow> f64 list \<Rightarrow> int list \<times> bool list" where
  "seed_active g eps seed r =
     fold (\<lambda>(u, _) (act, ina).
             if \<not> in_range (n_nodes g) u then (act, ina)
             else if \<not> ina ! as_usize u \<and> eps * degree g ! as_usize u \<le> r ! as_usize u
             then (act @ [u], ina[as_usize u := True]) else (act, ina))
       seed ([], replicate (n_nodes g) False)"

definition push_edge :: "code_graph \<Rightarrow> f64 \<Rightarrow> f64 \<Rightarrow> f64 \<Rightarrow> int \<times> f64 \<Rightarrow> push_state \<Rightarrow> push_state" where
  "push_edge g eps push_mass d_u = (\<lambda>(v, w) st.
     if \<not> in_range (n_nodes g) v then st
     else let sv = as_usize v;
              st = st\<lparr>res := (res st)[sv := res st ! sv + push_mass * w / d_u]\<rparr>
          in if \<not> in_active st ! sv \<and> eps * degree g ! sv \<le> res st ! sv
             then st\<lparr>active := active st @ [v], in_active := (in_active st)[sv := True]\<rparr>
             else st)"

definition push_step :: "code_graph \<Rightarrow> f64 \<Rightarrow> f64 \<Rightarrow> push_state \<Rightarrow> push_state" where
  "push_step g alpha eps st =
     (let su = as_usize (last (active st));
          st = st\<lparr>active := butlast (active st), in_active := (in_active st)[su := False]\<rparr>;
          r_u = res st ! su; d_u = degree g ! su
      in if r_u < eps * d_u then st
         else let st = st\<lparr>est := (est st)[su := est st ! su + alpha * r_u], res := (res st)[su := 0]\<rparr>;
                  (ix, ws) = neighbors g su;
                  st = fold (push_edge g eps ((1 - alpha) * r_u) d_u) (zip ix ws) st
              in st\<lparr>work := work st + d_u, pushes := pushes st + 1\<rparr>)"

definition push_init :: "code_graph \<Rightarrow> (int \<times> f64) list \<Rightarrow> f64 \<Rightarrow> push_state" where
  "push_init g seed eps =
     (let r = seed_residual (n_nodes g) seed; (act, ina) = seed_active g eps seed r
      in \<lparr>est = replicate (n_nodes g) 0, res = r, in_active = ina, active = act, work = 0, pushes = 0\<rparr>)"

definition push_loop :: "code_graph \<Rightarrow> f64 \<Rightarrow> f64 \<Rightarrow> push_state \<Rightarrow> push_state option" where
  "push_loop g alpha eps = while_option (\<lambda>st. active st \<noteq> []) (push_step g alpha eps)"

definition nonzero_entries :: "f64 list \<Rightarrow> (int \<times> f64) list" where
  "nonzero_entries xs = map (\<lambda>(u, x). (as_i32 u, x)) (filter (\<lambda>(_, x). x \<noteq> 0) (enumerate 0 xs))"

definition approximate_ppr_push ::
  "(f64 \<Rightarrow> string) \<Rightarrow> code_graph \<Rightarrow> (int \<times> f64) list \<Rightarrow> f64 \<Rightarrow> f64 \<Rightarrow> (cognis_error + push_result) option" where
  "approximate_ppr_push show_f64 g seed alpha eps =
     (if \<not> (0 < alpha \<and> alpha \<le> 1)
      then Some (Inl (RetrievalError (''alpha must be in (0, 1]; got '' @ show_f64 alpha)))
      else if eps \<le> 0
      then Some (Inl (RetrievalError (''eps must be > 0; got '' @ show_f64 eps)))
      else map_option
             (\<lambda>st. Inr \<lparr>estimate = nonzero_entries (est st), residual = nonzero_entries (res st),
                       pr_work = work st, pr_pushes = pushes st\<rparr>)
             (push_loop g alpha eps (push_init g seed eps)))"

subsection \<open>Weighted sums over nodes\<close>

definition pot :: "(nat \<Rightarrow> f64) \<Rightarrow> f64 list \<Rightarrow> f64" where
  "pot h xs = (\<Sum>i < length xs. h i * xs ! i)"

lemma pot_add: "i < length xs \<Longrightarrow> pot h (xs[i := xs ! i + c]) = pot h xs + h i * c"
proof -
  assume i: "i < length xs"
  have "pot h (xs[i := xs ! i + c]) = (\<Sum>j < length xs. h j * xs ! j + (if j = i then h i * c else 0))"
    unfolding pot_def by (rule sum.cong) (auto simp: nth_list_update distrib_left i)
  also have "\<dots> = pot h xs + h i * c" using i by (simp add: pot_def sum.distrib)
  finally show ?thesis .
qed

lemma pot_replicate [simp]: "pot h (replicate n 0) = 0"
  by (simp add: pot_def)

lemma pot_nonneg: "(\<And>i. i < length xs \<Longrightarrow> 0 \<le> h i) \<Longrightarrow> (\<And>i. i < length xs \<Longrightarrow> 0 \<le> xs ! i) \<Longrightarrow> 0 \<le> pot h xs"
  by (auto simp: pot_def intro!: sum_nonneg)

lemma in_range_iff: "in_range n u \<longleftrightarrow> (\<exists>k < n. u = int k)"
  by (auto simp: in_range_def as_usize_def not_le intro!: exI [of _ "nat u"])

lemma in_range_int [simp]: "in_range n (int k) \<longleftrightarrow> k < n"
  by (simp add: in_range_iff)

subsection \<open>Seeding\<close>

definition seed_sum :: "(nat \<Rightarrow> f64) \<Rightarrow> nat \<Rightarrow> (int \<times> f64) list \<Rightarrow> f64" where
  "seed_sum h n seed = (\<Sum>(u, m)\<leftarrow>seed. if in_range n u then h (as_usize u) * m else 0)"

lemma seed_residual_snoc:
  "seed_residual n (seed @ [(u, m)]) =
     (if in_range n u \<and> m \<noteq> 0
      then (seed_residual n seed)[as_usize u := seed_residual n seed ! as_usize u + m]
      else seed_residual n seed)"
  by (simp add: seed_residual_def)

lemma length_seed_residual [simp]: "length (seed_residual n seed) = n"
  by (induction seed rule: rev_induct) (auto simp: seed_residual_snoc, simp add: seed_residual_def)

lemma pot_seed_residual: "pot h (seed_residual n seed) = seed_sum h n seed"
proof (induction seed rule: rev_induct)
  case (snoc s seed)
  obtain u m where "s = (u, m)" by (cases s)
  with snoc show ?case
    by (cases "in_range n u") (auto simp: seed_residual_snoc seed_sum_def pot_add in_range_iff)
qed (simp add: seed_residual_def seed_sum_def)

lemma seed_residual_nonneg:
  "\<forall>(u, m) \<in> set seed. 0 \<le> m \<Longrightarrow> i < n \<Longrightarrow> 0 \<le> seed_residual n seed ! i"
  by (induction seed rule: rev_induct)
     (auto simp: seed_residual_snoc nth_list_update in_range_iff, simp add: seed_residual_def)

lemma seed_residual_unseeded:
  "i < n \<Longrightarrow> int i \<notin> fst ` set seed \<Longrightarrow> seed_residual n seed ! i = 0"
proof (induction seed rule: rev_induct)
  case (snoc s seed)
  obtain u m where "s = (u, m)" by (cases s)
  with snoc show ?case by (auto simp: seed_residual_snoc nth_list_update in_range_iff)
qed (simp add: seed_residual_def)

text \<open>The work list: the nodes whose residual clears the threshold, each once.\<close>

definition stack_ok :: "code_graph \<Rightarrow> int list \<Rightarrow> bool list \<Rightarrow> bool" where
  "stack_ok g act ina \<longleftrightarrow> length ina = n_nodes g \<and> distinct act
     \<and> (\<forall>u \<in> set act. in_range (n_nodes g) u) \<and> (\<forall>i < n_nodes g. ina ! i \<longleftrightarrow> int i \<in> set act)"

lemma stack_ok_push [inv_intros]:
  assumes "stack_ok g act ina" "i < n_nodes g" "\<not> ina ! i"
  shows "stack_ok g (act @ [int i]) (ina[i := True])"
  using assms by (auto simp: stack_ok_def nth_list_update)

lemma stack_ok_pop [inv_intros]:
  assumes "stack_ok g act ina" "act \<noteq> []"
  shows "stack_ok g (butlast act) (ina[as_usize (last act) := False])"
proof -
  obtain as u where act: "act = as @ [u]" using assms(2) by (metis append_butlast_last_id)
  moreover obtain i where "u = int i" "i < n_nodes g"
    using assms(1) act by (auto simp: stack_ok_def in_range_iff)
  ultimately show ?thesis using assms(1) by (auto simp: stack_ok_def nth_list_update)
qed

lemma seed_active_ok:
  "case seed_active g eps seed r of (act, ina) \<Rightarrow> stack_ok g act ina
     \<and> (\<forall>i < n_nodes g. int i \<in> fst ` set seed \<and> eps * degree g ! i \<le> r ! i \<longrightarrow> int i \<in> set act)"
proof (induction seed rule: rev_induct)
  case Nil
  show ?case by (simp add: seed_active_def stack_ok_def)
next
  case (snoc s seed)
  obtain u m where s: "s = (u, m)" by (cases s)
  obtain act ina where step: "seed_active g eps seed r = (act, ina)" by (cases "seed_active g eps seed r")
  have ok: "stack_ok g act ina" using snoc step by simp
  show ?case
  proof (cases "in_range (n_nodes g) u")
    case False
    then have "u \<noteq> int i" if "i < n_nodes g" for i using that by auto
    with False snoc step s show ?thesis by (auto simp: seed_active_def)
  next
    case True
    then obtain i where i: "u = int i" "i < n_nodes g" by (auto simp: in_range_iff)
    have next_step: "seed_active g eps (seed @ [s]) r =
        (if \<not> ina ! i \<and> eps * degree g ! i \<le> r ! i then (act @ [int i], ina[i := True]) else (act, ina))"
      using step s i by (simp add: seed_active_def)
    show ?thesis
    proof (cases "\<not> ina ! i \<and> eps * degree g ! i \<le> r ! i")
      case True
      with stack_ok_push [OF ok i(2)] snoc step show ?thesis
        unfolding next_step by (auto simp: s i)
    next
      case False
      then have "int i \<in> set act" if "eps * degree g ! i \<le> r ! i"
        using that ok i(2) by (simp add: stack_ok_def)
      with False snoc step ok show ?thesis
        unfolding next_step by (auto simp: s i)
    qed
  qed
qed

subsection \<open>The loop invariant\<close>

definition st_ok :: "code_graph \<Rightarrow> f64 \<Rightarrow> push_state \<Rightarrow> bool" where
  "st_ok g eps st \<longleftrightarrow> length (est st) = n_nodes g \<and> length (res st) = n_nodes g
     \<and> stack_ok g (active st) (in_active st)
     \<and> (\<forall>i < n_nodes g. 0 \<le> est st ! i \<and> 0 \<le> res st ! i
          \<and> (eps * degree g ! i \<le> res st ! i \<longrightarrow> int i \<in> set (active st)))"

lemma push_edge_ok:
  assumes "st_ok g eps st" "i < n_nodes g" "0 \<le> mass * w / d"
  shows "st_ok g eps (push_edge g eps mass d (int i, w) st)"
proof -
  let ?r = "(res st)[i := res st ! i + mass * w / d]"
  have r: "length ?r = n_nodes g" "\<forall>j < n_nodes g. 0 \<le> ?r ! j"
    using assms by (auto simp: st_ok_def nth_list_update)
  show ?thesis
  proof (cases "\<not> in_active st ! i \<and> eps * degree g ! i \<le> ?r ! i")
    case True
    with assms(1,2) stack_ok_push [of g "active st" "in_active st" i] r show ?thesis
      by (auto simp: st_ok_def push_edge_def Let_def nth_list_update)
  next
    case False
    then have "int i \<in> set (active st)" if "eps * degree g ! i \<le> ?r ! i"
      using that assms(1,2) by (simp add: st_ok_def stack_ok_def)
    with False assms(1,2) r show ?thesis
      by (auto simp: st_ok_def push_edge_def Let_def nth_list_update)
  qed
qed

lemma push_edge_simps [simp]:
  "est (push_edge g eps mass d e st) = est st"
  "work (push_edge g eps mass d e st) = work st"
  "pushes (push_edge g eps mass d e st) = pushes st"
  by (cases e; simp add: push_edge_def Let_def)+

lemma pot_push_edge:
  assumes "length (res st) = n_nodes g" "i < n_nodes g"
  shows "pot h (res (push_edge g eps mass d (int i, w) st)) = pot h (res st) + h i * (mass * w / d)"
  using assms by (simp add: push_edge_def Let_def pot_add)

lemma push_edges_ok:
  assumes "st_ok g eps st" "\<forall>(v, w) \<in> set row. in_range (n_nodes g) v \<and> 0 \<le> mass * w / d"
  shows "st_ok g eps (fold (push_edge g eps mass d) row st)
    \<and> est (fold (push_edge g eps mass d) row st) = est st
    \<and> work (fold (push_edge g eps mass d) row st) = work st
    \<and> pot h (res (fold (push_edge g eps mass d) row st))
        = pot h (res st) + mass / d * (\<Sum>(v, w)\<leftarrow>row. w * h (as_usize v))"
  using assms
proof (induction row arbitrary: st)
  case (Cons e row)
  obtain i w where e: "e = (int i, w)" "i < n_nodes g" "0 \<le> mass * w / d"
    using Cons.prems(2) by (cases e) (auto simp: in_range_iff)
  have ok: "st_ok g eps (push_edge g eps mass d e st)"
    using push_edge_ok [OF Cons.prems(1) e(2,3)] by (simp add: e(1))
  have "pot h (res (push_edge g eps mass d e st)) = pot h (res st) + h i * (mass * w / d)"
    using Cons.prems(1) e by (simp add: pot_push_edge st_ok_def)
  with Cons.IH [OF ok] Cons.prems(2) e show ?case by (simp add: algebra_simps add_divide_distrib)
qed simp

text \<open>
  One step either drops a node whose residual is below the threshold, or pushes it: a share
  \<open>alpha\<close> of its residual becomes estimate and the rest goes to its neighbours.
\<close>

definition spread :: "code_graph \<Rightarrow> (nat \<Rightarrow> f64) \<Rightarrow> nat \<Rightarrow> f64" where
  "spread g h u =
     (\<Sum>(v, w)\<leftarrow>zip (fst (neighbors g u)) (snd (neighbors g u)). w * h (as_usize v)) / degree g ! u"

lemma wf_graph_row:
  assumes "wf_graph g" "u < n_nodes g"
  shows "0 < degree g ! u" "spread g (\<lambda>_. 1) u = 1"
    "\<forall>(v, w) \<in> set (zip (fst (neighbors g u)) (snd (neighbors g u))). in_range (n_nodes g) v \<and> 0 < w"
proof -
  obtain ix ws where nb: "neighbors g u = (ix, ws)" by (cases "neighbors g u")
  have row: "wf_row (n_nodes g) (ix, ws)" "degree g ! u = sum_list ws"
    using assms nb by (auto simp: wf_graph_def)
  then have "ws \<noteq> []" "\<forall>w \<in> set ws. 0 < w" by (auto simp: wf_row_def)
  then have "0 < sum_list ws"
    by (induction ws rule: list_nonempty_induct) (auto simp: add_pos_pos)
  then show "0 < degree g ! u" by (simp add: row)
  have "(\<Sum>(v, w)\<leftarrow>zip ix ws. w * 1) = sum_list ws"
    using row(1) by (simp add: split_def wf_row_def)
  then show "spread g (\<lambda>_. 1) u = 1"
    using \<open>0 < sum_list ws\<close> by (simp add: spread_def nb row)
  show "\<forall>(v, w) \<in> set (zip (fst (neighbors g u)) (snd (neighbors g u))). in_range (n_nodes g) v \<and> 0 < w"
  proof (clarsimp simp: nb)
    fix v w assume "(v, w) \<in> set (zip ix ws)"
    then have "v \<in> set ix" "w \<in> set ws" by (auto dest: set_zip_leftD set_zip_rightD)
    with row(1) show "in_range (n_nodes g) v \<and> 0 < w"
      by (auto simp: wf_row_def in_range_def as_usize_def not_le nat_less_iff)
  qed
qed

definition step_effect :: "code_graph \<Rightarrow> f64 \<Rightarrow> f64 \<Rightarrow> push_state \<Rightarrow> push_state \<Rightarrow> nat \<Rightarrow> bool" where
  "step_effect g alpha eps st st' u \<longleftrightarrow> u < n_nodes g \<and> eps * degree g ! u \<le> res st ! u
     \<and> work st' = work st + degree g ! u
     \<and> (\<forall>c. pot c (est st') = pot c (est st) + c u * (alpha * res st ! u))
     \<and> (\<forall>h. pot h (res st') = pot h (res st) + res st ! u * ((1 - alpha) * spread g h u - h u))"

lemma push_step_ok:
  assumes g: "wf_graph g" and par: "0 < alpha" "alpha \<le> 1" "0 < eps"
    and ok: "st_ok g eps st" and act: "active st \<noteq> []"
  shows "st_ok g eps (push_step g alpha eps st)
    \<and> (est (push_step g alpha eps st) = est st \<and> res (push_step g alpha eps st) = res st
         \<and> work (push_step g alpha eps st) = work st
         \<and> length (active (push_step g alpha eps st)) < length (active st)
       \<or> (\<exists>u. step_effect g alpha eps st (push_step g alpha eps st) u))"
proof -
  let ?n = "n_nodes g"
  have "last (active st) \<in> set (active st)" using act by simp
  with ok obtain u where u: "last (active st) = int u" "u < ?n"
    by (auto simp: st_ok_def stack_ok_def in_range_iff)
  define s1 where "s1 = st\<lparr>active := butlast (active st), in_active := (in_active st)[u := False]\<rparr>"
  let ?r = "res st ! u" and ?d = "degree g ! u"
  have stack1: "stack_ok g (active s1) (in_active s1)"
    using stack_ok_pop [of g "active st" "in_active st"] ok act u by (simp add: s1_def st_ok_def)
  have still: "int i \<in> set (active st) \<Longrightarrow> i \<noteq> u \<Longrightarrow> int i \<in> set (active s1)" for i
    using act u by (cases "active st" rule: rev_cases) (auto simp: s1_def)
  show ?thesis
  proof (cases "?r < eps * ?d")
    case True
    then have step: "push_step g alpha eps st = s1"
      by (simp add: push_step_def Let_def u s1_def)
    have "st_ok g eps s1"
      unfolding st_ok_def
    proof (intro conjI allI impI)
      fix i assume i: "i < ?n"
      show "0 \<le> est s1 ! i" "0 \<le> res s1 ! i" using ok i by (simp_all add: s1_def st_ok_def)
      assume "eps * degree g ! i \<le> res s1 ! i"
      then have hot: "eps * degree g ! i \<le> res st ! i" by (simp add: s1_def)
      with True have "i \<noteq> u" by auto
      with hot ok i show "int i \<in> set (active s1)" by (simp add: st_ok_def still)
    qed (use ok stack1 in \<open>simp_all add: s1_def st_ok_def\<close>)
    with act show ?thesis by (simp add: step) (simp add: s1_def)
  next
    case False
    define s2 where "s2 = s1\<lparr>est := (est st)[u := est st ! u + alpha * ?r], res := (res st)[u := 0]\<rparr>"
    let ?row = "zip (fst (neighbors g u)) (snd (neighbors g u))"
    let ?mass = "(1 - alpha) * ?r"
    define s3 where "s3 = fold (push_edge g eps ?mass ?d) ?row s2"
    have step: "push_step g alpha eps st = s3\<lparr>work := work s3 + ?d, pushes := pushes s3 + 1\<rparr>"
      using False by (simp add: push_step_def Let_def u s1_def s2_def s3_def split_def)
    have r: "0 \<le> ?r" "length (res st) = ?n" "length (est st) = ?n" using ok u by (simp_all add: st_ok_def)
    have d: "0 < ?d" using wf_graph_row(1) [OF g u(2)] .
    have "st_ok g eps s2"
      unfolding st_ok_def
    proof (intro conjI allI impI)
      fix i assume i: "i < ?n"
      show "0 \<le> est s2 ! i" "0 \<le> res s2 ! i"
        using ok i r par u by (simp_all add: s2_def st_ok_def nth_list_update)
      assume hot: "eps * degree g ! i \<le> res s2 ! i"
      have "i \<noteq> u"
      proof
        assume "i = u"
        with hot u r have "eps * ?d \<le> 0" by (simp add: s2_def)
        with d par show False by (simp add: mult_le_0_iff)
      qed
      with hot ok i r show "int i \<in> set (active s2)" by (simp add: s2_def st_ok_def still)
    qed (use ok stack1 r in \<open>simp_all add: s2_def st_ok_def\<close>)
    moreover have "\<forall>(v, w) \<in> set ?row. in_range ?n v \<and> 0 \<le> ?mass * w / ?d"
      using wf_graph_row(3) [OF g u(2)] r(1) d par by (auto intro!: divide_nonneg_pos mult_nonneg_nonneg)
    ultimately have s3: "st_ok g eps s3 \<and> est s3 = est s2 \<and> work s3 = work s2
        \<and> pot h (res s3) = pot h (res s2) + ?mass / ?d * (\<Sum>(v, w)\<leftarrow>?row. w * h (as_usize v))" for h
      unfolding s3_def by (rule push_edges_ok)
    have "pot h (res s2) = pot h (res st) - h u * ?r" for h
      using pot_add [of u "res st" h "- ?r"] u r by (simp add: s2_def)
    then have "pot h (res s3) = pot h (res st) + ?r * ((1 - alpha) * spread g h u - h u)" for h
      using s3 [of h] by (simp add: spread_def algebra_simps)
    moreover have "pot c (est s3) = pot c (est st) + c u * (alpha * ?r)" for c
      using s3 pot_add [of u "est st" c] u r by (simp add: s2_def)
    moreover have "work s3 = work st" using s3 by (simp add: s2_def s1_def)
    ultimately have "step_effect g alpha eps st (push_step g alpha eps st) u"
      using False u by (simp add: step_effect_def step)
    moreover have "st_ok g eps s3" using s3 by blast
    then have "st_ok g eps (push_step g alpha eps st)" by (simp add: step st_ok_def)
    ultimately show ?thesis by blast
  qed
qed

lemma degree_lower_bound:
  assumes "wf_graph g"
  obtains d where "0 < d" "\<And>u. u < n_nodes g \<Longrightarrow> d \<le> degree g ! u"
proof
  let ?d = "Min (insert 1 (set (degree g)))"
  have len: "length (degree g) = n_nodes g" using assms by (simp add: wf_graph_def)
  have "\<forall>x \<in> set (degree g). 0 < x"
    using wf_graph_row(1) [OF assms] by (auto simp: in_set_conv_nth len)
  then show "0 < ?d" by simp
  show "?d \<le> degree g ! u" if "u < n_nodes g" for u
    using that by (intro Min_le) (auto simp: len)
qed

lemma push_mass_nonneg: "st_ok g eps st \<Longrightarrow> 0 \<le> pot (\<lambda>_. 1) (res st)"
  by (rule pot_nonneg) (auto simp: st_ok_def)

lemma step_mass:
  assumes "wf_graph g" "step_effect g alpha eps st st' u"
  shows "pot (\<lambda>_. 1) (res st') = pot (\<lambda>_. 1) (res st) - alpha * res st ! u"
proof -
  have "pot (\<lambda>_. 1) (res st') = pot (\<lambda>_. 1) (res st) + res st ! u * ((1 - alpha) * spread g (\<lambda>_. 1) u - 1)"
    using assms(2) unfolding step_effect_def by blast
  moreover have "spread g (\<lambda>_. 1) u = 1"
    using assms wf_graph_row(2) by (simp add: step_effect_def)
  ultimately show ?thesis by (simp add: algebra_simps)
qed

text \<open>
  Each push takes at least \<open>alpha * eps * d\<close> of the residual mass, \<open>d\<close> the least degree, and a
  dropped node shortens the work list, so the loop ends.
\<close>

lemma floor_decreases:
  fixes x y k :: f64
  assumes "0 < k" "0 \<le> y" "y \<le> x - k"
  shows "nat \<lfloor>y / k\<rfloor> < nat \<lfloor>x / k\<rfloor>"
proof -
  have "y / k \<le> x / k - 1" using assms by (simp add: field_simps)
  then have "\<lfloor>y / k\<rfloor> \<le> \<lfloor>x / k - 1\<rfloor>" by (rule floor_mono)
  then have "\<lfloor>y / k\<rfloor> < \<lfloor>x / k\<rfloor>" by simp
  moreover have "0 \<le> \<lfloor>y / k\<rfloor>" using assms by simp
  ultimately show ?thesis by (simp only: nat_less_eq_zless)
qed

lemma push_loop_terminates:
  assumes g: "wf_graph g" and par: "0 < alpha" "alpha \<le> 1" "0 < eps" and ok: "st_ok g eps st"
  shows "\<exists>st'. push_loop g alpha eps st = Some st'"
proof -
  obtain d where d: "0 < d" "\<And>u. u < n_nodes g \<Longrightarrow> d \<le> degree g ! u"
    using degree_lower_bound [OF g] by blast
  let ?k = "alpha * (eps * d)"
  let ?m = "\<lambda>st. (nat \<lfloor>pot (\<lambda>_. 1) (res st) / ?k\<rfloor>, length (active st))"
  have k: "0 < ?k" using d par by simp
  have "(?m (push_step g alpha eps s), ?m s) \<in> less_than <*lex*> less_than"
    if "st_ok g eps s" "active s \<noteq> []" for s
  proof -
    note step = push_step_ok [OF g par that]
    consider "res (push_step g alpha eps s) = res s"
        "length (active (push_step g alpha eps s)) < length (active s)"
      | u where "step_effect g alpha eps s (push_step g alpha eps s) u"
      using step by blast
    then show ?thesis
    proof cases
      case 2
      have "eps * d \<le> eps * degree g ! u" using d(2) [of u] par 2 by (simp add: step_effect_def)
      then have "eps * d \<le> res s ! u" using 2 by (simp add: step_effect_def)
      then have "?k \<le> alpha * res s ! u" using par by simp
      then have "pot (\<lambda>_. 1) (res (push_step g alpha eps s)) \<le> pot (\<lambda>_. 1) (res s) - ?k"
        by (simp add: step_mass [OF g 2])
      moreover have "0 \<le> pot (\<lambda>_. 1) (res (push_step g alpha eps s))"
        by (rule push_mass_nonneg) (use step in blast)
      ultimately have "nat \<lfloor>pot (\<lambda>_. 1) (res (push_step g alpha eps s)) / ?k\<rfloor> < nat \<lfloor>pot (\<lambda>_. 1) (res s) / ?k\<rfloor>"
        using floor_decreases [OF k] by blast
      then show ?thesis by (simp only: in_lex_prod less_than_iff simp_thms)
    qed simp
  qed
  then have "{(t, s). (st_ok g eps s \<and> active s \<noteq> []) \<and> t = push_step g alpha eps s}
      \<subseteq> inv_image (less_than <*lex*> less_than) ?m"
    by auto
  then have "wf {(t, s). (st_ok g eps s \<and> active s \<noteq> []) \<and> t = push_step g alpha eps s}"
    by (rule wf_subset [rotated]) auto
  then show ?thesis
    unfolding push_loop_def
    by (rule wf_while_option_Some) (use push_step_ok [OF g par] ok in auto)
qed

text \<open>
  \<open>h u\<close> is the value of \<open>c\<close> where a random walk from \<open>u\<close> stops, when it stops at each node with
  probability \<open>alpha\<close> and otherwise follows an arc in proportion to its weight: the personalized
  PageRank of the starting node, weighted by \<open>c\<close>.
\<close>

definition walk_value :: "code_graph \<Rightarrow> f64 \<Rightarrow> (nat \<Rightarrow> f64) \<Rightarrow> (nat \<Rightarrow> f64) \<Rightarrow> bool" where
  "walk_value g alpha c h \<longleftrightarrow>
     (\<forall>u < n_nodes g. h u = alpha * c u + (1 - alpha) * spread g h u)"

definition push_inv :: "code_graph \<Rightarrow> f64 \<Rightarrow> f64 \<Rightarrow> push_state \<Rightarrow> push_state \<Rightarrow> bool" where
  "push_inv g alpha eps st0 st \<longleftrightarrow> st_ok g eps st
     \<and> (\<forall>c h. walk_value g alpha c h \<longrightarrow> pot c (est st) + pot h (res st) = pot c (est st0) + pot h (res st0))
     \<and> alpha * eps * work st + pot (\<lambda>_. 1) (res st) \<le> alpha * eps * work st0 + pot (\<lambda>_. 1) (res st0)"

lemma push_inv_step:
  assumes g: "wf_graph g" and par: "0 < alpha" "alpha \<le> 1" "0 < eps"
    and inv: "push_inv g alpha eps st0 st" and act: "active st \<noteq> []"
  shows "push_inv g alpha eps st0 (push_step g alpha eps st)"
proof -
  let ?st = "push_step g alpha eps st"
  have ok: "st_ok g eps st" using inv by (simp add: push_inv_def)
  note step = push_step_ok [OF g par ok act]
  consider "est ?st = est st" "res ?st = res st" "work ?st = work st" | u where "step_effect g alpha eps st ?st u"
    using step by blast
  then show ?thesis
  proof cases
    case 1
    with inv step show ?thesis by (simp add: push_inv_def)
  next
    case 2
    have keep: "pot c (est ?st) + pot h (res ?st) = pot c (est st) + pot h (res st)" if w: "walk_value g alpha c h" for c h
    proof -
      have "h u = alpha * c u + (1 - alpha) * spread g h u" using w 2 by (simp add: walk_value_def step_effect_def)
      moreover have "pot c (est ?st) = pot c (est st) + c u * (alpha * res st ! u)"
        "pot h (res ?st) = pot h (res st) + res st ! u * ((1 - alpha) * spread g h u - h u)"
        using 2 unfolding step_effect_def by blast+
      ultimately show ?thesis by (simp add: algebra_simps)
    qed
    have mass: "alpha * eps * work ?st + pot (\<lambda>_. 1) (res ?st) \<le> alpha * eps * work st + pot (\<lambda>_. 1) (res st)"
    proof -
      have "alpha * (eps * degree g ! u) \<le> alpha * res st ! u" "work ?st = work st + degree g ! u"
        using 2 par by (auto simp: step_effect_def)
      then show ?thesis by (simp add: step_mass [OF g 2] algebra_simps)
    qed
    show ?thesis
      unfolding push_inv_def
    proof (intro conjI allI impI)
      show "st_ok g eps ?st" using step by blast
      show "pot c (est ?st) + pot h (res ?st) = pot c (est st0) + pot h (res st0)"
        if "walk_value g alpha c h" for c h
        using keep [OF that] inv that by (simp add: push_inv_def)
      show "alpha * eps * work ?st + pot (\<lambda>_. 1) (res ?st) \<le> alpha * eps * work st0 + pot (\<lambda>_. 1) (res st0)"
        using mass inv by (simp add: push_inv_def)
    qed
  qed
qed

lemma push_loop_result:
  assumes "wf_graph g" "0 < alpha" "alpha \<le> 1" "0 < eps" "st_ok g eps st"
  obtains st' where "push_loop g alpha eps st = Some st'" "push_inv g alpha eps st st'" "active st' = []"
proof -
  obtain st' where st': "push_loop g alpha eps st = Some st'"
    using push_loop_terminates [OF assms] by blast
  moreover have "push_inv g alpha eps st st'"
  proof (rule while_option_rule [where P = "push_inv g alpha eps st"])
    show "while_option (\<lambda>st. active st \<noteq> []) (push_step g alpha eps) st = Some st'"
      using st' by (simp add: push_loop_def)
    show "push_inv g alpha eps st st" using assms(5) by (simp add: push_inv_def)
  qed (rule push_inv_step [OF assms(1-4)])
  moreover have "active st' = []"
    using while_option_stop st' unfolding push_loop_def by fastforce
  ultimately show ?thesis using that by blast
qed

lemma map_of_enumerate: "i < length xs \<Longrightarrow> map_of (enumerate 0 xs) i = Some (xs ! i)"
  by (rule map_of_is_SomeI) (auto simp: in_set_enumerate_eq)

lemma entry_nonzero_entries:
  assumes "i < length xs" "length xs < 2 ^ 31"
  shows "entry (nonzero_entries xs) i = xs ! i"
proof -
  have keys: "(u, x) \<in> set (enumerate 0 xs) \<Longrightarrow> as_i32 u = int u" for u x
    using assms(2) by (auto simp: in_set_enumerate_eq as_i32_small)
  let ?ps = "filter (\<lambda>(_, x). x \<noteq> 0) (enumerate 0 xs)"
  have "map (\<lambda>(u, x). (as_i32 u, x)) ?ps = map (\<lambda>(u, x). (int u, x)) ?ps"
    by (rule map_cong) (auto simp: keys)
  then have "nonzero_entries xs = map (\<lambda>(u, x). (int u, x)) ?ps"
    by (simp only: nonzero_entries_def)
  moreover have "map_of (map (\<lambda>(u, x). (int u, x)) ps) (int i) = map_of ps i" for ps :: "(nat \<times> f64) list"
    by (induction ps) auto
  moreover have "map_of ?ps i = (if xs ! i = 0 then None else Some (xs ! i))"
  proof (cases "xs ! i = 0")
    case True
    then show ?thesis
      by (auto simp: map_of_eq_None_iff in_set_enumerate_eq image_iff)
  next
    case False
    moreover have "distinct (map fst ?ps)"
      by (rule distinct_map_filter) simp
    ultimately show ?thesis
      using assms(1) by (auto simp: in_set_enumerate_eq intro!: map_of_is_SomeI)
  qed
  ultimately show ?thesis by (simp add: entry_def)
qed

lemma push_init_ok:
  assumes "wf_graph g" "0 < eps" "\<forall>(u, m) \<in> set seed. 0 \<le> m"
  shows "st_ok g eps (push_init g seed eps)"
proof -
  let ?r = "seed_residual (n_nodes g) seed"
  obtain act ina where act: "seed_active g eps seed ?r = (act, ina)" by fastforce
  have "int i \<in> set act" if i: "i < n_nodes g" "eps * degree g ! i \<le> ?r ! i" for i
  proof -
    have "0 < eps * degree g ! i" using wf_graph_row(1) [OF assms(1) i(1)] assms(2) by simp
    with i have "int i \<in> fst ` set seed" using seed_residual_unseeded [of i "n_nodes g" seed] by fastforce
    with seed_active_ok [where g = g and eps = eps and seed = seed and r = ?r] act i show ?thesis by simp
  qed
  then show ?thesis
    using seed_active_ok [where g = g and eps = eps and seed = seed and r = ?r] seed_residual_nonneg [OF assms(3), of _ "n_nodes g"]
    by (simp add: push_init_def act st_ok_def)
qed

lemma push_result:
  assumes "wf_graph g" "0 < alpha" "alpha \<le> 1" "0 < eps" "\<forall>(u, m) \<in> set seed. 0 \<le> m"
  obtains st where
    "approximate_ppr_push show_f64 g seed alpha eps =
       Some (Inr \<lparr>estimate = nonzero_entries (est st), residual = nonzero_entries (res st),
                 pr_work = work st, pr_pushes = pushes st\<rparr>)"
    "push_inv g alpha eps (push_init g seed eps) st" "active st = []"
    "push_loop g alpha eps (push_init g seed eps) = Some st"
  using push_loop_result [OF assms(1-4) push_init_ok [OF assms(1,4,5)]] assms(2-4)
  by (metis (no_types, lifting) approximate_ppr_push_def not_le option.simps(9))

text \<open>The total of a result map, weighted by node.\<close>

definition mass_sum :: "(nat \<Rightarrow> f64) \<Rightarrow> nat \<Rightarrow> (int \<times> f64) list \<Rightarrow> f64" where
  "mass_sum h n m = (\<Sum>i < n. h i * entry m i)"

lemma mass_sum_entries: "length xs = n \<Longrightarrow> n < 2 ^ 31 \<Longrightarrow> mass_sum h n (nonzero_entries xs) = pot h xs"
  by (simp add: mass_sum_def pot_def entry_nonzero_entries)

lemma push_init_simps:
  "pot c (est (push_init g seed eps)) = 0"
  "pot h (res (push_init g seed eps)) = seed_sum h (n_nodes g) seed"
  "work (push_init g seed eps) = 0"
  by (simp_all add: push_init_def pot_seed_residual split_def Let_def)

text \<open>
  A node that starts with residual at or above its threshold is pushed, and each push turns a share
  \<open>alpha\<close> of the residual into estimate.
\<close>

lemma pot_indicator: "u < length xs \<Longrightarrow> pot (\<lambda>i. of_bool (i = u)) xs = xs ! u"
  by (simp add: pot_def of_bool_def if_distrib [of "\<lambda>x. x * _"] cong: if_cong)

lemma step_effect_nth:
  assumes "step_effect g alpha eps st st' u" "st_ok g eps st" "st_ok g eps st'" "v < n_nodes g"
  shows "est st' ! v = est st ! v + (if v = u then alpha * res st ! u else 0)"
    and "res st' ! v = res st ! v + res st ! u * ((1 - alpha) * spread g (\<lambda>i. of_bool (i = v)) u - of_bool (v = u))"
proof -
  have "pot (\<lambda>i. of_bool (i = v)) (est st') = pot (\<lambda>i. of_bool (i = v)) (est st) + of_bool (u = v) * (alpha * res st ! u)"
    "pot (\<lambda>i. of_bool (i = v)) (res st') = pot (\<lambda>i. of_bool (i = v)) (res st)
       + res st ! u * ((1 - alpha) * spread g (\<lambda>i. of_bool (i = v)) u - of_bool (u = v))"
    using assms(1) unfolding step_effect_def by blast+
  then show "est st' ! v = est st ! v + (if v = u then alpha * res st ! u else 0)"
    "res st' ! v = res st ! v + res st ! u * ((1 - alpha) * spread g (\<lambda>i. of_bool (i = v)) u - of_bool (v = u))"
    using assms(2-4) by (auto simp: st_ok_def pot_indicator)
qed

lemma spread_nonneg:
  assumes "wf_graph g" "u < n_nodes g" "\<And>i. 0 \<le> h i"
  shows "0 \<le> spread g h u"
  unfolding spread_def using assms wf_graph_row [OF assms(1,2)]
  by (intro divide_nonneg_pos sum_list_nonneg) (auto intro!: mult_nonneg_nonneg intro: less_imp_le)

lemma push_loop_survives:
  assumes g: "wf_graph g" and par: "0 < alpha" "alpha \<le> 1" "0 < eps" and ok: "st_ok g eps st"
    and loop: "push_loop g alpha eps st = Some st'" and u: "u < n_nodes g" "m \<le> res st ! u"
  shows "alpha * m \<le> est st' ! u \<or> m \<le> res st' ! u"
proof -
  let ?P = "\<lambda>s. st_ok g eps s \<and> (alpha * m \<le> est s ! u \<or> m \<le> res s ! u)"
  have "?P st'"
  proof (rule while_option_rule [where P = ?P])
    show "while_option (\<lambda>st. active st \<noteq> []) (push_step g alpha eps) st = Some st'"
      using loop by (simp add: push_loop_def)
    show "?P st" using ok u by simp
    fix s assume s: "?P s" "active s \<noteq> []"
    let ?s = "push_step g alpha eps s"
    have okS: "st_ok g eps s" using s by blast
    note step = push_step_ok [OF g par okS s(2)]
    consider "est ?s = est s" "res ?s = res s" | v where "step_effect g alpha eps s ?s v" using step by blast
    then show "?P ?s"
    proof cases
      case 1
      with s step show ?thesis by simp
    next
      case 2
      have v: "v < n_nodes g" using 2 by (simp add: step_effect_def)
      have pos: "0 \<le> res s ! v" "0 \<le> est s ! u" using okS v u by (auto simp: st_ok_def)
      have ok': "st_ok g eps ?s" using step by blast
      note e = step_effect_nth [OF 2 okS ok' u(1)]
      show ?thesis
      proof (cases "v = u")
        case True
        have "0 \<le> alpha * res s ! v" using pos par by simp
        moreover have "alpha * m \<le> alpha * res s ! v" if "m \<le> res s ! u"
          using that par True by simp
        ultimately have "alpha * m \<le> est ?s ! u" using s e(1) pos True by auto
        with ok' show ?thesis by blast
      next
        case False
        have "0 \<le> res s ! v * ((1 - alpha) * spread g (\<lambda>i. of_bool (i = u)) v)"
          using pos par spread_nonneg [OF g v] by simp
        with False s e ok' show ?thesis by auto
      qed
    qed
  qed
  then show ?thesis by blast
qed

subsection \<open>Properties\<close>

text \<open>
  C19: On a well-formed graph with non-negative seed masses, \<open>alpha\<close> in (0, 1] and a positive
  \<open>eps\<close>, forward push returns; its work is at most the seed mass over \<open>alpha * eps\<close>, whatever
  the size of the graph, and on return every residual is non-negative and below \<open>eps\<close> times the
  degree of its node.
\<close>

theorem push_returns_bounded:
  assumes "wf_graph g" "0 < alpha" "alpha \<le> 1" "0 < eps" "\<forall>(u, m) \<in> set seed. 0 \<le> m"
  shows "\<exists>r. approximate_ppr_push show_f64 g seed alpha eps = Some (Inr r)
    \<and> pr_work r \<le> seed_sum (\<lambda>_. 1) (n_nodes g) seed / (alpha * eps)
    \<and> (\<forall>u < n_nodes g. 0 \<le> entry (estimate r) u \<and> 0 \<le> entry (residual r) u
         \<and> entry (residual r) u < eps * degree g ! u)"
proof -
  obtain st where st: "approximate_ppr_push show_f64 g seed alpha eps =
       Some (Inr \<lparr>estimate = nonzero_entries (est st), residual = nonzero_entries (res st),
                 pr_work = work st, pr_pushes = pushes st\<rparr>)"
    "push_inv g alpha eps (push_init g seed eps) st" "active st = []"
    using push_result [OF assms] by blast
  have ok: "st_ok g eps st" and mass: "alpha * eps * work st + pot (\<lambda>_. 1) (res st) \<le> seed_sum (\<lambda>_. 1) (n_nodes g) seed"
    using st(2) by (simp_all add: push_inv_def push_init_simps)
  then have "alpha * eps * work st \<le> seed_sum (\<lambda>_. 1) (n_nodes g) seed"
    using push_mass_nonneg [OF ok] by linarith
  then have "work st \<le> seed_sum (\<lambda>_. 1) (n_nodes g) seed / (alpha * eps)"
    using assms by (simp add: pos_le_divide_eq mult.commute)
  moreover have "0 \<le> est st ! u \<and> 0 \<le> res st ! u \<and> res st ! u < eps * degree g ! u" if "u < n_nodes g" for u
    using ok st(3) that by (auto simp: st_ok_def not_le [symmetric])
  ultimately show ?thesis
    using st(1) ok assms(1) by (simp add: entry_nonzero_entries st_ok_def wf_graph_def)
qed

definition pair_graph :: code_graph where
  "pair_graph = from_weighted_triples [''a'', ''b''] [(0, 1, 1)] True"

lemma wf_pair_graph: "wf_graph pair_graph"
  unfolding pair_graph_def by (rule wf_from_weighted_triples) simp

theorem push_returns_bounded_witness:
  "\<exists>r. approximate_ppr_push (\<lambda>_. []) pair_graph [(0, 1)] (15/100) (1/100000) = Some (Inr r)
    \<and> pr_work r \<le> seed_sum (\<lambda>_. 1) (n_nodes pair_graph) [(0, 1)] / (15/100 * (1/100000))
    \<and> (\<forall>u < n_nodes pair_graph. 0 \<le> entry (estimate r) u \<and> 0 \<le> entry (residual r) u
         \<and> entry (residual r) u < 1/100000 * degree pair_graph ! u)"
  by (rule push_returns_bounded) (simp_all add: wf_pair_graph)

text \<open>
  Forward push keeps its conservation law: for every weighting \<open>c\<close> of the nodes and the value
  \<open>h\<close> it has at the end of a random walk, the estimates weighted by \<open>c\<close> plus the residuals weighted
  by \<open>h\<close> are the seed masses weighted by \<open>h\<close>; with \<open>c = h = 1\<close> this is conservation of mass.
\<close>

theorem push_conserves:
  assumes "wf_graph g" "0 < alpha" "alpha \<le> 1" "0 < eps" "\<forall>(u, m) \<in> set seed. 0 \<le> m"
    and "walk_value g alpha c h"
  shows "\<exists>r. approximate_ppr_push show_f64 g seed alpha eps = Some (Inr r)
    \<and> mass_sum c (n_nodes g) (estimate r) + mass_sum h (n_nodes g) (residual r) = seed_sum h (n_nodes g) seed"
proof -
  obtain st where st: "approximate_ppr_push show_f64 g seed alpha eps =
       Some (Inr \<lparr>estimate = nonzero_entries (est st), residual = nonzero_entries (res st),
                 pr_work = work st, pr_pushes = pushes st\<rparr>)"
    "push_inv g alpha eps (push_init g seed eps) st"
    using push_result [OF assms(1-5)] by blast
  then have "pot c (est st) + pot h (res st) = seed_sum h (n_nodes g) seed"
    using assms(6) by (simp add: push_inv_def push_init_simps)
  moreover have "length (est st) = n_nodes g" "length (res st) = n_nodes g" "n_nodes g < 2 ^ 31"
    using st(2) assms(1) by (simp_all add: push_inv_def st_ok_def wf_graph_def)
  ultimately show ?thesis using st(1) by (simp add: mass_sum_entries)
qed

lemma walk_value_one: "wf_graph g \<Longrightarrow> walk_value g alpha (\<lambda>_. 1) (\<lambda>_. 1)"
  by (simp add: walk_value_def wf_graph_row(2))

theorem push_conserves_witness:
  "\<exists>r. approximate_ppr_push (\<lambda>_. []) pair_graph [(0, 1)] (15/100) (1/100000) = Some (Inr r)
    \<and> mass_sum (\<lambda>_. 1) (n_nodes pair_graph) (estimate r) + mass_sum (\<lambda>_. 1) (n_nodes pair_graph) (residual r)
        = seed_sum (\<lambda>_. 1) (n_nodes pair_graph) [(0, 1)]"
  by (rule push_conserves) (simp_all add: wf_pair_graph walk_value_one)

text \<open>
  A seeded node whose mass reaches \<open>eps\<close> times its degree survives: it ends with an estimate
  of at least \<open>alpha\<close> times that mass.
\<close>

theorem push_seed_survives:
  assumes "wf_graph g" "0 < alpha" "alpha \<le> 1" "0 < eps" "\<forall>(u, m) \<in> set seed. 0 \<le> m"
    and "u < n_nodes g" "eps * degree g ! u \<le> seed_residual (n_nodes g) seed ! u"
  shows "\<exists>r. approximate_ppr_push show_f64 g seed alpha eps = Some (Inr r)
    \<and> alpha * seed_residual (n_nodes g) seed ! u \<le> entry (estimate r) u"
proof -
  let ?m = "seed_residual (n_nodes g) seed ! u" and ?st0 = "push_init g seed eps"
  have ok: "st_ok g eps ?st0" by (rule push_init_ok [OF assms(1,4,5)])
  obtain st where st: "push_loop g alpha eps ?st0 = Some st" "push_inv g alpha eps ?st0 st" "active st = []"
    using push_loop_result [OF assms(1-4) ok] by blast
  have "res ?st0 ! u = ?m" by (simp add: push_init_def Let_def split_def)
  then have "alpha * ?m \<le> est st ! u \<or> ?m \<le> res st ! u"
    using push_loop_survives [OF assms(1-4) ok st(1) assms(6), of ?m] by simp
  moreover have "res st ! u < eps * degree g ! u" "length (est st) = n_nodes g" "n_nodes g < 2 ^ 31"
    using st(2,3) assms(1,6) by (auto simp: push_inv_def st_ok_def wf_graph_def not_le [symmetric])
  ultimately show ?thesis
    using st(1) assms(2-4,6,7) by (simp add: approximate_ppr_push_def entry_nonzero_entries)
qed

theorem push_seed_survives_witness:
  "\<exists>r. approximate_ppr_push (\<lambda>_. []) pair_graph [(0, 1)] (15/100) (1/100000) = Some (Inr r)
    \<and> 15/100 * seed_residual (n_nodes pair_graph) [(0, 1)] ! 0 \<le> entry (estimate r) 0"
proof (rule push_seed_survives)
  show "1/100000 * degree pair_graph ! 0 \<le> seed_residual (n_nodes pair_graph) [(0, 1)] ! 0"
    by (simp add: pair_graph_def from_weighted_triples_def seed_residual_def n_nodes_def in_range_def
        as_usize_def entry_add_def as_i32_small numeral_2_eq_2 Let_def)
qed (simp_all add: wf_pair_graph, simp add: pair_graph_def)

end
