(* ===== verification/Diffuse.thy ===== *)
theory Diffuse
  imports Push "HOL-Library.Multiset"
begin

text \<open>
  Seed construction and the CSAR retrieval entry point (\<open>crates/cognis-csar/src/diffuse.rs\<close>).
  A hash map of nodes to masses is a function; where the code iterates over one, the order is an
  argument \<open>iter\<close> that permutes the entries.
\<close>

definition DEFAULT_ALPHA :: f64 where "DEFAULT_ALPHA = 15/100"
definition DEFAULT_EPS :: f64 where "DEFAULT_EPS = 1/100000"

type_synonym seed_state = "nat list \<times> (nat \<rightharpoonup> f64)"

text \<open>The lowest and highest score of a non-empty layer.\<close>

definition score_lo :: "hit list \<Rightarrow> f64" where
  "score_lo hits = fold min (map score (tl hits)) (score (hd hits))"

definition score_hi :: "hit list \<Rightarrow> f64" where
  "score_hi hits = fold max (map score (tl hits)) (score (hd hits))"

definition norm_score :: "f64 \<Rightarrow> f64 \<Rightarrow> hit \<Rightarrow> f64" where
  "norm_score lo width h =
     (let x = (if width \<le> 0 then 1 else (score h - lo) / width) in if x \<le> 0 then 1/1000 else x)"

definition seed_hit :: "code_graph \<Rightarrow> f64 \<Rightarrow> f64 \<Rightarrow> hit \<Rightarrow> seed_state \<Rightarrow> seed_state" where
  "seed_hit g lo width h = (\<lambda>(order, raw).
     case index g (symbol_id h) of
       None \<Rightarrow> (order, raw)
     | Some node \<Rightarrow>
         (if raw node = None then order @ [node] else order,
          raw(node \<mapsto> (case raw node of None \<Rightarrow> 0 | Some x \<Rightarrow> x) + norm_score lo width h)))"

definition seed_layer :: "code_graph \<Rightarrow> hit list \<Rightarrow> seed_state \<Rightarrow> seed_state" where
  "seed_layer g hits st =
     (if hits = [] then st
      else let lo = score_lo hits; hi = score_hi hits in fold (seed_hit g lo (hi - lo)) hits st)"

definition build_seed_distribution :: "hit list list \<Rightarrow> code_graph \<Rightarrow> (int \<times> f64) list" where
  "build_seed_distribution hits_per_layer g =
     (let (order, raw) = fold (seed_layer g) hits_per_layer ([], Map.empty);
          total = fold (\<lambda>node t. t + the (raw node)) order 0
      in if total \<le> 0 then [] else map (\<lambda>node. (as_i32 node, the (raw node) / total)) order)"

definition csar_hit :: "code_graph \<Rightarrow> int list \<Rightarrow> f64 \<Rightarrow> int \<times> f64 \<Rightarrow> hit" where
  "csar_hit g seed_nodes alpha = (\<lambda>(node, s).
     let on_path = node \<notin> set seed_nodes
     in with_evidence
          (hit_new (node_ids g ! as_usize node) s ''csar''
             (''CSAR diffusion score '' @ fmt_fixed 6 s
                @ (if on_path then '' (reached via code flow)'' else '' (seed match)'')))
          (JObj [(''ppr'', JFloat s), (''ppr_score'', JFloat s), (''seed'', JBool (\<not> on_path)),
                 (''on_path'', JBool on_path), (''alpha'', JFloat alpha)]))"

definition rank_estimates :: "code_graph \<Rightarrow> (int \<times> f64) list \<Rightarrow> (int \<times> f64) list" where
  "rank_estimates g = sort_key (\<lambda>(node, s). (- s, node_ids g ! as_usize node))"

definition diffuse_seed_hits ::
  "(f64 \<Rightarrow> string) \<Rightarrow> ((int \<times> f64) list \<Rightarrow> (int \<times> f64) list) \<Rightarrow> code_graph \<Rightarrow> hit list list \<Rightarrow> nat
   \<Rightarrow> f64 \<Rightarrow> f64 \<Rightarrow> (cognis_error + hit list) option" where
  "diffuse_seed_hits show_f64 iter g hits_per_layer k alpha eps =
     (if is_empty g then Some (Inr [])
      else let seed = build_seed_distribution hits_per_layer g
           in if seed = [] then Some (Inr [])
              else map_option
                     (\<lambda>r. case r of
                            Inl e \<Rightarrow> Inl e
                          | Inr p \<Rightarrow>
                              if estimate p = [] then Inr []
                              else Inr (map (csar_hit g (map fst seed) alpha)
                                          (take k (rank_estimates g (iter (estimate p))))))
                     (approximate_ppr_push show_f64 g seed alpha eps))"

subsection \<open>The seed distribution\<close>

definition seed_inv :: "code_graph \<Rightarrow> seed_state \<Rightarrow> bool" where
  "seed_inv g = (\<lambda>(order, raw). distinct order \<and> set order = dom raw \<and> set order \<subseteq> ran (index g)
     \<and> (\<forall>x \<in> ran raw. 0 < x))"

lemma norm_score_pos: "0 < norm_score lo width h"
  by (auto simp: norm_score_def Let_def)

lemma seed_inv_hit: "seed_inv g st \<Longrightarrow> seed_inv g (seed_hit g lo width h st)"
proof (cases st)
  case (Pair order raw)
  assume inv: "seed_inv g st"
  show ?thesis
  proof (cases "index g (symbol_id h)")
    case None
    with inv Pair show ?thesis by (simp add: seed_hit_def)
  next
    case (Some node)
    have "node \<in> ran (index g)" using Some by (auto simp: ran_def)
    moreover have "0 < (case raw node of None \<Rightarrow> 0 | Some x \<Rightarrow> x) + norm_score lo width h"
    proof -
      have "0 \<le> (case raw node of None \<Rightarrow> 0 | Some x \<Rightarrow> x)"
        using inv Pair by (auto simp: seed_inv_def ran_def intro: less_imp_le split: option.splits)
      then show ?thesis using norm_score_pos [of lo width h] by linarith
    qed
    moreover have "ran (raw(node \<mapsto> y)) \<subseteq> insert y (ran raw)" for y
      by (auto simp: ran_def split: if_splits)
    ultimately show ?thesis
      using inv Pair Some by (fastforce simp: seed_inv_def seed_hit_def)
  qed
qed

lemma seed_inv_layer: "seed_inv g st \<Longrightarrow> seed_inv g (seed_layer g hits st)"
proof -
  have "seed_inv g st \<Longrightarrow> seed_inv g (fold (seed_hit g lo width) hs st)" for lo width hs st
    by (induction hs arbitrary: st) (simp_all add: seed_inv_hit)
  then show "seed_inv g st \<Longrightarrow> seed_inv g (seed_layer g hits st)"
    by (simp add: seed_layer_def Let_def)
qed

lemma seed_inv_layers: "seed_inv g st \<Longrightarrow> seed_inv g (fold (seed_layer g) ls st)"
  by (induction ls arbitrary: st) (simp_all add: seed_inv_layer)

lemma fold_total: "fold (\<lambda>node t. t + f node) order (t :: f64) = t + (\<Sum>node\<leftarrow>order. f node)"
  by (induction order arbitrary: t) auto

definition indexed :: "code_graph \<Rightarrow> bool" where
  "indexed g \<longleftrightarrow> ran (index g) \<subseteq> {..< n_nodes g} \<and> n_nodes g < 2 ^ 31"

lemma seed_distribution:
  assumes "indexed g" "build_seed_distribution ls g \<noteq> []"
  shows "distinct (map fst (build_seed_distribution ls g))"
    "\<forall>(u, m) \<in> set (build_seed_distribution ls g). in_range (n_nodes g) u \<and> 0 < m"
    "(\<Sum>(u, m)\<leftarrow>build_seed_distribution ls g. m) = 1"
proof -
  obtain order raw where st: "fold (seed_layer g) ls ([], Map.empty) = (order, raw)" by fastforce
  have inv: "seed_inv g (order, raw)"
    unfolding st [symmetric] by (rule seed_inv_layers) (simp add: seed_inv_def)
  define total where "total = (\<Sum>node\<leftarrow>order. the (raw node))"
  have seed: "build_seed_distribution ls g = map (\<lambda>node. (as_i32 node, the (raw node) / total)) order" "0 < total"
    using assms(2) by (auto simp: build_seed_distribution_def st fold_total total_def Let_def split: if_splits)
  have small: "node < n_nodes g \<and> as_i32 node = int node" if "node \<in> set order" for node
  proof -
    have "node < n_nodes g" using that inv assms(1) by (auto simp: seed_inv_def indexed_def)
    with assms(1) show ?thesis by (simp add: indexed_def as_i32_small)
  qed
  then have ids: "map fst (build_seed_distribution ls g) = map int order"
    by (simp add: seed)
  show "distinct (map fst (build_seed_distribution ls g))"
    unfolding ids using inv by (simp add: seed_inv_def distinct_map)
  have "0 < the (raw node)" if "node \<in> set order" for node
    using that inv by (auto simp: seed_inv_def dom_def ran_def)
  then show "\<forall>(u, m) \<in> set (build_seed_distribution ls g). in_range (n_nodes g) u \<and> 0 < m"
    using small seed by auto
  have "(\<Sum>node\<leftarrow>order. the (raw node) / t) = (\<Sum>node\<leftarrow>order. the (raw node)) / t" for t
    by (induction order) (simp_all add: add_divide_distrib)
  then have "(\<Sum>node\<leftarrow>order. the (raw node) / total) = total / total"
    by (simp add: total_def)
  then show "(\<Sum>(u, m)\<leftarrow>build_seed_distribution ls g. m) = 1"
    using seed by (simp add: o_def)
qed

subsection \<open>Ranking\<close>

lemma set_nonzero_entries:
  assumes "length xs < 2 ^ 31"
  shows "p \<in> set (nonzero_entries xs) \<longleftrightarrow> (\<exists>i < length xs. p = (int i, xs ! i) \<and> xs ! i \<noteq> 0)"
proof
  assume "p \<in> set (nonzero_entries xs)"
  then obtain i where "i < length xs" "p = (as_i32 i, xs ! i)" "xs ! i \<noteq> 0"
    by (auto simp: nonzero_entries_def in_set_enumerate_eq)
  with assms show "\<exists>i < length xs. p = (int i, xs ! i) \<and> xs ! i \<noteq> 0"
    using as_i32_small [of i] by auto
next
  assume "\<exists>i < length xs. p = (int i, xs ! i) \<and> xs ! i \<noteq> 0"
  then obtain i where i: "i < length xs" "p = (int i, xs ! i)" "xs ! i \<noteq> 0" by blast
  then have "as_i32 i = int i" using assms by (simp add: as_i32_small)
  moreover have "(i, xs ! i) \<in> set (enumerate 0 xs)" using i by (simp add: in_set_enumerate_eq)
  ultimately show "p \<in> set (nonzero_entries xs)"
    using i by (force simp: nonzero_entries_def)
qed

lemma distinct_nonzero_entries:
  assumes "length xs < 2 ^ 31"
  shows "distinct (nonzero_entries xs)"
proof -
  have "inj_on (\<lambda>(u, x). (as_i32 u, x)) (set (enumerate 0 xs))"
    using assms by (auto simp: inj_on_def in_set_enumerate_eq as_i32_small)
  moreover have "distinct (enumerate 0 xs)" by (rule distinct_enumerate)
  ultimately show ?thesis
    unfolding nonzero_entries_def by (auto simp: distinct_map inj_on_def)
qed

lemma node_name_inj:
  assumes "distinct (node_ids g)" "in_range (n_nodes g) u" "in_range (n_nodes g) v"
    "node_ids g ! as_usize u = node_ids g ! as_usize v"
  shows "u = v"
  using assms by (auto simp: in_range_iff n_nodes_def nth_eq_iff_index_eq)

lemma rank_estimates_iter:
  assumes "mset m' = mset m" "distinct (node_ids g)" "\<forall>p \<in> set m. in_range (n_nodes g) (fst p)"
  shows "rank_estimates g m' = rank_estimates g m"
  unfolding rank_estimates_def
proof (rule sort_key_inj_key_eq)
  show "mset m' = mset (sort_key (\<lambda>(node, s). (- s, node_ids g ! as_usize node)) m)"
    using assms(1) by simp
  show "inj_on (\<lambda>(node, s). (- s, node_ids g ! as_usize node)) (set m')"
  proof (rule inj_onI)
    fix p q assume pq: "p \<in> set m'" "q \<in> set m'"
      "(\<lambda>(node, s). (- s, node_ids g ! as_usize node)) p = (\<lambda>(node, s). (- s, node_ids g ! as_usize node)) q"
    then have "in_range (n_nodes g) (fst p)" "in_range (n_nodes g) (fst q)"
      using assms(3) mset_eq_setD [OF assms(1)] by auto
    with pq(3) have "fst p = fst q" "snd p = snd q"
      using node_name_inj [OF assms(2)] by (simp_all add: split_def)
    then show "p = q" by (rule prod_eqI)
  qed
qed simp

lemma csar_hit_simps [simp]:
  "symbol_id (csar_hit g sn a p) = node_ids g ! as_usize (fst p)" "score (csar_hit g sn a p) = snd p"
  by (simp_all add: csar_hit_def split_def Let_def)

lemma ranked_hits:
  assumes "distinct m" "\<forall>p \<in> set m. in_range (n_nodes g) (fst p) \<and> 0 < snd p" "distinct (node_ids g)"
    "inj_on fst (set m)" "hs = map (csar_hit g sn a) (take k (rank_estimates g m))"
  shows "length hs \<le> k \<and> distinct (map symbol_id hs) \<and> sorted (map (\<lambda>h. - score h) hs)
    \<and> (\<forall>h \<in> set hs. 0 < score h \<and> symbol_id h \<in> set (node_ids g))"
proof (intro conjI)
  let ?r = "rank_estimates g m"
  have set_r: "set ?r = set m" by (simp add: rank_estimates_def)
  have sub: "set (take k ?r) \<subseteq> set m" using set_take_subset [of k ?r] set_r by simp
  show "length hs \<le> k" by (simp add: assms(5))
  have "inj_on (\<lambda>p. node_ids g ! as_usize (fst p)) (set m)"
  proof (rule inj_onI)
    fix p q assume pq: "p \<in> set m" "q \<in> set m" "node_ids g ! as_usize (fst p) = node_ids g ! as_usize (fst q)"
    then have "fst p = fst q"
      using node_name_inj [OF assms(3)] assms(2) by blast
    with pq assms(4) show "p = q" by (simp add: inj_on_def)
  qed
  moreover have "distinct (take k ?r)" using assms(1) by (simp add: rank_estimates_def)
  ultimately show "distinct (map symbol_id hs)"
    using sub by (auto simp: assms(5) distinct_map o_def inj_on_def)
  have "sorted (map (\<lambda>(node, s). (- s, node_ids g ! as_usize node)) ?r)"
    by (simp add: rank_estimates_def)
  then have "sorted (map (\<lambda>p. - snd p) ?r)"
    by (auto simp: sorted_map split_def less_eq_prod_def elim!: sorted_wrt_mono_rel [rotated])
  then have "sorted (take k (map (\<lambda>p. - snd p) ?r))" by (rule sorted_wrt_take)
  then show "sorted (map (\<lambda>h. - score h) hs)"
    by (simp add: assms(5) o_def take_map)
  show "\<forall>h \<in> set hs. 0 < score h \<and> symbol_id h \<in> set (node_ids g)"
  proof
    fix h assume "h \<in> set hs"
    then obtain p where p: "p \<in> set m" "h = csar_hit g sn a p" using sub by (auto simp: assms(5))
    then have "in_range (n_nodes g) (fst p) \<and> 0 < snd p" using assms(2) by blast
    with p show "0 < score h \<and> symbol_id h \<in> set (node_ids g)"
      by (auto simp: in_range_iff n_nodes_def)
  qed
qed

lemma indexed_from_weighted_triples:
  "length ids < 2 ^ 31 \<Longrightarrow> indexed (from_weighted_triples ids ts s)"
  by (auto simp: indexed_def from_weighted_triples_simps ran_def dest: node_index_Some)

lemma diffuse_result:
  assumes "wf_graph g" "indexed g" "0 < alpha" "alpha \<le> 1" "0 < eps"
    "build_seed_distribution ls g \<noteq> []" "node_ids g \<noteq> []"
  obtains st where
    "\<And>iter. diffuse_seed_hits show_f64 iter g ls k alpha eps =
       Some (Inr (if nonzero_entries (est st) = [] then []
                  else map (csar_hit g (map fst (build_seed_distribution ls g)) alpha)
                         (take k (rank_estimates g (iter (nonzero_entries (est st)))))))"
    "push_inv g alpha eps (push_init g (build_seed_distribution ls g) eps) st" "active st = []"
    "push_loop g alpha eps (push_init g (build_seed_distribution ls g) eps) = Some st"
proof -
  have "\<forall>(u, m) \<in> set (build_seed_distribution ls g). 0 \<le> m"
    using seed_distribution(2) [OF assms(2,6)] by auto
  then obtain st where "approximate_ppr_push show_f64 g (build_seed_distribution ls g) alpha eps =
       Some (Inr \<lparr>estimate = nonzero_entries (est st), residual = nonzero_entries (res st),
                 pr_work = work st, pr_pushes = pushes st\<rparr>)"
    "push_inv g alpha eps (push_init g (build_seed_distribution ls g) eps) st" "active st = []"
    "push_loop g alpha eps (push_init g (build_seed_distribution ls g) eps) = Some st"
    using push_result [OF assms(1,3,4,5)] by blast
  then show ?thesis
    by (intro that [of st]) (use assms(6,7) in \<open>simp_all add: diffuse_seed_hits_def is_empty_def Let_def\<close>)
qed

subsection \<open>Properties\<close>

text \<open>
  A seed distribution is empty or sums to one; each of its nodes occurs once, is a node of the
  graph and has positive mass.
\<close>

theorem seed_distribution_normalised:
  assumes "indexed g" "build_seed_distribution ls g \<noteq> []"
  shows "(\<Sum>(u, m)\<leftarrow>build_seed_distribution ls g. m) = 1 \<and> distinct (map fst (build_seed_distribution ls g))
    \<and> (\<forall>(u, m) \<in> set (build_seed_distribution ls g). in_range (n_nodes g) u \<and> 0 < m)"
  using seed_distribution [OF assms] by blast

definition drop_graph :: code_graph where
  "drop_graph = from_weighted_triples [''a'', ''b'', ''c''] [(1, 2, 200)] True"

definition drop_hits :: "hit list list" where
  "drop_hits = [[hit_new ''a'' 1 ''lexical'' [], hit_new ''b'' 0 ''lexical'' []]]"

lemma wf_drop_graph: "wf_graph drop_graph" "indexed drop_graph" "distinct (node_ids drop_graph)"
  unfolding drop_graph_def
  by (rule wf_from_weighted_triples, simp, rule indexed_from_weighted_triples, simp,
      simp add: from_weighted_triples_simps)

lemma drop_seed: "build_seed_distribution drop_hits drop_graph = [(0, 1000/1001), (1, 1/1001)]"
  by (simp add: build_seed_distribution_def drop_hits_def drop_graph_def seed_layer_def seed_hit_def
      score_lo_def score_hi_def norm_score_def from_weighted_triples_simps node_index_def as_i32_small
      hit_new_def Let_def)

theorem seed_distribution_normalised_witness:
  "(\<Sum>(u, m)\<leftarrow>build_seed_distribution drop_hits drop_graph. m) = 1
    \<and> distinct (map fst (build_seed_distribution drop_hits drop_graph))
    \<and> list_all (\<lambda>(u, m). in_range (n_nodes drop_graph) u \<and> 0 < m) (build_seed_distribution drop_hits drop_graph)"
  unfolding list_all_iff
  by (rule seed_distribution_normalised) (simp_all add: wf_drop_graph drop_seed)

text \<open>
  Diffusion over a well-formed graph with distinct symbols returns at most k hits, one per
  symbol of the graph, in decreasing order of their positive scores, and the answer does not depend
  on the order in which the estimate map is iterated.
\<close>

theorem diffuse_seed_hits_ranked:
  assumes "wf_graph g" "indexed g" "distinct (node_ids g)" "0 < alpha" "alpha \<le> 1" "0 < eps"
    and "\<And>m. mset (iter m) = mset m"
  shows "\<exists>hs. diffuse_seed_hits show_f64 iter g ls k alpha eps = Some (Inr hs)
    \<and> diffuse_seed_hits show_f64 (\<lambda>m. m) g ls k alpha eps = Some (Inr hs)
    \<and> length hs \<le> k \<and> distinct (map symbol_id hs) \<and> sorted (map (\<lambda>h. - score h) hs)
    \<and> (\<forall>h \<in> set hs. 0 < score h \<and> symbol_id h \<in> set (node_ids g))"
proof (cases "node_ids g = [] \<or> build_seed_distribution ls g = []")
  case True
  then show ?thesis by (auto simp: diffuse_seed_hits_def is_empty_def Let_def)
next
  case False
  then have ne: "build_seed_distribution ls g \<noteq> []" "node_ids g \<noteq> []" by blast+
  obtain st where st: "\<And>iter. diffuse_seed_hits show_f64 iter g ls k alpha eps =
       Some (Inr (if nonzero_entries (est st) = [] then []
                  else map (csar_hit g (map fst (build_seed_distribution ls g)) alpha)
                         (take k (rank_estimates g (iter (nonzero_entries (est st)))))))"
    and inv: "push_inv g alpha eps (push_init g (build_seed_distribution ls g) eps) st"
    using diffuse_result [OF assms(1,2,4-6) ne] by blast
  let ?m = "nonzero_entries (est st)"
  have len: "length (est st) = n_nodes g" "length (est st) < 2 ^ 31"
    and pos: "\<forall>i < n_nodes g. 0 \<le> est st ! i"
    using inv assms(1) by (simp_all add: push_inv_def st_ok_def wf_graph_def)
  have m: "\<forall>p \<in> set ?m. in_range (n_nodes g) (fst p) \<and> 0 < snd p"
    using pos by (auto simp: set_nonzero_entries [OF len(2)] len(1) order_less_le)
  have "inj_on fst (set ?m)"
    by (auto simp: inj_on_def set_nonzero_entries [OF len(2)])
  then have "length hs \<le> k \<and> distinct (map symbol_id hs) \<and> sorted (map (\<lambda>h. - score h) hs)
      \<and> (\<forall>h \<in> set hs. 0 < score h \<and> symbol_id h \<in> set (node_ids g))"
    if "hs = map (csar_hit g (map fst (build_seed_distribution ls g)) alpha) (take k (rank_estimates g ?m))" for hs
    using ranked_hits [OF distinct_nonzero_entries [OF len(2)] m assms(3) _ that] by blast
  moreover have "rank_estimates g (iter ?m) = rank_estimates g ?m"
    using rank_estimates_iter [OF assms(7) assms(3)] m by blast
  ultimately show ?thesis
    using st [of iter] st [of "\<lambda>m. m"] by (cases "?m = []") simp_all
qed

theorem diffuse_seed_hits_ranked_witness:
  "\<exists>hs. diffuse_seed_hits (\<lambda>_. []) rev drop_graph drop_hits 10 (15/100) (1/100000) = Some (Inr hs)
    \<and> diffuse_seed_hits (\<lambda>_. []) (\<lambda>m. m) drop_graph drop_hits 10 (15/100) (1/100000) = Some (Inr hs)
    \<and> length hs \<le> 10 \<and> distinct (map symbol_id hs) \<and> sorted (map (\<lambda>h. - score h) hs)
    \<and> (\<forall>h \<in> set hs. 0 < score h \<and> symbol_id h \<in> set (node_ids drop_graph))"
  by (rule diffuse_seed_hits_ranked) (simp_all add: wf_drop_graph)

abbreviation drop_init :: push_state where
  "drop_init \<equiv> push_init drop_graph (build_seed_distribution drop_hits drop_graph) DEFAULT_EPS"

lemma drop_graph_facts:
  "n_nodes drop_graph = 3" "node_ids drop_graph = [''a'', ''b'', ''c'']"
  "degree drop_graph = [1, 200, 200]" "neighbors drop_graph 0 = ([0], [1])"
  by (simp_all add: drop_graph_def from_weighted_triples_def neighbors_def n_nodes_def slice_def
      entry_add_def as_i32_small numeral_2_eq_2 numeral_3_eq_3 Let_def)

lemma default_parameters: "0 < DEFAULT_ALPHA" "DEFAULT_ALPHA \<le> 1" "0 < DEFAULT_EPS"
  by (simp_all add: DEFAULT_ALPHA_def DEFAULT_EPS_def)

text \<open>Only \<open>a\<close> is ever pushed: the residual of \<open>b\<close> stays below its threshold and \<open>c\<close> has none.\<close>

definition drop_inv :: "push_state \<Rightarrow> bool" where
  "drop_inv st \<longleftrightarrow> st_ok drop_graph DEFAULT_EPS st \<and> est st ! 1 = 0 \<and> res st ! 1 = 1/1001 \<and> res st ! 2 = 0"

lemma drop_inv_init: "drop_inv drop_init"
proof -
  have "seed_residual 3 [(0, 1000/1001), (1, 1/1001)] = [1000/1001, 1/1001, 0]"
    by (simp add: seed_residual_def in_range_def numeral_3_eq_3)
  then have "res drop_init = [1000/1001, 1/1001, 0]" "est drop_init = [0, 0, 0]"
    by (simp_all add: drop_seed push_init_def drop_graph_facts Let_def split_def numeral_3_eq_3)
  moreover have "st_ok drop_graph DEFAULT_EPS drop_init"
    by (rule push_init_ok [OF wf_drop_graph(1) default_parameters(3)]) (simp add: drop_seed)
  ultimately show ?thesis by (simp add: drop_inv_def)
qed

lemma drop_inv_step:
  assumes "drop_inv s" "active s \<noteq> []"
  shows "drop_inv (push_step drop_graph DEFAULT_ALPHA DEFAULT_EPS s)"
proof -
  let ?s = "push_step drop_graph DEFAULT_ALPHA DEFAULT_EPS s"
  have okS: "st_ok drop_graph DEFAULT_EPS s" using assms(1) by (simp add: drop_inv_def)
  note step = push_step_ok [OF wf_drop_graph(1) default_parameters okS assms(2)]
  then have ok': "st_ok drop_graph DEFAULT_EPS ?s" by blast
  consider "est ?s = est s" "res ?s = res s"
    | u where "step_effect drop_graph DEFAULT_ALPHA DEFAULT_EPS s ?s u" using step by blast
  then show ?thesis
  proof cases
    case 1
    with assms(1) ok' show ?thesis by (simp add: drop_inv_def)
  next
    case 2
    then have "u < 3" "DEFAULT_EPS * degree drop_graph ! u \<le> res s ! u"
      by (simp_all add: step_effect_def drop_graph_facts)
    with assms(1) have "u = 0"
      by (auto simp: drop_inv_def drop_graph_facts DEFAULT_EPS_def less_Suc_eq numeral_3_eq_3 numeral_2_eq_2)
    moreover have "spread drop_graph (\<lambda>i. of_bool (i = 1)) 0 = 0" "spread drop_graph (\<lambda>i. of_bool (i = 2)) 0 = 0"
      by (simp_all add: spread_def drop_graph_facts)
    ultimately show ?thesis
      using assms(1) ok' step_effect_nth [OF 2 okS ok', of 1] step_effect_nth [OF 2 okS ok', of 2]
      by (simp add: drop_inv_def drop_graph_facts)
  qed
qed

lemma drop_run:
  assumes "push_loop drop_graph DEFAULT_ALPHA DEFAULT_EPS drop_init = Some st"
  shows "est st ! 1 = 0" "length (est st) = 3"
proof -
  have "drop_inv st"
    by (rule while_option_rule [where P = drop_inv, OF _ assms [unfolded push_loop_def]])
       (simp_all add: drop_inv_init drop_inv_step)
  then show "est st ! 1 = 0" "length (est st) = 3"
    by (simp_all add: drop_inv_def st_ok_def drop_graph_facts)
qed

lemma drop_estimate:
  assumes "est st ! 1 = 0" "length (est st) = 3"
  shows "fst ` set (nonzero_entries (est st)) \<subseteq> {0, 2}" "length (nonzero_entries (est st)) \<le> 2"
proof -
  let ?m = "nonzero_entries (est st)"
  have m: "p = (0, est st ! 0) \<or> p = (2, est st ! 2)" if p: "p \<in> set ?m" for p
  proof -
    obtain i where i: "i < 3" "p = (int i, est st ! i)" "est st ! i \<noteq> 0"
      using p set_nonzero_entries [of "est st" p] assms by auto
    then have "i = 0 \<or> i = 1 \<or> i = 2" by linarith
    with i(2,3) assms(1) show ?thesis by auto
  qed
  then show "fst ` set ?m \<subseteq> {0, 2}" by fastforce
  have "card (set ?m) \<le> card {(0 :: int, est st ! 0), (2, est st ! 2)}"
    using m by (intro card_mono) auto
  moreover have "distinct ?m" by (rule distinct_nonzero_entries) (simp add: assms)
  ultimately show "length ?m \<le> 2" by (simp add: distinct_card)
qed

text \<open>
  A seed can be dropped. In a three-node graph where \<open>b\<close> has degree 200, a layer with hits
  for \<open>a\<close> and \<open>b\<close> seeds both, but the mass of \<open>b\<close> stays below its push threshold: with the default
  parameters the answer has room for ten hits and does not contain \<open>b\<close>, although it was seeded
  with positive mass.
\<close>

theorem diffuse_drops_seed:
  "\<exists>hs. diffuse_seed_hits show_f64 (\<lambda>m. m) drop_graph drop_hits 10 DEFAULT_ALPHA DEFAULT_EPS = Some (Inr hs)
     \<and> length hs < 10 \<and> (1, 1/1001) \<in> set (build_seed_distribution drop_hits drop_graph)
     \<and> node_ids drop_graph ! 1 = ''b'' \<and> ''b'' \<notin> symbol_id ` set hs"
proof -
  let ?a = "DEFAULT_ALPHA" and ?e = "DEFAULT_EPS" and ?g = drop_graph
  have ne: "build_seed_distribution drop_hits ?g \<noteq> []" "node_ids ?g \<noteq> []"
    by (simp_all add: drop_seed drop_graph_facts)
  obtain st where st: "\<And>iter. diffuse_seed_hits show_f64 iter ?g drop_hits 10 ?a ?e =
       Some (Inr (if nonzero_entries (est st) = [] then []
                  else map (csar_hit ?g (map fst (build_seed_distribution drop_hits ?g)) ?a)
                         (take 10 (rank_estimates ?g (iter (nonzero_entries (est st)))))))"
    and loop: "push_loop ?g ?a ?e drop_init = Some st"
    using diffuse_result [OF wf_drop_graph(1,2) default_parameters ne] by blast
  let ?m = "nonzero_entries (est st)"
  note m = drop_estimate [OF drop_run [OF loop]]
  have names: "node_ids ?g ! as_usize (fst p) \<noteq> ''b''" if "p \<in> set ?m" for p
    using m(1) that by (auto simp: drop_graph_facts)
  have sub: "set (take 10 (rank_estimates ?g ?m)) \<subseteq> set ?m"
    using set_take_subset [of 10 "rank_estimates ?g ?m"] by (simp add: rank_estimates_def)
  let ?hs = "if ?m = [] then [] else map (csar_hit ?g (map fst (build_seed_distribution drop_hits ?g)) ?a)
      (take 10 (rank_estimates ?g ?m))"
  have "length ?hs < 10" using m(2) by (simp add: rank_estimates_def)
  moreover have "''b'' \<notin> symbol_id ` set ?hs" using names sub by (fastforce split: if_splits)
  ultimately show ?thesis
    using st [of "\<lambda>m. m"] by (intro exI [of _ ?hs]) (simp add: drop_seed drop_graph_facts)
qed

end
