(* ===== verification/Solvers.thy ===== *)
theory Solvers
  imports Push
begin

text \<open>
  The reference solvers of personalized PageRank (\<open>crates/cognis-csar/src/solvers.rs\<close>): the dense
  transition matrix, the exact solution by Gaussian elimination with partial pivoting, and power
  iteration. A matrix is the flat row-major list of the code. The properties compare the three
  solvers with each other: exact elimination is correct and never meets a singular operator, power
  iteration converges to its answer, and forward push stays within its residuals of it.
\<close>

definition DEFAULT_TOL :: f64 where "DEFAULT_TOL = 1 / 10 ^ 10"
definition DEFAULT_MAX_ITER :: nat where "DEFAULT_MAX_ITER = 1000"

text \<open>The entry of row \<open>i\<close> and column \<open>j\<close> of a matrix with \<open>n\<close> columns.\<close>

definition cell :: "nat \<Rightarrow> 'a list \<Rightarrow> nat \<Rightarrow> nat \<Rightarrow> 'a" where
  "cell n m i j = m ! (i * n + j)"

definition transition_column :: "code_graph \<Rightarrow> nat \<Rightarrow> f64 list \<Rightarrow> f64 list" where
  "transition_column g u p =
     (let n = n_nodes g; d_u = degree g ! u; (ix, ws) = neighbors g u
      in if d_u \<le> 0 then p
         else fold (\<lambda>(v, w) p. let k = as_usize v * n + u in p[k := p ! k + w / d_u]) (zip ix ws) p)"

definition transition_matrix :: "code_graph \<Rightarrow> f64 list" where
  "transition_matrix g =
     fold (transition_column g) [0 ..< n_nodes g] (replicate (n_nodes g * n_nodes g) 0)"

text \<open>The argument checks of both solvers.\<close>

definition ppr_args :: "(f64 \<Rightarrow> string) \<Rightarrow> f64 list \<Rightarrow> f64 list \<Rightarrow> f64 \<Rightarrow> cognis_error option" where
  "ppr_args show_f64 matrix seed alpha =
     (if \<not> (0 < alpha \<and> alpha \<le> 1)
      then Some (RetrievalError (''alpha must be in (0, 1]; got '' @ show_f64 alpha))
      else if length matrix \<noteq> length seed * length seed
      then Some (RetrievalError (''matrix has '' @ show_nat (length matrix) @ '' entries; expected ''
             @ show_nat (length seed * length seed) @ '' for seed of length '' @ show_nat (length seed)))
      else None)"

subsection \<open>Gaussian elimination\<close>

definition find_pivot :: "nat \<Rightarrow> f64 list \<Rightarrow> nat \<Rightarrow> nat \<times> f64" where
  "find_pivot n m col =
     fold (\<lambda>row (pivot, best). let v = \<bar>cell n m row col\<bar> in if best < v then (row, v) else (pivot, best))
       [col + 1 ..< n] (col, \<bar>cell n m col col\<bar>)"

definition swap_at :: "nat \<Rightarrow> nat \<Rightarrow> 'a list \<Rightarrow> 'a list" where
  "swap_at i j xs = xs[i := xs ! j, j := xs ! i]"

definition swap_rows :: "nat \<Rightarrow> nat \<Rightarrow> nat \<Rightarrow> 'a list \<Rightarrow> 'a list" where
  "swap_rows n r s m = fold (\<lambda>j. swap_at (r * n + j) (s * n + j)) [0 ..< n] m"

type_synonym linear_system = "f64 list \<times> f64 list"

definition eliminate_row :: "nat \<Rightarrow> nat \<Rightarrow> nat \<Rightarrow> linear_system \<Rightarrow> linear_system" where
  "eliminate_row n col row = (\<lambda>(m, b).
     let factor = cell n m row col / cell n m col col
     in if factor = 0 then (m, b)
        else (fold (\<lambda>j m. m[row * n + j := cell n m row j - factor * cell n m col j]) [col ..< n] m,
              b[row := b ! row - factor * b ! col]))"

definition eliminate_column :: "nat \<Rightarrow> nat \<Rightarrow> linear_system \<Rightarrow> cognis_error + linear_system" where
  "eliminate_column n col = (\<lambda>(m, b).
     let (pivot, best) = find_pivot n m col
     in if best = 0 then Inl (RetrievalError ''singular operator in exact PPR solve'')
        else let (m, b) = if pivot \<noteq> col then (swap_rows n col pivot m, swap_at col pivot b) else (m, b)
             in Inr (fold (eliminate_row n col) [col + 1 ..< n] (m, b)))"

fun eliminate :: "nat \<Rightarrow> nat list \<Rightarrow> linear_system \<Rightarrow> cognis_error + linear_system" where
  "eliminate n [] s = Inr s"
| "eliminate n (col # cols) s =
     (case eliminate_column n col s of Inl e \<Rightarrow> Inl e | Inr s \<Rightarrow> eliminate n cols s)"

definition substitute_row :: "nat \<Rightarrow> f64 list \<Rightarrow> f64 list \<Rightarrow> nat \<Rightarrow> f64 list \<Rightarrow> f64 list" where
  "substitute_row n m b row x =
     x[row := fold (\<lambda>j acc. acc - cell n m row j * x ! j) [row + 1 ..< n] (b ! row) / cell n m row row]"

definition gaussian_solve :: "f64 list \<Rightarrow> f64 list \<Rightarrow> nat \<Rightarrow> cognis_error + f64 list" where
  "gaussian_solve m b n =
     (case eliminate n [0 ..< n] (m, b) of
        Inl e \<Rightarrow> Inl e
      | Inr (m, b) \<Rightarrow> Inr (fold (substitute_row n m b) (rev [0 ..< n]) (replicate n 0)))"

definition ppr_operator :: "nat \<Rightarrow> f64 \<Rightarrow> f64 list \<Rightarrow> f64 list" where
  "ppr_operator n alpha matrix =
     concat (map (\<lambda>i. map (\<lambda>j. (if i = j then 1 else 0) - (1 - alpha) * cell n matrix i j) [0 ..< n]) [0 ..< n])"

definition personalized_pagerank_exact ::
  "(f64 \<Rightarrow> string) \<Rightarrow> f64 list \<Rightarrow> f64 list \<Rightarrow> f64 \<Rightarrow> cognis_error + f64 list" where
  "personalized_pagerank_exact show_f64 matrix seed alpha =
     (case ppr_args show_f64 matrix seed alpha of
        Some e \<Rightarrow> Inl e
      | None \<Rightarrow> gaussian_solve (ppr_operator (length seed) alpha matrix) (map (\<lambda>s. alpha * s) seed) (length seed))"

subsection \<open>Power iteration\<close>

definition power_step :: "f64 list \<Rightarrow> f64 list \<Rightarrow> f64 \<Rightarrow> f64 list \<Rightarrow> f64 list" where
  "power_step matrix seed alpha r =
     (let n = length seed
      in map (\<lambda>i. alpha * seed ! i + (1 - alpha) * fold (\<lambda>j acc. acc + cell n matrix i j * r ! j) [0 ..< n] 0) [0 ..< n])"

fun power_loop :: "f64 list \<Rightarrow> f64 list \<Rightarrow> f64 \<Rightarrow> f64 \<Rightarrow> nat list \<Rightarrow> f64 list \<times> nat \<Rightarrow> f64 list \<times> nat" where
  "power_loop matrix seed alpha tol [] (r, iterations) = (r, iterations)"
| "power_loop matrix seed alpha tol (step # steps) (r, iterations) =
     (let nxt = power_step matrix seed alpha r;
          delta = (\<Sum>(a, b)\<leftarrow>zip nxt r. \<bar>a - b\<bar>)
      in if delta \<le> tol then (nxt, step) else power_loop matrix seed alpha tol steps (nxt, step))"

definition personalized_pagerank_power ::
  "(f64 \<Rightarrow> string) \<Rightarrow> f64 list \<Rightarrow> f64 list \<Rightarrow> f64 \<Rightarrow> f64 \<Rightarrow> nat \<Rightarrow> cognis_error + f64 list \<times> nat" where
  "personalized_pagerank_power show_f64 matrix seed alpha tol max_iter =
     (case ppr_args show_f64 matrix seed alpha of
        Some e \<Rightarrow> Inl e
      | None \<Rightarrow> Inr (power_loop matrix seed alpha tol [1 ..< max_iter + 1] (seed, 0)))"

subsection \<open>Flat matrices\<close>

lemma flat_less: "i < n \<Longrightarrow> j < n \<Longrightarrow> i * n + j < n * n" for i j n :: nat
proof -
  assume "i < n" "j < n"
  then have "Suc i * n \<le> n * n" by (intro mult_le_mono1) simp
  with \<open>j < n\<close> show ?thesis by simp
qed

lemma flat_inj: "j < n \<Longrightarrow> l < n \<Longrightarrow> i * n + j = k * n + l \<longleftrightarrow> i = k \<and> j = l" for i j k l n :: nat
  by (metis add.commute div_mult_self3 mod_less mod_mult_self3 add_left_cancel div_less add_0_right
      less_nat_zero_code)

lemma cell_update:
  assumes "length m = n * n" "i < n" "j < n" "k < n" "l < n"
  shows "cell n (m[k * n + l := x]) i j = (if i = k \<and> j = l then x else cell n m i j)"
  using assms flat_less [of k n l] flat_inj [of j n l i k] by (auto simp: cell_def nth_list_update)


lemma length_swap_at [simp]: "length (swap_at i j xs) = length xs"
  by (simp add: swap_at_def)

lemma length_fold: "(\<And>x xs. length (f x xs) = length xs) \<Longrightarrow> length (fold f ys xs) = length xs"
  by (induction ys arbitrary: xs) auto

lemma length_swap_rows [simp]: "length (swap_rows n r s m) = length m"
  unfolding swap_rows_def by (rule length_fold) simp

lemma cell_swap_prefix:
  assumes "length m = n * n" "r < n" "s < n" "r \<noteq> s" "k \<le> n" "i < n" "j < n"
  shows "cell n (fold (\<lambda>j. swap_at (r * n + j) (s * n + j)) [0 ..< k] m) i j =
    (if j < k then cell n m (if i = r then s else if i = s then r else i) j else cell n m i j)"
  using assms(5-7)
proof (induction k arbitrary: i j)
  case (Suc k)
  let ?m = "fold (\<lambda>j. swap_at (r * n + j) (s * n + j)) [0 ..< k] m"
  have len: "length ?m = n * n" using assms(1) by (simp add: length_fold)
  have k: "k < n" using Suc.prems by simp
  have len': "length (?m[r * n + k := ?m ! (s * n + k)]) = n * n" using len by simp
  have "swap_at (r * n + k) (s * n + k) ?m =
      ?m[r * n + k := cell n ?m s k, s * n + k := cell n ?m r k]"
    by (simp add: swap_at_def cell_def)
  then have "cell n (swap_at (r * n + k) (s * n + k) ?m) i j =
      (if i = s \<and> j = k then cell n ?m r k else if i = r \<and> j = k then cell n ?m s k else cell n ?m i j)"
    using cell_update [OF len' _ _ assms(3) k] cell_update [OF len _ _ assms(2) k] Suc.prems
    by (simp add: cell_def [of n _ s k, symmetric])
  then show ?case
    using Suc.IH [of r k] Suc.IH [of s k] Suc.IH [of i j] Suc.prems assms(2-4) by (auto simp: less_Suc_eq)
qed simp

lemma cell_swap_rows:
  assumes "length m = n * n" "r < n" "s < n" "r \<noteq> s" "i < n" "j < n"
  shows "cell n (swap_rows n r s m) i j = cell n m (if i = r then s else if i = s then r else i) j"
  using cell_swap_prefix [OF assms(1-4) order_refl assms(5,6)] assms(6) by (simp add: swap_rows_def)

lemma nth_swap_at:
  "r < length b \<Longrightarrow> s < length b \<Longrightarrow> i < length b \<Longrightarrow>
   swap_at r s b ! i = b ! (if i = r then s else if i = s then r else i)"
  by (auto simp: swap_at_def nth_list_update)

lemma cell_eliminate_prefix:
  assumes "length m = n * n" "row < n" "col < row" "k \<le> n" "i < n" "j < n"
  shows "cell n (fold (\<lambda>j m. m[row * n + j := cell n m row j - f * cell n m col j]) [col ..< k] m) i j =
    (if i = row \<and> col \<le> j \<and> j < k then cell n m row j - f * cell n m col j else cell n m i j)"
  using assms(4-6)
proof (induction k arbitrary: i j)
  case (Suc k)
  let ?m = "fold (\<lambda>j m. m[row * n + j := cell n m row j - f * cell n m col j]) [col ..< k] m"
  have len: "length ?m = n * n" using assms(1) by (simp add: length_fold)
  have k: "k < n" "col < n" using Suc.prems assms(2,3) by auto
  show ?case
  proof (cases "col \<le> k")
    case True
    have "cell n ?m row k = cell n m row k" "cell n ?m col k = cell n m col k"
      using Suc.IH [of row k] Suc.IH [of col k] k assms(2,3) by simp_all
    then show ?thesis
      using True cell_update [OF len Suc.prems(2,3) assms(2) k(1)] Suc.IH [of i j] Suc.prems
      by (auto simp: less_Suc_eq)
  next
    case False
    with Suc.IH [of i j] Suc.prems show ?thesis by auto
  qed
qed simp

lemma eliminate_row_simps:
  assumes "length m = n * n" "length b = n" "row < n" "col < row"
    "eliminate_row n col row (m, b) = (m', b')"
  defines "f \<equiv> cell n m row col / cell n m col col"
  shows "length m' = n * n" "length b' = n"
    "\<And>i j. i < n \<Longrightarrow> j < n \<Longrightarrow>
      cell n m' i j = (if i = row \<and> col \<le> j then cell n m row j - f * cell n m col j else cell n m i j)"
    "\<And>i. i < n \<Longrightarrow> b' ! i = (if i = row then b ! row - f * b ! col else b ! i)"
proof -
  let ?m = "fold (\<lambda>j m. m[row * n + j := cell n m row j - f * cell n m col j]) [col ..< n] m"
  have eq: "(m', b') = (if f = 0 then (m, b) else (?m, b[row := b ! row - f * b ! col]))"
    using assms(5) unfolding eliminate_row_def f_def Let_def by simp
  show "length m' = n * n" "length b' = n"
    using eq assms(1,2) by (simp_all add: length_fold split: if_splits)
  show "cell n m' i j = (if i = row \<and> col \<le> j then cell n m row j - f * cell n m col j else cell n m i j)"
    if "i < n" "j < n" for i j
    using eq that cell_eliminate_prefix [OF assms(1,3,4) order_refl that, of f] by (cases "f = 0") auto
  show "b' ! i = (if i = row then b ! row - f * b ! col else b ! i)" if "i < n" for i
    using eq that assms(2) by (cases "f = 0") (simp_all add: nth_list_update)
qed

text \<open>
  A vector solves the system when every row holds; the invariant of the elimination is that the
  columns already done are zero below a non-zero diagonal.
\<close>

definition solves :: "nat \<Rightarrow> linear_system \<Rightarrow> (nat \<Rightarrow> f64) \<Rightarrow> bool" where
  "solves n = (\<lambda>(m, b) x. \<forall>i < n. (\<Sum>j < n. cell n m i j * x j) = b ! i)"

definition reduced :: "nat \<Rightarrow> nat \<Rightarrow> linear_system \<Rightarrow> bool" where
  "reduced n col = (\<lambda>(m, b). length m = n * n \<and> length b = n
     \<and> (\<forall>j < col. \<forall>i < n. j < i \<longrightarrow> cell n m i j = 0) \<and> (\<forall>j < col. cell n m j j \<noteq> 0))"

lemma solves_row_op:
  assumes "k < n" "l < n" "k \<noteq> l"
    and "\<And>i j. i < n \<Longrightarrow> j < n \<Longrightarrow> cell n m' i j = (if i = k then cell n m k j - f * cell n m l j else cell n m i j)"
    and "\<And>i. i < n \<Longrightarrow> b' ! i = (if i = k then b ! k - f * b ! l else b ! i)"
  shows "solves n (m', b') x \<longleftrightarrow> solves n (m, b) x"
proof -
  let ?s = "\<lambda>m i. \<Sum>j < n. cell n m i j * x j"
  have k: "?s m' k = ?s m k - f * ?s m l"
    using assms(1,4) by (simp add: left_diff_distrib sum_subtractf sum_distrib_left mult.assoc)
  have i: "?s m' i = ?s m i" if "i < n" "i \<noteq> k" for i
    using assms(4) that by simp
  show ?thesis
  proof
    assume s: "solves n (m', b') x"
    have l: "?s m l = b ! l" using s i [OF assms(2)] assms(2,3,5) by (simp add: solves_def)
    have "?s m' k = b ! k - f * b ! l" using s assms(1,5) by (simp add: solves_def)
    with k l have "?s m k = b ! k" by simp
    with s i assms(5) show "solves n (m, b) x" by (auto simp: solves_def) metis
  next
    assume "solves n (m, b) x"
    with k i assms(1,2,5) show "solves n (m', b') x" by (simp add: solves_def)
  qed
qed


definition null_vector :: "nat \<Rightarrow> f64 list \<Rightarrow> (nat \<Rightarrow> f64) \<Rightarrow> bool" where
  "null_vector n m = solves n (m, replicate n 0)"

text \<open>Two systems with the same solutions, and whose matrices have the same null vectors.\<close>

definition same_solutions :: "nat \<Rightarrow> linear_system \<Rightarrow> linear_system \<Rightarrow> bool" where
  "same_solutions n s t \<longleftrightarrow> solves n s = solves n t \<and> null_vector n (fst s) = null_vector n (fst t)"

lemma same_solutions_refl [simp]: "same_solutions n s s"
  by (simp add: same_solutions_def)

lemma same_solutions_trans: "same_solutions n s t \<Longrightarrow> same_solutions n t u \<Longrightarrow> same_solutions n s u"
  by (simp add: same_solutions_def)

definition cleared :: "nat \<Rightarrow> nat \<Rightarrow> nat \<Rightarrow> linear_system \<Rightarrow> bool" where
  "cleared n col row = (\<lambda>(m, b). reduced n col (m, b) \<and> cell n m col col \<noteq> 0
     \<and> (\<forall>i. col < i \<and> i < row \<longrightarrow> cell n m i col = 0))"

lemma eliminate_row_cleared:
  assumes "cleared n col row s" "col < row" "row < n"
  shows "cleared n col (Suc row) (eliminate_row n col row s)"
    "same_solutions n (eliminate_row n col row s) s"
proof -
  obtain m b m' b' where s: "s = (m, b)" "eliminate_row n col row (m, b) = (m', b')"
    by (cases s; cases "eliminate_row n col row s") auto
  let ?f = "cell n m row col / cell n m col col"
  have len: "length m = n * n" "length b = n"
    and zero: "\<And>j i. j < col \<Longrightarrow> i < n \<Longrightarrow> j < i \<Longrightarrow> cell n m i j = 0"
    and diag: "\<And>j. j < col \<Longrightarrow> cell n m j j \<noteq> 0" "cell n m col col \<noteq> 0"
    and below: "\<And>i. col < i \<Longrightarrow> i < row \<Longrightarrow> cell n m i col = 0"
    using assms(1) by (simp_all add: s(1) cleared_def reduced_def)
  note e = eliminate_row_simps [OF len assms(3,2) s(2)]
  have full: "cell n m' i j = (if i = row then cell n m row j - ?f * cell n m col j else cell n m i j)"
    if "i < n" "j < n" for i j
    using e(3) [OF that] zero [of j row] zero [of j col] assms(2,3) by auto
  show "cleared n col (Suc row) (eliminate_row n col row s)"
    using e(1,2) zero diag below assms(2,3) full
    by (auto simp: s cleared_def reduced_def less_Suc_eq)
  have "solves n (m', b') x \<longleftrightarrow> solves n (m, b) x"
    "solves n (m', replicate n 0) x \<longleftrightarrow> solves n (m, replicate n 0) x" for x
    by (rule solves_row_op [of row n col _ _ ?f]; use assms full e(4) in auto)+
  then show "same_solutions n (eliminate_row n col row s) s"
    by (auto simp: s same_solutions_def null_vector_def)
qed

lemma eliminate_rows_cleared:
  assumes "cleared n col (Suc col) s" "k \<le> n" "col < k"
  shows "cleared n col k (fold (eliminate_row n col) [Suc col ..< k] s)
    \<and> same_solutions n (fold (eliminate_row n col) [Suc col ..< k] s) s"
  using assms(2,3)
proof (induction k)
  case (Suc k)
  show ?case
  proof (cases "col = k")
    case True
    with assms(1) show ?thesis by simp
  next
    case False
    with Suc eliminate_row_cleared [of n col k "fold (eliminate_row n col) [Suc col ..< k] s"]
    show ?thesis by (auto intro: same_solutions_trans)
  qed
qed simp

lemma find_pivot_max:
  assumes "col < n" "find_pivot n m col = (pivot, best)"
  shows "col \<le> pivot" "pivot < n" "best = \<bar>cell n m pivot col\<bar>"
    "\<And>i. col \<le> i \<Longrightarrow> i < n \<Longrightarrow> \<bar>cell n m i col\<bar> \<le> best"
proof -
  let ?f = "\<lambda>row (pivot, best). let v = \<bar>cell n m row col\<bar> in if best < v then (row, v) else (pivot, best)"
  let ?P = "\<lambda>k (p, b). col \<le> p \<and> p < k \<and> b = \<bar>cell n m p col\<bar> \<and> (\<forall>i. col \<le> i \<and> i < k \<longrightarrow> \<bar>cell n m i col\<bar> \<le> b)"
  have "?P k (fold ?f [Suc col ..< k] (col, \<bar>cell n m col col\<bar>))" if "col < k" for k
    using that
  proof (induction k)
    case (Suc k)
    show ?case
    proof (cases "col = k")
      case False
      then have "col < k" using Suc.prems by simp
      with Suc.IH show ?thesis
        by (auto simp: Let_def less_Suc_eq split: prod.splits intro: order_trans less_imp_le)
    qed (auto simp: le_less_Suc_eq)
  qed simp
  from this [OF assms(1)] have "?P n (find_pivot n m col)"
    by (simp add: find_pivot_def)
  then have "case (pivot, best) of (p, b) \<Rightarrow> col \<le> p \<and> p < n \<and> b = \<bar>cell n m p col\<bar>
      \<and> (\<forall>i. col \<le> i \<and> i < n \<longrightarrow> \<bar>cell n m i col\<bar> \<le> b)"
    unfolding assms(2) .
  then show "col \<le> pivot" "pivot < n" "best = \<bar>cell n m pivot col\<bar>"
    "\<And>i. col \<le> i \<Longrightarrow> i < n \<Longrightarrow> \<bar>cell n m i col\<bar> \<le> best"
    unfolding prod.case by blast+
qed

lemma swap_rows_reduced:
  assumes "reduced n col (m, b)" "col < pivot" "pivot < n"
  shows "reduced n col (swap_rows n col pivot m, swap_at col pivot b)"
    "solves n (swap_rows n col pivot m, swap_at col pivot b) x \<longleftrightarrow> solves n (m, b) x"
    "cell n (swap_rows n col pivot m) col col = cell n m pivot col"
proof -
  have len: "length m = n * n" "length b = n" using assms(1) by (simp_all add: reduced_def)
  let ?p = "\<lambda>i. if i = col then pivot else if i = pivot then col else i"
  have cells: "cell n (swap_rows n col pivot m) i j = cell n m (?p i) j" if "i < n" "j < n" for i j
    using cell_swap_rows [OF len(1), of col pivot i j] assms(2,3) that by simp
  have vec: "swap_at col pivot b ! i = b ! ?p i" if "i < n" for i
    using nth_swap_at [of col b pivot i] len assms(2,3) that by simp
  show "cell n (swap_rows n col pivot m) col col = cell n m pivot col"
    using cells [of col col] assms by simp
  show "reduced n col (swap_rows n col pivot m, swap_at col pivot b)"
    using assms len cells by (auto simp: reduced_def)
  have row: "(\<Sum>j < n. cell n (swap_rows n col pivot m) i j * x j) = swap_at col pivot b ! i \<longleftrightarrow>
      (\<Sum>j < n. cell n m (?p i) j * x j) = b ! ?p i" if "i < n" for i
    using cells vec that by simp
  have "?p i < n" "?p (?p i) = i" if "i < n" for i using that assms by auto
  then have perm: "(\<forall>i < n. Q (?p i)) \<longleftrightarrow> (\<forall>i < n. Q i)" for Q by metis
  have "solves n (swap_rows n col pivot m, swap_at col pivot b) x \<longleftrightarrow>
      (\<forall>i < n. (\<Sum>j < n. cell n m (?p i) j * x j) = b ! ?p i)"
    unfolding solves_def using row by blast
  also have "\<dots> \<longleftrightarrow> solves n (m, b) x"
    unfolding solves_def using perm [of "\<lambda>i. (\<Sum>j < n. cell n m i j * x j) = b ! i"] by blast
  finally show "solves n (swap_rows n col pivot m, swap_at col pivot b) x \<longleftrightarrow> solves n (m, b) x" .
qed


lemma swap_rows_same:
  assumes "reduced n col (m, b)" "col < pivot" "pivot < n"
  shows "same_solutions n (swap_rows n col pivot m, swap_at col pivot b) (m, b)"
proof -
  have "swap_at col pivot (replicate n 0) = replicate n (0 :: f64)"
    using assms by (intro nth_equalityI) (auto simp: nth_swap_at)
  moreover have "reduced n col (m, replicate n 0)" using assms(1) by (simp add: reduced_def)
  ultimately have "null_vector n (swap_rows n col pivot m) x \<longleftrightarrow> null_vector n m x" for x
    using swap_rows_reduced(2) [of n col m "replicate n 0" pivot x] assms(2,3) by (simp add: null_vector_def)
  then show ?thesis
    using swap_rows_reduced(2) [OF assms] by (auto simp: same_solutions_def)
qed

lemma upper_solvable:
  fixes a :: "nat \<Rightarrow> nat \<Rightarrow> f64"
  assumes "\<forall>j < k. a j j \<noteq> 0"
  shows "\<exists>x. \<forall>i < k. (\<Sum>j = i ..< k. a i j * x j) = c i"
  using assms
proof (induction k arbitrary: c)
  case (Suc k)
  let ?z = "c k / a k k"
  obtain x where x: "\<forall>i < k. (\<Sum>j = i ..< k. a i j * x j) = c i - a i k * ?z"
    using Suc.IH [of "\<lambda>i. c i - a i k * ?z"] Suc.prems by auto
  have "(\<Sum>j = i ..< Suc k. a i j * (x(k := ?z)) j) = c i" if "i < Suc k" for i
  proof (cases "i = k")
    case True
    with Suc.prems show ?thesis by simp
  next
    case False
    have "(\<Sum>j = i ..< k. a i j * (x(k := ?z)) j) = (\<Sum>j = i ..< k. a i j * x j)" by (rule sum.cong) auto
    with False that x show ?thesis by simp
  qed
  then show ?case by blast
qed simp

lemma upper_row: "(i :: nat) < n \<Longrightarrow> \<forall>j < i. a j = 0 \<Longrightarrow> (\<Sum>j < n. a j * x j) = (\<Sum>j = i ..< n. a j * x j :: f64)"
  by (rule sum.mono_neutral_right) (auto simp: not_le)

text \<open>Where no pivot is found the matrix has a non-zero null vector.\<close>

lemma no_pivot_singular:
  assumes "reduced n col (m, b)" "col < n" "\<forall>i. col \<le> i \<and> i < n \<longrightarrow> cell n m i col = 0"
  shows "\<exists>x. null_vector n m x \<and> x col = 1"
proof -
  obtain y where y: "\<forall>i < col. (\<Sum>j = i ..< col. cell n m i j * y j) = - cell n m i col"
    using upper_solvable [of col "cell n m" "\<lambda>i. - cell n m i col"] assms(1) by (auto simp: reduced_def)
  define x where "x = (\<lambda>j. if j < col then y j else of_bool (j = col))"
  have row: "(\<Sum>j < n. cell n m i j * x j) = (\<Sum>j < col. cell n m i j * y j) + cell n m i col" for i
  proof -
    have "(\<Sum>j < n. cell n m i j * x j) = (\<Sum>j < Suc col. cell n m i j * x j)"
      by (rule sum.mono_neutral_right) (use assms(2) in \<open>auto simp: x_def\<close>)
    then show ?thesis by (simp add: x_def)
  qed
  have zero: "cell n m i j = 0" if "i < n" "j < col" "j < i" for i j
    using assms(1) that by (simp add: reduced_def)
  have "(\<Sum>j < n. cell n m i j * x j) = 0" if i: "i < n" for i
  proof (cases "i < col")
    case True
    then have "(\<Sum>j < col. cell n m i j * y j) = - cell n m i col"
      using y i zero upper_row [of i col "cell n m i" y] by simp
    with row show ?thesis by simp
  next
    case False
    with zero i assms(3) row [of i] show ?thesis by simp
  qed
  then have "null_vector n m x" by (simp add: null_vector_def solves_def)
  moreover have "x col = 1" by (simp add: x_def)
  ultimately show ?thesis by blast
qed

lemma eliminate_column_ok:
  assumes "reduced n col s" "col < n" "\<forall>x. null_vector n (fst s) x \<longrightarrow> (\<forall>i < n. x i = 0)"
  shows "\<exists>t. eliminate_column n col s = Inr t \<and> reduced n (Suc col) t \<and> same_solutions n t s"
proof -
  obtain m b where s: "s = (m, b)" by (cases s)
  obtain pivot best where p: "find_pivot n m col = (pivot, best)" by fastforce
  note max = find_pivot_max [OF assms(2) p]
  have best: "best \<noteq> 0"
  proof
    assume "best = 0"
    then obtain x where "null_vector n m x" "x col = 1"
      using no_pivot_singular [of n col m b] assms(1,2) max(4) by (force simp: s)
    with assms(2,3) s have "x col = 0" by auto
    with \<open>x col = 1\<close> show False by simp
  qed
  let ?t = "if pivot \<noteq> col then (swap_rows n col pivot m, swap_at col pivot b) else (m, b)"
  have t: "cleared n col (Suc col) ?t" "same_solutions n ?t s"
    using assms(1) max(1-3) best swap_rows_reduced(1,3) [of n col m b pivot] swap_rows_same [of n col m b pivot]
    by (auto simp: s cleared_def)
  have "reduced n (Suc col) (fold (eliminate_row n col) [Suc col ..< n] ?t)"
    using eliminate_rows_cleared [OF t(1) order_refl assms(2)] by (auto simp: cleared_def reduced_def less_Suc_eq)
  moreover have "same_solutions n (fold (eliminate_row n col) [Suc col ..< n] ?t) s"
    using eliminate_rows_cleared [OF t(1) order_refl assms(2)] t(2) by (blast intro: same_solutions_trans)
  ultimately show ?thesis using best p by (auto simp: eliminate_column_def s)
qed


lemma eliminate_ok:
  assumes "reduced n col s" "col \<le> n" "\<forall>x. null_vector n (fst s) x \<longrightarrow> (\<forall>i < n. x i = 0)"
  shows "\<exists>t. eliminate n [col ..< n] s = Inr t \<and> reduced n n t \<and> same_solutions n t s"
  using assms
proof (induction "n - col" arbitrary: col s)
  case (Suc k)
  then have col: "col < n" by simp
  obtain t where t: "eliminate_column n col s = Inr t" "reduced n (Suc col) t" "same_solutions n t s"
    using eliminate_column_ok [OF Suc.prems(1) col Suc.prems(3)] by blast
  have "\<exists>u. eliminate n [Suc col ..< n] t = Inr u \<and> reduced n n u \<and> same_solutions n u t"
    by (rule Suc.hyps(1)) (use Suc.hyps(2) col t Suc.prems(3) in \<open>auto simp: same_solutions_def\<close>)
  with t col show ?case by (auto simp: upt_conv_Cons intro: same_solutions_trans)
qed simp

lemma fold_diff: "fold (\<lambda>j acc. acc - f j) js (a :: f64) = a - (\<Sum>j\<leftarrow>js. f j)"
  by (induction js arbitrary: a) auto

lemma fold_plus: "fold (\<lambda>j acc. acc + f j) js (a :: f64) = a + (\<Sum>j\<leftarrow>js. f j)"
  by (induction js arbitrary: a) auto

lemma length_substitute_row [simp]: "length (substitute_row n m b row x) = length x"
  by (simp add: substitute_row_def)

text \<open>After the rows from \<open>k\<close> on are substituted, these rows hold.\<close>

lemma substitute_rows:
  assumes "\<forall>j < n. cell n m j j \<noteq> 0" "length x = n" "k \<le> n"
    and "\<forall>i. k \<le> i \<and> i < n \<longrightarrow> (\<Sum>j = i ..< n. cell n m i j * x ! j) = b ! i"
  shows "\<forall>i < n. (\<Sum>j = i ..< n. cell n m i j * fold (substitute_row n m b) (rev [0 ..< k]) x ! j) = b ! i"
  using assms(2-4)
proof (induction k arbitrary: x)
  case (Suc k)
  let ?y = "substitute_row n m b k x"
  have k: "k < n" using Suc.prems by simp
  have y: "?y ! j = (if j = k then (b ! k - (\<Sum>l = Suc k ..< n. cell n m k l * x ! l)) / cell n m k k else x ! j)"
    if "j < n" for j
    using that Suc.prems(1) by (simp add: substitute_row_def fold_diff sum_list_distinct_conv_sum_set)
  have same: "(\<Sum>j = i ..< n. cell n m l j * ?y ! j) = (\<Sum>j = i ..< n. cell n m l j * x ! j)" if "k < i" for i l
    by (rule sum.cong) (use that y in auto)
  have "(\<Sum>j = i ..< n. cell n m i j * ?y ! j) = b ! i" if i: "k \<le> i" "i < n" for i
  proof (cases "i = k")
    case True
    have "(\<Sum>j = k ..< n. cell n m k j * ?y ! j) = cell n m k k * ?y ! k + (\<Sum>j = Suc k ..< n. cell n m k j * ?y ! j)"
      using k by (rule sum.atLeast_Suc_lessThan)
    with True k assms(1) y [of k] same [of "Suc k" k] show ?thesis by simp
  next
    case False
    with i Suc.prems(3) same [of i i] show ?thesis by simp
  qed
  with Suc show ?case by simp
qed auto

text \<open>Elimination and substitution solve every system whose matrix has only the zero null vector.\<close>

lemma gaussian_solve_ok:
  assumes "length m = n * n" "length b = n" "\<forall>x. null_vector n m x \<longrightarrow> (\<forall>i < n. x i = 0)"
  shows "\<exists>x. gaussian_solve m b n = Inr x \<and> length x = n \<and> solves n (m, b) (\<lambda>j. x ! j)"
proof -
  have "reduced n 0 (m, b)" using assms(1,2) by (simp add: reduced_def)
  then obtain t where t: "eliminate n [0 ..< n] (m, b) = Inr t" "reduced n n t" "same_solutions n t (m, b)"
    using eliminate_ok [of n 0 "(m, b)"] assms(3) by auto
  obtain m' b' where mb: "t = (m', b')" by (cases t)
  let ?x = "fold (substitute_row n m' b') (rev [0 ..< n]) (replicate n 0)"
  have len: "length ?x = n" by (simp add: length_fold)
  have diag: "\<forall>j < n. cell n m' j j \<noteq> 0" and zero: "\<forall>i < n. \<forall>j < i. cell n m' i j = 0"
    using t(2) by (auto simp: mb reduced_def)
  have "(\<Sum>j = i ..< n. cell n m' i j * ?x ! j) = b' ! i" if "i < n" for i
    using substitute_rows [OF diag, of "replicate n 0" n b'] that by simp
  then have "(\<Sum>j < n. cell n m' i j * ?x ! j) = b' ! i" if "i < n" for i
    using upper_row [OF that, of "cell n m' i"] zero that by simp
  then have "solves n t (\<lambda>j. ?x ! j)" by (simp add: mb solves_def)
  with t(1,3) len mb show ?thesis by (simp add: gaussian_solve_def same_solutions_def)
qed


subsection \<open>The transition matrix\<close>

lemma length_transition_column [simp]: "length (transition_column g u p) = length p"
  unfolding transition_column_def by (auto simp: Let_def split_def intro!: length_fold)

lemma length_transition_matrix: "length (transition_matrix g) = n_nodes g * n_nodes g"
  unfolding transition_matrix_def by (simp add: length_fold)

lemma cell_add_row:
  fixes p :: "f64 list"
  assumes "length p = n * n" "u < n" "\<forall>(v, w) \<in> set row. in_range n v" "i < n" "j < n"
  shows "cell n (fold (\<lambda>(v, w) p. let k = as_usize v * n + u in p[k := p ! k + w / d]) row p) i j =
    cell n p i j + (if j = u then (\<Sum>(v, w)\<leftarrow>row. w * of_bool (as_usize v = i)) / d else 0)"
  using assms(1,3)
proof (induction row arbitrary: p)
  case (Cons e row)
  obtain v w where e: "e = (int v, w)" "v < n" using Cons.prems(2) by (cases e) (auto simp: in_range_iff)
  have "cell n (p[v * n + u := p ! (v * n + u) + w / d]) i j = cell n p i j + (if j = u \<and> i = v then w / d else 0)"
    using cell_update [OF Cons.prems(1) assms(4,5) e(2) assms(2)] by (auto simp: cell_def)
  with Cons e show ?case by (auto simp: Let_def add_divide_distrib)
qed simp

lemma cell_transition_column:
  assumes "wf_graph g" "length p = n_nodes g * n_nodes g" "u < n_nodes g" "i < n_nodes g" "j < n_nodes g"
  shows "cell (n_nodes g) (transition_column g u p) i j =
    cell (n_nodes g) p i j + (if j = u then spread g (\<lambda>v. of_bool (v = i)) u else 0)"
proof -
  note row = wf_graph_row [OF assms(1,3)]
  have "\<forall>(v, w) \<in> set (zip (fst (neighbors g u)) (snd (neighbors g u))). in_range (n_nodes g) v"
    using row(3) by auto
  from cell_add_row [OF assms(2,3) this assms(4,5)] row(1) show ?thesis
    by (simp add: transition_column_def spread_def Let_def split_def)
qed

lemma cell_transition_matrix:
  assumes "wf_graph g" "i < n_nodes g" "j < n_nodes g"
  shows "cell (n_nodes g) (transition_matrix g) i j = spread g (\<lambda>v. of_bool (v = i)) j"
proof -
  let ?n = "n_nodes g"
  have "cell ?n (fold (transition_column g) [0 ..< k] (replicate (?n * ?n) 0)) i j =
      (if j < k then spread g (\<lambda>v. of_bool (v = i)) j else 0)" if "k \<le> ?n" for k
    using that
  proof (induction k)
    case 0
    then show ?case using flat_less [OF assms(2,3)] by (simp add: cell_def)
  next
    case (Suc k)
    have "length (fold (transition_column g) [0 ..< k] (replicate (?n * ?n) 0)) = ?n * ?n" by (simp add: length_fold)
    from cell_transition_column [OF assms(1) this _ assms(2,3), of k] Suc show ?case by auto
  qed
  from this [OF order_refl] assms(3) show ?thesis by (simp add: transition_matrix_def)
qed

lemma spread_sum:
  assumes "wf_graph g" "u < n_nodes g"
  shows "(\<Sum>i < n_nodes g. c i * spread g (\<lambda>v. of_bool (v = i)) u) = spread g c u"
proof -
  let ?row = "zip (fst (neighbors g u)) (snd (neighbors g u))"
  have "(\<Sum>i < n. c i * (\<Sum>(v, w)\<leftarrow>row. w * of_bool (as_usize v = i))) = (\<Sum>(v, w)\<leftarrow>row. w * c (as_usize v))"
    if "\<forall>(v, w) \<in> set row. in_range n v" for n row
    using that
  proof (induction row)
    case (Cons e row)
    obtain v w where e: "e = (int v, w)" "v < n" using Cons.prems by (cases e) (auto simp: in_range_iff)
    have "(\<Sum>i < n. c i * (w * of_bool (v = i))) = w * c v"
      using e(2) by (simp add: of_bool_def if_distrib [of "\<lambda>x. _ * x"] cong: if_cong)
    with Cons e show ?case by (simp add: distrib_left sum.distrib)
  qed simp
  moreover have "\<forall>(v, w) \<in> set ?row. in_range (n_nodes g) v" using wf_graph_row(3) [OF assms] by auto
  ultimately have "(\<Sum>i < n_nodes g. c i * (\<Sum>(v, w)\<leftarrow>?row. w * of_bool (as_usize v = i))) = (\<Sum>(v, w)\<leftarrow>?row. w * c (as_usize v))"
    by blast
  then show ?thesis by (simp add: spread_def sum_divide_distrib [symmetric])
qed

text \<open>A column-stochastic matrix, and the L1 distance of vectors.\<close>

definition stochastic :: "nat \<Rightarrow> (nat \<Rightarrow> nat \<Rightarrow> f64) \<Rightarrow> bool" where
  "stochastic n P \<longleftrightarrow> (\<forall>i < n. \<forall>j < n. 0 \<le> P i j) \<and> (\<forall>j < n. (\<Sum>i < n. P i j) = 1)"

definition l1 :: "nat \<Rightarrow> (nat \<Rightarrow> f64) \<Rightarrow> f64" where
  "l1 n x = (\<Sum>i < n. \<bar>x i\<bar>)"

definition ppr_equation :: "nat \<Rightarrow> (nat \<Rightarrow> nat \<Rightarrow> f64) \<Rightarrow> f64 \<Rightarrow> (nat \<Rightarrow> f64) \<Rightarrow> (nat \<Rightarrow> f64) \<Rightarrow> bool" where
  "ppr_equation n P alpha s x \<longleftrightarrow> (\<forall>i < n. x i = alpha * s i + (1 - alpha) * (\<Sum>j < n. P i j * x j))"

lemma stochastic_transition:
  assumes "wf_graph g"
  shows "stochastic (n_nodes g) (cell (n_nodes g) (transition_matrix g))"
proof -
  have "(\<Sum>i < n_nodes g. spread g (\<lambda>v. of_bool (v = i)) j) = 1" if "j < n_nodes g" for j
    using spread_sum [OF assms that, of "\<lambda>_. 1"] wf_graph_row(2) [OF assms that] by simp
  then show ?thesis
    using spread_nonneg [OF assms] by (simp add: stochastic_def cell_transition_matrix [OF assms])
qed

lemma l1_nonneg [simp]: "0 \<le> l1 n x"
  by (simp add: l1_def sum_nonneg)

lemma l1_zero: "l1 n x = 0 \<longleftrightarrow> (\<forall>i < n. x i = 0)"
  by (auto simp: l1_def sum_nonneg_eq_0_iff)

lemma sum_transition:
  assumes "stochastic n P"
  shows "(\<Sum>i < n. \<Sum>j < n. P i j * x j) = (\<Sum>j < n. x j)"
proof -
  have "(\<Sum>i < n. \<Sum>j < n. P i j * x j) = (\<Sum>j < n. (\<Sum>i < n. P i j) * x j)"
    by (subst sum.swap) (simp add: sum_distrib_right)
  with assms show ?thesis by (simp add: stochastic_def)
qed

lemma l1_transition:
  assumes "stochastic n P"
  shows "l1 n (\<lambda>i. \<Sum>j < n. P i j * x j) \<le> l1 n x"
proof -
  have "\<bar>\<Sum>j < n. P i j * x j\<bar> \<le> (\<Sum>j < n. P i j * \<bar>x j\<bar>)" if "i < n" for i
    by (rule order_trans [OF sum_abs]) (use assms that in \<open>simp add: abs_mult stochastic_def\<close>)
  then have "l1 n (\<lambda>i. \<Sum>j < n. P i j * x j) \<le> (\<Sum>i < n. \<Sum>j < n. P i j * \<bar>x j\<bar>)"
    by (auto simp: l1_def intro: sum_mono)
  with sum_transition [OF assms] show ?thesis by (simp add: l1_def)
qed

lemma l1_triangle: "l1 n (\<lambda>i. x i + y i) \<le> l1 n x + l1 n y"
  by (simp add: l1_def sum.distrib [symmetric] sum_mono abs_triangle_ineq)

lemma l1_scale: "l1 n (\<lambda>i. c * x i) = \<bar>c\<bar> * l1 n x"
  by (simp add: l1_def abs_mult sum_distrib_left)


subsection \<open>The equation\<close>

text \<open>Where the error of an approximation obeys the equation for a residual, it is no larger.\<close>

lemma equation_row: "ppr_equation n P alpha s x \<Longrightarrow> i < n \<Longrightarrow> x i = alpha * s i + (1 - alpha) * (\<Sum>j < n. P i j * x j)"
  unfolding ppr_equation_def by blast

lemma equation_bound:
  assumes "stochastic n P" "0 < alpha" "alpha \<le> 1" "ppr_equation n P alpha r e"
  shows "l1 n e \<le> l1 n r"
proof -
  have "l1 n e = l1 n (\<lambda>i. alpha * r i + (1 - alpha) * (\<Sum>j < n. P i j * e j))"
    unfolding l1_def by (rule sum.cong [OF refl]) (rule arg_cong [where f = abs], rule equation_row [OF assms(4)], simp)
  also have "\<dots> \<le> alpha * l1 n r + (1 - alpha) * l1 n (\<lambda>i. \<Sum>j < n. P i j * e j)"
    using l1_triangle [of n "\<lambda>i. alpha * r i" "\<lambda>i. (1 - alpha) * (\<Sum>j < n. P i j * e j)"] assms(2,3)
    by (simp add: l1_scale)
  also have "\<dots> \<le> alpha * l1 n r + (1 - alpha) * l1 n e"
    using l1_transition [OF assms(1)] assms(3) by (simp add: mult_left_mono)
  finally have "alpha * l1 n e \<le> alpha * l1 n r" by (simp add: algebra_simps)
  with assms(2) show ?thesis by simp
qed

lemma equation_mass:
  assumes "stochastic n P" "0 < alpha" "ppr_equation n P alpha s x"
  shows "(\<Sum>i < n. x i) = (\<Sum>i < n. s i)"
proof -
  have "(\<Sum>i < n. x i) = (\<Sum>i < n. alpha * s i + (1 - alpha) * (\<Sum>j < n. P i j * x j))"
    by (rule sum.cong [OF refl], rule equation_row [OF assms(3)]) simp
  also have "\<dots> = alpha * (\<Sum>i < n. s i) + (1 - alpha) * (\<Sum>i < n. x i)"
    by (simp add: sum.distrib sum_distrib_left [symmetric] sum_transition [OF assms(1)])
  finally have "alpha * (\<Sum>i < n. x i) = alpha * (\<Sum>i < n. s i)" by (simp add: algebra_simps)
  with assms(2) show ?thesis by simp
qed

lemma equation_diff:
  assumes "ppr_equation n P alpha s x" "ppr_equation n P alpha t y"
  shows "ppr_equation n P alpha (\<lambda>i. s i - t i) (\<lambda>i. x i - y i)"
  unfolding ppr_equation_def
proof (intro allI impI)
  fix i assume "i < n"
  then show "x i - y i = alpha * (s i - t i) + (1 - alpha) * (\<Sum>j < n. P i j * (x j - y j))"
    using equation_row [OF assms(1), of i] equation_row [OF assms(2), of i]
    by (simp add: right_diff_distrib sum_subtractf)
qed

lemma equation_unique:
  assumes "stochastic n P" "0 < alpha" "alpha \<le> 1" "ppr_equation n P alpha s x" "ppr_equation n P alpha s y"
  shows "\<forall>i < n. x i = y i"
proof -
  have "l1 n (\<lambda>i. x i - y i) \<le> l1 n (\<lambda>i. s i - s i)"
    by (rule equation_bound [OF assms(1-3) equation_diff [OF assms(4,5)]])
  then have "l1 n (\<lambda>i. x i - y i) \<le> 0" by (simp add: l1_def)
  then have "l1 n (\<lambda>i. x i - y i) = 0" using l1_nonneg by (rule antisym)
  then show ?thesis by (simp add: l1_zero)
qed

lemma equation_nonneg:
  assumes P: "stochastic n P" and par: "0 < alpha" "alpha \<le> 1"
    and eq: "ppr_equation n P alpha r e" and r: "\<forall>i < n. 0 \<le> r i"
  shows "\<forall>i < n. 0 \<le> e i"
proof -
  let ?neg = "\<lambda>i. max 0 (- e i)"
  have neg: "?neg i \<le> (1 - alpha) * (\<Sum>j < n. P i j * ?neg j)" if i: "i < n" for i
  proof -
    have "- (\<Sum>j < n. P i j * e j) \<le> (\<Sum>j < n. P i j * ?neg j)"
      unfolding sum_negf [symmetric]
      using P i by (intro sum_mono) (simp add: stochastic_def mult_left_mono flip: mult_minus_right)
    then have "(1 - alpha) * - (\<Sum>j < n. P i j * e j) \<le> (1 - alpha) * (\<Sum>j < n. P i j * ?neg j)"
      using par by (intro mult_left_mono) auto
    moreover have "- e i = - (alpha * r i) + (1 - alpha) * - (\<Sum>j < n. P i j * e j)"
      using equation_row [OF eq i] by simp
    moreover have "0 \<le> alpha * r i" using r i par by simp
    moreover have "0 \<le> (1 - alpha) * (\<Sum>j < n. P i j * ?neg j)"
      using P i par by (intro mult_nonneg_nonneg sum_nonneg) (auto simp: stochastic_def)
    ultimately show ?thesis by linarith
  qed
  have "(\<Sum>i < n. ?neg i) \<le> (1 - alpha) * (\<Sum>i < n. ?neg i)"
    using sum_mono [of "{..< n}" ?neg "\<lambda>i. (1 - alpha) * (\<Sum>j < n. P i j * ?neg j)"] neg
    by (simp add: sum_distrib_left [symmetric] sum_transition [OF P])
  then have "alpha * (\<Sum>i < n. ?neg i) \<le> 0" by (simp add: algebra_simps)
  then have "(\<Sum>i < n. ?neg i) \<le> 0" using par by (simp add: mult_le_0_iff)
  moreover have "0 \<le> (\<Sum>i < n. ?neg i)" by (rule sum_nonneg) simp
  ultimately have "(\<Sum>i < n. ?neg i) = 0" by linarith
  then have "\<forall>i < n. ?neg i = 0" by (subst (asm) sum_nonneg_eq_0_iff) auto
  then show ?thesis by (auto simp: max_def split: if_splits)
qed


subsection \<open>The solvers on a graph\<close>

lemma length_concat_rows: "length (concat (map (\<lambda>i. map (f i) [0 ..< n]) [0 ..< k])) = k * n"
  by (induction k) auto

lemma nth_concat_rows:
  "i < k \<Longrightarrow> j < n \<Longrightarrow> concat (map (\<lambda>i. map (f i) [0 ..< n]) [0 ..< k]) ! (i * n + j) = f i j"
proof (induction k)
  case (Suc k)
  show ?case
  proof (cases "i = k")
    case True
    with Suc.prems show ?thesis by (simp add: nth_append length_concat_rows)
  next
    case False
    then have i: "i < k" using Suc.prems by simp
    have "Suc i * n \<le> k * n" using i by (intro mult_le_mono1) simp
    then have "i * n + j < k * n" using Suc.prems by simp
    with Suc.IH [OF i Suc.prems(2)] show ?thesis by (simp add: nth_append length_concat_rows)
  qed
qed simp

lemma cell_operator: "i < n \<Longrightarrow> j < n \<Longrightarrow>
  cell n (ppr_operator n alpha p) i j = of_bool (i = j) - (1 - alpha) * cell n p i j"
  by (simp add: ppr_operator_def cell_def [of n "concat _"] nth_concat_rows)

lemma operator_row:
  "i < n \<Longrightarrow> (\<Sum>j < n. cell n (ppr_operator n alpha p) i j * x j) = x i - (1 - alpha) * (\<Sum>j < n. cell n p i j * x j)"
proof -
  assume i: "i < n"
  have "(\<Sum>j < n. cell n (ppr_operator n alpha p) i j * x j) =
      (\<Sum>j < n. (if j = i then x i else 0) - (1 - alpha) * (cell n p i j * x j))"
    by (rule sum.cong) (use i in \<open>auto simp: cell_operator algebra_simps\<close>)
  then show ?thesis using i by (simp add: sum_subtractf sum_distrib_left)
qed

lemma exact_ok:
  assumes P: "stochastic (length seed) (cell (length seed) p)" and len: "length p = length seed * length seed"
    and par: "0 < alpha" "alpha \<le> 1"
  obtains x where "personalized_pagerank_exact show_f64 p seed alpha = Inr x" "length x = length seed"
    "ppr_equation (length seed) (cell (length seed) p) alpha (\<lambda>i. seed ! i) (\<lambda>i. x ! i)"
proof -
  let ?n = "length seed"
  have "\<forall>i < ?n. x i = 0" if "null_vector ?n (ppr_operator ?n alpha p) x" for x
  proof (rule equation_unique [OF P par, where s = "\<lambda>_. 0"])
    show "ppr_equation ?n (cell ?n p) alpha (\<lambda>_. 0) x"
      using that by (simp add: null_vector_def solves_def ppr_equation_def operator_row)
  qed (simp add: ppr_equation_def)
  then obtain x where x: "gaussian_solve (ppr_operator ?n alpha p) (map (\<lambda>s. alpha * s) seed) ?n = Inr x"
    "length x = ?n" "solves ?n (ppr_operator ?n alpha p, map (\<lambda>s. alpha * s) seed) (\<lambda>j. x ! j)"
    using gaussian_solve_ok [of "ppr_operator ?n alpha p" ?n "map (\<lambda>s. alpha * s) seed"]
    by (auto simp: ppr_operator_def length_concat_rows)
  then have "x ! i - (1 - alpha) * (\<Sum>j < ?n. cell ?n p i j * x ! j) = alpha * seed ! i" if "i < ?n" for i
    using that by (auto simp: solves_def operator_row)
  then have "ppr_equation ?n (cell ?n p) alpha (\<lambda>i. seed ! i) (\<lambda>i. x ! i)"
    unfolding ppr_equation_def by (intro allI impI) (drule meta_spec, drule (1) meta_mp, linarith)
  with x par len that show ?thesis by (simp add: personalized_pagerank_exact_def ppr_args_def)
qed

lemma nth_power_step:
  "i < length seed \<Longrightarrow> power_step p seed alpha r ! i =
     alpha * seed ! i + (1 - alpha) * (\<Sum>j < length seed. cell (length seed) p i j * r ! j)"
  by (simp add: power_step_def Let_def fold_plus interv_sum_list_conv_sum_set_nat atLeast0LessThan)

lemma length_power_step [simp]: "length (power_step p seed alpha r) = length seed"
  by (simp add: power_step_def Let_def)

definition dist1 :: "f64 list \<Rightarrow> f64 list \<Rightarrow> f64" where
  "dist1 x y = l1 (length x) (\<lambda>i. x ! i - y ! i)"

lemma sum_list_zip_dist: "length x = length y \<Longrightarrow> (\<Sum>(a, b)\<leftarrow>zip x y. \<bar>a - b\<bar>) = dist1 x y"
  by (simp add: sum_list_sum_nth dist1_def l1_def atLeast0LessThan split_def)

definition power_inv :: "f64 list \<Rightarrow> f64 list \<Rightarrow> f64 \<Rightarrow> f64 list \<Rightarrow> nat \<Rightarrow> bool" where
  "power_inv seed x alpha r k \<longleftrightarrow> length r = length seed \<and> sum_list r = sum_list seed
     \<and> dist1 r x \<le> (1 - alpha) ^ k * dist1 seed x"

lemma power_step_ok:
  assumes P: "stochastic (length seed) (cell (length seed) p)" and par: "0 < alpha" "alpha \<le> 1"
    and x: "length x = length seed" "ppr_equation (length seed) (cell (length seed) p) alpha (\<lambda>i. seed ! i) (\<lambda>i. x ! i)"
    and r: "power_inv seed x alpha r k"
  shows "power_inv seed x alpha (power_step p seed alpha r) (Suc k)"
    "alpha * dist1 (power_step p seed alpha r) x \<le> (1 - alpha) * dist1 (power_step p seed alpha r) r"
proof -
  let ?n = "length seed" and ?r = "power_step p seed alpha r"
  let ?P = "\<lambda>y i. \<Sum>j < ?n. cell ?n p i j * y j"
  have len: "length r = ?n" "sum_list r = sum_list seed" using r by (simp_all add: power_inv_def)
  have row: "?r ! i - x ! i = (1 - alpha) * ?P (\<lambda>j. r ! j - x ! j) i" if "i < ?n" for i
    using that equation_row [OF x(2) that]
    by (simp add: nth_power_step right_diff_distrib sum_subtractf)
  have "dist1 ?r x = l1 ?n (\<lambda>i. (1 - alpha) * ?P (\<lambda>j. r ! j - x ! j) i)"
    unfolding dist1_def l1_def using row by simp
  then have shrink: "dist1 ?r x \<le> (1 - alpha) * dist1 r x"
    using l1_transition [OF P, of "\<lambda>j. r ! j - x ! j"] par len
    by (simp add: l1_scale dist1_def mult_left_mono)
  have "dist1 r x \<le> dist1 ?r x + dist1 ?r r"
    using l1_triangle [of ?n "\<lambda>i. ?r ! i - x ! i" "\<lambda>i. - (?r ! i - r ! i)"] len
    by (simp add: dist1_def) (simp add: l1_def abs_minus_commute)
  then have "(1 - alpha) * dist1 r x \<le> (1 - alpha) * (dist1 ?r x + dist1 ?r r)"
    using par by (intro mult_left_mono) auto
  with shrink show "alpha * dist1 ?r x \<le> (1 - alpha) * dist1 ?r r" by (simp add: algebra_simps)
  have "(1 - alpha) * dist1 r x \<le> (1 - alpha) * ((1 - alpha) ^ k * dist1 seed x)"
    using r par by (intro mult_left_mono) (auto simp: power_inv_def)
  with shrink have "dist1 ?r x \<le> (1 - alpha) ^ Suc k * dist1 seed x" by simp
  moreover have "(\<Sum>i < ?n. ?r ! i) = (\<Sum>i < ?n. alpha * seed ! i + (1 - alpha) * ?P (\<lambda>j. r ! j) i)"
    by (simp add: nth_power_step)
  then have "(\<Sum>i < ?n. ?r ! i) = alpha * (\<Sum>i < ?n. seed ! i) + (1 - alpha) * (\<Sum>i < ?n. r ! i)"
    by (simp add: sum.distrib sum_distrib_left [symmetric] sum_transition [OF P])
  then have "sum_list ?r = sum_list seed"
    using len by (simp add: sum_list_sum_nth atLeast0LessThan algebra_simps)
  ultimately show "power_inv seed x alpha ?r (Suc k)" by (simp add: power_inv_def)
qed


lemma power_loop_ok:
  assumes P: "stochastic (length seed) (cell (length seed) p)" and par: "0 < alpha" "alpha \<le> 1"
    and x: "length x = length seed" "ppr_equation (length seed) (cell (length seed) p) alpha (\<lambda>i. seed ! i) (\<lambda>i. x ! i)"
    and inv: "power_inv seed x alpha r k" "k \<le> m" "power_loop p seed alpha tol [Suc k ..< Suc m] (r, k) = (r', it)"
  shows "power_inv seed x alpha r' it \<and> it \<le> m \<and> (it < m \<longrightarrow> alpha * dist1 r' x \<le> (1 - alpha) * tol)"
  using inv
proof (induction "m - k" arbitrary: k r)
  case (Suc d)
  then have k: "k < m" by simp
  then have steps: "[Suc k ..< Suc m] = Suc k # [Suc (Suc k) ..< Suc m]" by (simp add: upt_conv_Cons)
  let ?r = "power_step p seed alpha r"
  have len: "length ?r = length r" using Suc.prems(1) by (simp add: power_inv_def)
  note ok = power_step_ok [OF P par x Suc.prems(1)]
  show ?case
  proof (cases "dist1 ?r r \<le> tol")
    case True
    then have res: "r' = ?r" "it = Suc k"
      using Suc.prems(3) by (simp_all add: steps sum_list_zip_dist [OF len] Let_def del: upt_Suc)
    have "(1 - alpha) * dist1 ?r r \<le> (1 - alpha) * tol" using True par by (intro mult_left_mono) auto
    with ok k res show ?thesis by auto
  next
    case False
    with Suc.prems(3) have "power_loop p seed alpha tol [Suc (Suc k) ..< Suc m] (?r, Suc k) = (r', it)"
      by (simp add: steps sum_list_zip_dist [OF len] Let_def del: upt_Suc)
    with Suc.hyps(1) [of "Suc k" ?r] Suc.hyps(2) k ok(1) show ?thesis by (simp del: upt_Suc)
  qed
qed simp

text \<open>What push leaves unspread obeys the equation for the residual.\<close>

lemma push_equation:
  assumes g: "wf_graph g" and alpha: "0 < alpha"
    and inv: "push_inv g alpha eps (push_init g seed eps) st"
  shows "ppr_equation (n_nodes g) (cell (n_nodes g) (transition_matrix g)) alpha
    (\<lambda>i. seed_residual (n_nodes g) seed ! i - res st ! i) (\<lambda>i. est st ! i)"
  unfolding ppr_equation_def
proof (intro allI impI)
  let ?n = "n_nodes g"
  fix v assume v: "v < ?n"
  let ?h = "\<lambda>i. of_bool (i = v) :: f64"
  let ?c = "\<lambda>u. (?h u - (1 - alpha) * spread g ?h u) / alpha"
  have len: "length (est st) = ?n" "length (res st) = ?n" using inv by (simp_all add: push_inv_def st_ok_def)
  have "walk_value g alpha ?c ?h" using alpha by (simp add: walk_value_def)
  then have "pot ?c (est st) + pot ?h (res st) = pot ?h (seed_residual ?n seed)"
    using inv unfolding push_inv_def by (simp add: push_init_simps pot_seed_residual)
  then have eq: "pot ?c (est st) = seed_residual ?n seed ! v - res st ! v"
    using v len by (simp add: pot_indicator)
  have "alpha * pot ?c (est st) = (\<Sum>u < ?n. ?h u * est st ! u - (1 - alpha) * (spread g ?h u * est st ! u))"
    unfolding pot_def sum_distrib_left len
    by (rule sum.cong) (use alpha in \<open>simp_all add: left_diff_distrib\<close>)
  also have "\<dots> = est st ! v - (1 - alpha) * (\<Sum>u < ?n. spread g ?h u * est st ! u)"
    using pot_indicator [of v "est st"] v len by (simp add: sum_subtractf sum_distrib_left pot_def)
  finally have "alpha * pot ?c (est st) = est st ! v - (1 - alpha) * (\<Sum>u < ?n. spread g ?h u * est st ! u)" .
  moreover have "(\<Sum>j < ?n. cell ?n (transition_matrix g) v j * est st ! j) = (\<Sum>u < ?n. spread g ?h u * est st ! u)"
    using cell_transition_matrix [OF g v] by simp
  ultimately show "est st ! v = alpha * (seed_residual ?n seed ! v - res st ! v)
      + (1 - alpha) * (\<Sum>j < ?n. cell ?n (transition_matrix g) v j * est st ! j)"
    using eq by simp
qed


lemma exact_on_graph:
  assumes "wf_graph g" "length seed = n_nodes g" "0 < alpha" "alpha \<le> 1"
  obtains x where "personalized_pagerank_exact show_f64 (transition_matrix g) seed alpha = Inr x"
    "length x = n_nodes g"
    "ppr_equation (n_nodes g) (cell (n_nodes g) (transition_matrix g)) alpha (\<lambda>i. seed ! i) (\<lambda>i. x ! i)"
  using exact_ok [of seed "transition_matrix g" alpha show_f64] stochastic_transition [OF assms(1)]
    length_transition_matrix [of g] assms(2-4) by auto

subsection \<open>Properties\<close>

text \<open>
  C20: On the transition matrix of a well-formed graph the exact solver never meets a singular
  operator: it returns the one vector that satisfies the PageRank equation
  \<open>x = alpha s + (1 - alpha) P x\<close>, and the vector has the mass of the seed.
\<close>

theorem exact_solves:
  assumes "wf_graph g" "length seed = n_nodes g" "0 < alpha" "alpha \<le> 1"
  shows "\<exists>x. personalized_pagerank_exact show_f64 (transition_matrix g) seed alpha = Inr x
    \<and> length x = n_nodes g \<and> sum_list x = sum_list seed
    \<and> ppr_equation (n_nodes g) (cell (n_nodes g) (transition_matrix g)) alpha (\<lambda>i. seed ! i) (\<lambda>i. x ! i)
    \<and> (\<forall>y. ppr_equation (n_nodes g) (cell (n_nodes g) (transition_matrix g)) alpha (\<lambda>i. seed ! i) y
         \<longrightarrow> (\<forall>i < n_nodes g. x ! i = y i))"
proof -
  obtain x where x: "personalized_pagerank_exact show_f64 (transition_matrix g) seed alpha = Inr x"
    "length x = n_nodes g"
    "ppr_equation (n_nodes g) (cell (n_nodes g) (transition_matrix g)) alpha (\<lambda>i. seed ! i) (\<lambda>i. x ! i)"
    using exact_on_graph [OF assms] by blast
  note P = stochastic_transition [OF assms(1)]
  have "sum_list x = sum_list seed"
    using equation_mass [OF P assms(3) x(3)] x(2) assms(2) by (simp add: sum_list_sum_nth atLeast0LessThan)
  moreover have "\<forall>i < n_nodes g. x ! i = y i"
    if "ppr_equation (n_nodes g) (cell (n_nodes g) (transition_matrix g)) alpha (\<lambda>i. seed ! i) y" for y
    by (rule equation_unique [OF P assms(3,4) x(3) that])
  ultimately show ?thesis using x by blast
qed

theorem exact_solves_witness:
  "\<exists>x. personalized_pagerank_exact (\<lambda>_. []) (transition_matrix pair_graph) [1, 0] (15/100) = Inr x
    \<and> length x = n_nodes pair_graph \<and> sum_list x = sum_list [1, 0]
    \<and> ppr_equation (n_nodes pair_graph) (cell (n_nodes pair_graph) (transition_matrix pair_graph)) (15/100)
        (\<lambda>i. [1, 0] ! i) (\<lambda>i. x ! i)
    \<and> (\<forall>y. ppr_equation (n_nodes pair_graph) (cell (n_nodes pair_graph) (transition_matrix pair_graph)) (15/100)
             (\<lambda>i. [1, 0] ! i) y
         \<longrightarrow> (\<forall>i < n_nodes pair_graph. x ! i = y i))"
  by (rule exact_solves) (simp_all add: wf_pair_graph, simp add: pair_graph_def)

text \<open>
  Power iteration on a well-formed graph keeps the mass of the seed and approaches the exact
  solution by a factor \<open>1 - alpha\<close> each round, whatever the size of the graph; when it stops before
  \<open>max_iter\<close> its L1 distance to the exact solution is at most \<open>tol * (1 - alpha) / alpha\<close>.
\<close>

theorem power_converges:
  assumes "wf_graph g" "length seed = n_nodes g" "0 < alpha" "alpha \<le> 1"
  shows "\<exists>x r it. personalized_pagerank_exact show_f64 (transition_matrix g) seed alpha = Inr x
    \<and> personalized_pagerank_power show_f64 (transition_matrix g) seed alpha tol max_iter = Inr (r, it)
    \<and> length r = n_nodes g \<and> sum_list r = sum_list seed \<and> it \<le> max_iter
    \<and> dist1 r x \<le> (1 - alpha) ^ it * dist1 seed x
    \<and> (it < max_iter \<longrightarrow> alpha * dist1 r x \<le> (1 - alpha) * tol)"
proof -
  obtain x where x: "personalized_pagerank_exact show_f64 (transition_matrix g) seed alpha = Inr x"
    "length x = n_nodes g"
    "ppr_equation (n_nodes g) (cell (n_nodes g) (transition_matrix g)) alpha (\<lambda>i. seed ! i) (\<lambda>i. x ! i)"
    using exact_on_graph [OF assms] by blast
  obtain r it where r: "power_loop (transition_matrix g) seed alpha tol [Suc 0 ..< Suc max_iter] (seed, 0) = (r, it)"
    by fastforce
  have "power_inv seed x alpha seed 0" by (simp add: power_inv_def)
  from power_loop_ok [OF _ assms(3,4) _ _ this _ r] x stochastic_transition [OF assms(1)] assms(2)
  have "power_inv seed x alpha r it \<and> it \<le> max_iter \<and> (it < max_iter \<longrightarrow> alpha * dist1 r x \<le> (1 - alpha) * tol)"
    by simp
  with x(1) r assms(2-4) show ?thesis
    by (simp add: personalized_pagerank_power_def ppr_args_def length_transition_matrix power_inv_def del: upt_Suc)
qed

theorem power_converges_witness:
  "\<exists>x r it. personalized_pagerank_exact (\<lambda>_. []) (transition_matrix pair_graph) [1, 0] (15/100) = Inr x
    \<and> personalized_pagerank_power (\<lambda>_. []) (transition_matrix pair_graph) [1, 0] (15/100) DEFAULT_TOL
        DEFAULT_MAX_ITER = Inr (r, it)
    \<and> length r = n_nodes pair_graph \<and> sum_list r = sum_list [1, 0] \<and> it \<le> DEFAULT_MAX_ITER
    \<and> dist1 r x \<le> (1 - 15/100) ^ it * dist1 [1, 0] x
    \<and> (it < DEFAULT_MAX_ITER \<longrightarrow> 15/100 * dist1 r x \<le> (1 - 15/100) * DEFAULT_TOL)"
  by (rule power_converges) (simp_all add: wf_pair_graph, simp add: pair_graph_def)

text \<open>
  C18: Forward push agrees with the exact solver: on a well-formed graph with non-negative seeds it
  never overestimates a node, and its estimates fall short of the exact values by the residual mass
  in total, so by at most \<open>eps\<close> times the sum of the degrees.
\<close>

theorem push_agrees_with_exact:
  assumes "wf_graph g" "0 < alpha" "alpha \<le> 1" "0 < eps" "\<forall>(u, m) \<in> set seed. 0 \<le> m"
  shows "\<exists>r x. approximate_ppr_push show_f64 g seed alpha eps = Some (Inr r)
    \<and> personalized_pagerank_exact show_f64 (transition_matrix g) (seed_residual (n_nodes g) seed) alpha = Inr x
    \<and> (\<forall>u < n_nodes g. entry (estimate r) u \<le> x ! u)
    \<and> (\<Sum>u < n_nodes g. x ! u - entry (estimate r) u) = mass_sum (\<lambda>_. 1) (n_nodes g) (residual r)
    \<and> mass_sum (\<lambda>_. 1) (n_nodes g) (residual r) \<le> eps * (\<Sum>u < n_nodes g. degree g ! u)"
proof -
  let ?n = "n_nodes g" and ?s = "seed_residual (n_nodes g) seed"
  obtain st where st: "approximate_ppr_push show_f64 g seed alpha eps =
       Some (Inr \<lparr>estimate = nonzero_entries (est st), residual = nonzero_entries (res st),
                 pr_work = work st, pr_pushes = pushes st\<rparr>)"
    "push_inv g alpha eps (push_init g seed eps) st" "active st = []"
    using push_result [OF assms] by blast
  obtain x where x: "personalized_pagerank_exact show_f64 (transition_matrix g) ?s alpha = Inr x"
    "ppr_equation ?n (cell ?n (transition_matrix g)) alpha (\<lambda>i. ?s ! i) (\<lambda>i. x ! i)"
    using exact_on_graph [OF assms(1) _ assms(2,3), of ?s] by auto
  have ok: "st_ok g eps st" using st(2) by (simp add: push_inv_def)
  note P = stochastic_transition [OF assms(1)]
  have eq: "ppr_equation ?n (cell ?n (transition_matrix g)) alpha (\<lambda>i. res st ! i) (\<lambda>i. x ! i - est st ! i)"
    using equation_diff [OF x(2) push_equation [OF assms(1,2) st(2)]] by simp
  have small: "res st ! u \<le> eps * degree g ! u" if "u < ?n" for u
    using ok st(3) that by (auto simp: st_ok_def not_le [symmetric] intro: less_imp_le)
  have "\<forall>u < ?n. 0 \<le> x ! u - est st ! u"
    by (rule equation_nonneg [OF P assms(2,3) eq]) (use ok in \<open>simp add: st_ok_def\<close>)
  moreover have "(\<Sum>u < ?n. x ! u - est st ! u) = (\<Sum>u < ?n. res st ! u)"
    by (rule equation_mass [OF P assms(2) eq])
  moreover have "(\<Sum>u < ?n. res st ! u) \<le> eps * (\<Sum>u < ?n. degree g ! u)"
    unfolding sum_distrib_left by (rule sum_mono) (simp add: small)
  ultimately show ?thesis
    using st(1) x(1) ok assms(1)
    by (simp add: entry_nonzero_entries mass_sum_def st_ok_def wf_graph_def)
qed

theorem push_agrees_with_exact_witness:
  "\<exists>r x. approximate_ppr_push (\<lambda>_. []) pair_graph [(0, 1)] (15/100) (1/100000) = Some (Inr r)
    \<and> personalized_pagerank_exact (\<lambda>_. []) (transition_matrix pair_graph)
        (seed_residual (n_nodes pair_graph) [(0, 1)]) (15/100) = Inr x
    \<and> (\<forall>u < n_nodes pair_graph. entry (estimate r) u \<le> x ! u)
    \<and> (\<Sum>u < n_nodes pair_graph. x ! u - entry (estimate r) u)
        = mass_sum (\<lambda>_. 1) (n_nodes pair_graph) (residual r)
    \<and> mass_sum (\<lambda>_. 1) (n_nodes pair_graph) (residual r)
        \<le> 1/100000 * (\<Sum>u < n_nodes pair_graph. degree pair_graph ! u)"
  by (rule push_agrees_with_exact) (simp_all add: wf_pair_graph)

end
