(* ===== verification/Store.thy ===== *)
theory Store
  imports Graph "HOL-Library.Multiset" "HOL-Library.Option_ord"
begin

text \<open>
  The store (\<open>crates/cognis-store/src/lib.rs\<close>) over the tables of its schema
  (\<open>crates/cognis-store/migrations\<close>). A table with a primary key is the ordered map of its rows, the
  full-text table, which has no key, a list of rows. \<open>ORDER BY\<close> on text is the bytewise order of
  strings; a query without it returns the rows in an order the argument \<open>scan\<close> stands for. What the
  statements do is written out as functions of the tables; full-text matching, Unicode lower-casing,
  the JSON codec and the \<open>vec0\<close> extension are arguments.
\<close>

subsection \<open>Cells\<close>

fun edge_kind_db :: "edge_kind \<Rightarrow> string" where
  "edge_kind_db Calls = ''calls''"
| "edge_kind_db Imports = ''imports''"
| "edge_kind_db Inherits = ''inherits''"
| "edge_kind_db Implements = ''implements''"
| "edge_kind_db Reads = ''reads''"
| "edge_kind_db Writes = ''writes''"
| "edge_kind_db RoutesTo = ''routes_to''"
| "edge_kind_db Tests = ''tests''"

definition edge_kinds :: "edge_kind list" where
  "edge_kinds = [Calls, Imports, Inherits, Implements, Reads, Writes, RoutesTo, Tests]"

definition symbol_kinds :: "symbol_kind list" where
  "symbol_kinds = [Function, Class, Method, Interface, Route, Module, Var, Const]"

text \<open>The deserializers accept exactly the names the serializers produce.\<close>

definition parse_symbol_kind :: "string \<Rightarrow> symbol_kind option" where
  "parse_symbol_kind s = find (\<lambda>k. kind_json k = s) symbol_kinds"

definition parse_edge_kind :: "string \<Rightarrow> edge_kind option" where
  "parse_edge_kind s = find (\<lambda>k. edge_kind_db k = s) edge_kinds"

record symbol_row =
  row_id :: string
  row_kind :: string
  row_name :: string
  row_qualified_name :: string
  row_language :: string
  row_module :: string
  row_file_path :: string
  row_line_start :: nat
  row_line_end :: nat
  row_signature :: "string option"
  row_docstring :: "string option"
  row_content_hash :: string
  row_body_excerpt :: "string option"
  row_semantic_summary :: "string option"
  row_risk_score :: f64
  row_ambiguous :: int
  row_flags :: "string option"
  row_updated_at :: int

definition symbol_to_row :: "(string list \<Rightarrow> string) \<Rightarrow> symbol \<Rightarrow> symbol_row" where
  "symbol_to_row to_json s =
     \<lparr>row_id = sid s, row_kind = kind_json (skind s), row_name = sname s,
      row_qualified_name = qualified_name s, row_language = language s, row_module = smodule s,
      row_file_path = file_path s, row_line_start = line_start s, row_line_end = line_end s,
      row_signature = signature s, row_docstring = docstring s, row_content_hash = content_hash s,
      row_body_excerpt = body_excerpt s, row_semantic_summary = semantic_summary s,
      row_risk_score = risk_score s, row_ambiguous = of_bool (ambiguous s),
      row_flags = (if untrusted_flags s = [] then None else Some (to_json (untrusted_flags s))),
      row_updated_at = updated_at s\<rparr>"

definition row_to_symbol :: "(string \<Rightarrow> string + string list) \<Rightarrow> symbol_row \<Rightarrow> string + symbol" where
  "row_to_symbol from_json r =
     and_then (case row_flags r of
                 None \<Rightarrow> Inr []
               | Some text \<Rightarrow> if text = [] then Inr []
                              else (case from_json text of
                                      Inl e \<Rightarrow> Inl (''corrupt untrusted_flags: '' @ e)
                                    | Inr fs \<Rightarrow> Inr fs))
       (\<lambda>flags. case parse_symbol_kind (row_kind r) of
          None \<Rightarrow> Inl (''bad symbol kind '' @ row_kind r)
        | Some k \<Rightarrow> Inr
            \<lparr>sid = row_id r, skind = k, sname = row_name r, qualified_name = row_qualified_name r,
             language = row_language r, smodule = row_module r, file_path = row_file_path r,
             line_start = row_line_start r, line_end = row_line_end r, signature = row_signature r,
             docstring = row_docstring r, content_hash = row_content_hash r,
             body_excerpt = row_body_excerpt r, semantic_summary = row_semantic_summary r,
             risk_score = row_risk_score r, ambiguous = row_ambiguous r \<noteq> 0,
             untrusted_flags = flags, updated_at = row_updated_at r\<rparr>)"

text \<open>An empty or null \<open>meta\<close> is stored as \<open>NULL\<close>, which is read back as an empty object.\<close>

definition edge_meta_to_db :: "(json \<Rightarrow> string) \<Rightarrow> json \<Rightarrow> string option" where
  "edge_meta_to_db to_text m = (if m = JNull \<or> m = JObj [] then None else Some (to_text m))"

definition meta_from_db :: "(string \<Rightarrow> string + json) \<Rightarrow> string option \<Rightarrow> string + json" where
  "meta_from_db from_text m =
     (case m of
        None \<Rightarrow> Inr (JObj [])
      | Some text \<Rightarrow> if text = [] then Inr (JObj [])
                     else (case from_text text of
                             Inl e \<Rightarrow> Inl (''corrupt edge.meta: '' @ e)
                           | Inr v \<Rightarrow> Inr v))"

definition stored_meta :: "json \<Rightarrow> json" where
  "stored_meta m = (if m = JNull then JObj [] else m)"

subsection \<open>Tables\<close>

type_synonym f32 = real
type_synonym edge_key = "string \<times> string \<times> string"
type_synonym fts_doc = "string \<times> string \<times> string \<times> string \<times> string"

record file_row =
  fr_path :: string
  fr_language :: string
  fr_size :: int
  fr_hash :: string
  fr_parsed_at :: int
  fr_status :: parse_status

record queue_row =
  qr_file :: string
  qr_enqueued_at :: int
  qr_attempts :: int
  qr_next :: int
  qr_error :: "string option"

record generation =
  source_generation :: int
  semantic_generation :: int
  gen_updated_at :: int

record vector_space =
  vs_digest :: string
  vs_dim :: int
  vs_model :: string
  vs_established_at :: int

record batch_row =
  br_committed_at :: int
  br_file_count :: int
  br_reason :: string

text \<open>
  \<open>db_vec_form\<close> is \<open>Some d\<close> when \<open>symbol_vec\<close> is a \<open>vec0\<close> table of \<open>FLOAT[d]\<close> and \<open>None\<close> when it is the
  plain table of blobs. A blob of \<open>n\<close> floats is the list of them.
\<close>

record database =
  db_symbols :: "(string, symbol) btree"
  db_edges :: "(edge_key, edge) btree"
  db_fts :: "(string \<times> fts_doc) list"
  db_vec :: "(string, f32 list) btree"
  db_vec_form :: "nat option"
  db_files :: "(string, file_row) btree"
  db_queue :: "(string, queue_row) btree"
  db_generation :: "generation option"
  db_batches :: "(int, batch_row) btree"
  db_batch_files :: "(int \<times> string, string) btree"
  db_space :: "vector_space option"
  db_meta :: "(string, string) btree"

text \<open>The connection's environment: whether \<open>vec0\<close> loads, and the messages of the library.\<close>

record sqlite_env =
  vec_ext :: bool
  no_module_msg :: string
  vec_dim_msg :: string
  foreign_key_msg :: string
  unique_msg :: string

definition empty_database :: database where
  "empty_database =
     \<lparr>db_symbols = [], db_edges = [], db_fts = [], db_vec = [], db_vec_form = None, db_files = [],
      db_queue = [],
      db_generation = Some \<lparr>source_generation = 0, semantic_generation = 0, gen_updated_at = 0\<rparr>,
      db_batches = [], db_batch_files = [], db_space = None, db_meta = []\<rparr>"

definition edge_key :: "edge \<Rightarrow> edge_key" where
  "edge_key e = (src_id e, dst_id e, edge_kind_db (ekind e))"

text \<open>What holds of every committed database.\<close>

definition db_ok :: "database \<Rightarrow> bool" where
  "db_ok db \<longleftrightarrow> bt_wf (db_symbols db) \<and> bt_wf (db_edges db) \<and> bt_wf (db_vec db) \<and> bt_wf (db_files db)
     \<and> bt_wf (db_queue db)
     \<and> (\<forall>(i, s) \<in> set (db_symbols db). sid s = i) \<and> (\<forall>(k, e) \<in> set (db_edges db). edge_key e = k)"


subsection \<open>Bounded reads\<close>

definition SQLITE_IN_CHUNK :: nat where "SQLITE_IN_CHUNK = 900"
definition LOOKUP_CANDIDATE_CAP :: nat where "LOOKUP_CANDIDATE_CAP = 256"

text \<open>\<open>SELECT .. FROM symbol ORDER BY id\<close>.\<close>

definition list_symbols :: "database \<Rightarrow> symbol list" where
  "list_symbols db = map snd (db_symbols db)"

definition list_edges :: "database \<Rightarrow> edge list" where
  "list_edges db = map snd (db_edges db)"

definition symbols_in_file :: "database \<Rightarrow> string \<Rightarrow> symbol list" where
  "symbols_in_file db path = filter (\<lambda>s. file_path s = path) (list_symbols db)"

definition symbol_ids_in_file :: "database \<Rightarrow> string \<Rightarrow> string list" where
  "symbol_ids_in_file db path = map sid (filter (\<lambda>s. file_path s = path) (list_symbols db))"

datatype symbol_column = ColId | ColQualifiedName | ColName

fun column_value :: "symbol_column \<Rightarrow> symbol \<Rightarrow> string" where
  "column_value ColId = sid"
| "column_value ColQualifiedName = qualified_name"
| "column_value ColName = sname"

definition symbols_by_values :: "database \<Rightarrow> symbol_column \<Rightarrow> string list \<Rightarrow> symbol list" where
  "symbols_by_values db column vs =
     (if vs = [] then []
      else map snd
             (fold (\<lambda>chunk by_id.
                      fold (\<lambda>s. bt_insert (sid s) s)
                        (filter (\<lambda>s. column_value column s \<in> set chunk) (list_symbols db)) by_id)
                (chunks SQLITE_IN_CHUNK (bset vs)) []))"

abbreviation hydrate_ids :: "database \<Rightarrow> string list \<Rightarrow> symbol list" where
  "hydrate_ids db \<equiv> symbols_by_values db ColId"

text \<open>The lookup ladder; \<open>lower\<close> is \<open>str::to_lowercase\<close>, SQLite's \<open>lower\<close> folds ASCII only.\<close>

definition resolve_exact :: "database \<Rightarrow> (symbol \<Rightarrow> string) \<Rightarrow> string \<Rightarrow> string option \<Rightarrow> symbol option" where
  "resolve_exact db column v kind =
     find (\<lambda>s. column s = v \<and> (case kind of None \<Rightarrow> True | Some k \<Rightarrow> kind_json (skind s) = k)) (list_symbols db)"

fun first_some :: "('a \<Rightarrow> 'b option) \<Rightarrow> 'a list \<Rightarrow> 'b option" where
  "first_some f [] = None"
| "first_some f (x # xs) = (case f x of Some y \<Rightarrow> Some y | None \<Rightarrow> first_some f xs)"

definition lookup_rank :: "(string \<Rightarrow> string) \<Rightarrow> string \<Rightarrow> symbol \<Rightarrow> nat" where
  "lookup_rank lower needle s =
     (let n = lower needle
      in if lower (sname s) = n then 3
         else if str_contains (lower (sname s)) n \<or> str_contains (lower (qualified_name s)) n then 2
         else if str_contains (lower (sid s)) n then 1 else 0)"

definition best_candidate :: "(symbol \<Rightarrow> nat) \<Rightarrow> symbol list \<Rightarrow> (nat \<times> symbol) option" where
  "best_candidate rank cs =
     fold (\<lambda>s best. if 0 < rank s \<and> (case best of None \<Rightarrow> True | Some (r, _) \<Rightarrow> r < rank s)
                    then Some (rank s, s) else best) cs None"

definition resolve_symbol :: "(string \<Rightarrow> string) \<Rightarrow> database \<Rightarrow> string \<Rightarrow> string option \<Rightarrow> symbol option" where
  "resolve_symbol lower db needle kind =
     (let needle = trim needle
      in if needle = [] then None
         else case first_some (\<lambda>(column, v). resolve_exact db column v kind)
                [(sid, needle), (qualified_name, needle), (sname, needle),
                 (\<lambda>s. to_ascii_lowercase (sname s), lower needle)] of
                Some s \<Rightarrow> Some s
              | None \<Rightarrow>
                  (let rows = filter (\<lambda>s. case kind of None \<Rightarrow> True | Some k \<Rightarrow> kind_json (skind s) = k) (list_symbols db);
                       cs = take LOOKUP_CANDIDATE_CAP (sort_key (\<lambda>s. (to_ascii_lowercase (sname s), sid s)) rows)
                   in map_option snd (best_candidate (lookup_rank lower needle) (sort_key sid cs))))"

datatype direction = Out | In | Both

definition follows_outbound :: "direction \<Rightarrow> bool" where
  "follows_outbound d \<longleftrightarrow> d = Out \<or> d = Both"

definition follows_inbound :: "direction \<Rightarrow> bool" where
  "follows_inbound d \<longleftrightarrow> d = In \<or> d = Both"

definition edges_by_endpoint ::
  "database \<Rightarrow> (edge \<Rightarrow> string) \<Rightarrow> string list \<Rightarrow> (edge_key, edge) btree \<Rightarrow> (edge_key, edge) btree" where
  "edges_by_endpoint db column ids by_key =
     fold (\<lambda>chunk by_key.
             fold (\<lambda>e. bt_insert (edge_key e) e) (filter (\<lambda>e. column e \<in> set chunk) (list_edges db)) by_key)
       (chunks SQLITE_IN_CHUNK (bset ids)) by_key"

definition edges_incident :: "database \<Rightarrow> string list \<Rightarrow> direction \<Rightarrow> edge list" where
  "edges_incident db ids direction =
     (if ids = [] then []
      else let m = (if follows_outbound direction then edges_by_endpoint db src_id ids [] else []);
               m = (if follows_inbound direction then edges_by_endpoint db dst_id ids m else m)
           in map snd m)"

text \<open>\<open>fts\<close> answers a full-text query with id, snippet and rank, best rank first, or fails.\<close>

definition fts_search ::
  "((string \<times> fts_doc) list \<Rightarrow> string \<Rightarrow> nat \<Rightarrow> (string \<times> string option \<times> f64 option) list option)
   \<Rightarrow> database \<Rightarrow> string \<Rightarrow> nat \<Rightarrow> hit list" where
  "fts_search fts db q k =
     (if trim q = [] \<or> k = 0 then []
      else case fts (db_fts db) q k of
             None \<Rightarrow> []
           | Some rows \<Rightarrow>
               map (\<lambda>(i, snippet, rank).
                      with_evidence
                        (hit_new i (- (case rank of None \<Rightarrow> 0 | Some r \<Rightarrow> r)) ''lexical''
                           (case map_of (db_symbols db) i of
                              Some s \<Rightarrow> ''FTS5 BM25 match: '' @ qualified_name s
                            | None \<Rightarrow> ''FTS5 BM25 match (symbol row not found)''))
                        (JObj [(''snippet'', JStr (case snippet of None \<Rightarrow> [] | Some t \<Rightarrow> t))])) rows)"

definition cosine_distance :: "f32 list \<Rightarrow> f32 list \<Rightarrow> f64" where
  "cosine_distance a b =
     (let (dot, na, nb) = fold (\<lambda>(x, y) (dot, na, nb). (dot + x * y, na + x * x, nb + y * y)) (zip a b) (0, 0, 0)
      in if na = 0 \<or> nb = 0 then 1 else 1 - dot / (sqrt na * sqrt nb))"

text \<open>The reason prints the distance, which may be any non-negative number, to four decimals.\<close>

definition semantic_hit :: "string \<Rightarrow> f64 \<Rightarrow> string option \<Rightarrow> hit" where
  "semantic_hit i distance name =
     with_evidence
       (hit_new i (max (1 - distance) 0) ''semantic''
          (case name of
             Some qn \<Rightarrow> ''KNN cosine distance '' @ fmt_fixed 4 distance @ '': '' @ qn
           | None \<Rightarrow> ''KNN cosine distance '' @ fmt_fixed 4 distance @ '' (symbol row not found)''))
       (JObj [(''score'', JFloat distance)])"

definition symbol_name_of :: "database \<Rightarrow> string \<Rightarrow> string option" where
  "symbol_name_of db i = map_option qualified_name (map_of (db_symbols db) i)"

definition blob_linear_scan ::
  "((string \<times> f32 list) list \<Rightarrow> (string \<times> f32 list) list) \<Rightarrow> database \<Rightarrow> f32 list \<Rightarrow> nat \<Rightarrow> hit list" where
  "blob_linear_scan scan db q k =
     (let rows = filter (\<lambda>(_, v). v \<noteq> [] \<and> length v = length q) (scan (db_vec db));
          scored = map (\<lambda>(i, v). (cosine_distance q v, i, symbol_name_of db i)) rows
      in map (\<lambda>(dist, i, qn). semantic_hit i dist qn)
           (take k (sort_key (\<lambda>(dist, i, _). (dist, i)) scored)))"

definition vec0_table_present :: "database \<Rightarrow> bool" where
  "vec0_table_present db \<longleftrightarrow> db_vec_form db \<noteq> None"

text \<open>\<open>knn\<close> is the extension's nearest-neighbour query: ids and distances, or a failure.\<close>

definition vec0_knn ::
  "(database \<Rightarrow> f32 list \<Rightarrow> nat \<Rightarrow> (string \<times> f64 option) list option) \<Rightarrow> database \<Rightarrow> f32 list \<Rightarrow> nat \<Rightarrow> hit list option" where
  "vec0_knn knn db q k =
     map_option
       (\<lambda>rows. map (\<lambda>(i, d). semantic_hit i (case d of Some d \<Rightarrow> d | None \<Rightarrow> 1) (symbol_name_of db i))
                 (sort_key (\<lambda>(i, d). (d, i)) rows))
       (knn db q (min k 4096))"

definition vec_search ::
  "(database \<Rightarrow> f32 list \<Rightarrow> nat \<Rightarrow> (string \<times> f64 option) list option)
   \<Rightarrow> ((string \<times> f32 list) list \<Rightarrow> (string \<times> f32 list) list) \<Rightarrow> database \<Rightarrow> f32 list \<Rightarrow> nat \<Rightarrow> hit list" where
  "vec_search knn scan db q k =
     (if q = [] \<or> k = 0 then []
      else if vec0_table_present db then (case vec0_knn knn db q k of Some hs \<Rightarrow> hs | None \<Rightarrow> [])
      else blob_linear_scan scan db q k)"

definition vec_row_count :: "sqlite_env \<Rightarrow> database \<Rightarrow> nat" where
  "vec_row_count env db = (if vec0_table_present db \<and> \<not> vec_ext env then 0 else length (db_vec db))"

subsection \<open>The code graph of the store\<close>

text \<open>\<open>COALESCE(json_extract(meta, '$.dst_missing'), 0)\<close> read as an integer.\<close>

definition missing_flag :: "json \<Rightarrow> string + int" where
  "missing_flag m =
     (case jget m ''dst_missing'' of
        None \<Rightarrow> Inr 0
      | Some JNull \<Rightarrow> Inr 0
      | Some (JBool b) \<Rightarrow> Inr (of_bool b)
      | Some (JInt i) \<Rightarrow> Inr i
      | Some _ \<Rightarrow> Inl ''Invalid column type'')"

definition graph_row ::
  "(string \<rightharpoonup> nat) \<Rightarrow> string list option \<Rightarrow> edge \<Rightarrow> (int, f64) btree list \<Rightarrow> cognis_error + (int, f64) btree list" where
  "graph_row ix kinds e acc =
     (case missing_flag (meta e) of
        Inl msg \<Rightarrow> Inl (StoreError msg)
      | Inr flag \<Rightarrow>
          if flag = 1 then Inr acc
          else if (case kinds of None \<Rightarrow> False | Some ks \<Rightarrow> edge_kind_db (ekind e) \<notin> set ks) then Inr acc
          else (case (ix (src_id e), ix (dst_id e)) of
                  (Some u, Some v) \<Rightarrow>
                    if u = v then Inr acc
                    else let w = confidence e
                         in if w \<le> 0 then Inr acc
                            else let acc = acc[u := entry_add (as_i32 v) w (acc ! u)]
                                 in Inr (acc[v := entry_add (as_i32 u) w (acc ! v)])
                | _ \<Rightarrow> Inr acc))"

definition build_code_graph ::
  "(string list \<Rightarrow> string list) \<Rightarrow> (edge list \<Rightarrow> edge list) \<Rightarrow> database \<Rightarrow> string list option \<Rightarrow> cognis_error + code_graph" where
  "build_code_graph scan_ids scan_edges db kinds =
     (let ids = scan_ids (map sid (list_symbols db)); n = length ids; ix = node_index ids
      in and_then (try_fold (graph_row ix kinds) (scan_edges (list_edges db)) (replicate n []))
           (\<lambda>acc. let (ip, inds, ws, dg) = fold push_row (enumerate 0 acc) ([0], [], [], [])
                  in Inr \<lparr>indptr = ip, indices = inds, weights = ws, degree = dg, node_ids = ids, index = ix\<rparr>))"


subsection \<open>Chunked reads are reads\<close>

lemma set_bt_insert_wf: "bt_wf m \<Longrightarrow> set (bt_insert k v m) = insert (k, v) {p \<in> set m. fst p \<noteq> k}"
proof (induction k v m rule: bt_insert.induct)
  case (2 k v k' v' m)
  then show ?case by (auto simp: bt_wf_def)
qed simp

text \<open>Collecting rows of a table by their key, in any order and any number of times.\<close>

definition keyed :: "('a \<Rightarrow> 'k) \<Rightarrow> 'a set \<Rightarrow> ('k \<times> 'a) set" where
  "keyed f A = (\<lambda>s. (f s, s)) ` A"

lemma keyed_Un: "keyed f (A \<union> B) = keyed f A \<union> keyed f B"
  by (auto simp: keyed_def)

lemma collect_rows:
  assumes "inj_on f T" "set xs \<subseteq> T" "A \<subseteq> T" "bt_wf m" "set m = keyed f A"
  shows "bt_wf (fold (\<lambda>s. bt_insert (f s) s) xs m) \<and> set (fold (\<lambda>s. bt_insert (f s) s) xs m) = keyed f (A \<union> set xs)"
  using assms(2-5)
proof (induction xs arbitrary: m A)
  case (Cons x xs)
  have "set (bt_insert (f x) x m) = keyed f (insert x A)"
    using Cons.prems assms(1) by (auto simp: set_bt_insert_wf keyed_def inj_on_def)
  with Cons.IH [of "insert x A" "bt_insert (f x) x m"] Cons.prems show ?case
    by (simp add: bt_wf_insert)
qed (simp add: keyed_def)

lemma collect_chunks:
  assumes "inj_on f (set rows)" "A \<subseteq> set rows" "bt_wf m" "set m = keyed f A"
  shows "bt_wf (fold (\<lambda>chunk m. fold (\<lambda>s. bt_insert (f s) s) (filter (\<lambda>s. g s \<in> set chunk) rows) m) cs m)
    \<and> set (fold (\<lambda>chunk m. fold (\<lambda>s. bt_insert (f s) s) (filter (\<lambda>s. g s \<in> set chunk) rows) m) cs m)
        = keyed f (A \<union> {s \<in> set rows. g s \<in> set (concat cs)})"
  using assms(2-4)
proof (induction cs arbitrary: m A)
  case (Cons c cs)
  let ?m = "fold (\<lambda>s. bt_insert (f s) s) (filter (\<lambda>s. g s \<in> set c) rows) m"
  have "bt_wf ?m \<and> set ?m = keyed f (A \<union> set (filter (\<lambda>s. g s \<in> set c) rows))"
    by (rule collect_rows [OF assms(1)]) (use Cons.prems in auto)
  moreover have "A \<union> set (filter (\<lambda>s. g s \<in> set c) rows) \<subseteq> set rows" using Cons.prems by auto
  ultimately have "bt_wf (fold (\<lambda>chunk m. fold (\<lambda>s. bt_insert (f s) s) (filter (\<lambda>s. g s \<in> set chunk) rows) m) cs ?m)
    \<and> set (fold (\<lambda>chunk m. fold (\<lambda>s. bt_insert (f s) s) (filter (\<lambda>s. g s \<in> set chunk) rows) m) cs ?m)
        = keyed f ((A \<union> set (filter (\<lambda>s. g s \<in> set c) rows)) \<union> {s \<in> set rows. g s \<in> set (concat cs)})"
    by (intro Cons.IH) auto
  moreover have "(A \<union> set (filter (\<lambda>s. g s \<in> set c) rows)) \<union> {s \<in> set rows. g s \<in> set (concat cs)}
      = A \<union> {s \<in> set rows. g s \<in> set (concat (c # cs))}"
    by auto
  ultimately show ?case by simp
qed (simp add: keyed_def)

lemma collected_rows:
  assumes "bt_wf m" "set m = keyed f {s \<in> set rows. P s}" "sorted_wrt (\<lambda>s t. f s < f t) rows"
  shows "map snd m = filter P (rows :: 'a list)"
proof -
  let ?m = "map (\<lambda>s. (f s, s)) (filter P rows)"
  have wf: "bt_wf ?m"
    using assms(3) by (simp add: bt_wf_def o_def sorted_wrt_map sorted_wrt_filter)
  moreover have "set ?m = set m" using assms(2) by (auto simp: keyed_def)
  ultimately have "m = ?m" using assms(1) by (metis bt_set_eqI)
  then have "map snd m = map snd ?m" by simp
  then show ?thesis by (simp add: o_def)
qed


lemma db_ok_symbols:
  assumes "db_ok db"
  shows "map fst (db_symbols db) = map sid (list_symbols db)" "sorted_wrt (\<lambda>s t. sid s < sid t) (list_symbols db)"
    "inj_on sid (set (list_symbols db))" "distinct (map sid (list_symbols db))"
proof -
  show eq: "map fst (db_symbols db) = map sid (list_symbols db)"
    using assms by (auto simp: db_ok_def list_symbols_def)
  have "sorted_wrt (<) (map sid (list_symbols db))"
    using assms eq by (simp add: db_ok_def bt_wf_def)
  then show "sorted_wrt (\<lambda>s t. sid s < sid t) (list_symbols db)" "distinct (map sid (list_symbols db))"
    "inj_on sid (set (list_symbols db))"
    by (simp only: sorted_wrt_map, simp only: strict_sorted_iff, simp only: strict_sorted_iff distinct_map)
qed

lemma db_ok_edges:
  assumes "db_ok db"
  shows "sorted_wrt (\<lambda>s t. edge_key s < edge_key t) (list_edges db)" "inj_on edge_key (set (list_edges db))"
proof -
  have eq: "map fst (db_edges db) = map edge_key (list_edges db)"
    using assms by (auto simp: db_ok_def list_edges_def)
  have "sorted_wrt (<) (map edge_key (list_edges db))"
    using assms eq by (simp add: db_ok_def bt_wf_def)
  then show "sorted_wrt (\<lambda>s t. edge_key s < edge_key t) (list_edges db)" "inj_on edge_key (set (list_edges db))"
    by (simp only: sorted_wrt_map, simp only: strict_sorted_iff distinct_map)
qed

lemma concat_bset_chunks [simp]: "set (concat (chunks SQLITE_IN_CHUNK (bset vs))) = set vs"
  by (simp only: concat_chunks SQLITE_IN_CHUNK_def zero_less_numeral set_bset)

lemma symbols_by_values_filter:
  assumes "db_ok db"
  shows "symbols_by_values db column vs = filter (\<lambda>s. column_value column s \<in> set vs) (list_symbols db)"
proof (cases "vs = []")
  case True
  then show ?thesis by (simp add: symbols_by_values_def)
next
  case False
  let ?m = "fold (\<lambda>chunk m. fold (\<lambda>s. bt_insert (sid s) s)
      (filter (\<lambda>s. column_value column s \<in> set chunk) (list_symbols db)) m) (chunks SQLITE_IN_CHUNK (bset vs)) []"
  have "bt_wf ?m \<and> set ?m = keyed sid {s \<in> set (list_symbols db). column_value column s \<in> set vs}"
    using collect_chunks [OF db_ok_symbols(3) [OF assms], of "{}" "[]" "column_value column" "chunks SQLITE_IN_CHUNK (bset vs)"]
    by (simp only: concat_bset_chunks) (simp add: keyed_def)
  then have "map snd ?m = filter (\<lambda>s. column_value column s \<in> set vs) (list_symbols db)"
    by (intro collected_rows [OF _ _ db_ok_symbols(2) [OF assms]]) auto
  with False show ?thesis by (simp add: symbols_by_values_def)
qed

lemma edges_by_endpoint_rows:
  assumes "db_ok db" "A \<subseteq> set (list_edges db)" "bt_wf m" "set m = keyed edge_key A"
  shows "bt_wf (edges_by_endpoint db column ids m)
    \<and> set (edges_by_endpoint db column ids m) = keyed edge_key (A \<union> {e \<in> set (list_edges db). column e \<in> set ids})"
  using collect_chunks [OF db_ok_edges(2) [OF assms(1)] assms(2-4), of column "chunks SQLITE_IN_CHUNK (bset ids)"]
  unfolding edges_by_endpoint_def concat_bset_chunks .

definition incident :: "string set \<Rightarrow> direction \<Rightarrow> edge \<Rightarrow> bool" where
  "incident ids d e \<longleftrightarrow> follows_outbound d \<and> src_id e \<in> ids \<or> follows_inbound d \<and> dst_id e \<in> ids"

lemma edges_incident_filter:
  assumes "db_ok db"
  shows "edges_incident db ids d = filter (incident (set ids) d) (list_edges db)"
proof (cases "ids = []")
  case True
  then show ?thesis by (simp add: edges_incident_def incident_def)
next
  case False
  let ?E = "set (list_edges db)"
  let ?m = "if follows_outbound d then edges_by_endpoint db src_id ids [] else []"
  let ?A = "{e \<in> ?E. follows_outbound d \<and> src_id e \<in> set ids}"
  have m: "bt_wf ?m" "set ?m = keyed edge_key ?A"
    using edges_by_endpoint_rows [OF assms, of "{}" "[]" src_id ids] by (auto simp: keyed_def)
  let ?m' = "if follows_inbound d then edges_by_endpoint db dst_id ids ?m else ?m"
  have "?A \<union> (if follows_inbound d then {e \<in> ?E. dst_id e \<in> set ids} else {}) = {e \<in> ?E. incident (set ids) d e}"
    by (auto simp: incident_def)
  moreover have "?A \<subseteq> ?E" by auto
  ultimately have "bt_wf ?m' \<and> set ?m' = keyed edge_key {e \<in> ?E. incident (set ids) d e}"
    using edges_by_endpoint_rows [OF assms, of ?A ?m dst_id ids] m by (cases "follows_inbound d") simp_all
  then have "map snd ?m' = filter (incident (set ids) d) (list_edges db)"
    by (intro collected_rows [OF _ _ db_ok_edges(1) [OF assms]]) auto
  with False show ?thesis by (simp add: edges_incident_def Let_def)
qed

subsection \<open>The graph is the graph of the rows\<close>

text \<open>The triple an edge row contributes.\<close>

definition row_triple :: "(string \<rightharpoonup> nat) \<Rightarrow> string list option \<Rightarrow> edge \<Rightarrow> (nat \<times> nat \<times> f64) option" where
  "row_triple ix kinds e =
     (if missing_flag (meta e) = Inr 1
       \<or> (case kinds of None \<Rightarrow> False | Some ks \<Rightarrow> edge_kind_db (ekind e) \<notin> set ks) then None
      else (case (ix (src_id e), ix (dst_id e)) of
              (Some u, Some v) \<Rightarrow> Some (u, v, confidence e)
            | _ \<Rightarrow> None))"

lemma graph_row_triple:
  assumes "missing_flag (meta e) = Inr f" "\<And>i u. ix i = Some u \<Longrightarrow> u < n" "length acc = n"
  shows "graph_row ix kinds e acc =
    Inr (case row_triple ix kinds e of None \<Rightarrow> acc | Some t \<Rightarrow> add_triple n True t acc)"
proof -
  have "\<not> n \<le> u" if "ix i = Some u" for i u using assms(2) [OF that] by simp
  then show ?thesis
    using assms(1) by (simp add: graph_row_def row_triple_def Let_def split: option.splits)
qed

lemma graph_rows_triples:
  assumes "\<forall>e \<in> set es. \<exists>f. missing_flag (meta e) = Inr f" "\<And>i u. ix i = Some u \<Longrightarrow> u < n" "length acc = n"
  shows "try_fold (graph_row ix kinds) es acc = Inr (fold (add_triple n True) (List.map_filter (row_triple ix kinds) es) acc)"
  using assms(1,3)
proof (induction es arbitrary: acc)
  case (Cons e es)
  obtain f where f: "missing_flag (meta e) = Inr f" using Cons.prems by auto
  let ?acc = "case row_triple ix kinds e of None \<Rightarrow> acc | Some t \<Rightarrow> add_triple n True t acc"
  have "length ?acc = n" using Cons.prems by (simp split: option.splits)
  with Cons graph_row_triple [where ix = ix and kinds = kinds, OF f assms(2) Cons.prems(2)] show ?case
    by (cases "row_triple ix kinds e") (simp_all add: List.map_filter_simps)
qed (simp add: List.map_filter_simps)

lemma build_code_graph_triples:
  assumes "\<forall>e \<in> set (scan_edges (list_edges db)). \<exists>f. missing_flag (meta e) = Inr f"
    and ids: "ids = scan_ids (map sid (list_symbols db))"
  shows "build_code_graph scan_ids scan_edges db kinds =
    Inr (from_weighted_triples ids (List.map_filter (row_triple (node_index ids) kinds) (scan_edges (list_edges db))) True)"
proof -
  have "try_fold (graph_row (node_index ids) kinds) (scan_edges (list_edges db)) (replicate (length ids) []) =
      Inr (fold (add_triple (length ids) True) (List.map_filter (row_triple (node_index ids) kinds) (scan_edges (list_edges db)))
             (replicate (length ids) []))"
    by (rule graph_rows_triples) (use assms(1) in \<open>auto dest: node_index_Some\<close>)
  then show ?thesis by (simp add: build_code_graph_def from_weighted_triples_def ids Let_def split_def)
qed


subsection \<open>Writes\<close>

text \<open>
  \<open>BEGIN IMMEDIATE\<close> and \<open>COMMIT\<close> may fail; a failed body is rolled back. The first component of the
  result is what other connections see afterwards.
\<close>

definition with_write_txn ::
  "cognis_error option \<Rightarrow> cognis_error option \<Rightarrow> (database \<Rightarrow> cognis_error + database \<times> 'a) \<Rightarrow> database
   \<Rightarrow> database \<times> (cognis_error + 'a)" where
  "with_write_txn begin_err commit_err body db =
     (case begin_err of
        Some e \<Rightarrow> (db, Inl e)
      | None \<Rightarrow>
          (case body db of
             Inl e \<Rightarrow> (db, Inl e)
           | Inr (db', x) \<Rightarrow> (case commit_err of Some e \<Rightarrow> (db, Inl e) | None \<Rightarrow> (db', Inr x))))"

definition fts_doc_of :: "symbol \<Rightarrow> fts_doc" where
  "fts_doc_of s =
     (sname s, qualified_name s, case signature s of None \<Rightarrow> [] | Some t \<Rightarrow> t,
      case docstring s of None \<Rightarrow> [] | Some t \<Rightarrow> t, case body_excerpt s of None \<Rightarrow> [] | Some t \<Rightarrow> t)"

definition upsert_symbol :: "symbol \<Rightarrow> database \<Rightarrow> database" where
  "upsert_symbol s db =
     db\<lparr>db_symbols := bt_insert (sid s) s (db_symbols db),
        db_fts := filter (\<lambda>r. fst r \<noteq> sid s) (db_fts db) @ [(sid s, fts_doc_of s)]\<rparr>"

definition upsert_edge :: "edge \<Rightarrow> database \<Rightarrow> database" where
  "upsert_edge e db = db\<lparr>db_edges := bt_insert (edge_key e) (e\<lparr>meta := stored_meta (meta e)\<rparr>) (db_edges db)\<rparr>"

definition upsert_symbols :: "cognis_error option \<Rightarrow> cognis_error option \<Rightarrow> symbol list \<Rightarrow> database \<Rightarrow> database \<times> (cognis_error + unit)" where
  "upsert_symbols be ce ss db =
     (if ss = [] then (db, Inr ())
      else with_write_txn be ce (\<lambda>db. Inr (fold upsert_symbol ss db, ())) db)"

definition upsert_edges :: "cognis_error option \<Rightarrow> cognis_error option \<Rightarrow> edge list \<Rightarrow> database \<Rightarrow> database \<times> (cognis_error + unit)" where
  "upsert_edges be ce es db =
     (if es = [] then (db, Inr ())
      else with_write_txn be ce (\<lambda>db. Inr (fold upsert_edge es db, ())) db)"

text \<open>Deleting a symbol row cascades to the plain vector table.\<close>

definition delete_symbol_row :: "string \<Rightarrow> database \<Rightarrow> database" where
  "delete_symbol_row i db =
     db\<lparr>db_symbols := filter (\<lambda>r. fst r \<noteq> i) (db_symbols db),
        db_vec := (if vec0_table_present db then db_vec db else filter (\<lambda>r. fst r \<noteq> i) (db_vec db))\<rparr>"

definition delete_vector :: "string \<Rightarrow> database \<Rightarrow> database" where
  "delete_vector i db = db\<lparr>db_vec := filter (\<lambda>r. fst r \<noteq> i) (db_vec db)\<rparr>"

definition delete_fts :: "string \<Rightarrow> database \<Rightarrow> database" where
  "delete_fts i db = db\<lparr>db_fts := filter (\<lambda>r. fst r \<noteq> i) (db_fts db)\<rparr>"

definition delete_queued :: "string \<Rightarrow> database \<Rightarrow> database" where
  "delete_queued i db = db\<lparr>db_queue := filter (\<lambda>r. fst r \<noteq> i) (db_queue db)\<rparr>"

definition delete_outbound :: "string \<Rightarrow> database \<Rightarrow> database" where
  "delete_outbound i db = db\<lparr>db_edges := filter (\<lambda>r. src_id (snd r) \<noteq> i) (db_edges db)\<rparr>"

text \<open>\<open>json_patch(COALESCE(meta, '{}'), {"dst_missing": true})\<close>.\<close>

definition flag_meta :: "json \<Rightarrow> json" where
  "flag_meta m =
     (case m of JObj kvs \<Rightarrow> JObj (obj_insert ''dst_missing'' (JBool True) kvs)
              | _ \<Rightarrow> JObj [(''dst_missing'', JBool True)])"

definition flag_inbound :: "string \<Rightarrow> database \<Rightarrow> database" where
  "flag_inbound i db =
     db\<lparr>db_edges := map (\<lambda>(k, e). (k, if dst_id e = i then e\<lparr>meta := flag_meta (meta e)\<rparr> else e)) (db_edges db)\<rparr>"

definition delete_symbol :: "sqlite_env \<Rightarrow> cognis_error option \<Rightarrow> cognis_error option \<Rightarrow> string \<Rightarrow> database \<Rightarrow> database \<times> (cognis_error + unit)" where
  "delete_symbol env be ce i =
     with_write_txn be ce
       (\<lambda>db. let db = delete_symbol_row i db;
                 db = (if \<not> vec0_table_present db \<or> vec_ext env then delete_vector i db else db);
                 db = delete_fts i db;
                 db = delete_outbound i db
             in Inr (flag_inbound i db, ()))"

text \<open>Preparing a statement on a \<open>vec0\<close> table needs the extension.\<close>

definition prepare_vec :: "sqlite_env \<Rightarrow> database \<Rightarrow> cognis_error + unit" where
  "prepare_vec env db =
     (if vec0_table_present db \<and> \<not> vec_ext env then Inl (StoreError (no_module_msg env)) else Inr ())"

definition insert_vector :: "sqlite_env \<Rightarrow> string \<Rightarrow> f32 list \<Rightarrow> database \<Rightarrow> cognis_error + database" where
  "insert_vector env i v db =
     (case db_vec_form db of
        Some d \<Rightarrow> if length v \<noteq> d then Inl (StoreError (vec_dim_msg env))
                  else Inr (db\<lparr>db_vec := bt_insert i v (db_vec db)\<rparr>)
      | None \<Rightarrow> if map_of (db_symbols db) i = None then Inl (StoreError (foreign_key_msg env))
                else Inr (db\<lparr>db_vec := bt_insert i v (db_vec db)\<rparr>))"

definition replace_vector :: "sqlite_env \<Rightarrow> string \<times> f32 list \<Rightarrow> database \<Rightarrow> cognis_error + database" where
  "replace_vector env = (\<lambda>(i, v) db. insert_vector env i v (delete_vector i db))"

definition upsert_embeddings :: "sqlite_env \<Rightarrow> cognis_error option \<Rightarrow> cognis_error option \<Rightarrow> (string \<times> f32 list) list
    \<Rightarrow> database \<Rightarrow> database \<times> (cognis_error + unit)" where
  "upsert_embeddings env be ce rows db =
     (if rows = [] then (db, Inr ())
      else let existing = map fst (db_symbols db)
           in with_write_txn be ce
                (\<lambda>db. and_then (prepare_vec env db)
                        (\<lambda>_. and_then (try_fold (replace_vector env) (filter (\<lambda>r. fst r \<in> set existing) rows) db)
                               (\<lambda>db. Inr (db, ())))) db)"

definition recreate_vec_table :: "sqlite_env \<Rightarrow> bool \<Rightarrow> nat \<Rightarrow> database \<Rightarrow> cognis_error + database" where
  "recreate_vec_table env is_vec0 width db =
     (if is_vec0 \<and> \<not> vec_ext env then Inl (StoreError (no_module_msg env))
      else Inr (db\<lparr>db_vec := [], db_vec_form := (if is_vec0 then Some width else None)\<rparr>))"

definition DEFAULT_EMBEDDING_DIM :: nat where "DEFAULT_EMBEDDING_DIM = 384"
definition EMBEDDING_DIM_META_KEY :: string where "EMBEDDING_DIM_META_KEY = ''embedding_dim''"

definition reconcile_embedding_dim :: "sqlite_env \<Rightarrow> cognis_error option \<Rightarrow> cognis_error option \<Rightarrow> nat \<Rightarrow> database \<Rightarrow> database \<times> (cognis_error + unit)" where
  "reconcile_embedding_dim env be ce width db =
     (let stored = (case Option.bind (map_of (db_meta db) EMBEDDING_DIM_META_KEY) parse_u64 of
                      None \<Rightarrow> DEFAULT_EMBEDDING_DIM | Some d \<Rightarrow> d);
          is_vec0 = vec0_table_present db;
          heal_vec0 = (is_vec0 \<and> \<not> vec_ext env);
          upgrade_to_vec0 = (\<not> is_vec0 \<and> vec_ext env)
      in if stored = width \<and> (case db_vec_form db of None \<Rightarrow> True | Some d \<Rightarrow> d = width) \<and> \<not> heal_vec0 \<and> \<not> upgrade_to_vec0
         then (db, Inr ())
         else with_write_txn be ce
                (\<lambda>db. and_then
                   (recreate_vec_table env (vec_ext env) width
                      (db\<lparr>db_meta := bt_insert EMBEDDING_DIM_META_KEY (show_nat width) (db_meta db)\<rparr>))
                   (\<lambda>db. Inr (db, ()))) db)"


subsection \<open>The invariant of the tables\<close>

text \<open>Every symbol has exactly one full-text row, made from its current columns.\<close>

definition fts_synced :: "database \<Rightarrow> bool" where
  "fts_synced db \<longleftrightarrow> distinct (map fst (db_fts db))
     \<and> set (db_fts db) = (\<lambda>(i, s). (i, fts_doc_of s)) ` set (db_symbols db)"

text \<open>Vectors belong to symbols, and a \<open>vec0\<close> table is only there where its module loads.\<close>

definition vec_ok :: "sqlite_env \<Rightarrow> database \<Rightarrow> bool" where
  "vec_ok env db \<longleftrightarrow> fst ` set (db_vec db) \<subseteq> fst ` set (db_symbols db)
     \<and> (\<forall>d. db_vec_form db = Some d \<longrightarrow> vec_ext env \<and> (\<forall>(i, v) \<in> set (db_vec db). length v = d))"

definition store_inv :: "sqlite_env \<Rightarrow> database \<Rightarrow> bool" where
  "store_inv env db \<longleftrightarrow> db_ok db \<and> fts_synced db \<and> vec_ok env db"

lemma store_inv_ready: "store_inv env db \<Longrightarrow> prepare_vec env db = Inr ()"
  by (auto simp: store_inv_def vec_ok_def prepare_vec_def vec0_table_present_def)

lemma store_inv_empty: "store_inv env empty_database"
  by (simp add: store_inv_def db_ok_def fts_synced_def vec_ok_def empty_database_def)

lemma keys_filter: "fst ` set (filter (\<lambda>r. fst r \<noteq> i) m) = fst ` set m - {i}"
  by force

lemma store_inv_upsert_symbol [inv_intros]:
  assumes "store_inv env db"
  shows "store_inv env (upsert_symbol s db)"
proof -
  have wf: "bt_wf (db_symbols db)" using assms by (simp add: store_inv_def db_ok_def)
  have "db_ok (upsert_symbol s db)"
    using assms by (auto simp: store_inv_def db_ok_def upsert_symbol_def bt_wf_insert set_bt_insert_wf)
  moreover have "fts_synced (upsert_symbol s db)"
  proof -
    have "distinct (map fst (filter (\<lambda>r. fst r \<noteq> sid s) (db_fts db)))"
      using assms by (simp add: store_inv_def fts_synced_def distinct_map_filter)
    then show ?thesis
      using assms wf
      by (auto simp: fts_synced_def store_inv_def upsert_symbol_def set_bt_insert_wf image_iff split: prod.splits)
  qed
  moreover have "vec_ok env (upsert_symbol s db)"
    using assms by (auto simp: store_inv_def vec_ok_def upsert_symbol_def set_keys_bt_insert)
  ultimately show ?thesis by (simp add: store_inv_def)
qed

lemma store_inv_upsert_edge [inv_intros]: "store_inv env db \<Longrightarrow> store_inv env (upsert_edge e db)"
  by (auto simp: store_inv_def db_ok_def fts_synced_def vec_ok_def upsert_edge_def bt_wf_insert
      set_bt_insert_wf edge_key_def)

lemma bt_wf_flag: "bt_wf m \<Longrightarrow> bt_wf (map (\<lambda>(k, e). (k, if P e then f e else e)) m)"
  by (rule bt_wf_map_snd [where f = "\<lambda>k e. if P e then f e else e"])

lemma store_inv_flag [inv_intros]: "store_inv env db \<Longrightarrow> store_inv env (flag_inbound i db)"
  by (auto simp: store_inv_def db_ok_def fts_synced_def vec_ok_def flag_inbound_def edge_key_def bt_wf_flag)

lemma store_inv_outbound [inv_intros]: "store_inv env db \<Longrightarrow> store_inv env (delete_outbound i db)"
  by (auto simp: store_inv_def db_ok_def fts_synced_def vec_ok_def delete_outbound_def bt_wf_filter)

lemma store_inv_unqueue [inv_intros]: "store_inv env db \<Longrightarrow> store_inv env (delete_queued i db)"
  by (auto simp: store_inv_def db_ok_def fts_synced_def vec_ok_def delete_queued_def bt_wf_filter)

lemma store_inv_delete_vector [inv_intros]: "store_inv env db \<Longrightarrow> store_inv env (delete_vector i db)"
  by (auto simp: store_inv_def db_ok_def fts_synced_def vec_ok_def delete_vector_def bt_wf_filter)

lemma store_inv_remove [inv_intros]:
  assumes "store_inv env db"
  shows "store_inv env (delete_vector i (delete_fts i (delete_symbol_row i db)))"
proof -
  have "db_ok (delete_vector i (delete_fts i (delete_symbol_row i db)))"
    using assms by (auto simp: store_inv_def db_ok_def delete_vector_def delete_fts_def delete_symbol_row_def bt_wf_filter)
  moreover have "fts_synced (delete_vector i (delete_fts i (delete_symbol_row i db)))"
    using assms
    by (auto simp: store_inv_def fts_synced_def delete_vector_def delete_fts_def delete_symbol_row_def
        distinct_map_filter image_iff split: prod.splits)
  moreover have "vec_ok env (delete_vector i (delete_fts i (delete_symbol_row i db)))"
    using assms
    by (auto simp: store_inv_def vec_ok_def delete_vector_def delete_fts_def delete_symbol_row_def keys_filter)
  ultimately show ?thesis by (simp add: store_inv_def)
qed

lemma delete_order: "delete_fts i (delete_vector i db) = delete_vector i (delete_fts i db)"
  by (simp add: delete_fts_def delete_vector_def)

lemma insert_vector_Inr:
  "insert_vector env i v db = Inr db' \<Longrightarrow>
     db' = db\<lparr>db_vec := bt_insert i v (db_vec db)\<rparr> \<and> (\<forall>d. db_vec_form db = Some d \<longrightarrow> length v = d)"
  by (auto simp: insert_vector_def split: option.splits if_splits)

lemma store_inv_insert_vector:
  assumes "store_inv env db" "insert_vector env i v db = Inr db'" "i \<in> fst ` set (db_symbols db)"
  shows "store_inv env db'"
proof -
  have db': "db' = db\<lparr>db_vec := bt_insert i v (db_vec db)\<rparr>" "\<forall>d. db_vec_form db = Some d \<longrightarrow> length v = d"
    using insert_vector_Inr [OF assms(2)] by blast+
  have "vec_ok env db'"
    using assms(1,3) by (simp add: store_inv_def vec_ok_def db' set_keys_bt_insert)
      (auto simp: store_inv_def db_ok_def set_bt_insert_wf db'(2))
  with assms(1) show ?thesis
    by (simp add: store_inv_def db_ok_def fts_synced_def db'(1) bt_wf_insert)
qed

lemma store_inv_recreate:
  "store_inv env db \<Longrightarrow> recreate_vec_table env b width db = Inr db' \<Longrightarrow> store_inv env db'"
  by (auto simp: recreate_vec_table_def store_inv_def db_ok_def fts_synced_def vec_ok_def split: if_splits)

lemma store_inv_meta [inv_intros]: "store_inv env db \<Longrightarrow> store_inv env (db\<lparr>db_meta := m\<rparr>)"
  by (auto simp: store_inv_def db_ok_def fts_synced_def vec_ok_def)


subsection \<open>Semantic search\<close>

lemma cauchy_schwarz_step:
  fixes d a b x y :: real
  assumes "0 \<le> a" "0 \<le> b" "d\<^sup>2 \<le> a * b"
  shows "(d + x * y)\<^sup>2 \<le> (a + x * x) * (b + y * y)"
proof -
  let ?u = "sqrt a * \<bar>y\<bar>" and ?v = "sqrt b * \<bar>x\<bar>"
  have "\<bar>d\<bar> \<le> sqrt (a * b)" using assms(3) by (simp add: real_le_rsqrt)
  then have "\<bar>d\<bar> * (\<bar>x\<bar> * \<bar>y\<bar>) \<le> sqrt (a * b) * (\<bar>x\<bar> * \<bar>y\<bar>)" by (rule mult_right_mono) simp
  moreover have "d * (x * y) \<le> \<bar>d\<bar> * (\<bar>x\<bar> * \<bar>y\<bar>)" using abs_ge_self [of "d * (x * y)"] by (simp only: abs_mult)
  moreover have "sqrt (a * b) * (\<bar>x\<bar> * \<bar>y\<bar>) = ?u * ?v" by (simp only: real_sqrt_mult ac_simps)
  ultimately have "2 * (d * (x * y)) \<le> 2 * (?u * ?v)" by linarith
  also have "\<dots> \<le> ?u\<^sup>2 + ?v\<^sup>2" using sum_squares_bound [of ?u ?v] by (simp add: mult.assoc)
  also have "\<dots> = a * (y * y) + b * (x * x)" using assms(1,2)
    by (simp only: power_mult_distrib real_sqrt_pow2 power2_abs) (simp only: power2_eq_square)
  finally have "2 * (d * (x * y)) \<le> a * (y * y) + b * (x * x)" .
  moreover have "(d + x * y)\<^sup>2 = d\<^sup>2 + 2 * (d * (x * y)) + (x * x) * (y * y)"
    by (simp add: power2_eq_square algebra_simps)
  moreover have "(a + x * x) * (b + y * y) = a * b + (a * (y * y) + b * (x * x)) + (x * x) * (y * y)"
    by (simp add: algebra_simps)
  ultimately show ?thesis using assms(3) by linarith
qed

lemma cosine_sums:
  fixes d a b :: real
  assumes "fold (\<lambda>(x, y) (dot, na, nb). (dot + x * y, na + x * x, nb + y * y)) ps (d, a, b) = (d', a', b')"
    and "0 \<le> a" "0 \<le> b" "d\<^sup>2 \<le> a * b"
  shows "0 \<le> a' \<and> 0 \<le> b' \<and> d'\<^sup>2 \<le> a' * b'"
  using assms
proof (induction ps arbitrary: d a b)
  case (Cons p ps)
  obtain x y where p: "p = (x, y)" by (cases p)
  show ?case
    by (rule Cons.IH [of "d + x * y" "a + x * x" "b + y * y"])
      (use Cons.prems cauchy_schwarz_step [OF Cons.prems(2-4), of x y] in \<open>simp_all add: p\<close>)
qed simp

lemma cosine_distance_bounds: "0 \<le> cosine_distance u v \<and> cosine_distance u v \<le> 2"
proof -
  obtain d a b where f: "fold (\<lambda>(x, y) (dot, na, nb). (dot + x * y, na + x * x, nb + y * y)) (zip u v) (0, 0, 0) = (d, a, b)"
    by (rule prod_cases3)
  have "0 \<le> a \<and> 0 \<le> b \<and> d\<^sup>2 \<le> a * b" by (rule cosine_sums [OF f]) simp_all
  then have ok: "0 \<le> a" "0 \<le> b" "d\<^sup>2 \<le> a * b" by blast+
  have abs: "\<bar>d\<bar> \<le> sqrt a * sqrt b" using ok(3) by (simp only: real_sqrt_mult [symmetric] real_le_rsqrt power2_abs)
  show ?thesis
  proof (cases "a = 0 \<or> b = 0")
    case False
    then have p: "0 < sqrt a * sqrt b" using ok by simp
    then have "\<bar>d / (sqrt a * sqrt b)\<bar> = \<bar>d\<bar> / (sqrt a * sqrt b)" by (simp only: abs_divide abs_of_pos)
    also have "\<dots> \<le> 1" using abs p by (simp only: pos_divide_le_eq)
    finally have "- 1 \<le> d / (sqrt a * sqrt b)" "d / (sqrt a * sqrt b) \<le> 1" by linarith+
    moreover have "cosine_distance u v = 1 - d / (sqrt a * sqrt b)" using False by (simp add: cosine_distance_def f)
    ultimately show ?thesis by linarith
  qed (simp add: cosine_distance_def f)
qed

subsection \<open>Properties\<close>

text \<open>
  C36: A symbol survives its row: what \<open>symbol_to_row\<close> writes, \<open>row_to_symbol\<close> reads back, for every
  codec that round-trips the symbol's own flags; every kind of symbol and edge is read back from its
  name, and an edge's \<open>meta\<close> as well, a null one as the empty object.
\<close>

theorem symbol_row_roundtrip:
  assumes "from_json (to_json (untrusted_flags s)) = Inr (untrusted_flags s)" "to_json (untrusted_flags s) \<noteq> []"
    and "from_text (to_text m) = Inr m" "to_text m \<noteq> []"
  shows "row_to_symbol from_json (symbol_to_row to_json s) = Inr s
    \<and> parse_edge_kind (edge_kind_db k) = Some k \<and> meta_from_db from_text (edge_meta_to_db to_text m) = Inr (stored_meta m)"
proof -
  have "parse_symbol_kind (kind_json c) = Some c" for c
    by (cases c) (simp_all add: parse_symbol_kind_def symbol_kinds_def)
  moreover have "parse_edge_kind (edge_kind_db k) = Some k"
    by (cases k) (simp_all add: parse_edge_kind_def edge_kinds_def)
  ultimately show ?thesis
    using assms
    by (simp add: row_to_symbol_def symbol_to_row_def edge_meta_to_db_def meta_from_db_def stored_meta_def)
qed

definition flagged_symbol :: symbol where
  "flagged_symbol =
     \<lparr>sid = ''a'', skind = Route, sname = ''a'', qualified_name = ''m.a'', language = ''python'', smodule = ''m'',
      file_path = ''f'', line_start = 1, line_end = 2, signature = None, docstring = Some ''d'', content_hash = ''h'',
      body_excerpt = None, semantic_summary = None, risk_score = 1/2, ambiguous = True, untrusted_flags = [''x''],
      updated_at = 5\<rparr>"

theorem symbol_row_roundtrip_witness:
  "row_to_symbol (\<lambda>t. if t = ''[x]'' then Inr [''x''] else Inl t) (symbol_to_row (\<lambda>_. ''[x]'') flagged_symbol) = Inr flagged_symbol
    \<and> parse_edge_kind (edge_kind_db RoutesTo) = Some RoutesTo
    \<and> meta_from_db (\<lambda>t. if t = ''null'' then Inr JNull else Inl t) (edge_meta_to_db (\<lambda>_. ''null'') JNull) = Inr (stored_meta JNull)"
  by (rule symbol_row_roundtrip) (simp_all add: flagged_symbol_def)

text \<open>
  The chunked, deduplicated and merged queries of the bounded reads return exactly the rows of one
  unbounded query, each once and in key order, however many values are asked for.
\<close>

theorem bounded_reads_are_filters:
  assumes "store_inv env db"
  shows "symbols_by_values db column vs = filter (\<lambda>s. column_value column s \<in> set vs) (list_symbols db)
    \<and> edges_incident db ids d = filter (incident (set ids) d) (list_edges db)"
  using assms symbols_by_values_filter edges_incident_filter by (simp add: store_inv_def)

definition sample_symbol :: "string \<Rightarrow> string \<Rightarrow> symbol" where
  "sample_symbol path i =
     \<lparr>sid = i, skind = Function, sname = i, qualified_name = i, language = ''python'', smodule = ''m'',
      file_path = path, line_start = 1, line_end = 2, signature = None, docstring = None, content_hash = ''h'',
      body_excerpt = None, semantic_summary = None, risk_score = 0, ambiguous = False, untrusted_flags = [],
      updated_at = 0\<rparr>"

definition plain_env :: sqlite_env where
  "plain_env = \<lparr>vec_ext = False, no_module_msg = [], vec_dim_msg = [], foreign_key_msg = [], unique_msg = []\<rparr>"

definition sample_store :: database where
  "sample_store =
     upsert_edge \<lparr>src_id = ''a'', dst_id = ''b'', ekind = Calls, confidence = 1, meta = JNull\<rparr>
       (fold upsert_symbol [flagged_symbol, flagged_symbol\<lparr>sid := ''b''\<rparr>] empty_database)"

lemma store_inv_sample: "store_inv env sample_store"
  unfolding sample_store_def by (simp, intro inv_intros store_inv_empty)

theorem bounded_reads_are_filters_witness:
  "symbols_by_values sample_store ColId [''b'', ''b'', ''c''] = [flagged_symbol\<lparr>sid := ''b''\<rparr>]
    \<and> length (edges_incident sample_store [''b''] In) = 1"
  using bounded_reads_are_filters [OF store_inv_sample, of ColId "[''b'', ''b'', ''c'']" "[''b'']" In]
  by (simp add: sample_store_def flagged_symbol_def list_symbols_def list_edges_def upsert_symbol_def upsert_edge_def
      empty_database_def incident_def follows_outbound_def follows_inbound_def edge_key_def)

text \<open>
  The retrieval graph streamed from the store is the graph of the rows: the one built from the
  triples of the edges that are not dangling, have an admitted kind and known endpoints; it is the same
  code graph that the builder from triples gives, so its theorems apply.
\<close>

theorem store_graph_of_rows:
  assumes "list_all (\<lambda>e. \<exists>f. missing_flag (meta e) = Inr f) (scan_edges (list_edges db))"
  shows "build_code_graph scan_ids scan_edges db kinds =
    Inr (from_weighted_triples (scan_ids (map sid (list_symbols db)))
           (List.map_filter (row_triple (node_index (scan_ids (map sid (list_symbols db)))) kinds)
              (scan_edges (list_edges db))) True)"
  using assms by (intro build_code_graph_triples) (simp_all add: list_all_iff)

theorem store_graph_of_rows_witness:
  "build_code_graph rev id sample_store None = Inr (from_weighted_triples [''b'', ''a''] [(1, 0, 1)] True)"
  using store_graph_of_rows [of id sample_store rev None]
  by (simp add: sample_store_def flagged_symbol_def list_symbols_def list_edges_def upsert_symbol_def upsert_edge_def
      empty_database_def edge_key_def stored_meta_def missing_flag_def row_triple_def node_index_def List.map_filter_simps)

text \<open>
  Semantic search without the extension: at most \<open>k\<close> hits, best score first, every score in
  \<open>[0, 1]\<close>, and the answer does not depend on the order in which SQLite returns the vector rows.
\<close>

theorem linear_scan_ranked:
  assumes "mset (scan (db_vec db)) = mset (db_vec db)"
  shows "blob_linear_scan scan db q k = blob_linear_scan id db q k
    \<and> length (blob_linear_scan scan db q k) \<le> k
    \<and> list_all (\<lambda>h. 0 \<le> score h \<and> score h \<le> 1) (blob_linear_scan scan db q k)
    \<and> sorted_wrt (\<lambda>g h. score h \<le> score g) (blob_linear_scan scan db q k)"
proof -
  let ?row = "\<lambda>(i, v). (cosine_distance q v, i, symbol_name_of db i)"
  let ?key = "\<lambda>(dist, i, _). (dist, i)"
  let ?scored = "\<lambda>rows. map ?row (filter (\<lambda>(_, v). v \<noteq> [] \<and> length v = length q) rows)"
  let ?hit = "\<lambda>(dist, i, qn). semantic_hit i dist qn"
  have scan: "blob_linear_scan sc db q k = map ?hit (take k (sort_key ?key (?scored (sc (db_vec db)))))" for sc
    by (simp add: blob_linear_scan_def Let_def)
  have "mset (?scored (scan (db_vec db))) = mset (?scored (db_vec db))" using assms by simp
  moreover have "inj_on ?key (set (?scored (scan (db_vec db))))" by (auto simp: inj_on_def)
  ultimately have "sort_key ?key (?scored (scan (db_vec db))) = sort_key ?key (?scored (db_vec db))"
    by (intro sort_key_inj_key_eq) simp_all
  then have same: "blob_linear_scan scan db q k = blob_linear_scan id db q k" by (simp only: scan id_apply)
  let ?ds = "take k (sort_key ?key (?scored (scan (db_vec db))))"
  have dist: "0 \<le> fst r \<and> fst r \<le> 2" if "r \<in> set ?ds" for r
    using in_set_takeD [OF that] cosine_distance_bounds by auto
  have "sorted_wrt (\<lambda>r r'. ?key r \<le> ?key r') (sort_key ?key (?scored (scan (db_vec db))))"
    using sorted_sort_key [of ?key] by (simp only: sorted_map)
  then have "sorted_wrt (\<lambda>r r'. fst r \<le> fst r') ?ds"
    by (intro sorted_wrt_take) (rule sorted_wrt_mono_rel, auto simp: less_eq_prod_def)
  then have "sorted_wrt (\<lambda>g h. score h \<le> score g) (map ?hit ?ds)"
    unfolding sorted_wrt_map by (rule sorted_wrt_mono_rel [rotated]) (auto simp: semantic_hit_def)
  moreover have "list_all (\<lambda>h. 0 \<le> score h \<and> score h \<le> 1) (map ?hit ?ds)"
    using dist by (fastforce simp: list_all_iff semantic_hit_def)
  moreover have "length (map ?hit ?ds) \<le> k" by simp
  ultimately show ?thesis by (intro conjI same) (simp_all only: scan [of scan])
qed

theorem linear_scan_ranked_witness:
  "blob_linear_scan rev (sample_store\<lparr>db_vec := [(''a'', [1, 0]), (''b'', [0, 1])]\<rparr>) [1, 1] 1
     = blob_linear_scan id (sample_store\<lparr>db_vec := [(''a'', [1, 0]), (''b'', [0, 1])]\<rparr>) [1, 1] 1"
  using linear_scan_ranked [of rev "sample_store\<lparr>db_vec := [(''a'', [1, 0]), (''b'', [0, 1])]\<rparr>" "[1, 1]" 1]
  by simp

end
