(* ===== verification/Publish.thy ===== *)
theory Publish
  imports Store
begin

text \<open>
  Publication (\<open>crates/cognis-store/src/publish.rs\<close>): a batch is applied in one write transaction of
  sixteen stages, with a checkpoint before the first, after each and after the commit. A checkpoint
  stands for whatever may stop the publication there: an injected error, or the death of the process.
\<close>

subsection \<open>Batches\<close>

datatype publish_reason = RInitial | RIncremental | RReconcile | RFull | RReEmbed

fun reason_db :: "publish_reason \<Rightarrow> string" where
  "reason_db RInitial = ''initial''"
| "reason_db RIncremental = ''incremental''"
| "reason_db RReconcile = ''reconcile''"
| "reason_db RFull = ''full''"
| "reason_db RReEmbed = ''reembed''"

definition parse_reason :: "string \<Rightarrow> publish_reason option" where
  "parse_reason s =
     (if s = ''initial'' then Some RInitial
      else if s = ''incremental'' then Some RIncremental
      else if s = ''reconcile'' then Some RReconcile
      else if s = ''full'' then Some RFull
      else if s = ''reembed'' then Some RReEmbed else None)"

record fingerprint =
  fp_digest :: string
  fp_dim :: nat
  fp_model :: string

type_synonym queued_symbol = "string \<times> string"

record publish_batch =
  symbol_upserts :: "symbol list"
  symbol_deletes :: "string list"
  edge_upserts :: "edge list"
  edge_deletes :: "edge_key list"
  vector_upserts :: "(string \<times> f32 list) list"
  vector_deletes :: "string list"
  file_rows :: "file_row list"
  file_deletes :: "string list"
  queue_enqueue :: "queued_symbol list"
  queue_remove :: "string list"
  bfingerprint :: "fingerprint option"
  breason :: publish_reason

definition empty_batch :: "publish_reason \<Rightarrow> publish_batch" where
  "empty_batch r =
     \<lparr>symbol_upserts = [], symbol_deletes = [], edge_upserts = [], edge_deletes = [], vector_upserts = [],
      vector_deletes = [], file_rows = [], file_deletes = [], queue_enqueue = [], queue_remove = [],
      bfingerprint = None, breason = r\<rparr>"

definition batch_is_empty :: "publish_batch \<Rightarrow> bool" where
  "batch_is_empty b \<longleftrightarrow> symbol_upserts b = [] \<and> symbol_deletes b = [] \<and> edge_upserts b = []
     \<and> edge_deletes b = [] \<and> vector_upserts b = [] \<and> vector_deletes b = [] \<and> file_rows b = []
     \<and> file_deletes b = [] \<and> queue_enqueue b = [] \<and> queue_remove b = []"

definition covered_paths :: "publish_batch \<Rightarrow> string list" where
  "covered_paths b = bset (map fr_path (file_rows b) @ file_deletes b)"

record publish_receipt =
  rc_source :: int
  rc_semantic :: int
  rc_pending :: int
  rc_files :: "string list"

subsection \<open>The stages\<close>

definition classify_change :: "database \<Rightarrow> publish_batch \<Rightarrow> string \<Rightarrow> string" where
  "classify_change db b path =
     (if path \<in> set (file_deletes b) then ''removed''
      else if map_of (db_files db) path \<noteq> None then ''changed'' else ''added'')"

definition first_bad_vector :: "nat \<Rightarrow> (string \<times> f32 list) list \<Rightarrow> (string \<times> f32 list) option" where
  "first_bad_vector width = find (\<lambda>(_, v). length v \<noteq> width)"

text \<open>\<open>dbg\<close> is the \<open>Debug\<close> rendering of a string.\<close>

definition bad_vector_error :: "(string \<Rightarrow> string) \<Rightarrow> nat \<Rightarrow> string \<times> f32 list \<Rightarrow> cognis_error" where
  "bad_vector_error dbg width = (\<lambda>(i, v). StoreError
     (''vector for '' @ dbg i @ '' has dimension '' @ show_nat (length v) @ '', expected '' @ show_nat width))"

text \<open>Put the vector table into the form and the space of the new fingerprint.\<close>

definition kept_vectors :: "sqlite_env \<Rightarrow> fingerprint \<Rightarrow> database \<Rightarrow> bool \<Rightarrow> bool \<Rightarrow> (string \<times> f32 list) list" where
  "kept_vectors env f db space_changed dim_changed =
     (if \<not> space_changed \<and> \<not> dim_changed \<and> \<not> vec0_table_present db \<and> vec_ext env
      then filter (\<lambda>(_, v). length v = fp_dim f) (db_vec db) else [])"

definition reshape_vectors :: "sqlite_env \<Rightarrow> fingerprint \<Rightarrow> database \<Rightarrow> cognis_error + database" where
  "reshape_vectors env f db =
     (let persisted = (case db_space db of None \<Rightarrow> [] | Some sp \<Rightarrow> vs_digest sp);
          space_changed = (persisted \<noteq> [] \<and> persisted \<noteq> fp_digest f);
          dim_changed = (case db_vec_form db of None \<Rightarrow> False | Some d \<Rightarrow> d \<noteq> fp_dim f)
      in if vec_ext env \<noteq> vec0_table_present db \<or> dim_changed
         then and_then (recreate_vec_table env (vec_ext env) (fp_dim f) db)
                (try_fold (\<lambda>(i, v). insert_vector env i v) (kept_vectors env f db space_changed dim_changed))
         else if space_changed then Inr (db\<lparr>db_vec := []\<rparr>)
         else Inr db)"

definition establish_space :: "sqlite_env \<Rightarrow> int \<Rightarrow> fingerprint \<Rightarrow> database \<Rightarrow> cognis_error + database" where
  "establish_space env now f db =
     (if 2 ^ 63 \<le> fp_dim f then Inl (StoreError ''out of range integral type conversion attempted'')
      else and_then (reshape_vectors env f db)
             (\<lambda>db. Inr (db\<lparr>db_space := Some \<lparr>vs_digest = fp_digest f, vs_dim = int (fp_dim f),
                                              vs_model = fp_model f, vs_established_at = now\<rparr>\<rparr>)))"

definition upsert_vector_space_and_vectors ::
  "(string \<Rightarrow> string) \<Rightarrow> sqlite_env \<Rightarrow> int \<Rightarrow> publish_batch \<Rightarrow> database \<Rightarrow> cognis_error + database" where
  "upsert_vector_space_and_vectors dbg env now b db =
     (let rows = filter (\<lambda>r. map_of (db_symbols db) (fst r) \<noteq> None) (vector_upserts b)
      in if rows = [] then Inr db
         else and_then
                (case bfingerprint b of
                   Some f \<Rightarrow> Inr (fp_dim f)
                 | None \<Rightarrow>
                     (case db_space db of
                        Some sp \<Rightarrow> if 0 \<le> vs_dim sp then Inr (nat (vs_dim sp))
                                   else Inl (StoreError ''first vector write requires a vector-space fingerprint'')
                      | None \<Rightarrow> Inl (StoreError ''first vector write requires a vector-space fingerprint'')))
                (\<lambda>width.
                   case first_bad_vector width rows of
                     Some bad \<Rightarrow> Inl (bad_vector_error dbg width bad)
                   | None \<Rightarrow>
                       and_then (case bfingerprint b of None \<Rightarrow> Inr db | Some f \<Rightarrow> establish_space env now f db)
                         (\<lambda>db. and_then (prepare_vec env db) (\<lambda>_. try_fold (replace_vector env) rows db))))"

definition upsert_file_row :: "file_row \<Rightarrow> database \<Rightarrow> database" where
  "upsert_file_row r db = db\<lparr>db_files := bt_insert (fr_path r) r (db_files db)\<rparr>"

definition enqueue_symbol :: "int \<Rightarrow> queued_symbol \<Rightarrow> database \<Rightarrow> database" where
  "enqueue_symbol now = (\<lambda>(i, path) db.
     db\<lparr>db_queue := bt_insert i \<lparr>qr_file = path, qr_enqueued_at = now, qr_attempts = 0, qr_next = 0, qr_error = None\<rparr>
                      (db_queue db)\<rparr>)"

definition delete_edge :: "edge_key \<Rightarrow> database \<Rightarrow> database" where
  "delete_edge k db = db\<lparr>db_edges := filter (\<lambda>r. fst r \<noteq> k) (db_edges db)\<rparr>"

definition remove_symbol :: "string \<Rightarrow> database \<Rightarrow> database" where
  "remove_symbol i db =
     flag_inbound i (delete_outbound i (delete_queued i (delete_vector i (delete_fts i (delete_symbol_row i db)))))"

definition collect_file_symbol_ids :: "database \<Rightarrow> string list \<Rightarrow> string list \<Rightarrow> string list" where
  "collect_file_symbol_ids db paths ids = bset (ids @ concat (map (symbol_ids_in_file db) paths))"

definition delete_file_queue_rows :: "string list \<Rightarrow> database \<Rightarrow> database" where
  "delete_file_queue_rows paths db = db\<lparr>db_queue := filter (\<lambda>r. qr_file (snd r) \<notin> set paths) (db_queue db)\<rparr>"

definition delete_file_rows :: "string list \<Rightarrow> database \<Rightarrow> database" where
  "delete_file_rows paths db = db\<lparr>db_files := filter (\<lambda>r. fst r \<notin> set paths) (db_files db)\<rparr>"

definition advance_generation :: "int \<Rightarrow> int \<Rightarrow> database \<Rightarrow> cognis_error + database" where
  "advance_generation now pending db =
     (case db_generation db of
        None \<Rightarrow> Inl (StoreError ''generation singleton row is missing'')
      | Some g \<Rightarrow> Inr (db\<lparr>db_generation := Some
            \<lparr>source_generation = source_generation g + 1,
             semantic_generation = (if pending = 0 then source_generation g + 1 else semantic_generation g),
             gen_updated_at = now\<rparr>\<rparr>))"

definition record_batch :: "sqlite_env \<Rightarrow> int \<Rightarrow> int \<Rightarrow> publish_batch \<Rightarrow> string list \<Rightarrow> database \<Rightarrow> cognis_error + database" where
  "record_batch env now g b files db =
     (if map_of (db_batches db) g \<noteq> None then Inl (StoreError (unique_msg env))
      else Inr (db\<lparr>db_batches := bt_insert g \<lparr>br_committed_at = now, br_file_count = int (length files),
                                              br_reason = reason_db (breason b)\<rparr> (db_batches db)\<rparr>))"

definition record_batch_file :: "sqlite_env \<Rightarrow> int \<Rightarrow> (string \<Rightarrow> string) \<Rightarrow> string \<Rightarrow> database \<Rightarrow> cognis_error + database" where
  "record_batch_file env g change path db =
     (if map_of (db_batch_files db) (g, path) \<noteq> None then Inl (StoreError (unique_msg env))
      else Inr (db\<lparr>db_batch_files := bt_insert (g, path) (change path) (db_batch_files db)\<rparr>))"


subsection \<open>The transaction\<close>

record publish_tx =
  tx_db :: database
  tx_change :: "string \<Rightarrow> string"
  tx_deletes :: "string list"
  tx_pending :: int

definition on_db :: "(database \<Rightarrow> database) \<Rightarrow> publish_tx \<Rightarrow> cognis_error + publish_tx" where
  "on_db f tx = Inr (tx\<lparr>tx_db := f (tx_db tx)\<rparr>)"

definition on_db_err :: "(database \<Rightarrow> cognis_error + database) \<Rightarrow> publish_tx \<Rightarrow> cognis_error + publish_tx" where
  "on_db_err f tx = and_then (f (tx_db tx)) (\<lambda>db. Inr (tx\<lparr>tx_db := db\<rparr>))"

definition record_stage :: "sqlite_env \<Rightarrow> int \<Rightarrow> publish_batch \<Rightarrow> string list \<Rightarrow> publish_tx \<Rightarrow> cognis_error + publish_tx" where
  "record_stage env now b files tx =
     (case db_generation (tx_db tx) of
        None \<Rightarrow> Inl (StoreError ''Query returned no rows'')
      | Some g \<Rightarrow>
          on_db_err (\<lambda>db. and_then (record_batch env now (source_generation g) b files db)
                            (try_fold (record_batch_file env (source_generation g) (tx_change tx)) files)) tx)"

text \<open>The work between two checkpoints, in order; the first checkpoint comes before any work.\<close>

definition publish_stages ::
  "(string \<Rightarrow> string) \<Rightarrow> sqlite_env \<Rightarrow> int \<Rightarrow> publish_batch \<Rightarrow> (publish_tx \<Rightarrow> cognis_error + publish_tx) list" where
  "publish_stages dbg env now b =
     [\<lambda>tx. Inr tx,
      \<lambda>tx. on_db (fold upsert_symbol (symbol_upserts b)) (tx\<lparr>tx_change := classify_change (tx_db tx) b\<rparr>),
      on_db (fold upsert_edge (edge_upserts b)),
      on_db_err (upsert_vector_space_and_vectors dbg env now b),
      on_db (fold upsert_file_row (file_rows b)),
      on_db (fold (enqueue_symbol now) (queue_enqueue b)),
      on_db (fold delete_edge (edge_deletes b)),
      on_db_err (\<lambda>db. and_then (prepare_vec env db) (\<lambda>_. Inr (fold delete_vector (vector_deletes b) db))),
      on_db (fold delete_queued (queue_remove b)),
      \<lambda>tx. Inr (tx\<lparr>tx_deletes := collect_file_symbol_ids (tx_db tx) (file_deletes b) (bset (symbol_deletes b))\<rparr>),
      \<lambda>tx. on_db_err (\<lambda>db. and_then (prepare_vec env db) (\<lambda>_. Inr (fold remove_symbol (tx_deletes tx) db))) tx,
      on_db (delete_file_queue_rows (file_deletes b)),
      on_db (delete_file_rows (file_deletes b)),
      \<lambda>tx. Inr (tx\<lparr>tx_pending := int (length (db_queue (tx_db tx)))\<rparr>),
      \<lambda>tx. on_db_err (advance_generation now (tx_pending tx)) tx,
      record_stage env now b (covered_paths b)]"

text \<open>\<open>cp i\<close> is the error checkpoint \<open>i\<close> stops the publication with, if it does.\<close>

fun run_stages ::
  "(nat \<Rightarrow> cognis_error option) \<Rightarrow> nat \<Rightarrow> (publish_tx \<Rightarrow> cognis_error + publish_tx) list \<Rightarrow> publish_tx
   \<Rightarrow> cognis_error + publish_tx" where
  "run_stages cp i [] tx = Inr tx"
| "run_stages cp i (f # fs) tx =
     and_then (f tx) (\<lambda>tx. case cp i of Some e \<Rightarrow> Inl e | None \<Rightarrow> run_stages cp (Suc i) fs tx)"

definition receipt_of :: "publish_batch \<Rightarrow> publish_tx \<Rightarrow> cognis_error + publish_receipt" where
  "receipt_of b tx =
     (case db_generation (tx_db tx) of
        None \<Rightarrow> Inl (StoreError ''Query returned no rows'')
      | Some g \<Rightarrow> Inr \<lparr>rc_source = source_generation g, rc_semantic = semantic_generation g,
                       rc_pending = tx_pending tx, rc_files = covered_paths b\<rparr>)"

definition publish_body ::
  "(string \<Rightarrow> string) \<Rightarrow> sqlite_env \<Rightarrow> (nat \<Rightarrow> cognis_error option) \<Rightarrow> int \<Rightarrow> publish_batch \<Rightarrow> database
   \<Rightarrow> cognis_error + database \<times> publish_receipt" where
  "publish_body dbg env cp now b db =
     and_then (run_stages cp 0 (publish_stages dbg env now b)
                 \<lparr>tx_db = db, tx_change = (\<lambda>_. []), tx_deletes = [], tx_pending = 0\<rparr>)
       (\<lambda>tx. and_then (receipt_of b tx) (\<lambda>r. Inr (tx_db tx, r)))"

definition publish_with_checkpoints ::
  "(string \<Rightarrow> string) \<Rightarrow> sqlite_env \<Rightarrow> cognis_error option \<Rightarrow> cognis_error option \<Rightarrow> (nat \<Rightarrow> cognis_error option)
   \<Rightarrow> int \<Rightarrow> publish_batch \<Rightarrow> database \<Rightarrow> database \<times> (cognis_error + publish_receipt)" where
  "publish_with_checkpoints dbg env be ce cp now b db =
     (case with_write_txn be ce (publish_body dbg env cp now b) db of
        (db', Inl e) \<Rightarrow> (db', Inl e)
      | (db', Inr r) \<Rightarrow> (case cp 16 of Some e \<Rightarrow> (db', Inl e) | None \<Rightarrow> (db', Inr r)))"

text \<open>Publication without interruption.\<close>

definition publish ::
  "(string \<Rightarrow> string) \<Rightarrow> sqlite_env \<Rightarrow> int \<Rightarrow> publish_batch \<Rightarrow> database \<Rightarrow> database \<times> (cognis_error + publish_receipt)" where
  "publish dbg env now b db = publish_with_checkpoints dbg env None None (\<lambda>_. None) now b db"

subsection \<open>Interruptions\<close>

lemma run_stages_uninterrupted:
  "run_stages cp i fs tx = Inr t \<Longrightarrow> run_stages (\<lambda>_. None) i fs tx = Inr t"
  by (induction fs arbitrary: i tx) (auto simp: and_then_Inr split: option.splits)

lemma publish_body_uninterrupted:
  "publish_body dbg env cp now b db = Inr r \<Longrightarrow> publish_body dbg env (\<lambda>_. None) now b db = Inr r"
  unfolding publish_body_def and_then_Inr using run_stages_uninterrupted by blast

lemma publish_body_result:
  "publish dbg env now b db =
     (case publish_body dbg env (\<lambda>_. None) now b db of Inl e \<Rightarrow> (db, Inl e) | Inr (db', r) \<Rightarrow> (db', Inr r))"
  by (simp add: publish_def publish_with_checkpoints_def with_write_txn_def split: sum.splits prod.splits)


subsection \<open>What a publication does\<close>

lemma run_stages_inv:
  assumes "run_stages cp i fs tx = Inr t" "P tx" "\<And>f s u. f \<in> set fs \<Longrightarrow> P s \<Longrightarrow> f s = Inr u \<Longrightarrow> P u"
  shows "P t"
  using assms
proof (induction fs arbitrary: i tx)
  case (Cons f fs)
  then obtain u where u: "f tx = Inr u" "run_stages cp (Suc i) fs u = Inr t"
    by (auto simp: and_then_Inr split: option.splits)
  show ?case
    by (rule Cons.IH [OF u(2)]) (use Cons.prems u in auto)
qed simp

text \<open>The tables between the vector stage and the deletions, and after the deletions.\<close>

definition batch_written :: "int \<Rightarrow> publish_batch \<Rightarrow> database \<Rightarrow> database" where
  "batch_written now b db =
     fold delete_queued (queue_remove b) (fold delete_vector (vector_deletes b)
       (fold delete_edge (edge_deletes b) (fold (enqueue_symbol now) (queue_enqueue b)
         (fold upsert_file_row (file_rows b) db))))"

definition removed_ids :: "publish_batch \<Rightarrow> database \<Rightarrow> string list" where
  "removed_ids b db = collect_file_symbol_ids db (file_deletes b) (bset (symbol_deletes b))"

definition batch_deleted :: "publish_batch \<Rightarrow> database \<Rightarrow> database" where
  "batch_deleted b db =
     delete_file_rows (file_deletes b) (delete_file_queue_rows (file_deletes b) (fold remove_symbol (removed_ids b db) db))"

definition next_generation :: "int \<Rightarrow> database \<Rightarrow> generation \<Rightarrow> generation" where
  "next_generation now db g =
     \<lparr>source_generation = source_generation g + 1,
      semantic_generation = (if db_queue db = [] then source_generation g + 1 else semantic_generation g),
      gen_updated_at = now\<rparr>"

text \<open>The committed database: the tables of \<open>db\<close> with the next generation and its log entries.\<close>

definition batch_logged :: "int \<Rightarrow> publish_batch \<Rightarrow> (string \<Rightarrow> string) \<Rightarrow> generation \<Rightarrow> database \<Rightarrow> database" where
  "batch_logged now b change g db =
     (let n = source_generation g + 1
      in db\<lparr>db_generation := Some (next_generation now db g),
           db_batches := bt_insert n \<lparr>br_committed_at = now, br_file_count = int (length (covered_paths b)),
                                     br_reason = reason_db (breason b)\<rparr> (db_batches db),
           db_batch_files := fold (\<lambda>p. bt_insert (n, p) (change p)) (covered_paths b) (db_batch_files db)\<rparr>)"

lemma record_batch_file_Inr: "record_batch_file env n change p db = Inr db' \<longleftrightarrow>
  map_of (db_batch_files db) (n, p) = None
  \<and> db' = db\<lparr>db_batch_files := bt_insert (n, p) (change p) (db_batch_files db)\<rparr>"
  by (auto simp: record_batch_file_def)

lemma try_record_files:
  "try_fold (record_batch_file env n change) ps db = Inr db' \<Longrightarrow>
     db' = db\<lparr>db_batch_files := fold (\<lambda>p. bt_insert (n, p) (change p)) ps (db_batch_files db)\<rparr>"
proof (induction ps arbitrary: db)
  case (Cons p ps)
  then have "try_fold (record_batch_file env n change) ps
      (db\<lparr>db_batch_files := bt_insert (n, p) (change p) (db_batch_files db)\<rparr>) = Inr db'"
    by (auto simp: and_then_Inr record_batch_file_Inr)
  from Cons.IH [OF this] show ?case by simp
qed simp

lemma publish_body_Inr:
  assumes "publish_body dbg env cp now b db = Inr (db', r)"
  obtains db1 db2 g where
    "upsert_vector_space_and_vectors dbg env now b
       (fold upsert_edge (edge_upserts b) (fold upsert_symbol (symbol_upserts b) db)) = Inr db1"
    "db2 = batch_deleted b (batch_written now b db1)" "db_generation db2 = Some g"
    "db' = batch_logged now b (classify_change db b) g db2"
    "r = \<lparr>rc_source = source_generation g + 1, rc_semantic = semantic_generation (next_generation now db2 g),
          rc_pending = int (length (db_queue db2)), rc_files = covered_paths b\<rparr>"
proof -
  have body: "publish_body dbg env (\<lambda>_. None) now b db = Inr (db', r)"
    by (rule publish_body_uninterrupted [OF assms])
  obtain db1 db2 g where st:
    "upsert_vector_space_and_vectors dbg env now b
       (fold upsert_edge (edge_upserts b) (fold upsert_symbol (symbol_upserts b) db)) = Inr db1"
    "db2 = batch_deleted b (batch_written now b db1)" "db_generation db2 = Some g"
    and rest: "and_then (record_stage env now b (covered_paths b)
       \<lparr>tx_db = db2\<lparr>db_generation := Some (next_generation now db2 g)\<rparr>, tx_change = classify_change db b,
        tx_deletes = removed_ids b (batch_written now b db1), tx_pending = int (length (db_queue db2))\<rparr>)
       (\<lambda>tx. and_then (receipt_of b tx) (\<lambda>r. Inr (tx_db tx, r))) = Inr (db', r)"
    using body
    by (auto simp: publish_body_def publish_stages_def on_db_def on_db_err_def and_then_Inr advance_generation_def
        batch_written_def batch_deleted_def removed_ids_def next_generation_def split: option.splits)
  have "db' = batch_logged now b (classify_change db b) g db2"
    "r = \<lparr>rc_source = source_generation g + 1, rc_semantic = semantic_generation (next_generation now db2 g),
          rc_pending = int (length (db_queue db2)), rc_files = covered_paths b\<rparr>"
    using rest
    by (auto simp: and_then_Inr record_stage_def on_db_err_def record_batch_def receipt_of_def batch_logged_def
        next_generation_def Let_def dest!: try_record_files split: if_splits)
  with st that show ?thesis by blast
qed


text \<open>The part of the database a statement on the vector tables leaves alone.\<close>

definition sources :: "database \<Rightarrow> (string, symbol) btree \<times> (edge_key, edge) btree \<times> (string \<times> fts_doc) list
    \<times> (string, file_row) btree \<times> (string, queue_row) btree" where
  "sources db = (db_symbols db, db_edges db, db_fts db, db_files db, db_queue db)"

definition log_of :: "database \<Rightarrow> generation option \<times> (int, batch_row) btree \<times> (int \<times> string, string) btree" where
  "log_of db = (db_generation db, db_batches db, db_batch_files db)"

lemma fold_frame: "(\<And>x s. x \<in> set xs \<Longrightarrow> F (f x s) = F s) \<Longrightarrow> F (fold f xs s) = F s"
  by (induction xs arbitrary: s) auto

lemma statements_log [simp]:
  "log_of (upsert_symbol s db) = log_of db" "log_of (upsert_edge e db) = log_of db"
  "log_of (upsert_file_row r db) = log_of db" "log_of (enqueue_symbol now q db) = log_of db"
  "log_of (delete_edge k db) = log_of db" "log_of (delete_vector i db) = log_of db"
  "log_of (delete_queued i db) = log_of db" "log_of (remove_symbol i db) = log_of db"
  "log_of (delete_file_queue_rows ps db) = log_of db" "log_of (delete_file_rows ps db) = log_of db"
  by (simp_all add: log_of_def upsert_symbol_def upsert_edge_def upsert_file_row_def enqueue_symbol_def delete_edge_def
      delete_vector_def delete_queued_def remove_symbol_def delete_symbol_row_def delete_fts_def delete_outbound_def
      flag_inbound_def delete_file_queue_rows_def delete_file_rows_def split_def)

lemma insert_vector_frame:
  "insert_vector env i v db = Inr db' \<Longrightarrow> sources db' = sources db \<and> log_of db' = log_of db"
  by (auto simp: sources_def log_of_def dest!: insert_vector_Inr)

lemma replace_vector_frame:
  "replace_vector env r db = Inr db' \<Longrightarrow> sources db' = sources db \<and> log_of db' = log_of db"
  by (auto simp: replace_vector_def delete_vector_def sources_def log_of_def split: prod.splits dest!: insert_vector_Inr)

lemma store_inv_vec_fields [simp]:
  "store_inv env (db\<lparr>db_space := sp\<rparr>) = store_inv env db"
  "store_inv env db \<Longrightarrow> store_inv env (db\<lparr>db_vec := []\<rparr>)"
  by (simp_all add: store_inv_def db_ok_def fts_synced_def vec_ok_def)

lemma establish_space_ok:
  assumes "establish_space env now f db = Inr db'" "store_inv env db"
  shows "sources db' = sources db \<and> log_of db' = log_of db \<and> store_inv env db'"
proof -
  let ?P = "\<lambda>d. sources d = sources db \<and> log_of d = log_of db \<and> store_inv env d"
  have space: "?P (d\<lparr>db_space := sp\<rparr>)" if "?P d" for d sp
    using that by (simp add: sources_def log_of_def)
  have empty: "?P (db\<lparr>db_vec := []\<rparr>)"
    using assms(2) by (simp add: sources_def log_of_def)
  have rec: "?P d" if "recreate_vec_table env w k db = Inr d" for w k d
    using that store_inv_recreate [OF assms(2) that]
    by (auto simp: recreate_vec_table_def sources_def log_of_def split: if_splits)
  have ins: "?P d'" if r: "recreate_vec_table env w k db = Inr d"
    and t: "try_fold (\<lambda>(i, v). insert_vector env i v) rows d = Inr d'" and sub: "set rows \<subseteq> set (db_vec db)" for w k d d' rows
  proof (rule try_fold_inv [where P = ?P, OF t rec [OF r]])
    fix x d1 d2 assume x: "x \<in> set rows" "?P d1" "(case x of (i, v) \<Rightarrow> insert_vector env i v) d1 = Inr d2"
    obtain i v where iv: "x = (i, v)" by (cases x)
    with x have i: "insert_vector env i v d1 = Inr d2" by simp
    have "(i, v) \<in> set (db_vec db)" using x sub iv by auto
    then have "i \<in> fst ` set (db_symbols db)" using assms(2) by (force simp: store_inv_def vec_ok_def)
    then have "i \<in> fst ` set (db_symbols d1)" using x(2) by (simp add: sources_def)
    with x(2) insert_vector_frame [OF i] store_inv_insert_vector [OF _ i] show "?P d2" by auto
  qed
  have keep: "set (kept_vectors env f db c1 c2) \<subseteq> set (db_vec db)" for c1 c2
    by (auto simp: kept_vectors_def)
  obtain d sp where d: "reshape_vectors env f db = Inr d" "db' = d\<lparr>db_space := sp\<rparr>"
    using assms(1) by (auto simp: establish_space_def and_then_Inr split: if_splits)
  have "(if A then X else if B then Y else Z) = r \<Longrightarrow> X = r \<or> Y = r \<or> Z = r"
    for A B and X Y Z r :: "cognis_error + database" by (auto split: if_splits)
  from this [OF d(1) [unfolded reshape_vectors_def Let_def]]
  have "?P d"
    unfolding and_then_Inr sum.inject using ins [OF _ _ keep] empty assms(2) by blast
  with space d(2) show ?thesis by blast
qed

lemma vector_stage_ok:
  assumes "upsert_vector_space_and_vectors dbg env now b db = Inr db'" "store_inv env db"
  shows "sources db' = sources db \<and> log_of db' = log_of db \<and> store_inv env db'"
proof -
  let ?rows = "filter (\<lambda>r. map_of (db_symbols db) (fst r) \<noteq> None) (vector_upserts b)"
  let ?P = "\<lambda>d. sources d = sources db \<and> log_of d = log_of db \<and> store_inv env d"
  have rows: "?P d'" if t: "try_fold (replace_vector env) ?rows d = Inr d'" and d: "?P d" for d d'
  proof (rule try_fold_inv [where P = ?P, OF t d])
    fix x d1 d2 assume x: "x \<in> set ?rows" "?P d1" "replace_vector env x d1 = Inr d2"
    obtain i v where iv: "x = (i, v)" by (cases x)
    have "i \<in> fst ` set (db_symbols db)" using x(1) iv by (auto simp: map_of_eq_None_iff)
    then have "i \<in> fst ` set (db_symbols (delete_vector i d1))" using x(2) by (simp add: sources_def delete_vector_def)
    moreover have "insert_vector env i v (delete_vector i d1) = Inr d2" using x(3) iv by (simp add: replace_vector_def)
    ultimately have "store_inv env d2" using store_inv_insert_vector store_inv_delete_vector x(2) by blast
    with x replace_vector_frame [OF x(3)] show "?P d2" by simp
  qed
  have keep: "?P d" if "(case bfingerprint b of None \<Rightarrow> Inr db | Some f \<Rightarrow> establish_space env now f db) = Inr d" for d
    using that establish_space_ok assms(2) by (auto split: option.splits)
  show ?thesis
  proof (cases "?rows = []")
    case True
    with assms show ?thesis by (simp add: upsert_vector_space_and_vectors_def Let_def)
  next
    case False
    then obtain width where "(case first_bad_vector width ?rows of
        Some bad \<Rightarrow> Inl (bad_vector_error dbg width bad)
      | None \<Rightarrow> and_then (case bfingerprint b of None \<Rightarrow> Inr db | Some f \<Rightarrow> establish_space env now f db)
          (\<lambda>db. and_then (prepare_vec env db) (\<lambda>_. try_fold (replace_vector env) ?rows db))) = Inr db'"
      using assms(1) unfolding upsert_vector_space_and_vectors_def Let_def by (simp only: if_False and_then_Inr) blast
    then obtain d where "(case bfingerprint b of None \<Rightarrow> Inr db | Some f \<Rightarrow> establish_space env now f db) = Inr d"
      "try_fold (replace_vector env) ?rows d = Inr db'"
      by (cases "first_bad_vector width ?rows") (auto simp: and_then_Inr)
    with rows keep show ?thesis by blast
  qed
qed


lemma store_inv_files [inv_intros]:
  "store_inv env db \<Longrightarrow> store_inv env (upsert_file_row r db)"
  "store_inv env db \<Longrightarrow> store_inv env (delete_file_rows ps db)"
  by (simp_all add: store_inv_def db_ok_def fts_synced_def vec_ok_def upsert_file_row_def delete_file_rows_def
      bt_wf_insert bt_wf_filter)

lemma store_inv_queue [inv_intros]:
  "store_inv env db \<Longrightarrow> store_inv env (enqueue_symbol now q db)"
  "store_inv env db \<Longrightarrow> store_inv env (delete_file_queue_rows ps db)"
  by (simp_all add: store_inv_def db_ok_def fts_synced_def vec_ok_def enqueue_symbol_def delete_file_queue_rows_def
      bt_wf_insert bt_wf_filter split_def)

lemma store_inv_delete_edge [inv_intros]: "store_inv env db \<Longrightarrow> store_inv env (delete_edge k db)"
  by (simp add: store_inv_def db_ok_def fts_synced_def vec_ok_def delete_edge_def bt_wf_filter)

lemma store_inv_remove_symbol [inv_intros]: "store_inv env db \<Longrightarrow> store_inv env (remove_symbol i db)"
  unfolding remove_symbol_def by (intro inv_intros)

lemma store_inv_fold [inv_intros]:
  "store_inv env s \<Longrightarrow> (\<And>x s. x \<in> set xs \<Longrightarrow> store_inv env s \<Longrightarrow> store_inv env (f x s)) \<Longrightarrow> store_inv env (fold f xs s)"
  by (rule fold_inv)

lemma store_inv_batch:
  assumes "store_inv env db"
  shows "store_inv env (batch_deleted b (batch_written now b db))"
  unfolding batch_deleted_def batch_written_def using assms
  by (intro inv_intros)

lemma store_inv_upserts:
  assumes "store_inv env db"
  shows "store_inv env (fold upsert_edge es (fold upsert_symbol ss db))"
  using assms by (intro inv_intros)

lemma log_of_batch:
  "log_of (batch_deleted b (batch_written now b db)) = log_of db"
  "log_of (fold upsert_edge es (fold upsert_symbol ss db)) = log_of db"
  by (simp_all add: batch_deleted_def batch_written_def fold_frame)

lemma publish_body_ok:
  assumes "publish_body dbg env cp now b db = Inr (db', r)" "store_inv env db"
  obtains db2 g where "store_inv env db2" "log_of db2 = log_of db" "db_generation db = Some g"
    "db' = batch_logged now b (classify_change db b) g db2"
    "r = \<lparr>rc_source = source_generation g + 1, rc_semantic = semantic_generation (next_generation now db2 g),
          rc_pending = int (length (db_queue db2)), rc_files = covered_paths b\<rparr>"
proof -
  obtain db1 db2 g where st:
    "upsert_vector_space_and_vectors dbg env now b
       (fold upsert_edge (edge_upserts b) (fold upsert_symbol (symbol_upserts b) db)) = Inr db1"
    "db2 = batch_deleted b (batch_written now b db1)" "db_generation db2 = Some g"
    "db' = batch_logged now b (classify_change db b) g db2"
    "r = \<lparr>rc_source = source_generation g + 1, rc_semantic = semantic_generation (next_generation now db2 g),
          rc_pending = int (length (db_queue db2)), rc_files = covered_paths b\<rparr>"
    using publish_body_Inr [OF assms(1)] by metis
  have db1: "log_of db1 = log_of db" "store_inv env db1"
    using vector_stage_ok [OF st(1) store_inv_upserts [OF assms(2)]] by (simp_all add: log_of_batch)
  then have "log_of db2 = log_of db" "store_inv env db2" using store_inv_batch st(2) by (simp_all add: log_of_batch)
  moreover from this(1) st(3) have "db_generation db = Some g" by (simp add: log_of_def)
  ultimately show ?thesis using st that by blast
qed

text \<open>
  The generation markers: the semantic generation has caught up with the source generation exactly
  when no symbol waits for its vector, and every generation has one entry in the batch log.
\<close>

definition log_inv :: "database \<Rightarrow> bool" where
  "log_inv db \<longleftrightarrow> (\<exists>g. db_generation db = Some g \<and> 0 \<le> semantic_generation g
     \<and> semantic_generation g \<le> source_generation g
     \<and> (semantic_generation g = source_generation g \<longleftrightarrow> db_queue db = [])
     \<and> bt_wf (db_batches db) \<and> fst ` set (db_batches db) = {1 .. source_generation g}
     \<and> bt_wf (db_batch_files db) \<and> fst ` fst ` set (db_batch_files db) \<subseteq> {1 .. source_generation g})"

lemma files_logged:
  "bt_wf m \<Longrightarrow> bt_wf (fold (\<lambda>p. bt_insert (n, p) (f p)) ps m)
     \<and> fst ` set (fold (\<lambda>p. bt_insert (n, p) (f p)) ps m) = fst ` set m \<union> Pair n ` set ps"
  by (induction ps arbitrary: m) (auto simp: bt_wf_insert set_keys_bt_insert)

lemma log_inv_logged:
  assumes "log_of db2 = log_of db" "db_generation db = Some g" "log_inv db"
  shows "log_inv (batch_logged now b change g db2)"
proof -
  let ?n = "source_generation g + 1"
  have g: "0 \<le> semantic_generation g" "semantic_generation g \<le> source_generation g"
    "bt_wf (db_batches db2)" "fst ` set (db_batches db2) = {1 .. source_generation g}"
    "bt_wf (db_batch_files db2)" "fst ` fst ` set (db_batch_files db2) \<subseteq> {1 .. source_generation g}"
    using assms by (auto simp: log_inv_def log_of_def)
  have "insert ?n {1 .. source_generation g} = {1 .. ?n}" using g(1,2) by auto
  moreover have "fst ` (fst ` set (db_batch_files db2) \<union> Pair ?n ` set (covered_paths b)) \<subseteq> {1 .. ?n}"
    using g(1,2,6) by force
  ultimately show ?thesis
    using g files_logged [OF g(5), of ?n change "covered_paths b"]
    by (auto simp: log_inv_def batch_logged_def next_generation_def Let_def set_keys_bt_insert bt_wf_insert)
qed

lemma store_inv_logged: "store_inv env db \<Longrightarrow> store_inv env (batch_logged now b change g db)"
  by (auto simp: store_inv_def db_ok_def fts_synced_def vec_ok_def batch_logged_def Let_def)


subsection \<open>The committed tables\<close>

text \<open>The last of the upserts of a key wins.\<close>

definition latest :: "('a \<Rightarrow> 'k) \<Rightarrow> 'a list \<Rightarrow> 'k \<Rightarrow> 'a option" where
  "latest f xs k = find (\<lambda>x. f x = k) (rev xs)"

lemma latest_snoc: "latest f (xs @ [x]) k = (if f x = k then Some x else latest f xs k)"
  by (simp add: latest_def)

lemma latest_filter: "latest f xs k = (let ys = filter (\<lambda>x. f x = k) xs in if ys = [] then None else Some (last ys))"
  by (induction xs rule: rev_induct) (simp_all add: latest_snoc, simp add: latest_def)

lemma latest_cong: "filter (\<lambda>x. f x = k) xs = filter (\<lambda>x. f x = k) ys \<Longrightarrow> latest f xs k = latest f ys k"
  by (simp add: latest_filter)

lemma latest_sort [simp]: "latest f (sort_key f xs) k = latest f xs k"
  by (rule latest_cong) (rule sort_key_stable)

lemma latest_SomeD: "latest f xs k = Some x \<Longrightarrow> x \<in> set xs \<and> f x = k"
  by (auto simp: latest_def find_Some_iff) (metis nth_mem set_rev length_rev)

lemma latest_None: "latest f xs k = None \<longleftrightarrow> k \<notin> f ` set xs"
  by (auto simp: latest_def find_None_iff)

lemma map_of_upserts:
  assumes "bt_wf m"
  shows "bt_wf (fold (\<lambda>x. bt_insert (f x) (v x)) xs m)
    \<and> map_of (fold (\<lambda>x. bt_insert (f x) (v x)) xs m) k
        = (case latest f xs k of Some x \<Rightarrow> Some (v x) | None \<Rightarrow> map_of m k)"
proof (induction xs rule: rev_induct)
  case Nil
  with assms show ?case by (simp add: latest_def)
next
  case (snoc x xs)
  then show ?case by (simp add: bt_wf_insert map_of_bt_insert latest_snoc)
qed

lemma map_of_deletes:
  "map_of (fold (\<lambda>k. filter (\<lambda>r. fst r \<noteq> k)) ks m) k = (if k \<in> set ks then None else map_of m k)"
proof (induction ks arbitrary: m)
  case (Cons i ks)
  with map_of_filter_key [of "\<lambda>j. j \<noteq> i" m k] show ?case by (cases "k = i") simp_all
qed simp

lemma db_symbols_upserts: "db_symbols (fold upsert_symbol ss db) = fold (\<lambda>s. bt_insert (sid s) s) ss (db_symbols db)"
  by (induction ss arbitrary: db) (simp_all add: upsert_symbol_def)

lemma db_files_upserts: "db_files (fold upsert_file_row rs db) = fold (\<lambda>r. bt_insert (fr_path r) r) rs (db_files db)"
  by (induction rs arbitrary: db) (simp_all add: upsert_file_row_def)

lemma db_symbols_edges: "db_symbols (fold upsert_edge es db) = db_symbols db" "db_files (fold upsert_edge es db) = db_files db"
  by (simp_all add: fold_frame upsert_edge_def)

lemma db_symbols_written: "db_symbols (batch_written now b db) = db_symbols db"
  unfolding batch_written_def
  by (simp add: fold_frame delete_queued_def delete_vector_def delete_edge_def enqueue_symbol_def
      upsert_file_row_def split_def)

lemma db_files_written: "db_files (batch_written now b db) = fold (\<lambda>r. bt_insert (fr_path r) r) (file_rows b) (db_files db)"
  unfolding batch_written_def
  by (simp add: fold_frame delete_queued_def delete_vector_def delete_edge_def enqueue_symbol_def
      db_files_upserts split_def)

lemma remove_symbol_fields:
  "db_symbols (remove_symbol i db) = filter (\<lambda>r. fst r \<noteq> i) (db_symbols db)" "db_files (remove_symbol i db) = db_files db"
  "db_queue (remove_symbol i db) = filter (\<lambda>r. fst r \<noteq> i) (db_queue db)"
  "db_edges (remove_symbol i db) =
     map (\<lambda>(k, e). (k, if dst_id e = i then e\<lparr>meta := flag_meta (meta e)\<rparr> else e))
       (filter (\<lambda>r. src_id (snd r) \<noteq> i) (db_edges db))"
  by (simp_all add: remove_symbol_def flag_inbound_def delete_outbound_def delete_queued_def delete_vector_def
      delete_fts_def delete_symbol_row_def)

lemma db_symbols_removed: "db_symbols (fold remove_symbol ids db) = filter (\<lambda>r. fst r \<notin> set ids) (db_symbols db)"
  by (induction ids arbitrary: db) (auto simp: remove_symbol_fields intro: filter_cong)

lemma map_of_symbols: "db_ok db \<Longrightarrow> map_of (db_symbols db) i = Some s \<longleftrightarrow> s \<in> set (list_symbols db) \<and> sid s = i"
proof -
  assume ok: "db_ok db"
  then have keys: "sid t = j" if "(j, t) \<in> set (db_symbols db)" for j t using that by (auto simp: db_ok_def)
  have "map_of (db_symbols db) i = Some s \<longleftrightarrow> (i, s) \<in> set (db_symbols db)"
    using ok bt_wf_map_of [of "db_symbols db" i s] by (simp add: db_ok_def)
  also have "\<dots> \<longleftrightarrow> s \<in> set (list_symbols db) \<and> sid s = i"
    using keys by (force simp: list_symbols_def)
  finally show ?thesis .
qed

lemma removed_ids_set:
  assumes "db_ok db"
  shows "i \<in> set (removed_ids b db) \<longleftrightarrow> i \<in> set (symbol_deletes b)
    \<or> (\<exists>s. map_of (db_symbols db) i = Some s \<and> file_path s \<in> set (file_deletes b))"
proof -
  have "i \<in> set (removed_ids b db) \<longleftrightarrow> i \<in> set (symbol_deletes b)
    \<or> (\<exists>p \<in> set (file_deletes b). \<exists>s \<in> set (list_symbols db). file_path s = p \<and> i = sid s)"
    by (auto simp: removed_ids_def collect_file_symbol_ids_def symbol_ids_in_file_def)
  then show ?thesis unfolding map_of_symbols [OF assms] by blast
qed

lemma batch_deleted_fields:
  "db_symbols (batch_deleted b db) = filter (\<lambda>r. fst r \<notin> set (removed_ids b db)) (db_symbols db)"
  "db_files (batch_deleted b db) = filter (\<lambda>r. fst r \<notin> set (file_deletes b)) (db_files db)"
  "db_edges (batch_deleted b db) = db_edges (fold remove_symbol (removed_ids b db) db)"
  by (simp_all add: batch_deleted_def delete_file_rows_def delete_file_queue_rows_def db_symbols_removed
      fold_frame remove_symbol_fields)

lemma batch_logged_fields [simp]:
  "db_symbols (batch_logged now b change g db) = db_symbols db" "db_files (batch_logged now b change g db) = db_files db"
  "db_edges (batch_logged now b change g db) = db_edges db" "db_queue (batch_logged now b change g db) = db_queue db"
  "db_generation (batch_logged now b change g db) = Some (next_generation now db g)"
  by (simp_all add: batch_logged_def Let_def)


lemma publish_result:
  assumes "publish dbg env now b db = (db', Inr r)" "store_inv env db"
  obtains db1 g where "sources db1 = sources (fold upsert_edge (edge_upserts b) (fold upsert_symbol (symbol_upserts b) db))"
    "store_inv env db1" "db_generation db = Some g"
    "db' = batch_logged now b (classify_change db b) g (batch_deleted b (batch_written now b db1))"
    "r = \<lparr>rc_source = source_generation g + 1, rc_semantic = semantic_generation (next_generation now db' g),
          rc_pending = int (length (db_queue db')), rc_files = covered_paths b\<rparr>"
proof -
  have "publish_body dbg env (\<lambda>_. None) now b db = Inr (db', r)"
    using assms(1) by (auto simp: publish_body_result split: sum.splits)
  then obtain db1 db2 g where st:
    "upsert_vector_space_and_vectors dbg env now b
       (fold upsert_edge (edge_upserts b) (fold upsert_symbol (symbol_upserts b) db)) = Inr db1"
    "db2 = batch_deleted b (batch_written now b db1)" "db_generation db2 = Some g"
    "db' = batch_logged now b (classify_change db b) g db2"
    "r = \<lparr>rc_source = source_generation g + 1, rc_semantic = semantic_generation (next_generation now db2 g),
          rc_pending = int (length (db_queue db2)), rc_files = covered_paths b\<rparr>"
    using publish_body_Inr by metis
  note ok = vector_stage_ok [OF st(1) store_inv_upserts [OF assms(2)]]
  then have "log_of db2 = log_of db" by (simp add: st(2) log_of_batch)
  then have g: "db_generation db = Some g" using st(3) by (simp add: log_of_def)
  have "next_generation now db' g = next_generation now db2 g" "db_queue db' = db_queue db2"
    by (simp_all add: st(4) next_generation_def)
  then show ?thesis using that [of db1 g] ok g st by simp
qed

lemma try_record_files_ok:
  assumes "distinct ps" "bt_wf (db_batch_files db)" "\<forall>p \<in> set ps. map_of (db_batch_files db) (n, p) = None"
  shows "\<exists>d. try_fold (record_batch_file env n change) ps db = Inr d"
  using assms
proof (induction ps arbitrary: db)
  case (Cons p ps)
  let ?d = "db\<lparr>db_batch_files := bt_insert (n, p) (change p) (db_batch_files db)\<rparr>"
  have "record_batch_file env n change p db = Inr ?d" using Cons.prems by (simp add: record_batch_file_Inr)
  moreover have "\<exists>d. try_fold (record_batch_file env n change) ps ?d = Inr d"
    by (rule Cons.IH) (use Cons.prems in \<open>auto simp: bt_wf_insert map_of_bt_insert\<close>)
  ultimately show ?case by simp
qed simp

text \<open>A batch without vectors, as the planner makes them, only fails where the log is broken.\<close>

lemma publish_body_progress:
  assumes "store_inv env db" "log_inv db" "vector_upserts b = []"
  shows "\<exists>db' r. publish_body dbg env (\<lambda>_. None) now b db = Inr (db', r)"
proof -
  let ?db1 = "fold upsert_edge (edge_upserts b) (fold upsert_symbol (symbol_upserts b) db)"
  let ?db2 = "batch_deleted b (batch_written now b ?db1)"
  have prep: "prepare_vec env (fold delete_edge (edge_deletes b) (fold (enqueue_symbol now) (queue_enqueue b)
      (fold upsert_file_row (file_rows b) ?db1))) = Inr ()"
    by (rule store_inv_ready) (use assms(1) in \<open>intro inv_intros\<close>)
  have prep': "prepare_vec env (batch_written now b ?db1) = Inr ()"
    unfolding batch_written_def by (rule store_inv_ready) (use assms(1) in \<open>intro inv_intros\<close>)
  have log: "log_of ?db2 = log_of db" by (simp add: log_of_batch)
  obtain g where g: "db_generation db = Some g" "fst ` set (db_batches db) = {1 .. source_generation g}"
    "fst ` fst ` set (db_batch_files db) \<subseteq> {1 .. source_generation g}"
    using assms(2) by (auto simp: log_inv_def)
  let ?n = "source_generation g + 1"
  have fresh: "map_of (db_batches ?db2) ?n = None"
    using log g by (auto simp: log_of_def map_of_eq_None_iff)
  have "bt_wf (db_batch_files ?db2)" "map_of (db_batch_files ?db2) (?n, p) = None" for p
    using log g assms(2) by (force simp: log_of_def log_inv_def map_of_eq_None_iff)+
  then obtain d where d: "try_fold (record_batch_file env ?n (classify_change db b)) (covered_paths b)
      (?db2\<lparr>db_generation := Some (next_generation now ?db2 g),
            db_batches := bt_insert ?n \<lparr>br_committed_at = now, br_file_count = int (length (covered_paths b)),
              br_reason = reason_db (breason b)\<rparr> (db_batches ?db2)\<rparr>) = Inr d"
    using try_record_files_ok [of "covered_paths b"] by (force simp: covered_paths_def)
  have gen: "db_generation ?db2 = Some g" using log g by (simp add: log_of_def)
  have vec: "upsert_vector_space_and_vectors dbg env now b ?db1 = Inr ?db1"
    by (simp add: upsert_vector_space_and_vectors_def assms(3) Let_def)
  show ?thesis
    using prep prep' [unfolded batch_written_def] vec gen fresh d try_record_files [OF d]
    by (simp add: publish_body_def publish_stages_def on_db_def on_db_err_def advance_generation_def batch_written_def
        batch_deleted_def removed_ids_def next_generation_def record_stage_def record_batch_def receipt_of_def)
qed


text \<open>The edge rows after the removal of symbols.\<close>

lemma map_of_filter_wf:
  "bt_wf m \<Longrightarrow> map_of (filter P m) k = (case map_of m k of None \<Rightarrow> None | Some v \<Rightarrow> if P (k, v) then Some v else None)"
proof (induction m)
  case (Cons r m)
  then have "bt_wf m" "map_of m (fst r) = None" by (auto simp: bt_wf_def map_of_eq_None_iff)
  with Cons.IH show ?case by (cases r) auto
qed simp

lemma flag_meta_idem [simp]: "flag_meta (flag_meta m) = flag_meta m"
proof -
  have "obj_insert k v (obj_insert k v kvs) = obj_insert k v kvs" for k :: string and v :: json and kvs
    by (induction kvs) auto
  then show ?thesis by (cases m) (simp_all add: flag_meta_def)
qed

definition severed :: "string set \<Rightarrow> edge option \<Rightarrow> edge option" where
  "severed ids r =
     (case r of
        None \<Rightarrow> None
      | Some e \<Rightarrow> if src_id e \<in> ids then None
                  else if dst_id e \<in> ids then Some (e\<lparr>meta := flag_meta (meta e)\<rparr>) else Some e)"

lemma severed_edges:
  assumes "bt_wf (db_edges db)"
  shows "bt_wf (db_edges (fold remove_symbol ids db))
    \<and> map_of (db_edges (fold remove_symbol ids db)) k = severed (set ids) (map_of (db_edges db) k)"
proof (induction ids rule: rev_induct)
  case Nil
  with assms show ?case by (simp add: severed_def split: option.splits)
next
  case (snoc i ids)
  let ?m = "db_edges (fold remove_symbol ids db)"
  have "db_edges (fold remove_symbol (ids @ [i]) db) = db_edges (remove_symbol i (fold remove_symbol ids db))" by simp
  then have "map_of (db_edges (fold remove_symbol (ids @ [i]) db)) k
      = map_option (\<lambda>e. if dst_id e = i then e\<lparr>meta := flag_meta (meta e)\<rparr> else e)
          (map_of (filter (\<lambda>r. src_id (snd r) \<noteq> i) ?m) k)"
    by (simp only: remove_symbol_fields map_of_map o_apply)
  also have "\<dots> = severed {i} (map_of ?m k)"
    using snoc [THEN conjunct1] by (simp add: map_of_filter_wf severed_def split: option.split)
  also have "\<dots> = severed {i} (severed (set ids) (map_of (db_edges db) k))"
    using snoc by simp
  also have "\<dots> = severed (set (ids @ [i])) (map_of (db_edges db) k)"
    by (cases "map_of (db_edges db) k") (simp_all add: severed_def)
  finally show ?case using snoc by (simp add: remove_symbol_fields bt_wf_flag bt_wf_filter)
qed

text \<open>The rows a batch promises: its upserts over what was there, less its deletes.\<close>

definition symbol_written :: "publish_batch \<Rightarrow> database \<Rightarrow> string \<Rightarrow> symbol option" where
  "symbol_written b db i =
     (case latest sid (symbol_upserts b) i of Some s \<Rightarrow> Some s | None \<Rightarrow> map_of (db_symbols db) i)"

definition removed_symbols :: "publish_batch \<Rightarrow> database \<Rightarrow> string set" where
  "removed_symbols b db =
     {i. i \<in> set (symbol_deletes b) \<or> (\<exists>s. symbol_written b db i = Some s \<and> file_path s \<in> set (file_deletes b))}"

definition symbols_after :: "publish_batch \<Rightarrow> database \<Rightarrow> string \<Rightarrow> symbol option" where
  "symbols_after b db i = (if i \<in> removed_symbols b db then None else symbol_written b db i)"

definition edges_after :: "publish_batch \<Rightarrow> database \<Rightarrow> edge_key \<Rightarrow> edge option" where
  "edges_after b db k =
     severed (removed_symbols b db)
       (if k \<in> set (edge_deletes b) then None
        else case latest edge_key (edge_upserts b) k of
               Some e \<Rightarrow> Some (e\<lparr>meta := stored_meta (meta e)\<rparr>)
             | None \<Rightarrow> map_of (db_edges db) k)"

definition files_after :: "publish_batch \<Rightarrow> database \<Rightarrow> string \<Rightarrow> file_row option" where
  "files_after b db p =
     (if p \<in> set (file_deletes b) then None
      else case latest fr_path (file_rows b) p of Some r \<Rightarrow> Some r | None \<Rightarrow> map_of (db_files db) p)"

definition fresh_queue_row :: "int \<Rightarrow> string \<Rightarrow> queue_row" where
  "fresh_queue_row now path = \<lparr>qr_file = path, qr_enqueued_at = now, qr_attempts = 0, qr_next = 0, qr_error = None\<rparr>"

definition queue_after :: "int \<Rightarrow> publish_batch \<Rightarrow> database \<Rightarrow> string \<Rightarrow> queue_row option" where
  "queue_after now b db i =
     (case (case latest fst (queue_enqueue b) i of
              Some q \<Rightarrow> Some (fresh_queue_row now (snd q)) | None \<Rightarrow> map_of (db_queue db) i) of
        None \<Rightarrow> None
      | Some r \<Rightarrow> if i \<in> set (queue_remove b) \<or> i \<in> removed_symbols b db \<or> qr_file r \<in> set (file_deletes b) then None
                  else Some r)"

lemma written_tables:
  "db_edges (batch_written now b db) = fold (\<lambda>k. filter (\<lambda>r. fst r \<noteq> k)) (edge_deletes b) (db_edges db)"
  "db_queue (batch_written now b db) =
     fold (\<lambda>k. filter (\<lambda>r. fst r \<noteq> k)) (queue_remove b)
       (fold (\<lambda>q. bt_insert (fst q) (fresh_queue_row now (snd q))) (queue_enqueue b) (db_queue db))"
proof -
  have "db_edges (fold delete_edge ks d) = fold (\<lambda>k. filter (\<lambda>r. fst r \<noteq> k)) ks (db_edges d)" for ks d
    by (induction ks arbitrary: d) (simp_all add: delete_edge_def)
  then show "db_edges (batch_written now b db) = fold (\<lambda>k. filter (\<lambda>r. fst r \<noteq> k)) (edge_deletes b) (db_edges db)"
    unfolding batch_written_def
    by (simp add: fold_frame delete_queued_def delete_vector_def enqueue_symbol_def upsert_file_row_def split_def)
  have "db_queue (fold delete_queued ks d) = fold (\<lambda>k. filter (\<lambda>r. fst r \<noteq> k)) ks (db_queue d)" for ks d
    by (induction ks arbitrary: d) (simp_all add: delete_queued_def)
  moreover have "db_queue (fold (enqueue_symbol now) qs d)
      = fold (\<lambda>q. bt_insert (fst q) (fresh_queue_row now (snd q))) qs (db_queue d)" for qs d
    by (induction qs arbitrary: d) (simp_all add: enqueue_symbol_def fresh_queue_row_def split_def)
  ultimately show "db_queue (batch_written now b db) =
     fold (\<lambda>k. filter (\<lambda>r. fst r \<noteq> k)) (queue_remove b)
       (fold (\<lambda>q. bt_insert (fst q) (fresh_queue_row now (snd q))) (queue_enqueue b) (db_queue db))"
    unfolding batch_written_def
    by (simp add: fold_frame delete_vector_def delete_edge_def upsert_file_row_def)
qed

lemma deleted_queue:
  "db_queue (batch_deleted b db) =
     filter (\<lambda>r. qr_file (snd r) \<notin> set (file_deletes b)) (filter (\<lambda>r. fst r \<notin> set (removed_ids b db)) (db_queue db))"
proof -
  have "db_queue (fold remove_symbol ids d) = filter (\<lambda>r. fst r \<notin> set ids) (db_queue d)" for ids d
    by (induction ids arbitrary: d) (auto simp: remove_symbol_fields intro: filter_cong)
  then show ?thesis by (simp add: batch_deleted_def delete_file_rows_def delete_file_queue_rows_def)
qed

lemma db_edges_upserts: "db_edges (fold upsert_edge es db)
    = fold (\<lambda>e. bt_insert (edge_key e) (e\<lparr>meta := stored_meta (meta e)\<rparr>)) es (db_edges db)"
  by (induction es arbitrary: db) (simp_all add: upsert_edge_def)

lemma sources_upserts:
  assumes "sources db1 = sources (fold upsert_edge (edge_upserts b) (fold upsert_symbol (symbol_upserts b) db))"
  shows "db_symbols db1 = fold (\<lambda>s. bt_insert (sid s) s) (symbol_upserts b) (db_symbols db)"
    "db_edges db1 = fold (\<lambda>e. bt_insert (edge_key e) (e\<lparr>meta := stored_meta (meta e)\<rparr>)) (edge_upserts b) (db_edges db)"
    "db_files db1 = db_files db" "db_queue db1 = db_queue db"
  using assms
  by (simp_all add: sources_def db_symbols_edges db_symbols_upserts db_edges_upserts fold_frame upsert_symbol_def
      upsert_edge_def)

lemma publish_tables:
  assumes "publish dbg env now b db = (db', Inr r)" "store_inv env db"
  shows "map_of (db_symbols db') i = symbols_after b db i" "map_of (db_edges db') k = edges_after b db k"
    "map_of (db_files db') p = files_after b db p" "map_of (db_queue db') i = queue_after now b db i"
proof -
  obtain db1 g where st: "sources db1 = sources (fold upsert_edge (edge_upserts b) (fold upsert_symbol (symbol_upserts b) db))"
    "store_inv env db1"
    "db' = batch_logged now b (classify_change db b) g (batch_deleted b (batch_written now b db1))"
    using publish_result [OF assms] by metis
  let ?w = "batch_written now b db1"
  have wf: "bt_wf (db_symbols db)" "bt_wf (db_files db)" "bt_wf (db_edges db)" "bt_wf (db_queue db)"
    using assms(2) by (simp_all add: store_inv_def db_ok_def)
  note src = sources_upserts [OF st(1)]
  have sym: "map_of (db_symbols ?w) j = symbol_written b db j" for j
    using map_of_upserts [OF wf(1), of sid "\<lambda>s. s"] by (simp add: db_symbols_written src symbol_written_def)
  have "store_inv env ?w" unfolding batch_written_def using st(2) by (intro inv_intros)
  then have ok: "db_ok ?w" by (simp add: store_inv_def)
  have gone: "set (removed_ids b ?w) = removed_symbols b db"
    using removed_ids_set [OF ok] by (auto simp: sym removed_symbols_def)
  show "map_of (db_symbols db') i = symbols_after b db i"
    unfolding st(3) batch_logged_fields batch_deleted_fields gone
    using map_of_filter_key [of "\<lambda>i. i \<notin> removed_symbols b db" "db_symbols ?w" i]
    by (simp add: sym symbols_after_def)
  show "map_of (db_files db') p = files_after b db p"
    unfolding st(3) batch_logged_fields batch_deleted_fields
    using map_of_filter_key [of "\<lambda>p. p \<notin> set (file_deletes b)" "db_files ?w" p]
      map_of_upserts [OF wf(2), of fr_path "\<lambda>r. r"]
    by (simp add: db_files_written src files_after_def)
  have "bt_wf (db_edges ?w)" "bt_wf (db_queue ?w)" using ok by (simp_all add: db_ok_def)
  note w = this
  have "map_of (db_edges ?w) k = (if k \<in> set (edge_deletes b) then None
      else case latest edge_key (edge_upserts b) k of
             Some e \<Rightarrow> Some (e\<lparr>meta := stored_meta (meta e)\<rparr>) | None \<Rightarrow> map_of (db_edges db) k)"
    unfolding written_tables map_of_deletes src using map_of_upserts [OF wf(3)] by metis
  then show "map_of (db_edges db') k = edges_after b db k"
    unfolding st(3) batch_logged_fields batch_deleted_fields severed_edges [OF w(1), THEN conjunct2] gone edges_after_def
    by simp
  have q: "map_of (db_queue ?w) i = (if i \<in> set (queue_remove b) then None
      else case latest fst (queue_enqueue b) i of
             Some q \<Rightarrow> Some (fresh_queue_row now (snd q)) | None \<Rightarrow> map_of (db_queue db) i)"
    unfolding written_tables map_of_deletes src using map_of_upserts [OF wf(4)] by metis
  have "map_of (db_queue db') i = (case map_of (filter (\<lambda>r. fst r \<notin> set (removed_ids b ?w)) (db_queue ?w)) i of
      None \<Rightarrow> None | Some r \<Rightarrow> if qr_file r \<notin> set (file_deletes b) then Some r else None)"
    unfolding st(3) batch_logged_fields deleted_queue map_of_filter_wf [OF bt_wf_filter [OF w(2)]] snd_conv ..
  also have "map_of (filter (\<lambda>r. fst r \<notin> set (removed_ids b ?w)) (db_queue ?w)) i
      = (if i \<notin> removed_symbols b db then map_of (db_queue ?w) i else None)"
    unfolding gone by (rule map_of_filter_key)
  finally show "map_of (db_queue db') i = queue_after now b db i"
    by (simp add: q queue_after_def split: option.splits)
qed

subsection \<open>Properties\<close>

lemma publish_store_inv:
  assumes "publish dbg env now b db = (db', Inr r)" "store_inv env db"
  shows "store_inv env db'"
proof -
  obtain db1 g where st: "store_inv env db1"
    "db' = batch_logged now b (classify_change db b) g (batch_deleted b (batch_written now b db1))"
    using publish_result [OF assms] by metis
  have "store_inv env (batch_deleted b (batch_written now b db1))"
    unfolding batch_written_def batch_deleted_def using st(1) by (intro inv_intros)
  with st(2) show ?thesis by (simp add: store_inv_logged)
qed

lemma publish_progress:
  assumes "store_inv env db" "log_inv db" "vector_upserts b = []"
  shows "\<exists>db' r. publish dbg env now b db = (db', Inr r)"
  using publish_body_progress [OF assms, of dbg now] by (auto simp: publish_body_result)

lemma log_inv_empty: "log_inv empty_database"
  by (simp add: log_inv_def empty_database_def)

lemma publish_keeps:
  assumes "publish_with_checkpoints dbg env be ce cp now b db = (db', x)" "store_inv env db" "log_inv db"
  shows "store_inv env db' \<and> log_inv db'"
proof (cases "db' = db")
  case False
  then obtain r where "publish_body dbg env cp now b db = Inr (db', r)"
    using assms(1) by (auto simp: publish_with_checkpoints_def with_write_txn_def split: option.splits sum.splits prod.splits)
  then obtain db2 g where "store_inv env db2" "log_of db2 = log_of db" "db_generation db = Some g"
    "db' = batch_logged now b (classify_change db b) g db2"
    using publish_body_ok assms(2) by metis
  with assms(3) show ?thesis by (simp add: store_inv_logged log_inv_logged)
qed (use assms in simp)

text \<open>
  C1: Publication is atomic whatever happens at any of its seventeen checkpoints, at \<open>BEGIN\<close> or at
  \<open>COMMIT\<close>: either the database is untouched and the caller gets an error, or the database is exactly
  the one the uninterrupted publication commits. Only the checkpoint after the commit can report an
  error although the batch is in.
\<close>

theorem publish_atomic:
  "(\<exists>e. publish_with_checkpoints dbg env be ce cp now b db = (db, Inl e))
   \<or> (\<exists>db' r. publish dbg env now b db = (db', Inr r)
        \<and> publish_with_checkpoints dbg env be ce cp now b db
            = (db', case cp 16 of None \<Rightarrow> Inr r | Some e \<Rightarrow> Inl e))"
proof (cases "be = None \<and> ce = None \<and> (\<exists>d. publish_body dbg env cp now b db = Inr d)")
  case True
  then obtain db' r where d: "publish_body dbg env cp now b db = Inr (db', r)" by auto
  have "publish dbg env now b db = (db', Inr r)"
    by (simp add: publish_body_result publish_body_uninterrupted [OF d])
  with True d show ?thesis
    by (simp add: publish_with_checkpoints_def with_write_txn_def split: option.splits)
next
  case False
  then have "\<exists>e. publish_with_checkpoints dbg env be ce cp now b db = (db, Inl e)"
    by (cases "publish_body dbg env cp now b db")
      (auto simp: publish_with_checkpoints_def with_write_txn_def split: option.splits prod.splits)
  then show ?thesis ..
qed

text \<open>
  C6: What a successful publication leaves in the tables: every symbol, edge, file and queue row is the
  last upsert of its key, or the old row; symbols deleted by id or with their file are gone with their
  outbound edges and queue rows, and their inbound edges stay flagged as dangling.
\<close>

theorem publish_contents:
  assumes "publish dbg env now b db = (db', Inr r)" "store_inv env db"
  shows "map_of (db_symbols db') = symbols_after b db \<and> map_of (db_edges db') = edges_after b db
    \<and> map_of (db_files db') = files_after b db \<and> map_of (db_queue db') = queue_after now b db"
  using publish_tables [OF assms] by (simp add: fun_eq_iff)

definition sample_batch :: publish_batch where
  "sample_batch =
     (empty_batch RInitial)\<lparr>symbol_upserts := [sample_symbol ''f'' ''a'', sample_symbol ''g'' ''b''],
        edge_upserts := [\<lparr>src_id = ''a'', dst_id = ''b'', ekind = Calls, confidence = 1, meta = JNull\<rparr>],
        queue_enqueue := [(''a'', ''f''), (''b'', ''g'')], file_deletes := [''g'']\<rparr>"

lemma sample_after:
  "symbols_after sample_batch empty_database ''a'' = Some (sample_symbol ''f'' ''a'')"
  "symbols_after sample_batch empty_database ''b'' = None"
  "map_option dst_missing (edges_after sample_batch empty_database (''a'', ''b'', ''calls'')) = Some True"
  "queue_after 7 sample_batch empty_database ''a'' = Some (fresh_queue_row 7 ''f'')"
  "queue_after 7 sample_batch empty_database ''b'' = None"
  by (simp_all add: symbols_after_def edges_after_def queue_after_def removed_symbols_def symbol_written_def severed_def
      sample_batch_def empty_batch_def empty_database_def latest_def sample_symbol_def edge_key_def dst_missing_def
      flag_meta_def stored_meta_def fresh_queue_row_def)

theorem publish_contents_witness:
  "\<exists>db' r. publish id plain_env 7 sample_batch empty_database = (db', Inr r)
    \<and> map_of (db_symbols db') ''a'' = Some (sample_symbol ''f'' ''a'') \<and> map_of (db_symbols db') ''b'' = None
    \<and> map_option dst_missing (map_of (db_edges db') (''a'', ''b'', ''calls'')) = Some True
    \<and> map_of (db_queue db') ''a'' = Some (fresh_queue_row 7 ''f'') \<and> map_of (db_queue db') ''b'' = None"
proof -
  have "vector_upserts sample_batch = []" by (simp add: sample_batch_def empty_batch_def)
  from publish_body_progress [OF store_inv_empty log_inv_empty this, of id plain_env 7]
  obtain db' r where "publish_body id plain_env (\<lambda>_. None) 7 sample_batch empty_database = Inr (db', r)" by blast
  then have "publish id plain_env 7 sample_batch empty_database = (db', Inr r)" by (simp add: publish_body_result)
  with publish_contents [OF this store_inv_empty] sample_after show ?thesis by auto
qed

text \<open>
  Publication of a batch without vectors, as the planner makes them, into a well-formed store
  always commits: the generation advances by one, the receipt says how many symbols wait for their
  vectors, and the semantic generation catches up when none does.
\<close>

theorem publish_succeeds:
  assumes "store_inv env db" "log_inv db" "vector_upserts b = []" "db_generation db = Some g"
  shows "\<exists>db' r. publish dbg env now b db = (db', Inr r) \<and> store_inv env db' \<and> log_inv db'
    \<and> rc_source r = source_generation g + 1 \<and> rc_pending r = int (length (db_queue db'))
    \<and> (rc_semantic r = rc_source r) = (db_queue db' = []) \<and> rc_files r = covered_paths b"
proof -
  obtain db' r where r: "publish_body dbg env (\<lambda>_. None) now b db = Inr (db', r)"
    using publish_body_progress [OF assms(1-3)] by blast
  then have pub: "publish dbg env now b db = (db', Inr r)" by (simp add: publish_body_result)
  have keep: "store_inv env db'" "log_inv db'"
    using publish_keeps [OF pub [unfolded publish_def] assms(1,2)] by simp_all
  obtain db2 where d: "store_inv env db2" "db' = batch_logged now b (classify_change db b) g db2"
    "r = \<lparr>rc_source = source_generation g + 1, rc_semantic = semantic_generation (next_generation now db2 g),
          rc_pending = int (length (db_queue db2)), rc_files = covered_paths b\<rparr>"
    using publish_body_ok [OF r assms(1)] assms(4) by (metis option.sel)
  moreover have "semantic_generation g \<le> source_generation g" using assms(2,4) by (auto simp: log_inv_def)
  ultimately show ?thesis using pub keep by (auto simp: next_generation_def)
qed

theorem publish_succeeds_witness:
  "\<exists>db' r. publish id plain_env 7 sample_batch empty_database = (db', Inr r) \<and> store_inv plain_env db' \<and> log_inv db'
    \<and> rc_source r = 0 + 1 \<and> rc_pending r = int (length (db_queue db'))
    \<and> (rc_semantic r = rc_source r) = (db_queue db' = []) \<and> rc_files r = covered_paths sample_batch"
  using publish_succeeds [OF store_inv_empty log_inv_empty, of sample_batch]
  by (fastforce simp: empty_database_def sample_batch_def empty_batch_def)

end
