(* ===== verification/Embed_Queue.thy ===== *)
theory Embed_Queue
  imports Publish
begin

text \<open>
  The durable embedding queue (\<open>crates/cognis-indexer/src/embed_queue.rs\<close>). A drain takes the due rows,
  embeds the symbol of each and commits its vector together with the removal of the row; a failed
  attempt is rescheduled on the backoff ladder of the configuration. Everything that can fail is an
  argument of the drain: what the model slot hands out for the \<open>n\<close>th row, and whether the clock, the
  connection, a query, a statement or a transaction fails. A statement that fails inside a transaction
  rolls it back, as a failing \<open>BEGIN\<close> leaves it: the first fault of a pair stands for both.
\<close>

subsection \<open>State\<close>

record drain_outcome =
  drained_count :: nat
  pending_vectors :: nat
  pending_paths :: "string list"

record embedder =
  embedding_dim :: nat
  embed_batch :: "string list \<Rightarrow> string + f32 list list"

record due_row =
  du_symbol :: string
  du_file :: string
  du_attempts :: nat

text \<open>\<open>OwnerConfig::backoff_ms_for_attempt\<close> over the ladder of the configuration.\<close>

definition default_embed_backoff_ms :: "nat list" where
  "default_embed_backoff_ms = [1000, 5000, 30000, 300000]"

definition backoff_ms_for_attempt :: "nat list \<Rightarrow> nat \<Rightarrow> nat" where
  "backoff_ms_for_attempt ladder attempt =
     (if ladder = [] then 0 else ladder ! min attempt (length ladder - 1))"

text \<open>The text embedded for a symbol, from \<open>pipeline.rs\<close>.\<close>

definition embedding_text :: "symbol \<Rightarrow> string" where
  "embedding_text s =
     join [CHR 0x0A]
       (filter (\<lambda>p. p \<noteq> [])
          ([qualified_name s] @ (case signature s of None \<Rightarrow> [] | Some t \<Rightarrow> [t])
             @ (case docstring s of None \<Rightarrow> [] | Some t \<Rightarrow> [t])
             @ (case body_excerpt s of None \<Rightarrow> [] | Some t \<Rightarrow> [t])))"

subsection \<open>Reads\<close>

definition due_rows :: "int \<Rightarrow> nat \<Rightarrow> database \<Rightarrow> due_row list" where
  "due_rows now budget db =
     map (\<lambda>(i, r). \<lparr>du_symbol = i, du_file = qr_file r, du_attempts = nat (qr_attempts r mod 2 ^ 32)\<rparr>)
       (take budget (sort_key (\<lambda>(i, r). (qr_next r, qr_enqueued_at r, i))
          (filter (\<lambda>(i, r). qr_next r \<le> now) (db_queue db))))"

definition pending_vector_count :: "database \<Rightarrow> nat" where
  "pending_vector_count db = length (db_queue db)"

definition pending_files :: "database \<Rightarrow> string list" where
  "pending_files db =
     (let rows = map snd (db_queue db);
          of_file = (\<lambda>p. filter (\<lambda>r. qr_file r = p) rows);
          key = (\<lambda>p. (min_list (map qr_next (of_file p)), min_list (map qr_enqueued_at (of_file p)), p))
      in dedup_from [] (take 8 (sort_key key (bset (map qr_file rows)))))"

definition pending_snapshot :: "database \<Rightarrow> drain_outcome" where
  "pending_snapshot db =
     \<lparr>drained_count = 0, pending_vectors = pending_vector_count db, pending_paths = pending_files db\<rparr>"

subsection \<open>Writes\<close>

definition advance_semantic_if_queue_empty :: "int \<Rightarrow> database \<Rightarrow> database" where
  "advance_semantic_if_queue_empty now db =
     (if pending_vector_count db = 0
      then db\<lparr>db_generation :=
             map_option (\<lambda>g. g\<lparr>semantic_generation := source_generation g, gen_updated_at := now\<rparr>) (db_generation db)\<rparr>
      else db)"

type_synonym txn_faults = "cognis_error option \<times> cognis_error option"

definition remove_stale_queue_row :: "txn_faults \<Rightarrow> string \<Rightarrow> int \<Rightarrow> database \<Rightarrow> database \<times> (cognis_error + unit)" where
  "remove_stale_queue_row f i now =
     with_write_txn (fst f) (snd f)
       (\<lambda>db. Inr (advance_semantic_if_queue_empty now (delete_queued i db), ()))"

definition upsert_symbol_vectors :: "sqlite_env \<Rightarrow> string \<Rightarrow> f32 list list \<Rightarrow> database \<Rightarrow> cognis_error + database" where
  "upsert_symbol_vectors env i vs db =
     (if map_of (db_symbols db) i = None then Inr db
      else and_then (prepare_vec env db) (\<lambda>_. try_fold (\<lambda>v. replace_vector env (i, v)) vs db))"

definition persist_success :: "sqlite_env \<Rightarrow> txn_faults \<Rightarrow> string \<Rightarrow> f32 list list \<Rightarrow> int \<Rightarrow> database
    \<Rightarrow> database \<times> (cognis_error + unit)" where
  "persist_success env f i vs now =
     with_write_txn (fst f) (snd f)
       (\<lambda>db. and_then (upsert_symbol_vectors env i vs db)
               (\<lambda>db. Inr (advance_semantic_if_queue_empty now (delete_queued i db), ())))"

definition retry_delay_s :: "nat list \<Rightarrow> nat \<Rightarrow> int" where
  "retry_delay_s ladder attempts = int ((backoff_ms_for_attempt ladder (attempts - 1) + 999) div 1000)"

definition reschedule :: "nat list \<Rightarrow> due_row \<Rightarrow> string \<Rightarrow> int \<Rightarrow> database \<Rightarrow> database" where
  "reschedule ladder row msg now db =
     (let attempts = min (du_attempts row + 1) (2 ^ 32 - 1);
          next = min (now + retry_delay_s ladder attempts) (2 ^ 63 - 1)
      in db\<lparr>db_queue := map (\<lambda>(i, r). (i, if i = du_symbol row
               then r\<lparr>qr_attempts := int attempts, qr_error := Some msg, qr_next := next\<rparr> else r)) (db_queue db)\<rparr>)"

text \<open>The \<open>UPDATE\<close> of one statement, which may fail.\<close>

definition record_failure :: "cognis_error option \<Rightarrow> nat list \<Rightarrow> due_row \<Rightarrow> string \<Rightarrow> int \<Rightarrow> database
    \<Rightarrow> database \<times> (cognis_error + unit)" where
  "record_failure f ladder row msg now db =
     (case f of Some e \<Rightarrow> (db, Inl e) | None \<Rightarrow> (reschedule ladder row msg now db, Inr ()))"

subsection \<open>Draining\<close>

text \<open>\<open>shown\<close> renders an error.\<close>

definition embed_symbol :: "(cognis_error \<Rightarrow> string) \<Rightarrow> sqlite_env \<Rightarrow> embedder option \<Rightarrow> txn_faults \<Rightarrow> symbol \<Rightarrow> database
    \<Rightarrow> database \<times> (string + f32 list list)" where
  "embed_symbol shown env borrow f s db =
     (case borrow of
        None \<Rightarrow> (db, Inl ''embedder unavailable'')
      | Some e \<Rightarrow>
          (case (if 0 < embedding_dim e then reconcile_embedding_dim env (fst f) (snd f) (embedding_dim e) db
                 else (db, Inr ())) of
             (db, Inl err) \<Rightarrow> (db, Inl (shown err))
           | (db, Inr _) \<Rightarrow>
               (case embed_batch e [embedding_text s] of
                  Inl err \<Rightarrow> (db, Inl err)
                | Inr vs \<Rightarrow>
                    if length vs = 1 then (db, Inr vs)
                    else (db, Inl (''embed batch length mismatch: expected 1, got '' @ show_nat (length vs))))))"

text \<open>
  \<open>dr_open_fault\<close>: the clock, the connection or the query of the due rows; \<open>dr_read_faults n\<close>: the read of
  the symbol of the \<open>n\<close>th row; \<open>dr_embed_faults n\<close>: the transaction that fits the table to the model;
  \<open>dr_write_faults n\<close>: the row's transaction; \<open>dr_failure_faults n\<close>: the update that reschedules it;
  \<open>dr_snapshot_fault\<close>: the queries of the snapshot.
\<close>

record drain_env =
  dr_shown :: "cognis_error \<Rightarrow> string"
  dr_sqlite :: sqlite_env
  dr_ladder :: "nat list"
  dr_borrow :: "nat \<Rightarrow> embedder option"
  dr_embed_faults :: "nat \<Rightarrow> txn_faults"
  dr_write_faults :: "nat \<Rightarrow> txn_faults"
  dr_open_fault :: "cognis_error option"
  dr_read_faults :: "nat \<Rightarrow> cognis_error option"
  dr_failure_faults :: "nat \<Rightarrow> cognis_error option"
  dr_snapshot_fault :: "cognis_error option"

fun drain_rows :: "drain_env \<Rightarrow> int \<Rightarrow> nat \<Rightarrow> due_row list \<Rightarrow> nat \<Rightarrow> database \<Rightarrow> database \<times> (cognis_error + nat)" where
  "drain_rows en now n [] drained db = (db, Inr drained)"
| "drain_rows en now n (row # rows) drained db =
     (case dr_read_faults en n of
        Some e \<Rightarrow> (db, Inl e)
      | None \<Rightarrow>
     (case hydrate_ids db [du_symbol row] of
        [] \<Rightarrow>
          (case remove_stale_queue_row (dr_write_faults en n) (du_symbol row) now db of
             (db, Inl e) \<Rightarrow> (db, Inl e)
           | (db, Inr _) \<Rightarrow> drain_rows en now (Suc n) rows drained db)
      | s # _ \<Rightarrow>
          (case embed_symbol (dr_shown en) (dr_sqlite en) (dr_borrow en n) (dr_embed_faults en n) s db of
             (db, Inl msg) \<Rightarrow>
               (case record_failure (dr_failure_faults en n) (dr_ladder en) row msg now db of
                  (db, Inl e) \<Rightarrow> (db, Inl e)
                | (db, Inr _) \<Rightarrow> drain_rows en now (Suc n) rows drained db)
           | (db, Inr vs) \<Rightarrow>
               (case persist_success (dr_sqlite en) (dr_write_faults en n) (du_symbol row) vs now db of
                  (db, Inl e) \<Rightarrow> (db, Inl e)
                | (db, Inr _) \<Rightarrow> drain_rows en now (Suc n) rows (drained + 1) db))))"

definition read_snapshot :: "drain_env \<Rightarrow> nat \<Rightarrow> database \<Rightarrow> database \<times> (cognis_error + drain_outcome)" where
  "read_snapshot en d db =
     (db, case dr_snapshot_fault en of Some e \<Rightarrow> Inl e | None \<Rightarrow> Inr (pending_snapshot db\<lparr>drained_count := d\<rparr>))"

definition drain :: "drain_env \<Rightarrow> int \<Rightarrow> nat \<Rightarrow> database \<Rightarrow> database \<times> (cognis_error + drain_outcome)" where
  "drain en now budget db =
     (if budget = 0 then read_snapshot en 0 db
      else case dr_open_fault en of
             Some e \<Rightarrow> (db, Inl e)
           | None \<Rightarrow>
               (let due = due_rows now budget db
                in if due = [] then read_snapshot en 0 db
                   else (case drain_rows en now 0 due 0 db of
                           (db, Inl e) \<Rightarrow> (db, Inl e)
                         | (db, Inr d) \<Rightarrow> read_snapshot en d db)))"

lemma drain_cases:
  assumes "drain en now budget db = (db', x)"
  shows "db' = db \<and> (\<forall>out. x = Inr out \<longrightarrow> drained_count out = 0)
    \<or> (\<exists>y. drain_rows en now 0 (due_rows now budget db) 0 db = (db', y) \<and> (\<forall>out. x = Inr out \<longrightarrow> y = Inr (drained_count out)))"
  using assms
  by (auto simp: drain_def read_snapshot_def pending_snapshot_def Let_def split: if_splits prod.splits sum.splits option.splits)

subsection \<open>Invariants of the index\<close>

text \<open>
  A writer of the index takes the store from one committed state to another; the contract of every
  writer is that tables and generation markers stay consistent.
\<close>

definition index_ok :: "sqlite_env \<Rightarrow> database \<Rightarrow> bool" where
  "index_ok env db \<longleftrightarrow> store_inv env db \<and> log_inv db"

definition same_log :: "database \<Rightarrow> database \<Rightarrow> bool" where
  "same_log db db' \<longleftrightarrow> log_of db' = log_of db \<and> (db_queue db' = [] \<longleftrightarrow> db_queue db = [])"

lemma log_inv_same_log: "same_log db db' \<Longrightarrow> log_inv db \<Longrightarrow> log_inv db'"
  by (simp add: same_log_def log_inv_def log_of_def)

lemma log_inv_advance:
  assumes "log_inv db" "log_of d = log_of db" "db_queue db = [] \<Longrightarrow> db_queue d = []"
  shows "log_inv (advance_semantic_if_queue_empty now d)"
  using assms
  by (auto simp: advance_semantic_if_queue_empty_def pending_vector_count_def log_inv_def log_of_def)

lemma store_inv_generation [simp]: "store_inv env (db\<lparr>db_generation := g\<rparr>) = store_inv env db"
  by (simp add: store_inv_def db_ok_def fts_synced_def vec_ok_def)

lemma store_inv_advance: "store_inv env db \<Longrightarrow> store_inv env (advance_semantic_if_queue_empty now db)"
  by (simp add: advance_semantic_if_queue_empty_def)

lemma with_write_txn_cases:
  assumes "with_write_txn be ce body db = (db', x)"
  shows "db' = db \<and> (\<exists>e. x = Inl e) \<or> (\<exists>y. body db = Inr (db', y) \<and> x = Inr y)"
  using assms by (auto simp: with_write_txn_def split: option.splits sum.splits prod.splits)

lemma index_ok_remove_stale:
  assumes "remove_stale_queue_row f i now db = (db', x)" "index_ok env db"
  shows "index_ok env db'"
proof -
  have "db' = db \<or> db' = advance_semantic_if_queue_empty now (delete_queued i db)"
    using with_write_txn_cases assms(1) unfolding remove_stale_queue_row_def by blast
  moreover have "index_ok env (advance_semantic_if_queue_empty now (delete_queued i db))"
    using assms(2) unfolding index_ok_def
    by (intro conjI store_inv_advance store_inv_unqueue log_inv_advance [where db = db])
      (simp_all add: log_of_def delete_queued_def)
  ultimately show ?thesis using assms(2) by auto
qed

text \<open>What a commit of vectors leaves alone.\<close>

lemma replace_vectors:
  assumes "try_fold (\<lambda>v. replace_vector env (i, v)) vs db = Inr db'" "store_inv env db" "i \<in> fst ` set (db_symbols db)"
  shows "store_inv env db' \<and> sources db' = sources db \<and> log_of db' = log_of db \<and> db_vec_form db' = db_vec_form db
    \<and> db_meta db' = db_meta db \<and> fst ` set (db_vec db') = (if vs = [] then fst ` set (db_vec db) else insert i (fst ` set (db_vec db)))"
  using assms
proof (induction vs arbitrary: db)
  case (Cons v vs)
  obtain d where d: "replace_vector env (i, v) db = Inr d" "try_fold (\<lambda>v. replace_vector env (i, v)) vs d = Inr db'"
    using Cons.prems(1) by (auto simp: and_then_Inr)
  have ins: "insert_vector env i v (delete_vector i db) = Inr d" using d(1) by (simp add: replace_vector_def)
  have "i \<in> fst ` set (db_symbols (delete_vector i db))" using Cons.prems(3) by (simp add: delete_vector_def)
  then have "store_inv env d"
    by (rule store_inv_insert_vector [OF store_inv_delete_vector [OF Cons.prems(2)] ins])
  moreover have "d = db\<lparr>db_vec := bt_insert i v (filter (\<lambda>r. fst r \<noteq> i) (db_vec db))\<rparr>"
    using insert_vector_Inr [OF ins] by (simp add: delete_vector_def)
  ultimately show ?case
    using Cons.IH [OF d(2)] Cons.prems(3)
    by (auto simp: sources_def log_of_def set_keys_bt_insert keys_filter)
qed simp

lemma upsert_symbol_vectors_ok:
  assumes "upsert_symbol_vectors env i vs db = Inr db'" "store_inv env db"
  shows "store_inv env db' \<and> sources db' = sources db \<and> log_of db' = log_of db \<and> db_vec_form db' = db_vec_form db
    \<and> db_meta db' = db_meta db \<and> fst ` set (db_vec db) \<subseteq> fst ` set (db_vec db')
    \<and> (vs \<noteq> [] \<longrightarrow> i \<notin> fst ` set (db_symbols db) \<or> i \<in> fst ` set (db_vec db'))"
proof (cases "map_of (db_symbols db) i = None")
  case True
  with assms show ?thesis by (simp add: upsert_symbol_vectors_def map_of_eq_None_iff)
next
  case False
  then have "try_fold (\<lambda>v. replace_vector env (i, v)) vs db = Inr db'" "i \<in> fst ` set (db_symbols db)"
    using assms(1) by (auto simp: upsert_symbol_vectors_def and_then_Inr map_of_eq_None_iff)
  from replace_vectors [OF this(1) assms(2) this(2)] show ?thesis by auto
qed

lemma index_ok_persist:
  assumes "persist_success env f i vs now db = (db', x)" "index_ok env db"
  shows "index_ok env db'"
proof -
  consider "db' = db" | d where "upsert_symbol_vectors env i vs db = Inr d"
      "db' = advance_semantic_if_queue_empty now (delete_queued i d)"
    using with_write_txn_cases [OF assms(1) [unfolded persist_success_def]] by (auto simp: and_then_Inr)
  then show ?thesis
  proof cases
    case 2
    note ok = upsert_symbol_vectors_ok [OF 2(1)]
    show ?thesis
      unfolding index_ok_def 2(2) using assms(2) ok
      by (intro conjI store_inv_advance store_inv_unqueue log_inv_advance [where db = db])
        (auto simp: index_ok_def log_of_def sources_def delete_queued_def)
  qed (use assms in simp)
qed

lemma index_ok_reschedule: "index_ok env db \<Longrightarrow> index_ok env (reschedule ladder row msg now db)"
proof -
  assume ok: "index_ok env db"
  have q: "bt_wf (map (\<lambda>(i, r). (i, if i = k then h r else r)) m)" if "bt_wf m"
    for k and h :: "queue_row \<Rightarrow> queue_row" and m :: "(string, queue_row) btree"
    using bt_wf_map_snd [OF that, of "\<lambda>i r. if i = k then h r else r"] by simp
  have "store_inv env (reschedule ladder row msg now db)"
    using ok unfolding reschedule_def Let_def
    by (simp add: index_ok_def store_inv_def db_ok_def fts_synced_def vec_ok_def q)
  moreover have "same_log db (reschedule ladder row msg now db)"
    by (simp add: same_log_def log_of_def reschedule_def Let_def)
  ultimately show ?thesis using ok log_inv_same_log by (simp add: index_ok_def)
qed

lemma record_failure_cases: "record_failure f ladder row msg now db = (db', x) \<Longrightarrow> db' = db \<or> db' = reschedule ladder row msg now db"
  by (auto simp: record_failure_def split: option.splits)

lemma index_ok_failure: "record_failure f ladder row msg now db = (db', x) \<Longrightarrow> index_ok env db \<Longrightarrow> index_ok env db'"
  using record_failure_cases index_ok_reschedule by blast

text \<open>The vector table has the form and the width of an embedder of dimension \<open>d\<close>.\<close>

definition settled :: "sqlite_env \<Rightarrow> nat \<Rightarrow> database \<Rightarrow> bool" where
  "settled env d db \<longleftrightarrow>
     (case Option.bind (map_of (db_meta db) EMBEDDING_DIM_META_KEY) parse_u64 of
        None \<Rightarrow> DEFAULT_EMBEDDING_DIM | Some d \<Rightarrow> d) = d
     \<and> (case db_vec_form db of None \<Rightarrow> True | Some w \<Rightarrow> w = d) \<and> vec0_table_present db = vec_ext env"

lemma reconcile_settled: "settled env d db \<Longrightarrow> reconcile_embedding_dim env be ce d db = (db, Inr ())"
  by (simp add: settled_def reconcile_embedding_dim_def)

lemma reconcile_ok:
  assumes "reconcile_embedding_dim env be ce d db = (db', x)" "index_ok env db" "d < 2 ^ 64"
  shows "index_ok env db' \<and> sources db' = sources db \<and> (x = Inr () \<longrightarrow> settled env d db')"
proof -
  let ?m = "db\<lparr>db_meta := bt_insert EMBEDDING_DIM_META_KEY (show_nat d) (db_meta db)\<rparr>"
  have inv: "store_inv env db" using assms(2) by (simp add: index_ok_def)
  then have form: "vec0_table_present db \<Longrightarrow> vec_ext env"
    by (auto simp: store_inv_def vec_ok_def vec0_table_present_def)
  consider "settled env d db" | "db' = db" "\<exists>e. x = Inl e"
    | d' where "recreate_vec_table env (vec_ext env) d ?m = Inr d'" "db' = d'"
  proof (cases "settled env d db")
    case False
    then have "with_write_txn be ce (\<lambda>db. and_then
        (recreate_vec_table env (vec_ext env) d
          (db\<lparr>db_meta := bt_insert EMBEDDING_DIM_META_KEY (show_nat d) (db_meta db)\<rparr>))
        (\<lambda>db. Inr (db, ()))) db = (db', x)"
      using assms(1) form by (auto simp: reconcile_embedding_dim_def settled_def Let_def split: if_splits)
    from with_write_txn_cases [OF this] that(2,3) show ?thesis by (auto simp: and_then_Inr)
  qed (rule that)
  then show ?thesis
  proof cases
    case 1
    with reconcile_settled [OF 1] assms(1,2) show ?thesis by simp
  next
    case 3
    have "store_inv env db'" using store_inv_recreate [OF _ 3(1)] store_inv_meta [OF inv] 3(2) by simp
    moreover have "same_log db db' \<and> sources db' = sources db" "settled env d db'"
      using 3 assms(3)
      by (auto simp: recreate_vec_table_def same_log_def log_of_def sources_def settled_def
          vec0_table_present_def split: if_splits)
    ultimately show ?thesis using assms(2) log_inv_same_log by (auto simp: index_ok_def)
  qed (use assms in auto)
qed

lemma embed_symbol_ok:
  assumes "embed_symbol shown env borrow f s db = (db', x)" "index_ok env db"
    and "\<And>e. borrow = Some e \<Longrightarrow> embedding_dim e < 2 ^ 64"
  shows "index_ok env db' \<and> sources db' = sources db
    \<and> (\<forall>vs. x = Inr vs \<longrightarrow> length vs = 1 \<and> (\<exists>e. borrow = Some e \<and> (embedding_dim e = 0 \<or> settled env (embedding_dim e) db')))"
proof (cases borrow)
  case None
  with assms show ?thesis by (auto simp: embed_symbol_def)
next
  case (Some e)
  show ?thesis
  proof (cases "0 < embedding_dim e")
    case True
    obtain d y where r: "reconcile_embedding_dim env (fst f) (snd f) (embedding_dim e) db = (d, y)" by fastforce
    note ok = reconcile_ok [OF r assms(2) assms(3) [OF Some]]
    have "db' = d \<and> (\<forall>vs. x = Inr vs \<longrightarrow> length vs = 1 \<and> y = Inr ())"
      using assms(1) Some True r by (auto simp: embed_symbol_def split: sum.splits if_splits)
    with ok Some show ?thesis by auto
  next
    case False
    with Some assms(1,2) show ?thesis by (auto simp: embed_symbol_def split: sum.splits if_splits)
  qed
qed

subsection \<open>A drain as a sequence of row steps\<close>

inductive row_step :: "drain_env \<Rightarrow> int \<Rightarrow> nat \<Rightarrow> due_row \<Rightarrow> database \<Rightarrow> database \<Rightarrow> bool" for en now n row db where
  stale: "hydrate_ids db [du_symbol row] = [] \<Longrightarrow>
    remove_stale_queue_row (dr_write_faults en n) (du_symbol row) now db = (db', x) \<Longrightarrow> row_step en now n row db db'"
| failed: "hydrate_ids db [du_symbol row] = s # ss \<Longrightarrow>
    embed_symbol (dr_shown en) (dr_sqlite en) (dr_borrow en n) (dr_embed_faults en n) s db = (d, Inl msg) \<Longrightarrow>
    record_failure (dr_failure_faults en n) (dr_ladder en) row msg now d = (db', x) \<Longrightarrow> row_step en now n row db db'"
| embedded: "hydrate_ids db [du_symbol row] = s # ss \<Longrightarrow>
    embed_symbol (dr_shown en) (dr_sqlite en) (dr_borrow en n) (dr_embed_faults en n) s db = (d, Inr vs) \<Longrightarrow>
    persist_success (dr_sqlite en) (dr_write_faults en n) (du_symbol row) vs now d = (db', x) \<Longrightarrow> row_step en now n row db db'"

lemma drain_rows_inv:
  assumes "drain_rows en now n rows k db = (db', x)" "P db"
    and step: "\<And>n row d d'. row \<in> set rows \<Longrightarrow> P d \<Longrightarrow> row_step en now n row d d' \<Longrightarrow> P d'"
  shows "P db'"
  using assms
proof (induction rows arbitrary: n k db)
  case (Cons row rows)
  obtain n' k' d where d: "row_step en now n row db d \<or> d = db" "drain_rows en now n' rows k' d = (db', x) \<or> db' = d"
  proof (cases "dr_read_faults en n")
    case (Some e)
    then show ?thesis using Cons.prems(1) that [of db] by auto
  next
    case ok: None
    show ?thesis
    proof (cases "hydrate_ids db [du_symbol row]")
      case Nil
      obtain d y where r: "remove_stale_queue_row (dr_write_faults en n) (du_symbol row) now db = (d, y)" by fastforce
      have "drain_rows en now (Suc n) rows k d = (db', x) \<or> db' = d"
        using Cons.prems(1) ok Nil r by (cases y) simp_all
      with stale [OF Nil r] show ?thesis by (intro that [OF disjI1])
    next
      case (Cons s ss)
      obtain d r where e: "embed_symbol (dr_shown en) (dr_sqlite en) (dr_borrow en n) (dr_embed_faults en n) s db = (d, r)"
        by fastforce
      show ?thesis
      proof (cases r)
        case (Inl msg)
        obtain d' y where p: "record_failure (dr_failure_faults en n) (dr_ladder en) row msg now d = (d', y)"
          by fastforce
        have "drain_rows en now (Suc n) rows k d' = (db', x) \<or> db' = d'"
          using Cons.prems(1) ok Cons e Inl p by (cases y) simp_all
        with failed [OF Cons e [unfolded Inl] p] show ?thesis by (intro that [OF disjI1])
      next
        case (Inr vs)
        obtain d' y where p: "persist_success (dr_sqlite en) (dr_write_faults en n) (du_symbol row) vs now d = (d', y)"
          by fastforce
        have "drain_rows en now (Suc n) rows (k + 1) d' = (db', x) \<or> db' = d'"
          using Cons.prems(1) ok Cons e Inr p by (cases y) simp_all
        with embedded [OF Cons e [unfolded Inr] p] show ?thesis by (intro that [OF disjI1])
      qed
    qed
  qed
  have "P d" using Cons.prems(2,3) d(1) by (meson list.set_intros(1))
  with d(2) Cons.IH Cons.prems(3) show ?case by (meson list.set_intros(2))
qed simp

lemma index_ok_row_step:
  assumes "row_step en now n row db db'" "index_ok (dr_sqlite en) db"
    and "\<And>e. dr_borrow en n = Some e \<Longrightarrow> embedding_dim e < 2 ^ 64"
  shows "index_ok (dr_sqlite en) db'"
  using assms(1)
proof cases
  case stale
  then show ?thesis using index_ok_remove_stale assms(2) by blast
next
  case (failed s ss d msg x)
  from embed_symbol_ok [OF failed(2) assms(2,3)] failed(3) index_ok_failure show ?thesis by blast
next
  case (embedded s ss d vs x)
  from embed_symbol_ok [OF embedded(2) assms(2,3)] embedded(3) index_ok_persist show ?thesis by blast
qed

lemma index_ok_drain:
  assumes "drain en now budget db = (db', x)" "index_ok (dr_sqlite en) db"
    and "\<And>n e. dr_borrow en n = Some e \<Longrightarrow> embedding_dim e < 2 ^ 64"
  shows "index_ok (dr_sqlite en) db'"
proof -
  have "db' = db \<or> (\<exists>y. drain_rows en now 0 (due_rows now budget db) 0 db = (db', y))"
    using drain_cases [OF assms(1)] by blast
  moreover have "index_ok (dr_sqlite en) d'"
    if "drain_rows en now 0 (due_rows now budget db) 0 db = (d', y)" for d' y
    by (rule drain_rows_inv [OF that, of "index_ok (dr_sqlite en)", OF assms(2)]) (rule index_ok_row_step [OF _ _ assms(3)])
  ultimately show ?thesis using assms(2) by blast
qed

subsection \<open>No request is lost\<close>

text \<open>
  The requests \<open>Q\<close> that are neither queued nor obsolete have their vector; before the first commit of
  a drain there are none.
\<close>

definition accounted :: "sqlite_env \<Rightarrow> nat \<Rightarrow> string set \<Rightarrow> string set \<Rightarrow> database \<Rightarrow> bool" where
  "accounted env d syms Q db \<longleftrightarrow> fst ` set (db_symbols db) = syms
     \<and> (Q \<inter> syms \<subseteq> fst ` set (db_queue db)
        \<or> (d = 0 \<or> settled env d db) \<and> Q \<inter> syms \<subseteq> fst ` set (db_queue db) \<union> fst ` set (db_vec db))"

lemma accounted_kept: "accounted env d syms Q db \<Longrightarrow> Q \<inter> syms \<subseteq> fst ` set (db_queue db) \<union> fst ` set (db_vec db)"
  by (auto simp: accounted_def)

lemma advance_fields [simp]:
  "db_symbols (advance_semantic_if_queue_empty now db) = db_symbols db"
  "db_queue (advance_semantic_if_queue_empty now db) = db_queue db"
  "db_vec (advance_semantic_if_queue_empty now db) = db_vec db"
  "db_vec_form (advance_semantic_if_queue_empty now db) = db_vec_form db"
  "db_meta (advance_semantic_if_queue_empty now db) = db_meta db"
  by (simp_all add: advance_semantic_if_queue_empty_def)

lemma delete_queued_fields [simp]:
  "db_symbols (delete_queued i db) = db_symbols db" "db_queue (delete_queued i db) = filter (\<lambda>r. fst r \<noteq> i) (db_queue db)"
  "db_vec (delete_queued i db) = db_vec db" "db_vec_form (delete_queued i db) = db_vec_form db"
  "db_meta (delete_queued i db) = db_meta db"
  by (simp_all add: delete_queued_def)

lemma settled_cong: "db_meta db' = db_meta db \<Longrightarrow> db_vec_form db' = db_vec_form db \<Longrightarrow> settled env d db' = settled env d db"
  by (simp add: settled_def vec0_table_present_def)

lemma accounted_cong:
  assumes "fst ` set (db_symbols db') = fst ` set (db_symbols db)" "fst ` set (db_queue db') = fst ` set (db_queue db)"
    "fst ` set (db_vec db') = fst ` set (db_vec db)" "db_meta db' = db_meta db" "db_vec_form db' = db_vec_form db"
  shows "accounted env d syms Q db' = accounted env d syms Q db"
  using assms settled_cong [OF assms(4,5)] by (simp add: accounted_def)

lemma reschedule_fields [simp]:
  "db_symbols (reschedule ladder row msg now db) = db_symbols db" "db_files (reschedule ladder row msg now db) = db_files db"
  "db_vec (reschedule ladder row msg now db) = db_vec db" "db_meta (reschedule ladder row msg now db) = db_meta db"
  "db_vec_form (reschedule ladder row msg now db) = db_vec_form db"
  "fst ` set (db_queue (reschedule ladder row msg now db)) = fst ` set (db_queue db)"
  by (simp_all add: reschedule_def Let_def image_image case_prod_beta)

lemma accounted_failure:
  assumes "record_failure f ladder row msg now db = (db', x)" "accounted env d syms Q db"
  shows "accounted env d syms Q db'"
proof -
  have "accounted env d syms Q (reschedule ladder row msg now db) = accounted env d syms Q db"
    by (rule accounted_cong) simp_all
  with record_failure_cases [OF assms(1)] assms(2) show ?thesis by auto
qed

lemma hydrate_none:
  "db_ok db \<Longrightarrow> hydrate_ids db [i] = [] \<longleftrightarrow> i \<notin> fst ` set (db_symbols db)"
proof -
  assume ok: "db_ok db"
  have "hydrate_ids db [i] = [] \<longleftrightarrow> i \<notin> set (map sid (list_symbols db))"
    using ok by (auto simp: symbols_by_values_filter filter_empty_conv)
  then show ?thesis unfolding db_ok_symbols(1) [OF ok, symmetric] by simp
qed

lemma accounted_embed:
  assumes "embed_symbol shown env borrow f s db = (db', x)" "accounted env d syms Q db" "index_ok env db" "d < 2 ^ 64"
    and "\<And>e. borrow = Some e \<Longrightarrow> embedding_dim e = d"
  shows "accounted env d syms Q db'"
proof (cases "borrow = None \<or> d = 0 \<or> settled env d db")
  case True
  then have "db' = db"
    using assms(1,5) by (auto simp: embed_symbol_def reconcile_settled split: option.splits sum.splits if_splits)
  with assms(2) show ?thesis by simp
next
  case False
  then obtain e where e: "borrow = Some e" "embedding_dim e = d" "0 < d" using assms(5) by auto
  obtain d1 y where r: "reconcile_embedding_dim env (fst f) (snd f) d db = (d1, y)" by fastforce
  have "db' = d1" using assms(1) e r by (auto simp: embed_symbol_def split: sum.splits if_splits)
  moreover have "sources d1 = sources db" using reconcile_ok [OF r assms(3,4)] by simp
  ultimately show ?thesis using assms(2) False by (auto simp: accounted_def sources_def)
qed

lemma queue_after_delete: "fst ` set (db_queue (delete_queued i db)) = fst ` set (db_queue db) - {i}"
  by (simp only: delete_queued_fields keys_filter)

lemma accounted_stale:
  assumes "remove_stale_queue_row f i now db = (db', x)" "accounted env d syms Q db" "i \<notin> fst ` set (db_symbols db)"
  shows "accounted env d syms Q db'"
proof -
  have "db' = db \<or> db' = advance_semantic_if_queue_empty now (delete_queued i db)"
    using with_write_txn_cases assms(1) unfolding remove_stale_queue_row_def by blast
  moreover have "accounted env d syms Q (advance_semantic_if_queue_empty now (delete_queued i db))"
  proof -
    have "settled env d (advance_semantic_if_queue_empty now (delete_queued i db)) = settled env d db"
      by (rule settled_cong) simp_all
    moreover have "i \<notin> syms" using assms(2,3) by (simp add: accounted_def)
    ultimately show ?thesis
      using assms(2) unfolding accounted_def advance_fields queue_after_delete
      by (simp only: delete_queued_fields(1,3)) blast
  qed
  ultimately show ?thesis using assms(2) by auto
qed

lemma accounted_persist:
  assumes "persist_success env f i vs now db = (db', x)" "accounted env d syms Q db" "index_ok env db"
    and "vs \<noteq> []" "d = 0 \<or> settled env d db"
  shows "accounted env d syms Q db'"
proof -
  consider "db' = db" | c where "upsert_symbol_vectors env i vs db = Inr c"
      "db' = advance_semantic_if_queue_empty now (delete_queued i c)"
    using with_write_txn_cases [OF assms(1) [unfolded persist_success_def]] by (auto simp: and_then_Inr)
  then show ?thesis
  proof cases
    case 2
    have inv: "store_inv env db" using assms(3) by (simp add: index_ok_def)
    note c = upsert_symbol_vectors_ok [OF 2(1) inv]
    have same: "fst ` set (db_symbols c) = syms" "fst ` set (db_queue c) = fst ` set (db_queue db)"
      using c assms(2) by (simp_all add: sources_def accounted_def)
    have "d = 0 \<or> settled env d db'"
      using assms(5) settled_cong [of db' db] c 2(2) by simp
    moreover have "Q \<inter> syms \<subseteq> fst ` set (db_queue db') \<union> fst ` set (db_vec db')"
    proof
      fix j assume j: "j \<in> Q \<inter> syms"
      have "j \<in> fst ` set (db_queue db) \<or> j \<in> fst ` set (db_vec db)" using accounted_kept [OF assms(2)] j by blast
      moreover have "i \<notin> syms \<or> i \<in> fst ` set (db_vec c)" using c assms(2,4) by (simp add: accounted_def)
      ultimately show "j \<in> fst ` set (db_queue db') \<union> fst ` set (db_vec db')"
        using c j same unfolding 2(2) advance_fields queue_after_delete delete_queued_fields(3) by blast
    qed
    ultimately show ?thesis using same 2(2) by (simp add: accounted_def)
  qed (use assms in simp)
qed

lemma accounted_row_step:
  assumes "row_step en now n row db db'" "index_ok (dr_sqlite en) db" "accounted (dr_sqlite en) d syms Q db"
    and "\<And>e. dr_borrow en n = Some e \<Longrightarrow> embedding_dim e = d" "d < 2 ^ 64"
  shows "accounted (dr_sqlite en) d syms Q db'"
  using assms(1)
proof cases
  case (stale x)
  have "db_ok db" using assms(2) by (simp add: index_ok_def store_inv_def)
  with stale show ?thesis using accounted_stale assms(3) by (simp add: hydrate_none)
next
  case (failed s ss c msg x)
  show ?thesis by (rule accounted_failure [OF failed(3) accounted_embed [OF failed(2) assms(3,2,5,4)]])
next
  case (embedded s ss c vs x)
  have "index_ok (dr_sqlite en) c" "length vs = 1"
    and "\<exists>e. dr_borrow en n = Some e \<and> (embedding_dim e = 0 \<or> settled (dr_sqlite en) (embedding_dim e) c)"
    using embed_symbol_ok [OF embedded(2) assms(2)] assms(4,5) by auto
  moreover from this(3) have "d = 0 \<or> settled (dr_sqlite en) d c" using assms(4) by auto
  moreover have "vs \<noteq> []" using \<open>length vs = 1\<close> by auto
  ultimately show ?thesis
    using accounted_persist [OF embedded(3)] accounted_embed [OF embedded(2) assms(3,2,5,4)] by blast
qed

lemma drain_accounted:
  assumes "drain en now budget db = (db', x)" "index_ok (dr_sqlite en) db"
    and "\<And>n e. dr_borrow en n = Some e \<Longrightarrow> embedding_dim e = d" "d < 2 ^ 64"
  shows "index_ok (dr_sqlite en) db' \<and> accounted (dr_sqlite en) d (fst ` set (db_symbols db)) (fst ` set (db_queue db)) db'"
proof -
  let ?syms = "fst ` set (db_symbols db)" and ?Q = "fst ` set (db_queue db)"
  let ?P = "\<lambda>d'. index_ok (dr_sqlite en) d' \<and> accounted (dr_sqlite en) d ?syms ?Q d'"
  have dim: "dr_borrow en n = Some e \<Longrightarrow> embedding_dim e < 2 ^ 64" for n e using assms(3,4) by simp
  have start: "?P db" using assms(2) by (simp add: accounted_def)
  have "db' = db \<or> (\<exists>y. drain_rows en now 0 (due_rows now budget db) 0 db = (db', y))"
    using drain_cases [OF assms(1)] by blast
  moreover have "?P d'" if "drain_rows en now 0 (due_rows now budget db) 0 db = (d', y)" for d' y
  proof (rule drain_rows_inv [OF that, of ?P, OF start])
    fix n row c c' assume c: "?P c" "row_step en now n row c c'"
    show "?P c'"
      using c(1) index_ok_row_step [OF c(2) _ dim] accounted_row_step [OF c(2) _ _ assms(3) assms(4)] by simp
  qed
  ultimately show ?thesis using start by blast
qed

lemma drain_symbols:
  assumes "drain en now budget db = (db', x)" "index_ok (dr_sqlite en) db"
    and "\<And>n e. dr_borrow en n = Some e \<Longrightarrow> embedding_dim e = d" "d < 2 ^ 64" "i \<in> fst ` set (db_symbols db)"
  shows "i \<in> fst ` set (db_symbols db')"
proof -
  have "accounted (dr_sqlite en) d (fst ` set (db_symbols db)) (fst ` set (db_queue db)) db'"
    using drain_accounted [OF assms(1,2) _ assms(4)] assms(3) by blast
  with assms(5) show ?thesis by (simp add: accounted_def)
qed

subsection \<open>The index and its writers\<close>

text \<open>What the store promises of a transaction of any writer, and the writers that keep it.\<close>

locale index_writer =
  fixes env :: sqlite_env and commit :: "'a \<Rightarrow> database \<Rightarrow> database \<times> 'b"
  assumes keeps: "index_ok env db \<Longrightarrow> index_ok env (fst (commit a db))"
begin

lemma kept: "commit a db = (db', x) \<Longrightarrow> index_ok env db \<Longrightarrow> index_ok env db'"
  using keeps [of db a] by simp

end

interpretation publisher: index_writer env "\<lambda>(dbg, be, ce, cp, now, b). publish_with_checkpoints dbg env be ce cp now b" for env
proof (unfold_locales, clarsimp)
  fix dbg be ce cp now b db assume "index_ok env db"
  then show "index_ok env (fst (publish_with_checkpoints dbg env be ce cp now b db))"
    using publish_keeps [of dbg env be ce cp now b db] by (simp add: index_ok_def prod_eq_iff)
qed

interpretation stale: index_writer env "\<lambda>(f, i, now). remove_stale_queue_row f i now" for env
  by unfold_locales (auto intro: index_ok_remove_stale [OF surjective_pairing])

interpretation success: index_writer env "\<lambda>(f, i, vs, now). persist_success env f i vs now" for env
  by unfold_locales (auto intro: index_ok_persist [OF surjective_pairing])

interpretation failure: index_writer env "\<lambda>(f, ladder, row, msg, now). record_failure f ladder row msg now" for env
  by unfold_locales (auto intro: index_ok_failure [OF surjective_pairing])

lemma index_ok_txn:
  assumes "\<And>db'' y. body db = Inr (db'', y) \<Longrightarrow> store_inv env db'' \<and> same_log db db''" "index_ok env db"
  shows "index_ok env (fst (with_write_txn be ce body db))"
  using with_write_txn_cases [OF surjective_pairing, of be ce body db] assms log_inv_same_log
  by (fastforce simp: index_ok_def)

interpretation symbols: index_writer env "\<lambda>(be, ce, ss). upsert_symbols be ce ss" for env
proof (unfold_locales, clarsimp)
  fix be ce ss db assume ok: "index_ok env db"
  have "store_inv env (fold upsert_symbol ss db)"
    using ok unfolding index_ok_def by (intro inv_intros) simp
  moreover have "same_log db (fold upsert_symbol ss db)"
    by (simp add: same_log_def fold_frame, simp add: fold_frame upsert_symbol_def)
  ultimately show "index_ok env (fst (upsert_symbols be ce ss db))"
    using ok index_ok_txn [of "\<lambda>db. Inr (fold upsert_symbol ss db, ())"] by (simp add: upsert_symbols_def)
qed

interpretation edges: index_writer env "\<lambda>(be, ce, es). upsert_edges be ce es" for env
proof (unfold_locales, clarsimp)
  fix be ce es db assume ok: "index_ok env db"
  have "store_inv env (fold upsert_edge es db)"
    using ok unfolding index_ok_def by (intro inv_intros) simp
  moreover have "same_log db (fold upsert_edge es db)"
    by (simp add: same_log_def fold_frame, simp add: fold_frame upsert_edge_def)
  ultimately show "index_ok env (fst (upsert_edges be ce es db))"
    using ok index_ok_txn [of "\<lambda>db. Inr (fold upsert_edge es db, ())"] by (simp add: upsert_edges_def)
qed

interpretation dims: index_writer env "\<lambda>(be, ce, d) db. if d < 2 ^ 64 then reconcile_embedding_dim env be ce d db else (db, Inr ())" for env
  by unfold_locales (use reconcile_ok [OF surjective_pairing] in \<open>auto split: if_splits\<close>)

interpretation deletes: index_writer env "\<lambda>(be, ce, i). delete_symbol env be ce i" for env
proof (unfold_locales, clarsimp)
  fix be ce i db assume ok: "index_ok env db"
  let ?d = "flag_inbound i (delete_outbound i (delete_vector i (delete_fts i (delete_symbol_row i db))))"
  have inv: "store_inv env db" using ok by (simp add: index_ok_def)
  then have "\<not> vec0_table_present (delete_symbol_row i db) \<or> vec_ext env"
    by (auto simp: store_inv_def vec_ok_def vec0_table_present_def delete_symbol_row_def)
  then have "delete_symbol env be ce i db = with_write_txn be ce (\<lambda>_. Inr (?d, ())) db"
    by (simp add: delete_symbol_def with_write_txn_def Let_def delete_order split: option.split)
  moreover have "store_inv env ?d" by (intro store_inv_flag store_inv_outbound store_inv_remove inv)
  moreover have "same_log db ?d"
    by (simp add: same_log_def log_of_def flag_inbound_def delete_outbound_def delete_vector_def delete_fts_def delete_symbol_row_def)
  ultimately show "index_ok env (fst (delete_symbol env be ce i db))"
    using ok index_ok_txn [of "\<lambda>_. Inr (?d, ())"] by simp
qed

lemma try_replace_ok:
  assumes "try_fold (replace_vector env) rows d = Inr d'" "store_inv env d" "fst ` set rows \<subseteq> fst ` set (db_symbols d)"
  shows "store_inv env d' \<and> sources d' = sources d \<and> log_of d' = log_of d"
proof (rule try_fold_inv [where P = "\<lambda>c. store_inv env c \<and> sources c = sources d \<and> log_of c = log_of d", OF assms(1)])
  show "store_inv env d \<and> sources d = sources d \<and> log_of d = log_of d" using assms(2) by simp
  fix r d1 d2 assume d: "r \<in> set rows" "store_inv env d1 \<and> sources d1 = sources d \<and> log_of d1 = log_of d"
    "replace_vector env r d1 = Inr d2"
  obtain i v where r: "r = (i, v)" by (cases r)
  have "i \<in> fst ` set (db_symbols (delete_vector i d1))"
    using assms(3) d(1,2) r by (force simp: sources_def delete_vector_def)
  then have "store_inv env d2"
    using store_inv_insert_vector [OF store_inv_delete_vector, of env d1 i v i d2] d(2,3) r by (simp add: replace_vector_def)
  then show "store_inv env d2 \<and> sources d2 = sources d \<and> log_of d2 = log_of d"
    using replace_vector_frame [OF d(3)] d(2) by simp
qed

interpretation vectors: index_writer env "\<lambda>(be, ce, rows). upsert_embeddings env be ce rows" for env
proof (unfold_locales, clarsimp)
  fix be ce and rows :: "(string \<times> f32 list) list" and db assume ok: "index_ok env db"
  let ?rows = "filter (\<lambda>r. fst r \<in> set (map fst (db_symbols db))) rows"
  have "index_ok env (fst (with_write_txn be ce (\<lambda>d. and_then (prepare_vec env d)
      (\<lambda>_. and_then (try_fold (replace_vector env) ?rows d) (\<lambda>d. Inr (d, ())))) db))"
  proof (rule index_ok_txn [OF _ ok])
    fix d' and y :: unit
    assume "and_then (prepare_vec env db) (\<lambda>_. and_then (try_fold (replace_vector env) ?rows db) (\<lambda>d. Inr (d, ()))) = Inr (d', y)"
    then have "try_fold (replace_vector env) ?rows db = Inr d'" by (auto simp: and_then_Inr)
    moreover have "fst ` set ?rows \<subseteq> fst ` set (db_symbols db)" by auto
    ultimately have "store_inv env d' \<and> sources d' = sources db \<and> log_of d' = log_of db"
      using ok by (intro try_replace_ok) (simp_all only: index_ok_def)
    then show "store_inv env d' \<and> same_log db d'" by (simp add: same_log_def sources_def)
  qed
  then show "index_ok env (fst (upsert_embeddings env be ce rows db))"
    using ok by (simp add: upsert_embeddings_def)
qed

text \<open>
  The transactions of all processes that write an index, in any interleaving: each is one step, whoever
  issues it and whatever it read before. \<open>drain\<close> and \<open>publish\<close> only write through these.
\<close>

inductive index_step :: "sqlite_env \<Rightarrow> database \<Rightarrow> database \<Rightarrow> bool" for env where
  publication: "publish_with_checkpoints dbg env be ce cp now b db = (db', x) \<Longrightarrow> index_step env db db'"
| queue_stale: "remove_stale_queue_row f i now db = (db', u) \<Longrightarrow> index_step env db db'"
| queue_success: "persist_success env f i vs now db = (db', u) \<Longrightarrow> index_step env db db'"
| queue_failure: "record_failure f ladder row msg now db = (db', u) \<Longrightarrow> index_step env db db'"
| width: "reconcile_embedding_dim env be ce d db = (db', u) \<Longrightarrow> d < 2 ^ 64 \<Longrightarrow> index_step env db db'"
| symbol_rows: "upsert_symbols be ce ss db = (db', u) \<Longrightarrow> index_step env db db'"
| edge_rows: "upsert_edges be ce es db = (db', u) \<Longrightarrow> index_step env db db'"
| vector_rows: "upsert_embeddings env be ce rows db = (db', u) \<Longrightarrow> index_step env db db'"
| symbol_delete: "delete_symbol env be ce i db = (db', u) \<Longrightarrow> index_step env db db'"

lemma index_step_ok: "index_step env db db' \<Longrightarrow> index_ok env db \<Longrightarrow> index_ok env db'"
proof (induction rule: index_step.induct)
  case (publication dbg be ce cp now b db db' x)
  then show ?case using publisher.kept [where a = "(dbg, be, ce, cp, now, b)"] by simp
next
  case (queue_stale f i now db db' u)
  then show ?case using stale.kept [where a = "(f, i, now)"] by simp
next
  case (queue_success f i vs now db db' u)
  then show ?case using success.kept [where a = "(f, i, vs, now)"] by simp
next
  case (queue_failure f ladder row msg now db db' u)
  then show ?case using failure.kept [where a = "(f, ladder, row, msg, now)"] by simp
next
  case (width be ce d db db' u)
  then show ?case using dims.kept [where a = "(be, ce, d)"] by simp
next
  case (symbol_rows be ce ss db db' u)
  then show ?case using symbols.kept [where a = "(be, ce, ss)"] by simp
next
  case (edge_rows be ce es db db' u)
  then show ?case using edges.kept [where a = "(be, ce, es)"] by simp
next
  case (vector_rows be ce rows db db' u)
  then show ?case using vectors.kept [where a = "(be, ce, rows)"] by simp
next
  case (symbol_delete be ce i db db' u)
  then show ?case using deletes.kept [where a = "(be, ce, i)"] by simp
qed

lemma embed_symbol_steps:
  assumes "embed_symbol shown env borrow f s db = (db', x)" "\<And>e. borrow = Some e \<Longrightarrow> embedding_dim e < 2 ^ 64"
  shows "(index_step env)\<^sup>*\<^sup>* db db'"
proof (cases "\<exists>e. borrow = Some e \<and> 0 < embedding_dim e")
  case True
  then obtain e where e: "borrow = Some e" "0 < embedding_dim e" by blast
  obtain d y where r: "reconcile_embedding_dim env (fst f) (snd f) (embedding_dim e) db = (d, y)" by fastforce
  then have "index_step env db d" using assms(2) e(1) by (intro width)
  moreover have "db' = d" using assms(1) e r by (auto simp: embed_symbol_def split: sum.splits if_splits)
  ultimately show ?thesis by simp
next
  case False
  then have "db' = db" using assms(1) by (auto simp: embed_symbol_def split: option.splits sum.splits if_splits)
  then show ?thesis by simp
qed

lemma row_step_steps:
  assumes "row_step en now n row db db'" "\<And>e. dr_borrow en n = Some e \<Longrightarrow> embedding_dim e < 2 ^ 64"
  shows "(index_step (dr_sqlite en))\<^sup>*\<^sup>* db db'"
  using assms(1)
proof cases
  case stale
  then show ?thesis using queue_stale by blast
next
  case failed
  then show ?thesis using embed_symbol_steps assms(2) queue_failure by (metis rtranclp.simps)
next
  case embedded
  then show ?thesis using embed_symbol_steps assms(2) queue_success by (metis rtranclp.simps)
qed

subsection \<open>Properties\<close>

text \<open>
  C9: A drain loses no request, whatever fails in it (the clock, a read, the model, the update that
  reschedules a row, the \<open>BEGIN\<close> or the \<open>COMMIT\<close> of a transaction): with embedders of one dimension, every
  symbol that was queued is afterwards still queued, or has its vector, or is no symbol of the index any
  more. This holds when the drain stops at an error as well, and the index stays consistent.
\<close>

theorem drain_loses_no_request:
  assumes "index_ok (dr_sqlite en) db" "\<And>n e. dr_borrow en n = Some e \<Longrightarrow> embedding_dim e = d" "d < 2 ^ 64"
    and "drain en now budget db = (db', x)" "i \<in> fst ` set (db_queue db)" "i \<in> fst ` set (db_symbols db)"
  shows "index_ok (dr_sqlite en) db' \<and> i \<in> fst ` set (db_symbols db')
    \<and> (i \<in> fst ` set (db_queue db') \<or> i \<in> fst ` set (db_vec db'))"
proof -
  have a: "index_ok (dr_sqlite en) db'" "accounted (dr_sqlite en) d (fst ` set (db_symbols db)) (fst ` set (db_queue db)) db'"
    using drain_accounted [OF assms(4,1) _ assms(3)] assms(2) by blast+
  then have "i \<in> fst ` set (db_symbols db')" using assms(6) by (simp add: accounted_def)
  moreover have "i \<in> fst ` set (db_queue db') \<union> fst ` set (db_vec db')"
    using accounted_kept [OF a(2)] assms(5,6) by blast
  ultimately show ?thesis using a(1) by simp
qed

subsection \<open>The recorded dimension\<close>

text \<open>
  What \<open>reconcile_embedding_dim\<close> takes for the width of the stored vectors. A drain under models of another
  width recreates the vector table at its first success, and then writes the vectors of its own rows only.
\<close>

definition recorded_dim :: "database \<Rightarrow> nat" where
  "recorded_dim db =
     (case Option.bind (map_of (db_meta db) EMBEDDING_DIM_META_KEY) parse_u64 of None \<Rightarrow> DEFAULT_EMBEDDING_DIM | Some d \<Rightarrow> d)"

lemma settled_recorded: "settled env d db \<Longrightarrow> recorded_dim db = d"
  by (simp add: settled_def recorded_dim_def)

lemma recorded_dim_cong: "db_meta db' = db_meta db \<Longrightarrow> recorded_dim db' = recorded_dim db"
  by (simp add: recorded_dim_def)

lemma reconcile_vectors:
  assumes "reconcile_embedding_dim env be ce d db = (db', x)"
  shows "(db' = db \<or> db_vec db' = []) \<and> db_queue db' = db_queue db"
proof -
  have "db' = db \<or> (\<exists>u. with_write_txn be ce (\<lambda>db. and_then
        (recreate_vec_table env (vec_ext env) d
          (db\<lparr>db_meta := bt_insert EMBEDDING_DIM_META_KEY (show_nat d) (db_meta db)\<rparr>))
        (\<lambda>db. Inr (db, ()))) db = (db', u))"
    using assms by (auto simp: reconcile_embedding_dim_def Let_def split: if_splits)
  with with_write_txn_cases show ?thesis
    by (fastforce simp: and_then_Inr recreate_vec_table_def split: if_splits)
qed

lemma embed_vectors:
  assumes "embed_symbol shown env borrow f s db = (db', x)"
  shows "(db' = db \<or> db_vec db' = []) \<and> db_queue db' = db_queue db"
proof (cases "\<exists>e. borrow = Some e \<and> 0 < embedding_dim e")
  case True
  then obtain e where e: "borrow = Some e" "0 < embedding_dim e" by blast
  obtain d y where r: "reconcile_embedding_dim env (fst f) (snd f) (embedding_dim e) db = (d, y)" by fastforce
  have "db' = d" using assms e r by (auto simp: embed_symbol_def split: sum.splits if_splits)
  with reconcile_vectors [OF r] show ?thesis by simp
next
  case False
  with assms show ?thesis by (auto simp: embed_symbol_def split: option.splits sum.splits if_splits)
qed

lemma persist_vectors:
  assumes "persist_success env f i vs now db = (db', x)" "store_inv env db"
  shows "fst ` set (db_vec db') \<subseteq> insert i (fst ` set (db_vec db)) \<and> fst ` set (db_queue db') \<subseteq> fst ` set (db_queue db)"
proof -
  consider "db' = db" | c where "upsert_symbol_vectors env i vs db = Inr c"
      "db' = advance_semantic_if_queue_empty now (delete_queued i c)"
    using with_write_txn_cases [OF assms(1) [unfolded persist_success_def]] by (auto simp: and_then_Inr)
  then show ?thesis
  proof cases
    case 2
    have "fst ` set (db_vec c) \<subseteq> insert i (fst ` set (db_vec db)) \<and> db_queue c = db_queue db"
    proof (cases "map_of (db_symbols db) i = None")
      case True
      with 2(1) show ?thesis by (simp add: upsert_symbol_vectors_def) blast
    next
      case False
      then have "try_fold (\<lambda>v. replace_vector env (i, v)) vs db = Inr c" "i \<in> fst ` set (db_symbols db)"
        using 2(1) by (auto simp: upsert_symbol_vectors_def and_then_Inr map_of_eq_None_iff)
      from replace_vectors [OF this(1) assms(2) this(2)] show ?thesis by (auto simp: sources_def)
    qed
    then show ?thesis unfolding 2(2) advance_fields queue_after_delete delete_queued_fields(3) by auto
  qed auto
qed

lemma stale_vectors:
  assumes "remove_stale_queue_row f i now db = (db', x)"
  shows "db_vec db' = db_vec db \<and> db_meta db' = db_meta db \<and> fst ` set (db_queue db') \<subseteq> fst ` set (db_queue db)"
proof -
  have "db' = db \<or> db' = advance_semantic_if_queue_empty now (delete_queued i db)"
    using with_write_txn_cases assms unfolding remove_stale_queue_row_def by blast
  then show ?thesis by auto
qed

lemma drain_rows_unrecorded:
  assumes "drain_rows en now n rows k db = (db', Inr k')" "index_ok (dr_sqlite en) db"
    and dim: "\<And>n e. dr_borrow en n = Some e \<Longrightarrow> embedding_dim e = d" "0 < d" "d < 2 ^ 64"
    and "recorded_dim db \<noteq> d \<and> k = 0 \<or> fst ` set (db_vec db) \<subseteq> Q" "du_symbol ` set rows \<subseteq> Q"
  shows "(recorded_dim db' \<noteq> d \<and> k' = 0 \<or> fst ` set (db_vec db') \<subseteq> Q) \<and> fst ` set (db_queue db') \<subseteq> fst ` set (db_queue db)"
  using assms(1,2,6,7)
proof (induction rows arbitrary: n k db)
  case (Cons row rows)
  have ok: "dr_read_faults en n = None" using Cons.prems(1) by (simp split: option.splits)
  have lim: "dr_borrow en n = Some e \<Longrightarrow> embedding_dim e < 2 ^ 64" for n e using dim by simp
  have rest: ?case
    if "drain_rows en now (Suc n) rows j c = (db', Inr k')" "index_ok (dr_sqlite en) c"
      "recorded_dim c \<noteq> d \<and> j = 0 \<or> fst ` set (db_vec c) \<subseteq> Q" "fst ` set (db_queue c) \<subseteq> fst ` set (db_queue db)" for j c
  proof -
    have "du_symbol ` set rows \<subseteq> Q" using Cons.prems(4) by simp
    from Cons.IH [OF that(1-3) this] that(4) show ?thesis by (meson order_trans)
  qed
  show ?case
  proof (cases "hydrate_ids db [du_symbol row]")
    case Nil
    obtain c y where r: "remove_stale_queue_row (dr_write_faults en n) (du_symbol row) now db = (c, y)" by fastforce
    then have "drain_rows en now (Suc n) rows k c = (db', Inr k')"
      using Cons.prems(1) ok Nil by (cases y) simp_all
    moreover have "index_ok (dr_sqlite en) c" by (rule index_ok_remove_stale [OF r Cons.prems(2)])
    ultimately show ?thesis
      using rest [of k c] stale_vectors [OF r] Cons.prems(3) recorded_dim_cong [of c db] by auto
  next
    case (Cons s ss)
    note hyd = Cons
    obtain c x where e: "embed_symbol (dr_shown en) (dr_sqlite en) (dr_borrow en n) (dr_embed_faults en n) s db = (c, x)"
      by fastforce
    have c: "index_ok (dr_sqlite en) c" using embed_symbol_ok [OF e Cons.prems(2)] lim by blast
    note ev = embed_vectors [OF e]
    have j: "recorded_dim c \<noteq> d \<and> k = 0 \<or> fst ` set (db_vec c) \<subseteq> Q" using ev Cons.prems(3) by auto
    show ?thesis
    proof (cases x)
      case (Inl msg)
      obtain c' y where p: "record_failure (dr_failure_faults en n) (dr_ladder en) row msg now c = (c', y)" by fastforce
      then have "drain_rows en now (Suc n) rows k c' = (db', Inr k')"
        using Cons.prems(1) ok hyd e Inl by (cases y) simp_all
      moreover have "index_ok (dr_sqlite en) c'" by (rule index_ok_failure [OF p c])
      moreover have "c' = c \<or> c' = reschedule (dr_ladder en) row msg now c" by (rule record_failure_cases [OF p])
      then have "db_vec c' = db_vec c \<and> db_meta c' = db_meta c \<and> fst ` set (db_queue c') = fst ` set (db_queue c)"
        by (elim disjE) (simp_all del: set_map)
      ultimately show ?thesis using rest [of k c'] j ev recorded_dim_cong [of c' c] by auto
    next
      case (Inr vs)
      have "settled (dr_sqlite en) d c"
        using embed_symbol_ok [OF e Cons.prems(2)] lim dim Inr by fastforce
      then have vec: "fst ` set (db_vec c) \<subseteq> Q" using j settled_recorded by blast
      obtain c' y where p: "persist_success (dr_sqlite en) (dr_write_faults en n) (du_symbol row) vs now c = (c', y)"
        by fastforce
      have run: "drain_rows en now (Suc n) rows (k + 1) c' = (db', Inr k')"
        using Cons.prems(1) ok hyd e Inr p by (cases y) simp_all
      have inv: "store_inv (dr_sqlite en) c" using c by (simp add: index_ok_def)
      note pv = persist_vectors [OF p inv]
      have "du_symbol row \<in> Q" using Cons.prems(4) by simp
      then have "fst ` set (db_vec c') \<subseteq> Q" using pv vec by (meson insert_subset order_trans)
      moreover have "fst ` set (db_queue c') \<subseteq> fst ` set (db_queue db)" using pv ev by simp
      ultimately show ?thesis using rest [OF run index_ok_persist [OF p c]] by blast
    qed
  qed
qed simp

lemma due_rows_queued: "du_symbol ` set (due_rows now budget db) \<subseteq> fst ` set (db_queue db)"
  by (force simp: due_rows_def dest!: in_set_takeD)

text \<open>A publication does not record the width of the vectors it writes.\<close>

lemma vector_stage_meta:
  assumes "upsert_vector_space_and_vectors dbg env now b db = Inr db'"
  shows "db_meta db' = db_meta db"
proof -
  let ?rows = "filter (\<lambda>r. map_of (db_symbols db) (fst r) \<noteq> None) (vector_upserts b)"
  let ?P = "\<lambda>d. db_meta d = db_meta db"
  have ins: "?P d2" if "insert_vector env i v d1 = Inr d2" "?P d1" for i v d1 d2
    using that by (auto dest!: insert_vector_Inr)
  have rows: "?P d'" if t: "try_fold (replace_vector env) ?rows d = Inr d'" and d: "?P d" for d d'
    by (rule try_fold_inv [where P = ?P, OF t d]) (auto simp: replace_vector_def delete_vector_def split: prod.splits intro: ins)
  have copy: "?P d'" if t: "try_fold (\<lambda>(i, v). insert_vector env i v) xs d = Inr d'" and d: "?P d" for xs d d'
    by (rule try_fold_inv [where P = ?P, OF t d]) (auto split: prod.splits intro: ins)
  have space: "?P d" if "establish_space env now f db = Inr d" for f d
    using that copy
    by (auto simp: establish_space_def reshape_vectors_def and_then_Inr recreate_vec_table_def Let_def split: if_splits)
  show ?thesis
  proof (cases "?rows = []")
    case True
    with assms show ?thesis by (simp add: upsert_vector_space_and_vectors_def Let_def)
  next
    case False
    then obtain width where "(case first_bad_vector width ?rows of
        Some bad \<Rightarrow> Inl (bad_vector_error dbg width bad)
      | None \<Rightarrow> and_then (case bfingerprint b of None \<Rightarrow> Inr db | Some f \<Rightarrow> establish_space env now f db)
          (\<lambda>db. and_then (prepare_vec env db) (\<lambda>_. try_fold (replace_vector env) ?rows db))) = Inr db'"
      using assms unfolding upsert_vector_space_and_vectors_def Let_def by (simp only: if_False and_then_Inr) blast
    then obtain d where "(case bfingerprint b of None \<Rightarrow> Inr db | Some f \<Rightarrow> establish_space env now f db) = Inr d"
      "try_fold (replace_vector env) ?rows d = Inr db'"
      by (cases "first_bad_vector width ?rows") (auto simp: and_then_Inr)
    with rows space show ?thesis by (auto split: option.splits)
  qed
qed

lemma publish_meta:
  assumes "publish dbg env now b db = (db', Inr r)"
  shows "db_meta db' = db_meta db"
proof -
  let ?up = "fold upsert_edge (edge_upserts b) (fold upsert_symbol (symbol_upserts b) db)"
  obtain r' where "publish_body dbg env (\<lambda>_. None) now b db = Inr (db', r')"
    using assms by (auto simp: publish_body_result split: sum.splits prod.splits)
  then obtain db1 g where st: "upsert_vector_space_and_vectors dbg env now b ?up = Inr db1"
    "db' = batch_logged now b (classify_change db b) g (batch_deleted b (batch_written now b db1))"
    by (rule publish_body_Inr) blast
  have "db_meta db1 = db_meta ?up" by (rule vector_stage_meta [OF st(1)])
  also have "\<dots> = db_meta db" by (simp add: fold_frame upsert_edge_def upsert_symbol_def)
  also have "db_meta (batch_written now b db1) = db_meta db1"
    by (simp add: batch_written_def fold_frame delete_queued_def delete_vector_def delete_edge_def enqueue_symbol_def
        upsert_file_row_def split_def)
  moreover have "db_meta (batch_deleted b d) = db_meta d" for d
    by (simp add: batch_deleted_def delete_file_rows_def delete_file_queue_rows_def fold_frame remove_symbol_def
        delete_symbol_row_def delete_fts_def delete_outbound_def flag_inbound_def delete_vector_def delete_queued_def split_def)
  ultimately show ?thesis by (simp add: st(2) batch_logged_def Let_def)
qed

definition sample_drain :: "embedder option \<Rightarrow> drain_env" where
  "sample_drain e =
     \<lparr>dr_shown = show_error, dr_sqlite = plain_env, dr_ladder = default_embed_backoff_ms, dr_borrow = (\<lambda>_. e), dr_embed_faults = (\<lambda>_. (None, None)),
      dr_write_faults = (\<lambda>_. (None, None)), dr_open_fault = None, dr_read_faults = (\<lambda>_. None), dr_failure_faults = (\<lambda>_. None),
      dr_snapshot_fault = None\<rparr>"

definition queued_store :: database where
  "queued_store =
     (upsert_symbol (sample_symbol ''f'' ''a'') empty_database)
       \<lparr>db_queue := [(''a'', fresh_queue_row 7 ''f'')],
        db_generation := Some \<lparr>source_generation = 1, semantic_generation = 0, gen_updated_at = 7\<rparr>,
        db_batches := [(1, \<lparr>br_committed_at = 7, br_file_count = 1, br_reason = ''initial''\<rparr>)]\<rparr>"

lemma store_inv_queue_table: "store_inv env db \<Longrightarrow> bt_wf q \<Longrightarrow> store_inv env (db\<lparr>db_queue := q\<rparr>)"
  by (simp add: store_inv_def db_ok_def fts_synced_def vec_ok_def)

lemma store_inv_log_tables: "store_inv env (db\<lparr>db_generation := g, db_batches := bs\<rparr>) = store_inv env db"
  by (simp add: store_inv_def db_ok_def fts_synced_def vec_ok_def)

lemma index_ok_queued: "index_ok env queued_store"
proof -
  have "store_inv env queued_store"
    unfolding queued_store_def store_inv_log_tables
    by (intro store_inv_queue_table store_inv_upsert_symbol store_inv_empty) (simp add: bt_wf_def)
  moreover have "log_inv queued_store"
    by (auto simp: log_inv_def queued_store_def upsert_symbol_def empty_database_def bt_wf_def)
  ultimately show ?thesis by (simp add: index_ok_def)
qed

theorem drain_loses_no_request_witness:
  "\<exists>db' x. drain (sample_drain (Some \<lparr>embedding_dim = 2, embed_batch = \<lambda>_. Inr [[1, 0]]\<rparr>)) 9 8 queued_store = (db', x)
    \<and> (''a'' \<in> fst ` set (db_queue db') \<or> ''a'' \<in> fst ` set (db_vec db'))"
proof -
  let ?en = "sample_drain (Some \<lparr>embedding_dim = 2, embed_batch = \<lambda>_. Inr [[1, 0]]\<rparr>)"
  obtain db' x where d: "drain ?en 9 8 queued_store = (db', x)" by fastforce
  have "''a'' \<in> fst ` set (db_queue db') \<or> ''a'' \<in> fst ` set (db_vec db')"
    using drain_loses_no_request [OF index_ok_queued, where d = 2, OF _ _ d, of "''a''"]
    by (simp add: sample_drain_def queued_store_def upsert_symbol_def empty_database_def sample_symbol_def)
  with d show ?thesis by blast
qed

text \<open>
  C2: Every state that any interleaving of the index's writers can commit, starting from a new database,
  is consistent: rows are keyed by their ids, every symbol has exactly its full-text row, vectors
  belong to symbols and fit the vector table, each generation up to the source generation has one log
  entry, and the semantic generation has caught up exactly when no symbol waits for its vector.
\<close>

theorem index_always_consistent:
  assumes "(index_step env)\<^sup>*\<^sup>* empty_database db"
  shows "store_inv env db
    \<and> (\<exists>g. db_generation db = Some g \<and> semantic_generation g \<le> source_generation g
         \<and> (semantic_generation g = source_generation g) = (db_queue db = [])
         \<and> fst ` set (db_batches db) = {1 .. source_generation g})"
proof -
  have "index_ok env db"
    using assms
  proof (induction rule: rtranclp_induct)
    case base
    then show ?case by (simp add: index_ok_def store_inv_empty log_inv_empty)
  next
    case (step d d')
    then show ?case using index_step_ok by blast
  qed
  then show ?thesis by (auto simp: index_ok_def log_inv_def)
qed

theorem index_always_consistent_witness:
  "\<exists>db g. (index_step plain_env)\<^sup>*\<^sup>* empty_database db \<and> db_generation db = Some g
    \<and> (semantic_generation g = source_generation g) = (db_queue db = [])"
proof -
  obtain db x where p: "publish_with_checkpoints id plain_env None None (\<lambda>_. None) 7 sample_batch empty_database = (db, x)"
    by fastforce
  then have "(index_step plain_env)\<^sup>*\<^sup>* empty_database db" using publication by blast
  with index_always_consistent [OF this] show ?thesis by blast
qed

text \<open>
  A drain, also one that stops at an error, is nothing but a sequence of the transactions of the
  index: its writes refine the steps of the writers, one committed transaction at a time.
\<close>

theorem drain_refines_steps:
  assumes "drain en now budget db = (db', x)" "\<And>n e. dr_borrow en n = Some e \<Longrightarrow> embedding_dim e < 2 ^ 64"
  shows "(index_step (dr_sqlite en))\<^sup>*\<^sup>* db db'"
proof -
  have "db' = db \<or> (\<exists>y. drain_rows en now 0 (due_rows now budget db) 0 db = (db', y))"
    using drain_cases [OF assms(1)] by blast
  moreover have "(index_step (dr_sqlite en))\<^sup>*\<^sup>* db d'"
    if "drain_rows en now 0 (due_rows now budget db) 0 db = (d', y)" for d' y
    by (rule drain_rows_inv [OF that, of "(index_step (dr_sqlite en))\<^sup>*\<^sup>* db"])
      (use row_step_steps assms(2) in \<open>blast intro: rtranclp_trans\<close>)+
  ultimately show ?thesis by blast
qed

theorem drain_refines_steps_witness:
  "(index_step (dr_sqlite (sample_drain None)))\<^sup>*\<^sup>* queued_store (fst (drain (sample_drain None) 9 8 queued_store))"
  by (rule drain_refines_steps [OF surjective_pairing]) (simp add: sample_drain_def)










end
