(* ===== verification/Resolver.thy ===== *)
theory Resolver
  imports Store "HOL-Library.AList"
begin

text \<open>
  The resolver (\<open>crates/cognis-indexer/src/resolver.rs\<close>): five heuristics propose edges between the
  symbols of a batch, and the strongest proposal for every pair of symbols and kind is kept. The regular
  expressions over ASCII classes are written out as scanners; those with a Unicode word boundary or
  Unicode white space, and Unicode case mapping, are the fields of the argument \<open>te\<close>. The iteration
  orders of the hash tables are the fields of the argument \<open>ho\<close>.
\<close>

subsection \<open>Text\<close>

record text_env =
  te_lower :: "string \<Rightarrow> string"
  te_ends_lower :: "string \<Rightarrow> bool"
  te_begins_lower :: "string \<Rightarrow> bool"
  te_call_sites :: "string \<Rightarrow> string list"
  te_java_extends :: "string \<Rightarrow> string option"
  te_java_implements :: "string \<Rightarrow> string option"
  te_before_where :: "string \<Rightarrow> string"

text \<open>\<open>str::split\<close> at one character.\<close>

fun split_at_char :: "char \<Rightarrow> string \<Rightarrow> string list" where
  "split_at_char d [] = [[]]"
| "split_at_char d (c # cs) =
     (if c = d then [] # split_at_char d cs
      else case split_at_char d cs of [] \<Rightarrow> [[c]] | s # ss \<Rightarrow> (c # s) # ss)"

text \<open>The string-literal expression: a quote of one of three flavours, with neither it nor a backslash inside.\<close>

definition literal_at :: "string \<Rightarrow> (string \<times> string) option" where
  "literal_at s =
     (case s of
        [] \<Rightarrow> None
      | c # cs \<Rightarrow>
          if c \<in> {CHR 0x22, CHR 0x27, CHR 0x60}
          then (case dropWhile (\<lambda>d. d \<noteq> c \<and> d \<noteq> CHR 0x5C) cs of
                  [] \<Rightarrow> None
                | d # ds \<Rightarrow> if d = c then Some (takeWhile (\<lambda>d. d \<noteq> c \<and> d \<noteq> CHR 0x5C) cs, ds) else None)
          else None)"

lemma length_dropWhile: "length (dropWhile P xs) \<le> length xs"
  by (induction xs) auto

lemma literal_at_shorter: "literal_at (c # cs) = Some (b, r) \<Longrightarrow> length r \<le> length cs"
  using length_dropWhile [of "\<lambda>d. d \<noteq> c \<and> d \<noteq> CHR 0x5C" cs]
  by (auto simp: literal_at_def split: if_splits list.splits)

function string_literals :: "string \<Rightarrow> string list" where
  "string_literals [] = []"
| "string_literals (c # cs) =
     (case literal_at (c # cs) of
        Some (b, rest) \<Rightarrow> b # string_literals rest
      | None \<Rightarrow> string_literals cs)"
  by pat_completeness auto
termination
  by (relation "measure length") (auto dest: literal_at_shorter)

text \<open>\<open>[A-Za-z_][A-Za-z0-9_]*\<close>.\<close>

definition is_ident_start :: "char \<Rightarrow> bool" where
  "is_ident_start c \<longleftrightarrow> c = CHR ''_'' \<or> 65 \<le> (of_char c :: nat) \<and> (of_char c :: nat) \<le> 90
     \<or> 97 \<le> (of_char c :: nat) \<and> (of_char c :: nat) \<le> 122"

definition is_ident_char :: "char \<Rightarrow> bool" where
  "is_ident_char c \<longleftrightarrow> is_ident_start c \<or> is_digit c"

function idents :: "string \<Rightarrow> string list" where
  "idents [] = []"
| "idents (c # cs) =
     (if is_ident_start c then (c # takeWhile is_ident_char cs) # idents (dropWhile is_ident_char cs) else idents cs)"
  by pat_completeness auto
termination
  by (relation "measure length") (auto simp: le_imp_less_Suc length_dropWhile)

text \<open>\<open><[^<>]*>|\([^()]*\)\<close> replaced by a space, once over the text and then until nothing changes.\<close>

definition group_at :: "string \<Rightarrow> string option" where
  "group_at s =
     (case s of
        [] \<Rightarrow> None
      | c # cs \<Rightarrow>
          if c = CHR ''<'' then (case dropWhile (\<lambda>d. d \<noteq> CHR ''<'' \<and> d \<noteq> CHR ''>'') cs of
                                   d # ds \<Rightarrow> if d = CHR ''>'' then Some ds else None | [] \<Rightarrow> None)
          else if c = CHR ''('' then (case dropWhile (\<lambda>d. d \<noteq> CHR ''('' \<and> d \<noteq> CHR '')'') cs of
                                        d # ds \<Rightarrow> if d = CHR '')'' then Some ds else None | [] \<Rightarrow> None)
          else None)"

lemma group_at_shorter: "group_at (c # cs) = Some r \<Longrightarrow> length r < length cs"
  using length_dropWhile [of "\<lambda>d. d \<noteq> CHR ''<'' \<and> d \<noteq> CHR ''>''" cs] length_dropWhile [of "\<lambda>d. d \<noteq> CHR ''('' \<and> d \<noteq> CHR '')''" cs]
  by (auto simp: group_at_def split: if_splits list.splits)

function replace_groups :: "string \<Rightarrow> string" where
  "replace_groups [] = []"
| "replace_groups (c # cs) =
     (case group_at (c # cs) of Some rest \<Rightarrow> CHR '' '' # replace_groups rest | None \<Rightarrow> c # replace_groups cs)"
  by pat_completeness auto
termination
  by (relation "measure length") (auto dest: group_at_shorter)

lemma replace_groups_shorter: "replace_groups s = s \<or> length (replace_groups s) < length s"
proof (induction s rule: replace_groups.induct)
  case (2 c cs)
  show ?case
  proof (cases "group_at (c # cs)")
    case (Some r)
    then have "length (replace_groups r) \<le> length r" using "2.IH"(2) by force
    with Some group_at_shorter [OF Some] show ?thesis by simp
  next
    case None
    with "2.IH"(1) show ?thesis by auto
  qed
qed simp

function strip_groups :: "string \<Rightarrow> string" where
  "strip_groups s = (let t = replace_groups s in if t = s then t else strip_groups t)"
  by pat_completeness auto
termination
  by (relation "measure length") (use replace_groups_shorter in auto)

declare strip_groups.simps [simp del]

definition decl_header :: "string \<Rightarrow> string" where
  "decl_header s = takeWhile (\<lambda>c. c \<noteq> CHR ''{'') s"

definition trailing_name :: "string \<Rightarrow> string option" where
  "trailing_name part = (if idents part = [] then None else Some (last (idents part)))"

text \<open>\<open>normalize_ident\<close>: CamelCase to snake_case.\<close>

definition ident_boundary :: "text_env \<Rightarrow> string \<Rightarrow> string \<Rightarrow> bool" where
  "ident_boundary te prev after =
     (if prev = [] then False
      else if te_ends_lower te prev \<or> is_digit (last prev) then True
      else if 65 \<le> (of_char (last prev) :: nat) \<and> (of_char (last prev) :: nat) \<le> 90 then te_begins_lower te after
      else False)"

fun mark_boundaries :: "text_env \<Rightarrow> string \<Rightarrow> string \<Rightarrow> string" where
  "mark_boundaries te prev [] = []"
| "mark_boundaries te prev (c # cs) =
     (if 65 \<le> (of_char c :: nat) \<and> (of_char c :: nat) \<le> 90
      then (if ident_boundary te prev cs then [CHR ''_''] else []) @ ascii_lower c # mark_boundaries te (prev @ [c]) cs
      else c # mark_boundaries te (prev @ [c]) cs)"

definition normalize_ident :: "text_env \<Rightarrow> string \<Rightarrow> string" where
  "normalize_ident te s =
     join ''_'' (map (te_lower te) (filter (\<lambda>w. w \<noteq> []) (split_at_char (CHR ''_'') (mark_boundaries te [] s))))"


subsection \<open>Proposals and the best of them\<close>

definition CONF_SAME_FILE :: f64 where "CONF_SAME_FILE = 1"
definition CONF_CROSS_MODULE :: f64 where "CONF_CROSS_MODULE = 6/10"
definition CONF_OOP_UNIQUE :: f64 where "CONF_OOP_UNIQUE = 9/10"
definition CONF_OOP_AMBIGUOUS :: f64 where "CONF_OOP_AMBIGUOUS = 5/10"
definition CONF_ROUTES_TO :: f64 where "CONF_ROUTES_TO = 1"
definition CONF_CONFIG_READS :: f64 where "CONF_CONFIG_READS = 7/10"
definition CONF_SQL_EDGE :: f64 where "CONF_SQL_EDGE = 65/100"
definition AMBIGUOUS_THRESHOLD :: f64 where "AMBIGUOUS_THRESHOLD = 6/10"
definition CROSS_FANOUT_CAP :: nat where "CROSS_FANOUT_CAP = 8"

record resolved_edge =
  re_src :: string
  re_dst :: string
  re_kind :: edge_kind
  re_confidence :: f64
  re_ambiguous :: bool

definition resolved_edge_new :: "string \<Rightarrow> string \<Rightarrow> edge_kind \<Rightarrow> f64 \<Rightarrow> resolved_edge" where
  "resolved_edge_new src dst kind conf =
     \<lparr>re_src = src, re_dst = dst, re_kind = kind, re_confidence = conf,
      re_ambiguous = conf < AMBIGUOUS_THRESHOLD\<rparr>"

definition re_key :: "resolved_edge \<Rightarrow> string \<times> string \<times> edge_kind" where
  "re_key e = (re_src e, re_dst e, re_kind e)"

text \<open>The orders in which a hash set of names and the values of a hash map are visited.\<close>

record hash_order =
  ho_names :: "string list \<Rightarrow> string list"
  ho_values :: "resolved_edge list \<Rightarrow> resolved_edge list"

type_synonym best_edges = "((string \<times> string \<times> edge_kind) \<times> resolved_edge) list"

definition upgrade_edge :: "resolved_edge \<Rightarrow> best_edges \<Rightarrow> best_edges" where
  "upgrade_edge e best =
     (if (case map_of best (re_key e) of Some existing \<Rightarrow> re_confidence e > re_confidence existing | None \<Rightarrow> True)
      then AList.update (re_key e) e best else best)"

definition insert_edge :: "resolved_edge \<Rightarrow> best_edges \<Rightarrow> best_edges" where
  "insert_edge e best = (if map_of best (re_key e) = None then AList.update (re_key e) e best else best)"

definition best_values :: "hash_order \<Rightarrow> best_edges \<Rightarrow> resolved_edge list" where
  "best_values ho best = ho_values ho (map snd best)"

definition opt_list :: "'a option \<Rightarrow> 'a list" where
  "opt_list x = (case x of None \<Rightarrow> [] | Some y \<Rightarrow> [y])"

subsection \<open>Calls\<close>

definition stopwords :: "string list" where
  "stopwords =
     [''if'', ''else'', ''for'', ''foreach'', ''while'', ''do'', ''switch'', ''case'', ''catch'', ''try'', ''finally'',
      ''return'', ''throw'', ''throws'', ''new'', ''delete'', ''sizeof'', ''typeof'', ''instanceof'', ''await'',
      ''yield'', ''assert'', ''lock'', ''using'', ''when'', ''with'', ''match'', ''synchronized'', ''super'', ''this'',
      ''self'']"

definition is_stopword :: "string \<Rightarrow> bool" where
  "is_stopword name \<longleftrightarrow> name \<in> set stopwords"

definition is_call_source :: "symbol_kind \<Rightarrow> bool" where
  "is_call_source k \<longleftrightarrow> k = Function \<or> k = Method \<or> k = Route"

definition called_names :: "text_env \<Rightarrow> symbol \<Rightarrow> string list" where
  "called_names te caller =
     (if is_call_source (skind caller) then
        (case body_excerpt caller of
           None \<Rightarrow> []
         | Some text \<Rightarrow> if text = [] then [] else dedup (filter (\<lambda>n. \<not> is_stopword n) (te_call_sites te text)))
      else [])"

definition crosses_to :: "symbol \<Rightarrow> symbol \<Rightarrow> bool" where
  "crosses_to caller c \<longleftrightarrow> sid c \<noteq> sid caller \<and> file_path c \<noteq> file_path caller \<and> language c = language caller"

definition calls_to :: "symbol list \<Rightarrow> symbol \<Rightarrow> string \<Rightarrow> resolved_edge list" where
  "calls_to symbols caller name =
     (let candidates = filter (\<lambda>s. sname s = name) symbols;
          allow_cross = (length (filter (crosses_to caller) candidates) \<le> CROSS_FANOUT_CAP)
      in concat (map (\<lambda>callee.
           if sid callee = sid caller then []
           else if file_path callee = file_path caller
           then [resolved_edge_new (sid caller) (sid callee) Calls CONF_SAME_FILE]
           else if language callee = language caller \<and> allow_cross
           then [resolved_edge_new (sid caller) (sid callee) Calls CONF_CROSS_MODULE]
           else []) candidates))"

definition call_proposals :: "text_env \<Rightarrow> (string list \<Rightarrow> string list) \<Rightarrow> symbol list \<Rightarrow> resolved_edge list" where
  "call_proposals te names symbols =
     concat (map (\<lambda>caller. concat (map (calls_to symbols caller) (names (called_names te caller)))) symbols)"

definition heuristic_resolve :: "text_env \<Rightarrow> hash_order \<Rightarrow> symbol list \<Rightarrow> resolved_edge list" where
  "heuristic_resolve te ho symbols =
     (if symbols = [] then [] else best_values ho (fold upgrade_edge (call_proposals te (ho_names ho) symbols) []))"

subsection \<open>Inheritance\<close>

definition is_type_kind :: "symbol_kind \<Rightarrow> bool" where
  "is_type_kind k \<longleftrightarrow> k = Class \<or> k = Interface"

definition is_oop_language :: "string \<Rightarrow> bool" where
  "is_oop_language l \<longleftrightarrow> l = ''csharp'' \<or> l = ''java''"

datatype base_keyword = Extends | ImplementsKw | Colon

definition bases :: "text_env \<Rightarrow> string \<Rightarrow> string \<Rightarrow> (string \<times> base_keyword) list" where
  "bases te hdr lang =
     (let cleaned = strip_groups hdr;
          named = (\<lambda>kw part. map (\<lambda>n. (n, kw)) (concat (map (\<lambda>p. opt_list (trailing_name p)) (split_at_char (CHR '','') part))))
      in if lang = ''java''
         then concat (map (named Extends) (opt_list (te_java_extends te cleaned)))
              @ concat (map (named ImplementsKw) (opt_list (te_java_implements te cleaned)))
         else (case dropWhile (\<lambda>c. c \<noteq> CHR '':'') cleaned of
                 [] \<Rightarrow> []
               | _ # base_part \<Rightarrow> named Colon (te_before_where te base_part)))"

fun edge_kind_for :: "base_keyword \<Rightarrow> symbol_kind \<Rightarrow> edge_kind" where
  "edge_kind_for Extends k = Inherits"
| "edge_kind_for ImplementsKw k = Implements"
| "edge_kind_for Colon k = (if k = Interface then Implements else Inherits)"

definition oop_edges :: "symbol list \<Rightarrow> symbol \<Rightarrow> string \<times> base_keyword \<Rightarrow> resolved_edge list" where
  "oop_edges symbols s = (\<lambda>(base, kw).
     let candidates = filter (\<lambda>c. is_type_kind (skind c) \<and> sname c = base \<and> sid c \<noteq> sid s) symbols;
         conf = (if length candidates = 1 then CONF_OOP_UNIQUE else CONF_OOP_AMBIGUOUS)
     in map (\<lambda>dst. resolved_edge_new (sid s) (sid dst) (edge_kind_for kw (skind dst)) conf) candidates)"

definition oop_proposals :: "text_env \<Rightarrow> symbol list \<Rightarrow> resolved_edge list" where
  "oop_proposals te symbols =
     concat (map (\<lambda>s.
       if is_oop_language (language s) \<and> is_type_kind (skind s)
       then concat (map (oop_edges symbols s)
              (bases te (decl_header (case body_excerpt s of
                                        Some b \<Rightarrow> b
                                      | None \<Rightarrow> (case signature s of Some g \<Rightarrow> g | None \<Rightarrow> []))) (language s)))
       else []) symbols)"

definition oop_resolve :: "text_env \<Rightarrow> hash_order \<Rightarrow> symbol list \<Rightarrow> resolved_edge list" where
  "oop_resolve te ho symbols =
     (if symbols = [] then [] else best_values ho (fold upgrade_edge (oop_proposals te symbols) []))"


subsection \<open>Integration edges\<close>

definition is_markdown_section :: "symbol \<Rightarrow> bool" where
  "is_markdown_section s \<longleftrightarrow> skind s = Module \<and> language s = ''markdown''"

definition integration_candidates :: "symbol list \<Rightarrow> symbol list" where
  "integration_candidates symbols = filter (\<lambda>s. \<not> is_markdown_section s) symbols"

definition is_artifact_language :: "string \<Rightarrow> bool" where
  "is_artifact_language l \<longleftrightarrow> l \<in> {''yaml'', ''toml'', ''sql'', ''html'', ''markdown''}"

text \<open>The texts a symbol carries, and the literals in them.\<close>

definition symbol_texts :: "symbol \<Rightarrow> string list" where
  "symbol_texts s = opt_list (signature s) @ opt_list (body_excerpt s)"

definition declared_route_literals :: "symbol \<Rightarrow> string list" where
  "declared_route_literals s = dedup (filter (\<lambda>v. starts_with v ''/'') (concat (map string_literals (symbol_texts s))))"

definition all_string_literals :: "symbol \<Rightarrow> string list" where
  "all_string_literals s = dedup (filter (\<lambda>v. v \<noteq> []) (concat (map string_literals (symbol_texts s))))"

definition routes_to_edges :: "symbol list \<Rightarrow> resolved_edge list" where
  "routes_to_edges symbols =
     (let candidates = integration_candidates symbols;
          handlers = (\<lambda>route. filter (\<lambda>h. \<not> is_artifact_language (language h) \<and> route \<in> set (declared_route_literals h)) candidates)
      in concat (map (\<lambda>r.
           if skind r \<noteq> Route \<or> trim (sname r) = [] then []
           else concat (map (\<lambda>h. if sid h = sid r then []
                                 else [resolved_edge_new (sid r) (sid h) RoutesTo CONF_ROUTES_TO]) (handlers (sname r))))
         candidates))"

definition routes_resolve :: "hash_order \<Rightarrow> symbol list \<Rightarrow> resolved_edge list" where
  "routes_resolve ho symbols = best_values ho (fold insert_edge (routes_to_edges symbols) [])"

definition is_config_key :: "symbol \<Rightarrow> bool" where
  "is_config_key s \<longleftrightarrow> (skind s = Var \<or> skind s = Const) \<and> (language s = ''yaml'' \<or> language s = ''toml'')"

definition config_key_literals :: "string \<Rightarrow> string list" where
  "config_key_literals name =
     (let full = trim (join ''.'' (filter (\<lambda>seg. trim seg \<noteq> [])
                   (map (takeWhile (\<lambda>c. c \<noteq> CHR ''['')) (split_at_char (CHR ''.'') name))));
          leaf = trim (last (split_at_char (CHR ''.'') full))
      in if full = [] then [] else dedup (full # (if leaf = [] then [] else [leaf])))"

definition config_reads_edges :: "symbol list \<Rightarrow> resolved_edge list" where
  "config_reads_edges symbols =
     (let candidates = integration_candidates symbols;
          readers = filter (\<lambda>s. \<not> is_artifact_language (language s) \<and> all_string_literals s \<noteq> []) candidates
      in concat (map (\<lambda>k.
           if \<not> is_config_key k \<or> config_key_literals (sname k) = [] then []
           else let matched = filter (\<lambda>r. sid r \<noteq> sid k \<and> (\<exists>l \<in> set (all_string_literals r). l \<in> set (config_key_literals (sname k)))) readers
                in if matched = [] \<or> CROSS_FANOUT_CAP < length matched then []
                   else map (\<lambda>r. resolved_edge_new (sid r) (sid k) Reads CONF_CONFIG_READS) matched)
         candidates))"

definition config_resolve :: "hash_order \<Rightarrow> symbol list \<Rightarrow> resolved_edge list" where
  "config_resolve ho symbols = best_values ho (fold insert_edge (config_reads_edges symbols) [])"

subsection \<open>SQL edges\<close>

definition is_sql_write_verb :: "string \<Rightarrow> bool" where
  "is_sql_write_verb u \<longleftrightarrow> u \<in> {''INSERT'', ''UPDATE'', ''DELETE'', ''UPSERT'', ''MERGE'', ''REPLACE''}"

definition is_sql_read_verb :: "string \<Rightarrow> bool" where
  "is_sql_read_verb u \<longleftrightarrow> u = ''SELECT''"

definition site_text :: "symbol \<Rightarrow> string" where
  "site_text s =
     (case signature s of None \<Rightarrow> [] | Some t \<Rightarrow> t @ '' '') @ (case body_excerpt s of None \<Rightarrow> [] | Some b \<Rightarrow> b)"

definition query_kind :: "symbol \<Rightarrow> edge_kind option" where
  "query_kind s =
     (let verbs = map to_ascii_uppercase (idents (site_text s))
      in if list_ex is_sql_write_verb verbs then Some Writes
         else if list_ex is_sql_read_verb verbs then Some Reads else None)"

definition norm_tokens :: "text_env \<Rightarrow> symbol \<Rightarrow> string list" where
  "norm_tokens te s =
     dedup (filter (\<lambda>n. n \<noteq> []) (map (normalize_ident te) (idents (site_text s) @ [sname s])))"

definition sql_edges :: "text_env \<Rightarrow> (string list \<Rightarrow> string list) \<Rightarrow> symbol list \<Rightarrow> resolved_edge list" where
  "sql_edges te names symbols =
     (let candidates = integration_candidates symbols;
          tables = (\<lambda>n. filter (\<lambda>t. language t = ''sql'' \<and> (skind t = Class \<or> skind t = Var) \<and> normalize_ident te (sname t) = n) candidates)
      in concat (map (\<lambda>site.
           if is_artifact_language (language site) then []
           else (case query_kind site of
                   None \<Rightarrow> []
                 | Some k \<Rightarrow>
                     concat (map (\<lambda>n. concat (map (\<lambda>t. if sid t = sid site then []
                                                         else [resolved_edge_new (sid site) (sid t) k CONF_SQL_EDGE]) (tables n)))
                       (names (norm_tokens te site)))))
         candidates))"

definition sql_resolve :: "text_env \<Rightarrow> hash_order \<Rightarrow> symbol list \<Rightarrow> resolved_edge list" where
  "sql_resolve te ho symbols = best_values ho (fold insert_edge (sql_edges te (ho_names ho) symbols) [])"

subsection \<open>All resolvers\<close>

definition all_resolved :: "text_env \<Rightarrow> hash_order \<Rightarrow> symbol list \<Rightarrow> resolved_edge list" where
  "all_resolved te ho symbols =
     heuristic_resolve te ho symbols @ oop_resolve te ho symbols @ routes_resolve ho symbols
       @ config_resolve ho symbols @ sql_resolve te ho symbols"

definition resolve_edges :: "text_env \<Rightarrow> hash_order \<Rightarrow> symbol list \<Rightarrow> resolved_edge list" where
  "resolve_edges te ho symbols =
     sort_key (\<lambda>e. (re_src e, re_dst e, edge_kind_db (re_kind e)))
       (best_values ho (fold upgrade_edge (all_resolved te ho symbols) []))"

definition to_edge :: "resolved_edge \<Rightarrow> edge" where
  "to_edge e =
     \<lparr>src_id = re_src e, dst_id = re_dst e, ekind = re_kind e, confidence = re_confidence e,
      meta = (if re_ambiguous e then JObj [(''ambiguous'', JBool True)] else JNull)\<rparr>"

definition to_edges :: "resolved_edge list \<Rightarrow> edge list" where
  "to_edges es = map to_edge es"


subsection \<open>Keeping the strongest proposals\<close>

text \<open>Made by \<open>ResolvedEdge::new\<close>, so that key and confidence determine the edge.\<close>

definition made :: "resolved_edge \<Rightarrow> bool" where
  "made e \<longleftrightarrow> e = resolved_edge_new (re_src e) (re_dst e) (re_kind e) (re_confidence e)"

lemma resolved_edge_new_simps [simp]:
  "re_src (resolved_edge_new s d k c) = s" "re_dst (resolved_edge_new s d k c) = d"
  "re_kind (resolved_edge_new s d k c) = k" "re_confidence (resolved_edge_new s d k c) = c"
  "re_ambiguous (resolved_edge_new s d k c) = (c < AMBIGUOUS_THRESHOLD)"
  "re_key (resolved_edge_new s d k c) = (s, d, k)" "made (resolved_edge_new s d k c)"
  by (simp_all add: resolved_edge_new_def re_key_def made_def)

lemma made_eqI: "made e \<Longrightarrow> made e' \<Longrightarrow> re_key e = re_key e' \<Longrightarrow> re_confidence e = re_confidence e' \<Longrightarrow> e = e'"
  by (metis made_def prod.inject re_key_def)

definition strongest :: "resolved_edge set \<Rightarrow> resolved_edge set" where
  "strongest E = {e \<in> E. \<forall>e' \<in> E. re_key e' = re_key e \<longrightarrow> re_confidence e' \<le> re_confidence e}"

lemma strongest_exists: "finite E \<Longrightarrow> e \<in> E \<Longrightarrow> \<exists>e' \<in> strongest E. re_key e' = re_key e \<and> re_confidence e \<le> re_confidence e'"
proof -
  assume E: "finite E" "e \<in> E"
  let ?K = "{e' \<in> E. re_key e' = re_key e}"
  have "finite (re_confidence ` ?K)" "re_confidence ` ?K \<noteq> {}" using E by auto
  from Max_in [OF this] obtain m where m: "m \<in> ?K" "re_confidence m = Max (re_confidence ` ?K)" by auto
  have "re_confidence e' \<le> re_confidence m" if "e' \<in> ?K" for e'
    using that E(1) m(2) by (simp add: Max_ge)
  with m(1) E(2) show ?thesis by (force simp: strongest_def)
qed

text \<open>Taking the strongest of parts first changes nothing.\<close>

lemma strongest_union:
  assumes "finite A" "finite B"
  shows "strongest (strongest A \<union> B) = strongest (A \<union> B)"
proof
  show "strongest (strongest A \<union> B) \<subseteq> strongest (A \<union> B)"
  proof
    fix e assume e: "e \<in> strongest (strongest A \<union> B)"
    have "re_confidence e' \<le> re_confidence e" if "e' \<in> A \<union> B" "re_key e' = re_key e" for e'
    proof (cases "e' \<in> A")
      case True
      from strongest_exists [OF assms(1) True] obtain m where "m \<in> strongest A" "re_key m = re_key e'" "re_confidence e' \<le> re_confidence m"
        by blast
      with e that(2) show ?thesis by (fastforce simp: strongest_def)
    qed (use e that in \<open>auto simp: strongest_def\<close>)
    with e show "e \<in> strongest (A \<union> B)" by (auto simp: strongest_def)
  qed
  show "strongest (A \<union> B) \<subseteq> strongest (strongest A \<union> B)" by (auto simp: strongest_def)
qed

text \<open>The map of the best edges after the proposals \<open>E\<close>.\<close>

definition best_of :: "resolved_edge set \<Rightarrow> best_edges \<Rightarrow> bool" where
  "best_of E best \<longleftrightarrow> distinct (map fst best) \<and> (\<forall>(k, e) \<in> set best. re_key e = k) \<and> snd ` set best = strongest E"

lemma best_of_Nil: "best_of {} []"
  by (simp add: best_of_def strongest_def)

lemma best_of_lookup:
  assumes "best_of E best" "finite E"
  shows "map_of best k = None \<longleftrightarrow> k \<notin> re_key ` E" "map_of best k = Some e \<Longrightarrow> e \<in> strongest E \<and> re_key e = k"
proof -
  have ks: "fst ` set best = re_key ` strongest E"
    using assms(1) by (force simp: best_of_def)
  have "re_key ` strongest E = re_key ` E"
  proof
    show "re_key ` E \<subseteq> re_key ` strongest E"
    proof
      fix k assume "k \<in> re_key ` E"
      then obtain e where "e \<in> E" "k = re_key e" by blast
      with strongest_exists [OF assms(2)] show "k \<in> re_key ` strongest E" by (metis imageI)
    qed
  qed (auto simp: strongest_def)
  with ks show "map_of best k = None \<longleftrightarrow> k \<notin> re_key ` E" by (simp add: map_of_eq_None_iff)
  show "map_of best k = Some e \<Longrightarrow> e \<in> strongest E \<and> re_key e = k"
    using assms(1) by (force simp: best_of_def dest!: map_of_SomeD)
qed

lemma set_update: "distinct (map fst m) \<Longrightarrow> set (AList.update k v m) = insert (k, v) {r \<in> set m. fst r \<noteq> k}"
  by (induction m) (auto simp: image_iff)

lemma best_of_update:
  assumes "best_of E best" "strongest (insert e E) = insert e {x \<in> strongest E. re_key x \<noteq> re_key e}"
  shows "best_of (insert e E) (AList.update (re_key e) e best)"
proof -
  have d: "distinct (map fst best)" and k: "\<forall>(k, e) \<in> set best. re_key e = k" and s: "snd ` set best = strongest E"
    using assms(1) by (simp_all add: best_of_def)
  have "snd ` {r \<in> set best. fst r \<noteq> re_key e} = {x \<in> strongest E. re_key x \<noteq> re_key e}"
    unfolding s [symmetric] using k by force
  then show ?thesis
    using d k assms(2) by (auto simp: best_of_def set_update distinct_update)
qed

lemma best_of_upgrade:
  assumes "best_of E best" "finite E" "\<forall>x \<in> E. made x" "made e"
  shows "best_of (insert e E) (upgrade_edge e best)"
proof (cases "map_of best (re_key e)")
  case None
  then have "re_key e \<notin> re_key ` E" using best_of_lookup(1) [OF assms(1,2)] by simp
  then have "\<forall>x \<in> E. re_key x \<noteq> re_key e" by (metis imageI)
  then have "strongest (insert e E) = insert e {x \<in> strongest E. re_key x \<noteq> re_key e}"
    unfolding strongest_def by (intro set_eqI iffI) auto
  with None best_of_update [OF assms(1)] show ?thesis by (simp add: upgrade_edge_def)
next
  case (Some x)
  have x: "x \<in> strongest E" "re_key x = re_key e" using best_of_lookup(2) [OF assms(1,2) Some] by simp_all
  show ?thesis
  proof (cases "re_confidence e > re_confidence x")
    case True
    have below: "re_confidence y < re_confidence e" if "y \<in> E" "re_key y = re_key e" for y
      using x that True by (fastforce simp: strongest_def)
    then have "re_confidence y \<le> re_confidence e" "\<not> re_confidence e \<le> re_confidence y"
      if "y \<in> E" "re_key y = re_key e" for y using that by force+
    then have "strongest (insert e E) = insert e {x \<in> strongest E. re_key x \<noteq> re_key e}"
      unfolding strongest_def by (intro set_eqI iffI) auto
    with Some True best_of_update [OF assms(1)] show ?thesis by (simp add: upgrade_edge_def)
  next
    case False
    have "e \<in> strongest (insert e E) \<Longrightarrow> e = x"
      using x False assms(3,4) by (intro made_eqI) (auto simp: strongest_def intro: antisym)
    then have "strongest (insert e E) = strongest E"
      using x False by (auto simp: strongest_def intro: order_trans)
    with Some False assms(1) show ?thesis by (simp add: upgrade_edge_def best_of_def)
  qed
qed

lemma best_of_fold:
  assumes "\<forall>e \<in> set es. made e"
  shows "best_of (set es) (fold upgrade_edge es [])"
  using assms
proof (induction es rule: rev_induct)
  case (snoc e es)
  then have "best_of (insert e (set es)) (upgrade_edge e (fold upgrade_edge es []))"
    by (intro best_of_upgrade) simp_all
  then show ?case by simp
qed (simp add: best_of_Nil)

text \<open>With one confidence the first proposal of a key is the strongest.\<close>

lemma insert_is_upgrade:
  assumes "\<forall>e \<in> set es. made e \<and> re_confidence e = c"
  shows "fold insert_edge es [] = fold upgrade_edge es []"
  using assms
proof (induction es rule: rev_induct)
  case (snoc e es)
  let ?best = "fold upgrade_edge es []"
  have "best_of (set es) ?best" by (rule best_of_fold) (use snoc.prems in simp)
  then have "re_confidence x = c" if "map_of ?best (re_key e) = Some x" for x
    using best_of_lookup(2) [OF _ _ that] snoc.prems by (fastforce simp: strongest_def)
  then have "insert_edge e ?best = upgrade_edge e ?best"
    using snoc.prems by (auto simp: insert_edge_def upgrade_edge_def split: option.split)
  with snoc show ?case by simp
qed simp

definition permutes :: "hash_order \<Rightarrow> bool" where
  "permutes ho \<longleftrightarrow> (\<forall>xs. set (ho_names ho xs) = set xs) \<and> (\<forall>es. mset (ho_values ho es) = mset es)"

lemma set_best_values:
  assumes "permutes ho" "\<forall>e \<in> set es. made e"
  shows "set (best_values ho (fold upgrade_edge es [])) = strongest (set es)"
proof -
  have "set (ho_values ho (map snd (fold upgrade_edge es []))) = set (map snd (fold upgrade_edge es []))"
    using assms(1) by (metis permutes_def set_mset_mset)
  with best_of_fold [OF assms(2)] show ?thesis by (simp add: best_values_def best_of_def)
qed

text \<open>What the five resolvers propose.\<close>

definition proposals :: "text_env \<Rightarrow> symbol list \<Rightarrow> resolved_edge list" where
  "proposals te symbols =
     call_proposals te id symbols @ oop_proposals te symbols @ routes_to_edges symbols @ config_reads_edges symbols
       @ sql_edges te id symbols"

lemma made_proposals:
  "e \<in> set (call_proposals te names symbols) \<Longrightarrow> made e"
  "e \<in> set (oop_proposals te symbols) \<Longrightarrow> made e"
  "e \<in> set (routes_to_edges symbols) \<Longrightarrow> made e \<and> re_confidence e = CONF_ROUTES_TO"
  "e \<in> set (config_reads_edges symbols) \<Longrightarrow> made e \<and> re_confidence e = CONF_CONFIG_READS"
  "e \<in> set (sql_edges te names symbols) \<Longrightarrow> made e \<and> re_confidence e = CONF_SQL_EDGE"
  by (auto simp: call_proposals_def calls_to_def oop_proposals_def oop_edges_def routes_to_edges_def config_reads_edges_def
      sql_edges_def Let_def split: if_splits option.splits)

lemma set_resolvers:
  assumes "permutes ho"
  shows "set (heuristic_resolve te ho symbols) = strongest (set (call_proposals te id symbols))"
    "set (oop_resolve te ho symbols) = strongest (set (oop_proposals te symbols))"
    "set (routes_resolve ho symbols) = strongest (set (routes_to_edges symbols))"
    "set (config_resolve ho symbols) = strongest (set (config_reads_edges symbols))"
    "set (sql_resolve te ho symbols) = strongest (set (sql_edges te id symbols))"
proof -
  have names: "set (ho_names ho xs) = set xs" for xs using assms by (simp add: permutes_def)
  have empty: "strongest {} = {}" by (simp add: strongest_def)
  have "set (call_proposals te (ho_names ho) symbols) = set (call_proposals te id symbols)"
    by (simp add: call_proposals_def names)
  then show "set (heuristic_resolve te ho symbols) = strongest (set (call_proposals te id symbols))"
    using set_best_values [OF assms, of "call_proposals te (ho_names ho) symbols"] made_proposals(1)
    by (auto simp: heuristic_resolve_def call_proposals_def empty)
  show "set (oop_resolve te ho symbols) = strongest (set (oop_proposals te symbols))"
    using set_best_values [OF assms, of "oop_proposals te symbols"] made_proposals(2)
    by (auto simp: oop_resolve_def oop_proposals_def empty)
  show "set (routes_resolve ho symbols) = strongest (set (routes_to_edges symbols))"
    using set_best_values [OF assms, of "routes_to_edges symbols"] made_proposals(3)
      insert_is_upgrade [of "routes_to_edges symbols" CONF_ROUTES_TO] by (simp add: routes_resolve_def)
  show "set (config_resolve ho symbols) = strongest (set (config_reads_edges symbols))"
    using set_best_values [OF assms, of "config_reads_edges symbols"] made_proposals(4)
      insert_is_upgrade [of "config_reads_edges symbols" CONF_CONFIG_READS] by (simp add: config_resolve_def)
  have "set (sql_edges te (ho_names ho) symbols) = set (sql_edges te id symbols)"
    by (simp add: sql_edges_def names Let_def cong: option.case_cong)
  then show "set (sql_resolve te ho symbols) = strongest (set (sql_edges te id symbols))"
    using set_best_values [OF assms, of "sql_edges te (ho_names ho) symbols"] made_proposals(5)
      insert_is_upgrade [of "sql_edges te (ho_names ho) symbols" CONF_SQL_EDGE] by (simp add: sql_resolve_def)
qed

lemma strongest_unions:
  assumes "\<forall>A \<in> set As. finite A" "finite B"
  shows "strongest (\<Union> (strongest ` set As) \<union> B) = strongest (\<Union> (set As) \<union> B)"
  using assms
proof (induction As arbitrary: B)
  case (Cons A As)
  have fin: "finite (strongest A)" using Cons.prems by (simp add: strongest_def)
  have "strongest (\<Union> (strongest ` set (A # As)) \<union> B) = strongest (\<Union> (strongest ` set As) \<union> (strongest A \<union> B))"
    by (simp add: Un_ac)
  also have "\<dots> = strongest (\<Union> (set As) \<union> (strongest A \<union> B))" using Cons fin by simp
  also have "\<dots> = strongest (strongest A \<union> (\<Union> (set As) \<union> B))" by (simp add: Un_ac)
  also have "\<dots> = strongest (A \<union> (\<Union> (set As) \<union> B))" by (rule strongest_union) (use Cons.prems in auto)
  finally show ?case by (simp add: Un_ac)
qed simp

definition edge_order :: "resolved_edge \<Rightarrow> string \<times> string \<times> string" where
  "edge_order e = (re_src e, re_dst e, edge_kind_db (re_kind e))"

lemma edge_order_key: "edge_order e = edge_order e' \<longleftrightarrow> re_key e = re_key e'"
proof -
  have "inj edge_kind_db" by (rule injI) (rename_tac k k', case_tac k; case_tac k'; simp)
  then show ?thesis by (auto simp: edge_order_def re_key_def dest: injD)
qed

definition insertion_order :: hash_order where
  "insertion_order = \<lparr>ho_names = id, ho_values = id\<rparr>"

lemma all_resolved_set:
  assumes "permutes ho"
  shows "strongest (set (all_resolved te ho symbols)) = strongest (set (proposals te symbols))"
    "\<forall>e \<in> set (all_resolved te ho symbols). made e"
proof -
  let ?As = "[set (call_proposals te id symbols), set (oop_proposals te symbols), set (routes_to_edges symbols),
      set (config_reads_edges symbols), set (sql_edges te id symbols)]"
  have rs: "set (all_resolved te ho symbols) = \<Union> (strongest ` set ?As)"
    using set_resolvers [OF assms] by (simp add: all_resolved_def)
  show "\<forall>e \<in> set (all_resolved te ho symbols). made e"
    unfolding rs using made_proposals by (fastforce simp: strongest_def)
  have "strongest (set (all_resolved te ho symbols)) = strongest (\<Union> (set ?As) \<union> {})"
    unfolding rs using strongest_unions [of ?As "{}"] by simp
  then show "strongest (set (all_resolved te ho symbols)) = strongest (set (proposals te symbols))"
    by (simp add: proposals_def Un_assoc)
qed

lemma resolved_set:
  assumes "permutes ho"
  shows "set (resolve_edges te ho symbols) = strongest (set (proposals te symbols))"
  using set_best_values [OF assms all_resolved_set(2) [OF assms]] all_resolved_set(1) [OF assms]
  by (simp add: resolve_edges_def)

lemma resolved_sorted:
  assumes "permutes ho"
  shows "sorted_wrt (\<lambda>e e'. edge_order e < edge_order e') (resolve_edges te ho symbols)"
proof -
  let ?best = "fold upgrade_edge (all_resolved te ho symbols) []"
  have best: "best_of (set (all_resolved te ho symbols)) ?best"
    by (rule best_of_fold [OF all_resolved_set(2) [OF assms]])
  then have "map fst ?best = map re_key (map snd ?best)" by (auto simp: best_of_def)
  with best have "distinct (map re_key (map snd ?best))" by (simp add: best_of_def)
  then have "distinct (map edge_order (map snd ?best))"
    by (simp add: distinct_conv_nth edge_order_key)
  moreover have "mset (map edge_order (resolve_edges te ho symbols)) = mset (map edge_order (map snd ?best))"
    using assms by (simp add: resolve_edges_def best_values_def permutes_def multiset.map_comp)
  ultimately have "distinct (map edge_order (resolve_edges te ho symbols))" by (metis mset_eq_imp_distinct_iff)
  moreover have "sorted (map edge_order (resolve_edges te ho symbols))"
    by (simp add: resolve_edges_def edge_order_def [abs_def])
  ultimately show ?thesis by (metis sorted_wrt_map strict_sorted_iff)
qed

lemma resolved_deterministic:
  assumes "permutes ho"
  shows "resolve_edges te ho symbols = resolve_edges te insertion_order symbols"
proof -
  have i: "permutes insertion_order" by (simp add: permutes_def insertion_order_def)
  have "bt_wf (map (\<lambda>e. (edge_order e, e)) (resolve_edges te h symbols))" if "permutes h" for h
    using resolved_sorted [OF that, of te symbols] by (simp add: bt_wf_def o_def sorted_wrt_map)
  then have "map (\<lambda>e. (edge_order e, e)) (resolve_edges te ho symbols)
      = map (\<lambda>e. (edge_order e, e)) (resolve_edges te insertion_order symbols)"
    using assms i resolved_set by (intro bt_set_eqI) auto
  then have "map snd (map (\<lambda>e. (edge_order e, e)) (resolve_edges te ho symbols))
      = map snd (map (\<lambda>e. (edge_order e, e)) (resolve_edges te insertion_order symbols))"
    by (rule arg_cong)
  then show ?thesis by (simp add: o_def)
qed


subsection \<open>Sound endpoints\<close>

definition confidence_tiers :: "f64 set" where
  "confidence_tiers = {CONF_SAME_FILE, CONF_CROSS_MODULE, CONF_OOP_UNIQUE, CONF_OOP_AMBIGUOUS, CONF_ROUTES_TO,
     CONF_CONFIG_READS, CONF_SQL_EDGE}"

text \<open>An edge between two different symbols of the batch; an integration edge touches no Markdown section.\<close>

definition sound_edge :: "symbol list \<Rightarrow> resolved_edge \<Rightarrow> bool" where
  "sound_edge symbols e \<longleftrightarrow> re_src e \<noteq> re_dst e \<and> re_confidence e \<in> confidence_tiers \<and> made e
     \<and> (\<exists>s \<in> set symbols. \<exists>d \<in> set symbols. sid s = re_src e \<and> sid d = re_dst e
          \<and> (re_kind e \<in> {RoutesTo, Reads, Writes} \<longrightarrow> \<not> is_markdown_section s \<and> \<not> is_markdown_section d))"

lemma sound_new:
  assumes "s \<in> set symbols" "d \<in> set symbols" "sid s \<noteq> sid d" "c \<in> confidence_tiers"
    and "k \<in> {RoutesTo, Reads, Writes} \<Longrightarrow> \<not> is_markdown_section s \<and> \<not> is_markdown_section d"
  shows "sound_edge symbols (resolved_edge_new (sid s) (sid d) k c)"
  unfolding sound_edge_def using assms by auto

lemma query_kind_cases: "query_kind s = Some k \<Longrightarrow> k = Reads \<or> k = Writes"
  by (auto simp: query_kind_def Let_def split: if_splits)

lemma edge_kind_for_types: "edge_kind_for kw k \<notin> {RoutesTo, Reads, Writes}"
  by (cases kw) auto

lemma sound_proposals:
  assumes "e \<in> set (proposals te symbols)"
  shows "sound_edge symbols e"
proof -
  have tiers: "CONF_SAME_FILE \<in> confidence_tiers" "CONF_CROSS_MODULE \<in> confidence_tiers" "CONF_OOP_UNIQUE \<in> confidence_tiers"
    "CONF_OOP_AMBIGUOUS \<in> confidence_tiers" "CONF_ROUTES_TO \<in> confidence_tiers" "CONF_CONFIG_READS \<in> confidence_tiers"
    "CONF_SQL_EDGE \<in> confidence_tiers"
    by (simp_all add: confidence_tiers_def)
  consider "e \<in> set (call_proposals te id symbols)" | "e \<in> set (oop_proposals te symbols)" | "e \<in> set (routes_to_edges symbols)"
    | "e \<in> set (config_reads_edges symbols)" | "e \<in> set (sql_edges te id symbols)"
    using assms by (auto simp: proposals_def)
  then show ?thesis
  proof cases
    case 1
    then show ?thesis
      using tiers by (auto simp: call_proposals_def calls_to_def Let_def intro!: sound_new split: if_splits)
  next
    case 2
    then show ?thesis
      using tiers edge_kind_for_types by (auto simp: oop_proposals_def oop_edges_def Let_def intro!: sound_new split: if_splits)
  next
    case 3
    then show ?thesis
      using tiers by (auto simp: routes_to_edges_def integration_candidates_def Let_def intro!: sound_new split: if_splits)
  next
    case 4
    then show ?thesis
      using tiers by (auto simp: config_reads_edges_def integration_candidates_def Let_def intro!: sound_new split: if_splits)
  next
    case 5
    then show ?thesis
      using tiers by (auto simp: sql_edges_def integration_candidates_def Let_def intro!: sound_new split: if_splits option.splits)
  qed
qed


subsection \<open>Normal forms of identifiers\<close>

lemma split_at_char_no_sep: "w \<in> set (split_at_char d s) \<Longrightarrow> d \<notin> set w"
  by (induction d s arbitrary: w rule: split_at_char.induct) (auto split: if_splits list.splits)

lemma split_at_char_prefix: "d \<notin> set x \<Longrightarrow> split_at_char d (x @ d # r) = x # split_at_char d r"
  by (induction x) auto

lemma split_at_char_none: "d \<notin> set x \<Longrightarrow> split_at_char d x = [x]"
  by (induction x) auto

lemma split_at_char_join: "xs \<noteq> [] \<Longrightarrow> \<forall>x \<in> set xs. d \<notin> set x \<Longrightarrow> split_at_char d (join [d] xs) = xs"
  by (induction "[d]" xs rule: join.induct) (auto simp: split_at_char_prefix split_at_char_none)

definition has_upper :: "string \<Rightarrow> bool" where
  "has_upper s \<longleftrightarrow> (\<exists>c \<in> set s. 65 \<le> (of_char c :: nat) \<and> (of_char c :: nat) \<le> 90)"

lemma mark_boundaries_lower: "\<not> has_upper s \<Longrightarrow> mark_boundaries te prev s = s"
  by (induction te prev s rule: mark_boundaries.induct) (auto simp: has_upper_def)

text \<open>What \<open>str::to_lowercase\<close> is documented to do with the words of an identifier.\<close>

locale lowercasing =
  fixes lower :: "string \<Rightarrow> string"
  assumes lower_idem: "lower (lower w) = lower w"
    and lower_no_upper: "\<not> has_upper (lower w)"
    and lower_word: "CHR ''_'' \<notin> set w \<Longrightarrow> CHR ''_'' \<notin> set (lower w)"
    and lower_nonempty: "w \<noteq> [] \<Longrightarrow> lower w \<noteq> []"
begin

lemma join_no_upper: "\<forall>w \<in> set ws. \<not> has_upper w \<Longrightarrow> \<not> has_upper (join ''_'' ws)"
  by (induction "''_''" ws rule: join.induct) (auto simp: has_upper_def)

lemma normal_form:
  assumes "te_lower te = lower"
  shows "normalize_ident te (normalize_ident te s) = normalize_ident te s"
proof -
  let ?ws = "map lower (filter (\<lambda>w. w \<noteq> []) (split_at_char (CHR ''_'') (mark_boundaries te [] s)))"
  have ws: "\<forall>w \<in> set ?ws. CHR ''_'' \<notin> set w \<and> w \<noteq> [] \<and> \<not> has_upper w \<and> lower w = w"
    using split_at_char_no_sep lower_word lower_nonempty lower_no_upper lower_idem by fastforce
  have n: "normalize_ident te s = join ''_'' ?ws" by (simp add: normalize_ident_def assms)
  have "mark_boundaries te [] (join ''_'' ?ws) = join ''_'' ?ws"
    using ws by (intro mark_boundaries_lower join_no_upper) blast
  moreover have "filter (\<lambda>w. w \<noteq> []) (split_at_char (CHR ''_'') (join ''_'' ?ws)) = ?ws"
  proof (cases "?ws = []")
    case False
    with ws have "split_at_char (CHR ''_'') (join ''_'' ?ws) = ?ws" by (intro split_at_char_join) blast+
    moreover have "filter (\<lambda>w. w \<noteq> []) ?ws = ?ws" using ws by (intro filter_True) blast
    ultimately show ?thesis by simp
  qed simp
  moreover have "map lower ?ws = ?ws" using ws by (intro map_idI) blast
  ultimately have "normalize_ident te (join ''_'' ?ws) = join ''_'' ?ws"
    by (simp only: normalize_ident_def assms)
  with n show ?thesis by simp
qed

end

lemma ascii_lower_upper: "\<not> (65 \<le> (of_char (ascii_lower c) :: nat) \<and> (of_char (ascii_lower c) :: nat) \<le> 90)"
  by (simp add: ascii_lower_def)

interpretation ascii: lowercasing to_ascii_lowercase
proof
  fix w
  show "to_ascii_lowercase (to_ascii_lowercase w) = to_ascii_lowercase w" by simp
  show "\<not> has_upper (to_ascii_lowercase w)"
    using ascii_lower_upper by (auto simp: has_upper_def to_ascii_lowercase_def)
  have under: "c = CHR ''_''" if eq: "ascii_lower c = CHR ''_''" for c
  proof (cases "65 \<le> (of_char c :: nat) \<and> (of_char c :: nat) \<le> 90")
    case True
    then have "(of_char (ascii_lower c) :: nat) = of_char c + 32" by (simp add: ascii_lower_def)
    with True eq show ?thesis by simp
  next
    case False
    with eq show ?thesis by (simp only: ascii_lower_def if_False)
  qed
  show "CHR ''_'' \<notin> set w \<Longrightarrow> CHR ''_'' \<notin> set (to_ascii_lowercase w)"
  proof -
    assume w: "CHR ''_'' \<notin> set w"
    show "CHR ''_'' \<notin> set (to_ascii_lowercase w)"
    proof
      assume "CHR ''_'' \<in> set (to_ascii_lowercase w)"
      then obtain c where "c \<in> set w" "ascii_lower c = CHR ''_''" by (auto simp: to_ascii_lowercase_def)
      with under w show False by blast
    qed
  qed
  show "w \<noteq> [] \<Longrightarrow> to_ascii_lowercase w \<noteq> []" by (simp add: to_ascii_lowercase_def)
qed

subsection \<open>Properties\<close>

text \<open>
  C25: The resolver keeps exactly the strongest proposal for every pair of symbols and kind, sorted by
  source, destination and kind, whatever the iteration orders of its hash tables are: the result is a
  function of the batch.
\<close>

theorem resolve_edges_strongest:
  assumes "permutes ho"
  shows "set (resolve_edges te ho symbols) = strongest (set (proposals te symbols))
    \<and> sorted_wrt (\<lambda>e e'. edge_order e < edge_order e') (resolve_edges te ho symbols)
    \<and> resolve_edges te ho symbols = resolve_edges te insertion_order symbols"
  using resolved_set resolved_sorted resolved_deterministic assms by blast

text \<open>A scanner for call sites of ASCII text, and case mapping of it.\<close>

function ascii_call_sites :: "string \<Rightarrow> string list" where
  "ascii_call_sites [] = []"
| "ascii_call_sites (c # cs) =
     (if is_ident_char c
      then (if is_ident_start c \<and> starts_with (dropWhile (\<lambda>d. d = CHR '' '') (dropWhile is_ident_char cs)) ''(''
            then [c # takeWhile is_ident_char cs] else [])
           @ ascii_call_sites (dropWhile is_ident_char cs)
      else ascii_call_sites cs)"
  by pat_completeness auto
termination
  by (relation "measure length") (auto simp: le_imp_less_Suc length_dropWhile)

definition ascii_text :: text_env where
  "ascii_text =
     \<lparr>te_lower = to_ascii_lowercase,
      te_ends_lower = (\<lambda>s. s \<noteq> [] \<and> 97 \<le> (of_char (last s) :: nat) \<and> (of_char (last s) :: nat) \<le> 122),
      te_begins_lower = (\<lambda>s. s \<noteq> [] \<and> 97 \<le> (of_char (hd s) :: nat) \<and> (of_char (hd s) :: nat) \<le> 122),
      te_call_sites = ascii_call_sites, te_java_extends = (\<lambda>_. None), te_java_implements = (\<lambda>_. None), te_before_where = id\<rparr>"

definition caller_callee :: "symbol list" where
  "caller_callee = [(sample_symbol ''f'' ''run'')\<lparr>body_excerpt := Some ''go(1)''\<rparr>, sample_symbol ''f'' ''go'']"

lemma sample_call_sites: "ascii_call_sites ''go(1)'' = [''go'']"
  by (simp add: is_ident_start_def is_ident_char_def is_digit_def)

lemma sample_query_kinds: "map query_kind caller_callee = [None, None]"
  by (simp add: is_ident_char_def is_ident_start_def is_digit_def caller_callee_def sample_symbol_def
      query_kind_def site_text_def to_ascii_uppercase_def ascii_upper_def is_sql_write_verb_def is_sql_read_verb_def)

lemma sample_calls: "te_call_sites ascii_text ''go(1)'' = [''go'']"
  by (simp only: ascii_text_def text_env.simps sample_call_sites)

lemma sample_proposals: "proposals ascii_text caller_callee = [resolved_edge_new ''run'' ''go'' Calls 1]"
proof -
  have "oop_proposals ascii_text caller_callee = []"
    by (simp add: caller_callee_def sample_symbol_def oop_proposals_def is_oop_language_def)
  moreover have "routes_to_edges caller_callee = []"
    by (simp add: caller_callee_def sample_symbol_def routes_to_edges_def integration_candidates_def is_markdown_section_def)
  moreover have "config_reads_edges caller_callee = []"
    by (simp add: caller_callee_def sample_symbol_def config_reads_edges_def integration_candidates_def
        is_markdown_section_def is_config_key_def)
  moreover have "\<forall>s \<in> set caller_callee. query_kind s = None" using sample_query_kinds by (simp add: caller_callee_def)
  then have "sql_edges ascii_text id caller_callee = []"
    by (auto simp: sql_edges_def integration_candidates_def Let_def)
  moreover have "call_proposals ascii_text id caller_callee = [resolved_edge_new ''run'' ''go'' Calls 1]"
    using sample_calls
    by (simp add: caller_callee_def sample_symbol_def call_proposals_def called_names_def is_call_source_def
        is_stopword_def stopwords_def calls_to_def crosses_to_def CONF_SAME_FILE_def)
  ultimately show ?thesis by (simp add: proposals_def)
qed

theorem resolve_edges_strongest_witness:
  "resolve_edges ascii_text \<lparr>ho_names = rev, ho_values = rev\<rparr> caller_callee
     = resolve_edges ascii_text insertion_order caller_callee
   \<and> set (resolve_edges ascii_text \<lparr>ho_names = rev, ho_values = rev\<rparr> caller_callee)
     = {resolved_edge_new ''run'' ''go'' Calls 1}"
proof -
  have "permutes \<lparr>ho_names = rev, ho_values = rev\<rparr>" by (simp add: permutes_def)
  note r = resolve_edges_strongest [OF this, of ascii_text caller_callee]
  have "strongest {x} = {x}" for x by (auto simp: strongest_def)
  then show ?thesis using r unfolding sample_proposals by (metis empty_set list.simps(15))
qed

text \<open>
  Every edge the resolver persists joins two different symbols of the batch, has a confidence of
  one of the declared tiers, is flagged ambiguous exactly below 0.6, is never dangling and passes
  \<open>Edge::validate\<close>; an integration edge never touches a Markdown section.
\<close>

theorem resolved_edges_sound:
  assumes "permutes ho" "list_all (\<lambda>s. sid s \<noteq> []) symbols" "e \<in> set (to_edges (resolve_edges te ho symbols))"
  shows "src_id e \<noteq> dst_id e \<and> confidence e \<in> confidence_tiers \<and> edge_validate e = Inr () \<and> \<not> dst_missing e
    \<and> (jget (meta e) ''ambiguous'' = Some (JBool True)) = (confidence e < 6/10)
    \<and> (\<exists>s \<in> set symbols. \<exists>d \<in> set symbols. sid s = src_id e \<and> sid d = dst_id e
         \<and> (ekind e \<in> {RoutesTo, Reads, Writes} \<longrightarrow> \<not> is_markdown_section s \<and> \<not> is_markdown_section d))"
proof -
  obtain r where r: "e = to_edge r" "r \<in> set (resolve_edges te ho symbols)" using assms(3) by (auto simp: to_edges_def)
  then have "r \<in> set (proposals te symbols)"
    using resolved_set [OF assms(1), of te symbols] by (simp add: strongest_def)
  then have s: "sound_edge symbols r" by (rule sound_proposals)
  then have tier: "0 \<le> re_confidence r" "re_confidence r \<le> 1"
    by (auto simp: sound_edge_def confidence_tiers_def CONF_SAME_FILE_def CONF_CROSS_MODULE_def CONF_OOP_UNIQUE_def
        CONF_OOP_AMBIGUOUS_def CONF_ROUTES_TO_def CONF_CONFIG_READS_def CONF_SQL_EDGE_def)
  obtain a d where ad: "a \<in> set symbols" "d \<in> set symbols" "sid a = re_src r" "sid d = re_dst r"
    "re_kind r \<in> {RoutesTo, Reads, Writes} \<longrightarrow> \<not> is_markdown_section a \<and> \<not> is_markdown_section d"
    using s by (auto simp: sound_edge_def)
  then have "re_src r \<noteq> []" "re_dst r \<noteq> []" using assms(2) by (auto simp: list_all_iff)
  moreover have "re_ambiguous r = (re_confidence r < 6/10)"
    using s by (metis sound_edge_def made_def resolved_edge_new_simps(5) AMBIGUOUS_THRESHOLD_def)
  ultimately show ?thesis
    using s tier ad by (auto simp: r(1) to_edge_def edge_validate_def dst_missing_def sound_edge_def)
qed

theorem resolved_edges_sound_witness:
  "confidence (to_edge (resolved_edge_new ''run'' ''go'' Calls 1)) \<in> confidence_tiers
   \<and> edge_validate (to_edge (resolved_edge_new ''run'' ''go'' Calls 1)) = Inr ()"
proof -
  have p: "permutes insertion_order" by (simp add: permutes_def insertion_order_def)
  have "resolved_edge_new ''run'' ''go'' Calls 1 \<in> set (resolve_edges ascii_text insertion_order caller_callee)"
    unfolding resolved_set [OF p] sample_proposals by (simp add: strongest_def)
  then have "to_edge (resolved_edge_new ''run'' ''go'' Calls 1) \<in> set (to_edges (resolve_edges ascii_text insertion_order caller_callee))"
    by (simp add: to_edges_def)
  from resolved_edges_sound [OF p _ this] show ?thesis by (simp add: caller_callee_def sample_symbol_def)
qed

text \<open>
  Identifier normalization is idempotent, for every lowercasing that is idempotent, leaves no ASCII
  capital, and maps non-empty text without underscores to such text.
\<close>

theorem normalize_ident_idempotent:
  assumes "\<And>w. te_lower te (te_lower te w) = te_lower te w" "\<And>w. \<not> has_upper (te_lower te w)"
    and "\<And>w. CHR ''_'' \<notin> set w \<Longrightarrow> CHR ''_'' \<notin> set (te_lower te w)" "\<And>w. w \<noteq> [] \<Longrightarrow> te_lower te w \<noteq> []"
  shows "normalize_ident te (normalize_ident te s) = normalize_ident te s"
proof -
  have "lowercasing (te_lower te)" using assms by unfold_locales
  then show ?thesis by (rule lowercasing.normal_form) simp
qed

theorem normalize_ident_idempotent_witness:
  "normalize_ident ascii_text (normalize_ident ascii_text ''HTTPServer'') = normalize_ident ascii_text ''HTTPServer''"
  by (rule normalize_ident_idempotent)
    (simp_all add: ascii_text_def ascii.lower_no_upper ascii.lower_word ascii.lower_nonempty)

end
