(* ===== verification/Planner.thy ===== *)
theory Planner
  imports Publish Resolver Watcher
begin

text \<open>
  The change planner (\<open>crates/cognis-indexer/src/planner.rs\<close>) and the admission of files
  (\<open>pipeline.rs\<close>): from the source tree, the file cache and the index it builds the one batch a change
  publishes. The file system, the parsers, the enricher, SHA-256 and full-text matching are fields of
  the argument \<open>pe\<close>; paths are repository-relative with forward slashes.
\<close>

subsection \<open>Admission\<close>

datatype artifact_kind = Yaml | Toml | Sql | Html | Markdown

definition LANG_BY_EXT :: "(string \<times> string) list" where
  "LANG_BY_EXT =
     [(''ts'', ''typescript''), (''tsx'', ''typescript''), (''py'', ''python''), (''go'', ''go''), (''cs'', ''csharp''),
      (''java'', ''java''), (''rs'', ''rust''), (''c'', ''c''), (''h'', ''c''), (''cc'', ''cpp''), (''cpp'', ''cpp''),
      (''cxx'', ''cpp''), (''hpp'', ''cpp''), (''hh'', ''cpp''), (''hxx'', ''cpp''), (''rb'', ''ruby''), (''php'', ''php''),
      (''phtml'', ''php'')]"

definition ARTIFACT_BY_EXT :: "(string \<times> artifact_kind) list" where
  "ARTIFACT_BY_EXT =
     [(''md'', Markdown), (''yaml'', Yaml), (''yml'', Yaml), (''toml'', Toml), (''html'', Html), (''htm'', Html), (''sql'', Sql)]"

record config_view =
  cfg_ignore :: "string list"
  cfg_languages :: "string list"
  cfg_artifacts :: bool
  cfg_ci :: "string list"

text \<open>\<open>Path::file_name\<close> and \<open>Path::extension\<close>.\<close>

definition path_parts :: "string \<Rightarrow> string list" where
  "path_parts p = split_at_char (CHR ''/'') p"

definition path_name :: "string \<Rightarrow> string" where
  "path_name p = last (path_parts p)"

definition path_extension :: "string \<Rightarrow> string option" where
  "path_extension p =
     (let n = path_name p
      in if n = ''..'' then None
         else case dropWhile (\<lambda>c. c \<noteq> CHR ''.'') (rev n) of
                [] \<Rightarrow> None
              | _ # stem \<Rightarrow> if stem = [] then None else Some (rev (takeWhile (\<lambda>c. c \<noteq> CHR ''.'') (rev n))))"

definition detect_language :: "config_view \<Rightarrow> string \<Rightarrow> string option" where
  "detect_language cfg p =
     (case path_extension p of
        None \<Rightarrow> None
      | Some e \<Rightarrow>
          (case map_of LANG_BY_EXT (to_ascii_lowercase e) of
             None \<Rightarrow> None
           | Some label \<Rightarrow> if label \<in> set (cfg_languages cfg) then Some label else None))"

definition detect_artifact :: "config_view \<Rightarrow> string \<Rightarrow> artifact_kind option" where
  "detect_artifact cfg p =
     (case Option.bind (path_extension p) (\<lambda>e. map_of ARTIFACT_BY_EXT (to_ascii_lowercase e)) of
        Some k \<Rightarrow> Some k
      | None \<Rightarrow>
          if list_ex (\<lambda>pat. pat \<noteq> [] \<and> str_contains (to_ascii_lowercase (path_name p)) (to_ascii_lowercase pat)) (cfg_ci cfg)
          then Some Yaml else None)"

definition admits_kind :: "config_view \<Rightarrow> string \<Rightarrow> bool" where
  "admits_kind cfg p \<longleftrightarrow> detect_language cfg p \<noteq> None \<or> (cfg_artifacts cfg \<and> detect_artifact cfg p \<noteq> None)"

definition ignored_names :: "config_view \<Rightarrow> string list" where
  "ignored_names cfg = cfg_ignore cfg @ [''.cognis'', ''.git'']"

fun artifact_label :: "artifact_kind \<Rightarrow> string" where
  "artifact_label Yaml = ''yaml''"
| "artifact_label Toml = ''toml''"
| "artifact_label Sql = ''sql''"
| "artifact_label Html = ''html''"
| "artifact_label Markdown = ''markdown''"

definition admitted_language :: "config_view \<Rightarrow> string \<Rightarrow> string" where
  "admitted_language cfg p =
     (case detect_language cfg p of
        Some l \<Rightarrow> l
      | None \<Rightarrow> (case detect_artifact cfg p of Some k \<Rightarrow> artifact_label k | None \<Rightarrow> ''text''))"

subsection \<open>The environment of a plan\<close>

record parse_output =
  po_symbols :: "symbol list"
  po_status :: parse_status
  po_language :: "string option"

text \<open>\<open>pe_tree\<close> lists the regular files below the root, \<open>pe_read\<close> gives a file's bytes or the message.\<close>

record plan_env =
  pe_config :: config_view
  pe_tree :: "string list"
  pe_is_file :: "string \<Rightarrow> bool"
  pe_read :: "string \<Rightarrow> string + string"
  pe_rel :: "string \<Rightarrow> string option"
  pe_hash :: "string \<Rightarrow> string"
  pe_utf8 :: "string \<Rightarrow> bool"
  pe_parse_source :: "string \<Rightarrow> string \<Rightarrow> parse_output"
  pe_extract :: "artifact_kind \<Rightarrow> string \<Rightarrow> string \<Rightarrow> parse_output"
  pe_enrich :: "symbol \<Rightarrow> symbol"
  pe_now :: int
  pe_text :: text_env
  pe_order :: hash_order
  pe_fts :: "(string \<times> fts_doc) list \<Rightarrow> string \<Rightarrow> nat \<Rightarrow> (string \<times> string option \<times> f64 option) list option"

text \<open>The walk prunes ignored directories; the check of a single path rejects any ignored component.\<close>

definition admitted_rel_paths :: "plan_env \<Rightarrow> string list" where
  "admitted_rel_paths pe =
     filter (\<lambda>p. list_all (\<lambda>d. d \<notin> set (ignored_names (pe_config pe))) (butlast (path_parts p)) \<and> admits_kind (pe_config pe) p)
       (pe_tree pe)"

definition is_admitted :: "plan_env \<Rightarrow> string \<Rightarrow> bool" where
  "is_admitted pe p \<longleftrightarrow> pe_is_file pe p
     \<and> list_all (\<lambda>d. d \<notin> set (ignored_names (pe_config pe))) (path_parts p) \<and> admits_kind (pe_config pe) p"

record planned_file =
  pf_row :: file_row
  pf_symbols :: "symbol list"
  pf_old :: "symbol list"

definition parse_any :: "plan_env \<Rightarrow> string \<Rightarrow> string \<Rightarrow> parse_output" where
  "parse_any pe p source =
     (if detect_language (pe_config pe) p \<noteq> None then pe_parse_source pe p source
      else case detect_artifact (pe_config pe) p of
             Some k \<Rightarrow> pe_extract pe k p source
           | None \<Rightarrow> pe_parse_source pe p source)"

definition parse_file :: "plan_env \<Rightarrow> string \<Rightarrow> string \<Rightarrow> string \<Rightarrow> symbol list \<Rightarrow> planned_file" where
  "parse_file pe p bytes hash old =
     (let cfg = pe_config pe;
          row = (\<lambda>lang status. \<lparr>fr_path = p, fr_language = lang, fr_size = int (length bytes), fr_hash = hash,
                               fr_parsed_at = pe_now pe, fr_status = status\<rparr>)
      in if \<not> pe_utf8 pe bytes
         then \<lparr>pf_row = row (admitted_language cfg p) PFailed, pf_symbols = [], pf_old = old\<rparr>
         else let parsed = parse_any pe p bytes
              in \<lparr>pf_row = row (case po_language parsed of Some l \<Rightarrow> l | None \<Rightarrow> admitted_language cfg p) (po_status parsed),
                 pf_symbols = (if po_status parsed = PFailed then [] else map (pe_enrich pe) (po_symbols parsed)),
                 pf_old = old\<rparr>)"


subsection \<open>What a plan compares\<close>

text \<open>The touched paths are looked at one by one; a full or reconciling plan walks the tree.\<close>

record plan_view =
  pv_cache :: "(string, file_row) btree"
  pv_candidates :: "string list"
  pv_deleted :: "string list"

definition touch_path :: "plan_env \<Rightarrow> database \<Rightarrow> string \<Rightarrow> plan_view \<Rightarrow> plan_view" where
  "touch_path pe db p v =
     (case pe_rel pe p of
        None \<Rightarrow> v
      | Some rel \<Rightarrow>
          let cache = (case map_of (db_files db) rel of Some row \<Rightarrow> bt_insert rel row (pv_cache v) | None \<Rightarrow> pv_cache v);
              v = v\<lparr>pv_cache := cache\<rparr>
          in if is_admitted pe rel then v\<lparr>pv_candidates := bset (rel # pv_candidates v)\<rparr>
             else if map_of cache rel \<noteq> None then v\<lparr>pv_deleted := bset (rel # pv_deleted v)\<rparr>
             else v)"

definition walk_view :: "plan_env \<Rightarrow> database \<Rightarrow> plan_view" where
  "walk_view pe db =
     \<lparr>pv_cache = db_files db, pv_candidates = bset (admitted_rel_paths pe),
      pv_deleted = filter (\<lambda>p. p \<notin> set (admitted_rel_paths pe)) (map fst (db_files db))\<rparr>"

fun view_of :: "plan_env \<Rightarrow> database \<Rightarrow> string plan_request \<Rightarrow> plan_view" where
  "view_of pe db (Touched paths) =
     fold (touch_path pe db) paths \<lparr>pv_cache = [], pv_candidates = [], pv_deleted = []\<rparr>"
| "view_of pe db Reconcile = walk_view pe db"
| "view_of pe db Full = walk_view pe db"

fun reason_of :: "string plan_request \<Rightarrow> publish_reason" where
  "reason_of (Touched _) = RIncremental"
| "reason_of Reconcile = RReconcile"
| "reason_of Full = RFull"

definition unchanged_file :: "plan_env \<Rightarrow> (string, file_row) btree \<Rightarrow> string \<Rightarrow> string \<Rightarrow> symbol list \<Rightarrow> bool" where
  "unchanged_file pe cache rel bytes old \<longleftrightarrow>
     (case map_of cache rel of
        None \<Rightarrow> False
      | Some row \<Rightarrow> fr_hash row = pe_hash pe bytes \<and> fr_status row = POk
                    \<and> (old \<noteq> [] \<or> (pe_utf8 pe bytes \<and> trim bytes = [])))"

type_synonym changed_files = "(string, planned_file) btree"

text \<open>One candidate: an unreadable one is dropped from the index, an unchanged one is left alone.\<close>

definition scan_candidate ::
  "plan_env \<Rightarrow> database \<Rightarrow> bool \<Rightarrow> (string, file_row) btree \<Rightarrow> string \<Rightarrow> changed_files \<times> string list \<Rightarrow> changed_files \<times> string list" where
  "scan_candidate pe db full cache rel = (\<lambda>(changed, deleted).
     case pe_read pe rel of
       Inl _ \<Rightarrow> (changed, if map_of cache rel \<noteq> None then bset (rel # deleted) else deleted)
     | Inr bytes \<Rightarrow>
         let old = symbols_in_file db rel
         in if \<not> full \<and> unchanged_file pe cache rel bytes old then (changed, deleted)
            else (bt_insert rel (parse_file pe rel bytes (pe_hash pe bytes) old) changed, deleted))"

definition files_old :: "changed_files \<Rightarrow> symbol list" where
  "files_old changed = concat (map (\<lambda>(_, f). pf_old f) changed)"

definition files_new :: "changed_files \<Rightarrow> symbol list" where
  "files_new changed = concat (map (\<lambda>(_, f). pf_symbols f) changed)"

definition trigger_ids :: "database \<Rightarrow> changed_files \<Rightarrow> string list \<Rightarrow> string list" where
  "trigger_ids db changed deleted =
     bset (map sid (files_old changed) @ map sid (files_new changed) @ concat (map (symbol_ids_in_file db) deleted))"

subsection \<open>Dependents\<close>

definition REFERENCE_CANDIDATE_CAP :: nat where "REFERENCE_CANDIDATE_CAP = 256"

text \<open>A dependent's file is read again; here a failed read is the plan's error.\<close>

definition add_dependent ::
  "plan_env \<Rightarrow> database \<Rightarrow> (symbol \<Rightarrow> bool) \<Rightarrow> symbol \<Rightarrow> changed_files \<Rightarrow> cognis_error + changed_files" where
  "add_dependent pe db want s changed =
     (let p = file_path s
      in if map_of changed p \<noteq> None \<or> \<not> want s \<or> \<not> is_admitted pe p then Inr changed
         else case pe_read pe p of
                Inl msg \<Rightarrow> Inl (StoreError msg)
              | Inr bytes \<Rightarrow>
                  Inr (bt_insert p (parse_file pe p bytes (pe_hash pe bytes) (symbols_in_file db p)) changed))"

definition add_affected_dependents ::
  "plan_env \<Rightarrow> database \<Rightarrow> string list \<Rightarrow> changed_files \<Rightarrow> cognis_error + changed_files" where
  "add_affected_dependents pe db ids changed =
     (if ids = [] then Inr changed
      else try_fold (add_dependent pe db (\<lambda>_. True))
             (hydrate_ids db (bset (map src_id (edges_incident db ids In)))) changed)"

text \<open>A configuration key without its index brackets, and its last segment.\<close>

definition cleaned_key :: "string \<Rightarrow> string" where
  "cleaned_key name =
     join ''.'' (filter (\<lambda>seg. trim seg \<noteq> []) (map (takeWhile (\<lambda>c. c \<noteq> CHR ''['')) (split_at_char (CHR ''.'') name)))"

definition symbol_destination_values :: "text_env \<Rightarrow> symbol \<Rightarrow> string list" where
  "symbol_destination_values te s =
     bset ([sname s, qualified_name s]
       @ filter (\<lambda>v. v \<noteq> []) (concat (map string_literals (symbol_texts s)))
       @ (if (skind s = Var \<or> skind s = Const) \<and> (language s = ''yaml'' \<or> language s = ''toml'') \<and> cleaned_key (sname s) \<noteq> []
          then [cleaned_key (sname s), last (split_at_char (CHR ''.'') (cleaned_key (sname s)))] else [])
       @ (if (skind s = Route \<or> language s = ''sql'') \<and> normalize_ident te (sname s) \<noteq> []
          then [normalize_ident te (sname s)] else []))"

definition symbol_references_any :: "text_env \<Rightarrow> string list \<Rightarrow> symbol \<Rightarrow> bool" where
  "symbol_references_any te vs s \<longleftrightarrow>
     list_ex (\<lambda>v. str_contains (join [CHR 0x0A] (symbol_texts s)) v
                  \<or> normalize_ident te (sname s) = normalize_ident te v \<or> sname s = v) vs"

definition fts_literal :: "string \<Rightarrow> string" where
  "fts_literal v =
     (let escaped = concat (map (\<lambda>c. if c = CHR 0x22 then [CHR 0x22, CHR 0x22] else [c]) v)
      in if trim escaped = [] then [] else [CHR 0x22] @ escaped @ [CHR 0x22])"

definition fts_ids :: "plan_env \<Rightarrow> database \<Rightarrow> string \<Rightarrow> string list" where
  "fts_ids pe db literal =
     (if fts_literal literal = [] then []
      else map symbol_id (fts_search (pe_fts pe) db (fts_literal literal) REFERENCE_CANDIDATE_CAP))"

definition reference_candidates :: "plan_env \<Rightarrow> database \<Rightarrow> string list \<Rightarrow> string list" where
  "reference_candidates pe db values =
     bset (concat (map (\<lambda>v. map sid (symbols_by_values db ColName [v])
                            @ map sid (symbols_by_values db ColQualifiedName [v]) @ fts_ids pe db v) values))"

definition add_reference_dependents ::
  "plan_env \<Rightarrow> database \<Rightarrow> string list \<Rightarrow> changed_files \<Rightarrow> cognis_error + changed_files" where
  "add_reference_dependents pe db ids changed =
     (let initial = map fst changed;
          changed_symbols = filter (\<lambda>s. sid s \<in> set ids) (concat (map (\<lambda>(_, f). pf_old f @ pf_symbols f) changed));
          values = bset (filter (\<lambda>v. trim v \<noteq> []) (concat (map (symbol_destination_values (pe_text pe)) changed_symbols)))
      in try_fold (add_dependent pe db (\<lambda>s. symbol_references_any (pe_text pe) values s \<and> file_path s \<notin> set initial))
           (hydrate_ids db (reference_candidates pe db values)) changed)"

subsection \<open>The batch\<close>

record references =
  rf_names :: "string list"
  rf_qualified :: "string list"
  rf_literals :: "string list"

definition sql_verbs :: "string list" where
  "sql_verbs = [''SELECT'', ''INSERT'', ''UPDATE'', ''DELETE'', ''UPSERT'', ''MERGE'', ''REPLACE'']"

definition text_names :: "text_env \<Rightarrow> string \<Rightarrow> string list" where
  "text_names te text =
     te_call_sites te text
       @ (if list_ex (str_contains (to_ascii_uppercase text)) sql_verbs
          then filter (\<lambda>n. n \<noteq> []) (map (normalize_ident te) (idents text)) else [])"

definition type_names :: "symbol \<Rightarrow> string list" where
  "type_names s =
     (if (skind s = Class \<or> skind s = Interface) \<and> (language s = ''java'' \<or> language s = ''csharp'')
      then idents (case body_excerpt s of Some t \<Rightarrow> t | None \<Rightarrow> (case signature s of Some t \<Rightarrow> t | None \<Rightarrow> []))
      else [])"

definition collect_references :: "text_env \<Rightarrow> symbol list \<Rightarrow> references" where
  "collect_references te ss =
     \<lparr>rf_names = bset (concat (map (\<lambda>s. concat (map (text_names te) (symbol_texts s)) @ type_names s @ [sname s]) ss)),
      rf_qualified = bset (map qualified_name ss),
      rf_literals = bset (filter (\<lambda>v. v \<noteq> []) (concat (map (\<lambda>s. concat (map string_literals (symbol_texts s))) ss)))\<rparr>"

definition bounded_resolver_symbols :: "plan_env \<Rightarrow> database \<Rightarrow> symbol list \<Rightarrow> string list \<Rightarrow> symbol list" where
  "bounded_resolver_symbols pe db new excluded =
     (let refs = collect_references (pe_text pe) new;
          candidates = symbols_by_values db ColName (rf_names refs @ rf_literals refs)
            @ symbols_by_values db ColQualifiedName (rf_qualified refs)
            @ concat (map (\<lambda>v. if fts_literal v = [] then [] else hydrate_ids db (fts_ids pe db v)) (rf_literals refs))
      in map snd (fold (\<lambda>s. bt_insert (sid s) s) new
                    (fold (\<lambda>s. bt_insert (sid s) s) (filter (\<lambda>s. file_path s \<notin> set excluded) candidates) [])))"

definition sort_batch :: "publish_batch \<Rightarrow> publish_batch" where
  "sort_batch b =
     b\<lparr>symbol_upserts := sort_key sid (symbol_upserts b), symbol_deletes := bset (symbol_deletes b),
       edge_upserts := sort_key edge_key (edge_upserts b), edge_deletes := bset (edge_deletes b),
       vector_deletes := bset (vector_deletes b), file_rows := sort_key fr_path (file_rows b),
       file_deletes := bset (file_deletes b), queue_enqueue := sort_key fst (queue_enqueue b),
       queue_remove := bset (queue_remove b)\<rparr>"

definition planned_edges :: "plan_env \<Rightarrow> database \<Rightarrow> changed_files \<Rightarrow> string list \<Rightarrow> edge list" where
  "planned_edges pe db changed deleted =
     (let rs = bounded_resolver_symbols pe db (files_new changed) (bset (map fst changed @ deleted))
      in filter (\<lambda>e. case find (\<lambda>s. sid s = src_id e) rs of
                       None \<Rightarrow> False | Some s \<Rightarrow> file_path s \<in> set (map fst changed))
           (to_edges (resolve_edges (pe_text pe) (pe_order pe) rs)))"

definition build_batch :: "plan_env \<Rightarrow> database \<Rightarrow> publish_reason \<Rightarrow> changed_files \<Rightarrow> string list \<Rightarrow> publish_batch" where
  "build_batch pe db r changed deleted =
     (let new = files_new changed;
          old = files_old changed @ concat (map (symbols_in_file db) deleted);
          stale = bset (filter (\<lambda>i. i \<notin> set (map sid new)) (map sid old @ concat (map (symbol_ids_in_file db) deleted)));
          edges = planned_edges pe db changed deleted
      in sort_batch ((empty_batch r)\<lparr>symbol_upserts := new, symbol_deletes := stale, edge_upserts := edges,
           edge_deletes := filter (\<lambda>k. k \<notin> set (map edge_key edges)) (map edge_key (edges_incident db (map sid old) Out)),
           vector_deletes := stale, file_rows := map (\<lambda>(_, f). pf_row f) changed, file_deletes := deleted,
           queue_enqueue := map (\<lambda>s. (sid s, file_path s)) new, queue_remove := stale\<rparr>))"

definition plan :: "plan_env \<Rightarrow> database \<Rightarrow> string plan_request \<Rightarrow> cognis_error + publish_batch" where
  "plan pe db request =
     (let v = view_of pe db request;
          (changed, deleted) = fold (scan_candidate pe db (request = Full) (pv_cache v)) (pv_candidates v) ([], pv_deleted v);
          ids = trigger_ids db changed deleted
      in and_then (add_affected_dependents pe db ids changed)
           (\<lambda>changed. and_then (add_reference_dependents pe db ids changed)
              (\<lambda>changed. Inr (build_batch pe db (reason_of request) changed deleted))))"

subsection \<open>What a plan contains\<close>

text \<open>What the source tree says of a file, whatever the index says of it.\<close>

definition source_file :: "plan_env \<Rightarrow> string \<Rightarrow> planned_file option" where
  "source_file pe p =
     (case pe_read pe p of Inl _ \<Rightarrow> None | Inr bytes \<Rightarrow> Some (parse_file pe p bytes (pe_hash pe bytes) []))"

definition fresh_file :: "plan_env \<Rightarrow> database \<Rightarrow> string \<Rightarrow> planned_file option" where
  "fresh_file pe db p = map_option (\<lambda>f. f\<lparr>pf_old := symbols_in_file db p\<rparr>) (source_file pe p)"

lemma fresh_file_read:
  "pe_read pe p = Inr bytes \<Longrightarrow>
     fresh_file pe db p = Some (parse_file pe p bytes (pe_hash pe bytes) (symbols_in_file db p))"
  "pe_read pe p = Inl msg \<Longrightarrow> fresh_file pe db p = None"
  by (simp_all add: fresh_file_def source_file_def parse_file_def Let_def)

lemma fresh_file_row:
  assumes "fresh_file pe db p = Some f"
  shows "fr_path (pf_row f) = p" "pf_old f = symbols_in_file db p"
    "\<exists>g. source_file pe p = Some g \<and> pf_row g = pf_row f \<and> pf_symbols g = pf_symbols f"
  using assms by (auto simp: fresh_file_def source_file_def parse_file_def Let_def split: sum.splits)

definition changed_ok :: "plan_env \<Rightarrow> database \<Rightarrow> changed_files \<Rightarrow> bool" where
  "changed_ok pe db changed \<longleftrightarrow> bt_wf changed \<and> (\<forall>(p, f) \<in> set changed. fresh_file pe db p = Some f)"

lemma changed_ok_insert:
  "changed_ok pe db changed \<Longrightarrow> fresh_file pe db p = Some f \<Longrightarrow> changed_ok pe db (bt_insert p f changed)"
  using set_bt_insert [of p f changed] by (auto simp: changed_ok_def bt_wf_insert)

lemma changed_ok_map_of: "changed_ok pe db changed \<Longrightarrow> map_of changed p = Some f \<Longrightarrow> fresh_file pe db p = Some f"
  by (auto simp: changed_ok_def dest: map_of_SomeD)

text \<open>The tree lists the regular files; a plan admits what the walk or the single check admits.\<close>

definition tree_listed :: "plan_env \<Rightarrow> bool" where
  "tree_listed pe \<longleftrightarrow> (\<forall>p. pe_is_file pe p \<longrightarrow> p \<in> set (pe_tree pe))"

fun admits :: "plan_env \<Rightarrow> string plan_request \<Rightarrow> string \<Rightarrow> bool" where
  "admits pe (Touched _) p = is_admitted pe p"
| "admits pe _ p = (p \<in> set (admitted_rel_paths pe))"

lemma is_admitted_walked: "tree_listed pe \<Longrightarrow> is_admitted pe p \<Longrightarrow> p \<in> set (admitted_rel_paths pe)"
  by (auto simp: tree_listed_def is_admitted_def admitted_rel_paths_def list_all_iff dest: in_set_butlastD)

lemma is_admitted_admits: "tree_listed pe \<Longrightarrow> is_admitted pe p \<Longrightarrow> admits pe req p"
  by (cases req) (simp_all add: is_admitted_walked)

definition rescanned :: "plan_env \<Rightarrow> database \<Rightarrow> bool \<Rightarrow> (string, file_row) btree \<Rightarrow> string \<Rightarrow> bool" where
  "rescanned pe db full cache p \<longleftrightarrow>
     (case pe_read pe p of
        Inl _ \<Rightarrow> False
      | Inr bytes \<Rightarrow> full \<or> \<not> unchanged_file pe cache p bytes (symbols_in_file db p))"

lemma scan_candidate_cases:
  "scan_candidate pe db full cache p (changed, deleted) =
     (if rescanned pe db full cache p then bt_insert p (the (fresh_file pe db p)) changed else changed,
      if fresh_file pe db p = None \<and> map_of cache p \<noteq> None then bset (p # deleted) else deleted)"
  by (cases "pe_read pe p") (auto simp: scan_candidate_def rescanned_def fresh_file_read Let_def)

lemma rescanned_fresh: "rescanned pe db full cache p \<Longrightarrow> fresh_file pe db p \<noteq> None"
  by (auto simp: rescanned_def fresh_file_read split: sum.splits)

lemma scan_candidates:
  assumes "fold (scan_candidate pe db full cache) ps (changed, deleted) = (changed', deleted')" "changed_ok pe db changed"
  shows "changed_ok pe db changed'
    \<and> map_of changed' q = (if q \<in> set ps \<and> rescanned pe db full cache q then fresh_file pe db q else map_of changed q)
    \<and> set deleted' = set deleted \<union> {p \<in> set ps. fresh_file pe db p = None \<and> map_of cache p \<noteq> None}
    \<and> (bset deleted = deleted \<longrightarrow> bset deleted' = deleted')"
  using assms
proof (induction ps arbitrary: changed deleted)
  case (Cons p ps)
  let ?c = "if rescanned pe db full cache p then bt_insert p (the (fresh_file pe db p)) changed else changed"
  let ?d = "if fresh_file pe db p = None \<and> map_of cache p \<noteq> None then bset (p # deleted) else deleted"
  have c: "changed_ok pe db ?c" using Cons.prems(2) rescanned_fresh [of pe db full cache p] by (auto intro!: changed_ok_insert)
  have "map_of ?c q = (if q = p \<and> rescanned pe db full cache p then fresh_file pe db p else map_of changed q)"
    using Cons.prems(2) rescanned_fresh [of pe db full cache p] by (auto simp: changed_ok_def map_of_bt_insert)
  moreover have "bset ?d = ?d" if "bset deleted = deleted" using that by simp
  ultimately show ?case
    using Cons.IH [of ?c ?d] Cons.prems(1) c by (auto simp: scan_candidate_cases)
qed simp

lemma add_dependent_cases:
  assumes "add_dependent pe db want s changed = Inr c"
  shows "c = changed \<or> (\<exists>f. map_of changed (file_path s) = None \<and> is_admitted pe (file_path s)
    \<and> fresh_file pe db (file_path s) = Some f \<and> c = bt_insert (file_path s) f changed)"
  using assms by (auto simp: add_dependent_def Let_def fresh_file_read split: if_splits sum.splits)

lemma try_dependents:
  assumes "try_fold (add_dependent pe db want) ss changed = Inr changed'" "changed_ok pe db changed"
  shows "changed_ok pe db changed' \<and> (\<forall>p. map_of changed p \<noteq> None \<longrightarrow> map_of changed' p = map_of changed p)
    \<and> (\<forall>p. map_of changed' p \<noteq> None \<longrightarrow> map_of changed p \<noteq> None \<or> is_admitted pe p)"
  using assms
proof (induction ss arbitrary: changed)
  case (Cons s ss)
  then obtain c where c: "add_dependent pe db want s changed = Inr c" "try_fold (add_dependent pe db want) ss c = Inr changed'"
    by (auto simp: and_then_Inr)
  have "changed_ok pe db c \<and> (\<forall>p. map_of changed p \<noteq> None \<longrightarrow> map_of c p = map_of changed p)
      \<and> (\<forall>p. map_of c p \<noteq> None \<longrightarrow> map_of changed p \<noteq> None \<or> is_admitted pe p)"
    using add_dependent_cases [OF c(1)]
  proof
    assume "\<exists>f. map_of changed (file_path s) = None \<and> is_admitted pe (file_path s)
      \<and> fresh_file pe db (file_path s) = Some f \<and> c = bt_insert (file_path s) f changed"
    then obtain f where f: "is_admitted pe (file_path s)" "c = bt_insert (file_path s) f changed"
      "map_of changed (file_path s) = None" and ok: "changed_ok pe db c"
      using changed_ok_insert [OF Cons.prems(2)] by blast
    have "map_of c = (map_of changed)(file_path s \<mapsto> f)"
      using Cons.prems(2) f(2) by (simp add: changed_ok_def map_of_bt_insert)
    with f(1,3) ok show ?thesis by simp
  qed (use Cons.prems(2) in simp)
  with Cons.IH [OF c(2)] show ?case by metis
qed simp

text \<open>The files a plan starts from and the files it drops, and what is added to them.\<close>

lemma touch_path_view:
  assumes "bset (pv_deleted v) = pv_deleted v" "\<forall>p \<in> set (pv_candidates v). is_admitted pe p"
    "\<forall>p \<in> set (pv_deleted v). \<not> is_admitted pe p"
  shows "bset (pv_deleted (touch_path pe db q v)) = pv_deleted (touch_path pe db q v)
    \<and> (\<forall>p \<in> set (pv_candidates (touch_path pe db q v)). is_admitted pe p)
    \<and> (\<forall>p \<in> set (pv_deleted (touch_path pe db q v)). \<not> is_admitted pe p)"
proof (cases "pe_rel pe q")
  case (Some rel)
  let ?c = "case map_of (db_files db) rel of Some row \<Rightarrow> bt_insert rel row (pv_cache v) | None \<Rightarrow> pv_cache v"
  have "touch_path pe db q v =
      (if is_admitted pe rel then v\<lparr>pv_cache := ?c, pv_candidates := bset (rel # pv_candidates v)\<rparr>
       else if map_of ?c rel \<noteq> None then v\<lparr>pv_cache := ?c, pv_deleted := bset (rel # pv_deleted v)\<rparr>
       else v\<lparr>pv_cache := ?c\<rparr>)"
    by (simp add: touch_path_def Some Let_def del: not_None_eq)
  with assms show ?thesis by (cases "is_admitted pe rel"; cases "map_of ?c rel \<noteq> None") simp_all
qed (simp add: touch_path_def assms)

lemma view_of_admits:
  assumes "store_inv env db"
  shows "bset (pv_deleted (view_of pe db req)) = pv_deleted (view_of pe db req)
    \<and> (\<forall>p \<in> set (pv_candidates (view_of pe db req)). admits pe req p)
    \<and> (\<forall>p \<in> set (pv_deleted (view_of pe db req)). \<not> admits pe req p)"
proof (cases "\<exists>paths. req = Touched paths")
  case True
  then obtain paths where req: "req = Touched paths" by blast
  let ?P = "\<lambda>v :: plan_view. bset (pv_deleted v) = pv_deleted v \<and> (\<forall>p \<in> set (pv_candidates v). is_admitted pe p)
    \<and> (\<forall>p \<in> set (pv_deleted v). \<not> is_admitted pe p)"
  have "?P (fold (touch_path pe db) paths \<lparr>pv_cache = [], pv_candidates = [], pv_deleted = []\<rparr>)"
  proof (rule fold_inv [where P = ?P])
    fix q v assume "?P v"
    then show "?P (touch_path pe db q v)" by (elim conjE) (rule touch_path_view)
  qed simp
  then show ?thesis by (simp add: req)
next
  case False
  have "sorted (map fst (db_files db))" "distinct (map fst (db_files db))"
    using assms by (auto simp: store_inv_def db_ok_def bt_wf_def strict_sorted_iff)
  then have "bset (filter P (map fst (db_files db))) = filter P (map fst (db_files db))" for P
    by (simp add: bset_def sorted_wrt_filter sorted_sort_id distinct_remdups_id)
  then have "bset (pv_deleted (walk_view pe db)) = pv_deleted (walk_view pe db)"
    by (simp add: walk_view_def)
  moreover have "view_of pe db req = walk_view pe db" "admits pe req p = (p \<in> set (admitted_rel_paths pe))" for p
    using False by (cases req; simp)+
  ultimately show ?thesis by (simp add: walk_view_def)
qed

lemma latest_rows:
  assumes "bt_wf m" "\<forall>(k, v) \<in> set m. g (h v) = k"
  shows "latest g (map (\<lambda>(_, v). h v) m) k = map_option h (map_of m k)"
proof (cases "map_of m k")
  case None
  then have "(k, v) \<notin> set m" for v using assms(1) by (simp add: bt_wf_map_of)
  with assms(2) have "k \<notin> g ` set (map (\<lambda>(_, v). h v) m)" by (fastforce simp: image_iff)
  with None show ?thesis by (metis latest_None option.map(1))
next
  case (Some v)
  then have "k \<in> g ` set (map (\<lambda>(_, v). h v) m)" using assms(2) by (force dest: map_of_SomeD)
  then obtain x where x: "latest g (map (\<lambda>(_, v). h v) m) k = Some x" by (metis latest_None option.exhaust)
  with assms obtain w where "(k, w) \<in> set m" "x = h w" by (fastforce dest: latest_SomeD)
  with x Some assms(1) show ?thesis by (simp add: bt_wf_map_of)
qed

lemma filter_concat_one:
  assumes "bt_wf m" "map_of m k = Some v" "\<And>j w x. (j, w) \<in> set m \<Longrightarrow> x \<in> set (g w) \<Longrightarrow> P x \<Longrightarrow> j = k"
  shows "filter P (concat (map (\<lambda>(_, w). g w) m)) = filter P (g v)"
proof -
  from assms(2) obtain ys zs where m: "m = ys @ (k, v) # zs" by (metis map_of_SomeD split_list)
  have "k \<notin> fst ` set ys \<union> fst ` set zs" using assms(1) by (auto simp: m bt_wf_def sorted_wrt_append)
  then have no: "\<not> P x" if "(j, w) \<in> set ys \<union> set zs" "x \<in> set (g w)" for j w x
    using that assms(3) [of j w x] by (force simp: m)
  have "filter P (concat (map (\<lambda>(_, w). g w) us)) = []" if "set us \<subseteq> set ys \<union> set zs" for us
    using that no by (induction us) (auto simp: filter_empty_conv)
  then have "filter P (concat (map (\<lambda>(_, w). g w) ys)) = []" "filter P (concat (map (\<lambda>(_, w). g w) zs)) = []"
    by simp_all
  then show ?thesis by (simp add: m)
qed

text \<open>Dependents are admitted files, read now, that were not planned before.\<close>

definition extends :: "plan_env \<Rightarrow> database \<Rightarrow> changed_files \<Rightarrow> changed_files \<Rightarrow> bool" where
  "extends pe db changed changed' \<longleftrightarrow> changed_ok pe db changed'
     \<and> (\<forall>p. map_of changed p \<noteq> None \<longrightarrow> map_of changed' p = map_of changed p)
     \<and> (\<forall>p. map_of changed' p \<noteq> None \<longrightarrow> map_of changed p \<noteq> None \<or> is_admitted pe p)"

lemma extends_dependents:
  assumes "changed_ok pe db changed"
  shows "add_affected_dependents pe db ids changed = Inr changed' \<Longrightarrow> extends pe db changed changed'"
    "add_reference_dependents pe db ids changed = Inr changed' \<Longrightarrow> extends pe db changed changed'"
proof -
  have self: "extends pe db changed changed" using assms by (simp add: extends_def)
  have dep: "try_fold (add_dependent pe db want) ss changed = Inr changed' \<Longrightarrow> extends pe db changed changed'" for want ss
    unfolding extends_def by (rule try_dependents [OF _ assms])
  show "add_affected_dependents pe db ids changed = Inr changed' \<Longrightarrow> extends pe db changed changed'"
    using self dep by (cases "ids = []") (simp_all add: add_affected_dependents_def)
  show "add_reference_dependents pe db ids changed = Inr changed' \<Longrightarrow> extends pe db changed changed'"
    unfolding add_reference_dependents_def Let_def by (rule dep)
qed

lemma extends_trans: "extends pe db a b \<Longrightarrow> extends pe db b c \<Longrightarrow> extends pe db a c"
  unfolding extends_def by metis

lemma plan_stages:
  assumes "plan pe db req = Inr b"
  shows "\<exists>c0 c d. fold (scan_candidate pe db (req = Full) (pv_cache (view_of pe db req)))
      (pv_candidates (view_of pe db req)) ([], pv_deleted (view_of pe db req)) = (c0, d)
    \<and> changed_ok pe db c0 \<and> extends pe db c0 c \<and> b = build_batch pe db (reason_of req) c d"
proof -
  let ?v = "view_of pe db req"
  obtain c0 d where scan: "fold (scan_candidate pe db (req = Full) (pv_cache ?v)) (pv_candidates ?v) ([], pv_deleted ?v) = (c0, d)"
    by fastforce
  then obtain c1 c where c: "add_affected_dependents pe db (trigger_ids db c0 d) c0 = Inr c1"
    "add_reference_dependents pe db (trigger_ids db c0 d) c1 = Inr c" "b = build_batch pe db (reason_of req) c d"
    using assms by (auto simp: plan_def Let_def and_then_Inr)
  have ok: "changed_ok pe db c0" using scan_candidates [OF scan] by (simp add: changed_ok_def)
  have e: "extends pe db c0 c1" by (rule extends_dependents(1) [OF ok c(1)])
  then have "extends pe db c1 c" by (intro extends_dependents(2) [OF _ c(2)]) (simp add: extends_def)
  with e have "extends pe db c0 c" by (rule extends_trans)
  with scan ok c(3) show ?thesis by blast
qed

lemma plan_files:
  assumes "plan pe db req = Inr b" "store_inv env db" "tree_listed pe"
  shows "\<exists>changed deleted. b = build_batch pe db (reason_of req) changed deleted \<and> changed_ok pe db changed
    \<and> bset deleted = deleted \<and> (\<forall>p. map_of changed p \<noteq> None \<longrightarrow> p \<notin> set deleted)"
proof -
  let ?v = "view_of pe db req"
  obtain c0 c d where scan: "fold (scan_candidate pe db (req = Full) (pv_cache ?v)) (pv_candidates ?v) ([], pv_deleted ?v) = (c0, d)"
    and c: "changed_ok pe db c0" "extends pe db c0 c" "b = build_batch pe db (reason_of req) c d"
    using plan_stages [OF assms(1)] by blast
  have ok0: "changed_ok pe db []" by (simp add: changed_ok_def)
  note view = view_of_admits [OF assms(2), of pe req]
  note s = scan_candidates [OF scan ok0]
  have "p \<notin> set d" if p: "map_of c p \<noteq> None" for p
  proof
    assume "p \<in> set d"
    moreover have "fresh_file pe db p \<noteq> None" using p c(2) changed_ok_map_of unfolding extends_def by blast
    ultimately have "p \<in> set (pv_deleted ?v)" using s by simp
    then have no: "\<not> admits pe req p" using view by simp
    then have "map_of c0 p \<noteq> None" using c(2) p is_admitted_admits [OF assms(3)] unfolding extends_def by blast
    then have "p \<in> set (pv_candidates ?v)" using s [of p] by (auto split: if_splits)
    with no view show False by simp
  qed
  moreover have "bset d = d" using s view by simp
  ultimately show ?thesis using c unfolding extends_def by blast
qed

subsection \<open>What publishing a plan does\<close>

text \<open>
  The id of a symbol starts with its language and its file (\<open>make_symbol_id\<close>), so an id belongs to one
  file: \<open>owner\<close> is the file it names. The parsers report the symbols of the file they are given.
\<close>

definition ids_by_file :: "plan_env \<Rightarrow> (string \<Rightarrow> string) \<Rightarrow> bool" where
  "ids_by_file pe owner \<longleftrightarrow>
     (\<forall>p t s. s \<in> set (po_symbols (pe_parse_source pe p t)) \<or> (\<exists>k. s \<in> set (po_symbols (pe_extract pe k p t)))
        \<longrightarrow> file_path s = p \<and> owner (sid s) = p)
     \<and> (\<forall>s. sid (pe_enrich pe s) = sid s \<and> file_path (pe_enrich pe s) = file_path s)"

definition rows_by_file :: "database \<Rightarrow> (string \<Rightarrow> string) \<Rightarrow> bool" where
  "rows_by_file db owner \<longleftrightarrow> (\<forall>s \<in> set (list_symbols db). owner (sid s) = file_path s)"

lemma fresh_owned:
  assumes "fresh_file pe db p = Some f" "s \<in> set (pf_symbols f)" "ids_by_file pe owner"
  shows "file_path s = p" "owner (sid s) = p"
proof -
  obtain bytes x where x: "x \<in> set (po_symbols (parse_any pe p bytes))" "s = pe_enrich pe x"
    using assms(1,2) by (auto simp: fresh_file_def source_file_def parse_file_def Let_def split: sum.splits if_splits)
  moreover have "parse_any pe p bytes = pe_parse_source pe p bytes \<or> (\<exists>k. parse_any pe p bytes = pe_extract pe k p bytes)"
    by (cases "detect_artifact (pe_config pe) p") (simp_all add: parse_any_def, blast)
  ultimately have "file_path x = p \<and> owner (sid x) = p"
    using assms(3) unfolding ids_by_file_def by metis
  with x(2) assms(3) show "file_path s = p" "owner (sid s) = p" by (simp_all add: ids_by_file_def)
qed

lemma symbol_of_key:
  assumes "db_ok db"
  shows "map_of (db_symbols db) i = Some s \<longleftrightarrow> s \<in> set (list_symbols db) \<and> sid s = i"
proof -
  have "(i, s) \<in> set (db_symbols db) \<longleftrightarrow> s \<in> set (list_symbols db) \<and> sid s = i"
  proof
    assume "s \<in> set (list_symbols db) \<and> sid s = i"
    then obtain j where "(j, s) \<in> set (db_symbols db)" "sid s = i" by (auto simp: list_symbols_def)
    with assms show "(i, s) \<in> set (db_symbols db)" by (auto simp: db_ok_def)
  qed (use assms in \<open>auto simp: db_ok_def list_symbols_def rev_image_eqI\<close>)
  with assms show ?thesis by (simp add: db_ok_def bt_wf_map_of)
qed

lemma batch_fields:
  "symbol_upserts (build_batch pe db r changed deleted) = sort_key sid (files_new changed)"
  "file_rows (build_batch pe db r changed deleted) = sort_key fr_path (map (\<lambda>(_, f). pf_row f) changed)"
  "file_deletes (build_batch pe db r changed deleted) = bset deleted"
  "vector_upserts (build_batch pe db r changed deleted) = []"
  "set (symbol_deletes (build_batch pe db r changed deleted)) =
     {i. i \<notin> sid ` set (files_new changed)
       \<and> (i \<in> sid ` set (files_old changed) \<or> (\<exists>s \<in> set (list_symbols db). sid s = i \<and> file_path s \<in> set deleted))}"
  by (auto simp: build_batch_def sort_batch_def empty_batch_def Let_def symbols_in_file_def symbol_ids_in_file_def)

lemma files_old_iff:
  assumes "changed_ok pe db changed"
  shows "s \<in> set (files_old changed) \<longleftrightarrow> s \<in> set (list_symbols db) \<and> map_of changed (file_path s) \<noteq> None"
proof -
  have "s \<in> set (files_old changed) \<longleftrightarrow> (\<exists>p f. (p, f) \<in> set changed \<and> s \<in> set (symbols_in_file db p))"
  proof -
    have "pf_old f = symbols_in_file db p" if "(p, f) \<in> set changed" for p f
      using that assms fresh_file_row(2) unfolding changed_ok_def by fast
    then show ?thesis unfolding files_old_def by force
  qed
  also have "\<dots> \<longleftrightarrow> s \<in> set (list_symbols db) \<and> (\<exists>f. (file_path s, f) \<in> set changed)"
    by (auto simp: symbols_in_file_def)
  also have "(\<exists>f. (file_path s, f) \<in> set changed) \<longleftrightarrow> map_of changed (file_path s) \<noteq> None"
    using assms by (auto simp: changed_ok_def bt_wf_map_of)
  finally show ?thesis .
qed

lemma latest_new:
  assumes "changed_ok pe db changed" "ids_by_file pe owner"
  shows "latest sid (files_new changed) i =
    (case map_of changed (owner i) of None \<Rightarrow> None | Some f \<Rightarrow> latest sid (pf_symbols f) i)"
proof -
  have own: "p = owner i" if "(p, f) \<in> set changed" "s \<in> set (pf_symbols f)" "sid s = i" for p f s
    using that assms fresh_owned(2) [of pe db p f s owner] by (auto simp: changed_ok_def)
  show ?thesis
  proof (cases "map_of changed (owner i)")
    case None
    then have "i \<notin> sid ` set (files_new changed)" using own assms(1)
      by (force simp: files_new_def changed_ok_def bt_wf_map_of)
    with None show ?thesis by (simp add: latest_None [symmetric])
  next
    case (Some f)
    have "filter (\<lambda>s. sid s = i) (files_new changed) = filter (\<lambda>s. sid s = i) (pf_symbols f)"
      unfolding files_new_def
    proof (rule filter_concat_one)
      show "bt_wf changed" using assms(1) by (simp add: changed_ok_def)
    qed (fact Some, rule own)
    then have "latest sid (files_new changed) i = latest sid (pf_symbols f) i" by (rule latest_cong)
    with Some show ?thesis by simp
  qed
qed

lemma batch_symbols:
  assumes "changed_ok pe db changed" "\<forall>p. map_of changed p \<noteq> None \<longrightarrow> p \<notin> set deleted" "db_ok db"
    "ids_by_file pe owner" "rows_by_file db owner"
  shows "symbols_after (build_batch pe db r changed deleted) db i =
    (if owner i \<in> set deleted then None
     else case map_of changed (owner i) of Some f \<Rightarrow> latest sid (pf_symbols f) i | None \<Rightarrow> map_of (db_symbols db) i)"
proof -
  let ?b = "build_batch pe db r changed deleted"
  note new = latest_new [OF assms(1,4), of i]
  show ?thesis
  proof (cases "latest sid (files_new changed) i")
    case (Some s)
    with new obtain f where f: "map_of changed (owner i) = Some f" "latest sid (pf_symbols f) i = Some s"
      by (auto split: option.splits)
    have s: "file_path s = owner i" "owner i \<notin> set deleted"
      using f assms fresh_owned(1) changed_ok_map_of latest_SomeD by (metis, metis option.distinct(1))
    have "i \<in> sid ` set (files_new changed)" using Some latest_SomeD by force
    with Some s have "i \<notin> removed_symbols ?b db"
      by (auto simp: removed_symbols_def batch_fields symbol_written_def)
    with Some f s show ?thesis by (simp add: symbols_after_def symbol_written_def batch_fields)
  next
    case None
    then have i: "i \<notin> sid ` set (files_new changed)" by (simp add: latest_None)
    have w: "symbol_written ?b db i = map_of (db_symbols db) i" by (simp add: symbol_written_def batch_fields None)
    show ?thesis
    proof (cases "map_of (db_symbols db) i")
      case None
      with w new \<open>latest sid (files_new changed) i = None\<close> show ?thesis
        by (auto simp: symbols_after_def split: option.splits)
    next
      case (Some s)
      then have s: "s \<in> set (list_symbols db)" "sid s = i" "file_path s = owner i"
        using symbol_of_key [OF assms(3)] assms(5) by (auto simp: rows_by_file_def)
      have u: "t = s" if "t \<in> set (list_symbols db)" "sid t = i" for t
        using that Some symbol_of_key [OF assms(3)] by (metis option.inject)
      have "i \<in> removed_symbols ?b db \<longleftrightarrow> map_of changed (owner i) \<noteq> None \<or> owner i \<in> set deleted"
      proof -
        have "i \<in> sid ` set (files_old changed) \<longleftrightarrow> s \<in> set (files_old changed)"
          using s(2) u files_old_iff [OF assms(1)] by (metis image_iff)
        moreover have "(\<exists>t \<in> set (list_symbols db). sid t = i \<and> file_path t \<in> set deleted) \<longleftrightarrow> file_path s \<in> set deleted"
          using s(1,2) u by metis
        ultimately have "i \<in> set (symbol_deletes ?b) \<longleftrightarrow> map_of changed (owner i) \<noteq> None \<or> owner i \<in> set deleted"
          using i s files_old_iff [OF assms(1), of s] unfolding batch_fields(5) by simp
        then show ?thesis by (simp add: removed_symbols_def batch_fields(3) w Some s(3))
      qed
      with w Some new \<open>latest sid (files_new changed) i = None\<close> show ?thesis
        by (auto simp: symbols_after_def split: option.splits)
    qed
  qed
qed

lemma batch_files:
  assumes "changed_ok pe db changed"
  shows "files_after (build_batch pe db r changed deleted) db p =
    (if p \<in> set deleted then None else case map_of changed p of Some f \<Rightarrow> Some (pf_row f) | None \<Rightarrow> map_of (db_files db) p)"
proof -
  have "latest fr_path (map (\<lambda>(_, f). pf_row f) changed) p = map_option pf_row (map_of changed p)"
    by (rule latest_rows) (use assms fresh_file_row(1) in \<open>auto simp: changed_ok_def\<close>)
  then show ?thesis by (simp add: files_after_def batch_fields split: option.splits)
qed

text \<open>The symbols of a file, as its parsed source gives them: a later one replaces an earlier one of its id.\<close>

definition source_symbols :: "planned_file \<Rightarrow> symbol list" where
  "source_symbols f = map snd (fold (\<lambda>s. bt_insert (sid s) s) (pf_symbols f) [])"

lemma symbols_in_file_eqI:
  assumes "db_ok db" "bt_wf m" "\<forall>i s. map_of m i = Some s \<longleftrightarrow> map_of (db_symbols db) i = Some s \<and> file_path s = p"
  shows "symbols_in_file db p = map snd m"
proof (unfold symbols_in_file_def, rule collected_rows [symmetric, OF assms(2)])
  show "set m = keyed sid {s \<in> set (list_symbols db). file_path s = p}"
    using assms by (auto simp: keyed_def bt_wf_map_of symbol_of_key)
qed (rule db_ok_symbols(2) [OF assms(1)])

text \<open>What a batch says of symbols and files, whatever it says of edges, vectors and the queue.\<close>

definition same_rows :: "publish_batch \<Rightarrow> publish_batch \<Rightarrow> bool" where
  "same_rows b c \<longleftrightarrow> symbol_upserts b = symbol_upserts c \<and> symbol_deletes b = symbol_deletes c
     \<and> file_rows b = file_rows c \<and> file_deletes b = file_deletes c"

lemma same_rows_refl [simp]: "same_rows b b"
  by (simp add: same_rows_def)

lemma same_rows_after: "same_rows b c \<Longrightarrow> symbols_after b db = symbols_after c db \<and> files_after b db = files_after c db"
proof
  assume same: "same_rows b c"
  then have "symbol_written b db i = symbol_written c db i" for i by (simp add: same_rows_def symbol_written_def)
  moreover from this have "removed_symbols b db = removed_symbols c db" using same by (simp add: same_rows_def removed_symbols_def)
  ultimately show "symbols_after b db = symbols_after c db" by (intro ext) (simp add: symbols_after_def)
  show "files_after b db = files_after c db" using same by (intro ext) (simp add: same_rows_def files_after_def)
qed

lemma planned_tables:
  assumes "publish dbg env now b db = (db', Inr r)" "store_inv env db"
    and same: "same_rows b (build_batch pe db rsn changed deleted)"
    and ok: "changed_ok pe db changed" and dis: "\<forall>p. map_of changed p \<noteq> None \<longrightarrow> p \<notin> set deleted"
    and ids: "ids_by_file pe owner" "rows_by_file db owner"
  shows "(\<forall>p. map_of (db_files db') p =
          (if p \<in> set deleted then None else case map_of changed p of Some f \<Rightarrow> Some (pf_row f) | None \<Rightarrow> map_of (db_files db) p))
    \<and> (\<forall>p. symbols_in_file db' p =
          (if p \<in> set deleted then [] else case map_of changed p of Some f \<Rightarrow> source_symbols f | None \<Rightarrow> symbols_in_file db p))
    \<and> rows_by_file db' owner"
proof -
  have "store_inv env db'"
    using publish_store_inv [OF assms(1,2)] .
  then have ok': "db_ok db'" and okdb: "db_ok db" using assms(2) by (simp_all add: store_inv_def)
  have sym: "map_of (db_symbols db') i = (if owner i \<in> set deleted then None
      else case map_of changed (owner i) of Some f \<Rightarrow> latest sid (pf_symbols f) i | None \<Rightarrow> map_of (db_symbols db) i)" for i
    using publish_tables(1) [OF assms(1,2)] batch_symbols [OF ok dis okdb ids] same_rows_after [OF same] by simp
  have own: "owner i = file_path s" if "map_of (db_symbols db') i = Some s" for i s
  proof (cases "map_of changed (owner i)")
    case None
    with that sym [of i] have "map_of (db_symbols db) i = Some s" by (simp split: if_splits)
    then show ?thesis using symbol_of_key [OF okdb] ids(2) by (auto simp: rows_by_file_def)
  next
    case (Some f)
    with that sym [of i] have "latest sid (pf_symbols f) i = Some s" by (simp split: if_splits)
    then show ?thesis
      using latest_SomeD fresh_owned(1) [OF changed_ok_map_of [OF ok Some] _ ids(1)] by metis
  qed
  then have "rows_by_file db' owner" using symbol_of_key [OF ok'] by (auto simp: rows_by_file_def)
  moreover have "symbols_in_file db' p =
      (if p \<in> set deleted then [] else case map_of changed p of Some f \<Rightarrow> source_symbols f | None \<Rightarrow> symbols_in_file db p)" for p
  proof -
    have here: "map_of (db_symbols db') i = Some s \<and> file_path s = p \<longleftrightarrow> map_of (db_symbols db') i = Some s \<and> owner i = p" for i s
      using own by metis
    consider "p \<in> set deleted" | f where "p \<notin> set deleted" "map_of changed p = Some f"
      | "p \<notin> set deleted" "map_of changed p = None" by fastforce
    then show ?thesis
    proof cases
      case 1
      then have "symbols_in_file db' p = map snd ([] :: (string, symbol) btree)"
        by (intro symbols_in_file_eqI [OF ok']) (simp_all add: here, auto simp: sym)
      with 1 show ?thesis by simp
    next
      case 2
      have own2: "owner i = p" if "latest sid (pf_symbols f) i = Some s" for i s
        using latest_SomeD [OF that] fresh_owned(2) [OF changed_ok_map_of [OF ok 2(2)] _ ids(1)] by metis
      have m: "bt_wf (fold (\<lambda>s. bt_insert (sid s) s) (pf_symbols f) [])"
        "map_of (fold (\<lambda>s. bt_insert (sid s) s) (pf_symbols f) []) i = latest sid (pf_symbols f) i" for i
        using map_of_upserts [of "[]" sid "\<lambda>s. s" "pf_symbols f" i] by (simp_all split: option.splits)
      have "map_of (db_symbols db') i = Some s \<and> file_path s = p \<longleftrightarrow> latest sid (pf_symbols f) i = Some s" for i s
        using here [of i s] own2 [of i s] 2 sym [of i] by (cases "owner i = p") auto
      then have "symbols_in_file db' p = map snd (fold (\<lambda>s. bt_insert (sid s) s) (pf_symbols f) [])"
        by (intro symbols_in_file_eqI [OF ok' m(1)]) (simp add: m(2))
      with 2 show ?thesis by (simp add: source_symbols_def)
    next
      case 3
      let ?m = "filter (\<lambda>e. file_path (snd e) = p) (db_symbols db)"
      have wf: "bt_wf (db_symbols db)" using okdb by (simp add: db_ok_def)
      have m: "map_of ?m i = Some s \<longleftrightarrow> map_of (db_symbols db) i = Some s \<and> file_path s = p" for i s
        using wf bt_wf_filter [OF wf] by (simp add: bt_wf_map_of [symmetric])
      have eq: "owner i = file_path s" if "map_of (db_symbols db) i = Some s" for i s
        using that symbol_of_key [OF okdb] ids(2) by (auto simp: rows_by_file_def)
      have "map_of (db_symbols db') i = Some s \<and> file_path s = p \<longleftrightarrow> map_of (db_symbols db) i = Some s \<and> file_path s = p" for i s
        using here [of i s] eq [of i s] 3 sym [of i] by (cases "owner i = p") auto
      then have "symbols_in_file db' p = map snd ?m"
        by (intro symbols_in_file_eqI [OF ok' bt_wf_filter [OF wf]]) (simp add: m)
      also have "\<dots> = symbols_in_file db p"
        by (rule symbols_in_file_eqI [OF okdb bt_wf_filter [OF wf], symmetric]) (simp add: m)
      finally show ?thesis using 3 by simp
    qed
  qed
  moreover have "map_of (db_files db') p =
      (if p \<in> set deleted then None else case map_of changed p of Some f \<Rightarrow> Some (pf_row f) | None \<Rightarrow> map_of (db_files db) p)" for p
    using publish_tables(3) [OF assms(1,2)] batch_files [OF ok] same_rows_after [OF same] by simp
  ultimately show ?thesis by blast
qed

text \<open>A plan fails only where an admitted file cannot be read.\<close>

definition readable :: "plan_env \<Rightarrow> bool" where
  "readable pe \<longleftrightarrow> (\<forall>p \<in> set (admitted_rel_paths pe). source_file pe p \<noteq> None)"

lemma plan_total:
  assumes "tree_listed pe" "readable pe"
  shows "\<exists>b. plan pe db req = Inr b"
proof -
  have dep: "\<exists>c'. add_dependent pe db want s c = Inr c'" for want s c
    using assms is_admitted_walked [of pe "file_path s"]
    by (auto simp: add_dependent_def Let_def readable_def source_file_def split: sum.splits)
  have "\<exists>c'. add_affected_dependents pe db ids c = Inr c'" for ids c
    using try_fold_ok [of _ "add_dependent pe db (\<lambda>_. True)", OF dep] by (simp add: add_affected_dependents_def)
  moreover have "\<exists>c'. add_reference_dependents pe db ids c = Inr c'" for ids c
    unfolding add_reference_dependents_def Let_def by (rule try_fold_ok) (rule dep)
  ultimately show ?thesis unfolding plan_def Let_def by (auto simp: and_then_Inr split: prod.split) metis
qed

lemma full_scan:
  assumes "fold (scan_candidate pe db True (db_files db)) (bset (admitted_rel_paths pe)) ([], d0) = (c, d)" "readable pe"
  shows "set d = set d0 \<and> map_of c p = (if p \<in> set (admitted_rel_paths pe) then fresh_file pe db p else None)"
proof -
  have fresh: "fresh_file pe db q \<noteq> None" if "q \<in> set (admitted_rel_paths pe)" for q
    using that assms(2) by (simp add: fresh_file_def readable_def)
  have "rescanned pe db True (db_files db) q" if "q \<in> set (admitted_rel_paths pe)" for q
    using that assms(2) by (auto simp: rescanned_def readable_def source_file_def split: sum.splits)
  with fresh scan_candidates [OF assms(1), of p] show ?thesis
    by (simp add: changed_ok_def del: not_None_eq) blast
qed

lemma full_plan:
  assumes "plan pe db Full = Inr b" "store_inv env db" "tree_listed pe" "readable pe"
  shows "\<exists>changed deleted. b = build_batch pe db RFull changed deleted \<and> changed_ok pe db changed
    \<and> (\<forall>p. p \<in> set deleted \<longleftrightarrow> map_of (db_files db) p \<noteq> None \<and> p \<notin> set (admitted_rel_paths pe))
    \<and> (\<forall>p. map_of changed p = (if p \<in> set (admitted_rel_paths pe) then fresh_file pe db p else None))"
proof -
  obtain c0 c d where scan: "fold (scan_candidate pe db True (db_files db)) (bset (admitted_rel_paths pe)) ([], pv_deleted (walk_view pe db)) = (c0, d)"
    and c: "extends pe db c0 c" "b = build_batch pe db RFull c d"
    using plan_stages [OF assms(1)] by (auto simp: walk_view_def)
  note s = full_scan [OF scan assms(4)]
  have adm: "map_of c0 p \<noteq> None \<longleftrightarrow> p \<in> set (admitted_rel_paths pe)" for p
    using s [of p] assms(4) by (simp add: readable_def fresh_file_def)
  then have "map_of c p = map_of c0 p" for p
    using c(1) is_admitted_walked [OF assms(3)] unfolding extends_def by metis
  moreover have "p \<in> set d \<longleftrightarrow> map_of (db_files db) p \<noteq> None \<and> p \<notin> set (admitted_rel_paths pe)" for p
    using s by (force simp: walk_view_def map_of_eq_None_iff simp del: not_None_eq)
  ultimately have "\<forall>p. map_of c p = (if p \<in> set (admitted_rel_paths pe) then fresh_file pe db p else None)"
    "\<forall>p. p \<in> set d \<longleftrightarrow> map_of (db_files db) p \<noteq> None \<and> p \<notin> set (admitted_rel_paths pe)"
    using s by simp_all
  with c show ?thesis unfolding extends_def by blast
qed

text \<open>Every symbol belongs to a file of the cache.\<close>

definition files_tracked :: "database \<Rightarrow> bool" where
  "files_tracked db \<longleftrightarrow> (\<forall>s \<in> set (list_symbols db). map_of (db_files db) (file_path s) \<noteq> None)"

definition mirrors :: "plan_env \<Rightarrow> database \<Rightarrow> bool" where
  "mirrors pe db \<longleftrightarrow>
     (\<forall>p. map_of (db_files db) p = (if p \<in> set (admitted_rel_paths pe) then map_option pf_row (source_file pe p) else None)
          \<and> symbols_in_file db p
              = (if p \<in> set (admitted_rel_paths pe) then source_symbols (the (source_file pe p)) else []))"

lemma published_full_mirrors:
  assumes "plan pe db Full = Inr c" "same_rows b c" "publish dbg env now b db = (db', Inr r)"
    "store_inv env db" "tree_listed pe" "readable pe" "ids_by_file pe owner" "rows_by_file db owner" "files_tracked db"
  shows "mirrors pe db' \<and> rows_by_file db' owner"
proof -
  obtain changed deleted where c: "c = build_batch pe db RFull changed deleted" "changed_ok pe db changed"
    "\<forall>p. p \<in> set deleted \<longleftrightarrow> map_of (db_files db) p \<noteq> None \<and> p \<notin> set (admitted_rel_paths pe)"
    "\<forall>p. map_of changed p = (if p \<in> set (admitted_rel_paths pe) then fresh_file pe db p else None)"
    using full_plan [OF assms(1,4,5,6)] by blast
  have dis: "\<forall>p. map_of changed p \<noteq> None \<longrightarrow> p \<notin> set deleted" using c(3,4) by simp
  have empty: "symbols_in_file db p = []" if "map_of (db_files db) p = None" for p
    using that assms(9) by (auto simp: files_tracked_def symbols_in_file_def filter_empty_conv)
  note t = planned_tables [OF assms(3,4,2) [unfolded c(1)] c(2) dis assms(7,8)]
  have pf: "map_of (db_files db') p = (if p \<in> set deleted then None else case map_of changed p of Some f \<Rightarrow> Some (pf_row f) | None \<Rightarrow> map_of (db_files db) p)"
    "symbols_in_file db' p = (if p \<in> set deleted then [] else case map_of changed p of Some f \<Rightarrow> source_symbols f | None \<Rightarrow> symbols_in_file db p)" for p
    using t by blast+
  have "mirrors pe db'"
    unfolding mirrors_def
  proof (intro allI conjI)
    fix p
    have src: "source_file pe p \<noteq> None" if "p \<in> set (admitted_rel_paths pe)" using that assms(6) by (simp add: readable_def)
    show "map_of (db_files db') p = (if p \<in> set (admitted_rel_paths pe) then map_option pf_row (source_file pe p) else None)"
      using src c(3,4) by (auto simp: pf(1) fresh_file_def)
    show "symbols_in_file db' p = (if p \<in> set (admitted_rel_paths pe) then source_symbols (the (source_file pe p)) else [])"
      using src c(3,4) empty by (auto simp: pf(2) fresh_file_def source_symbols_def)
  qed
  with t show ?thesis by blast
qed

lemma plan_no_vectors: "plan pe db req = Inr b \<Longrightarrow> vector_upserts b = []"
  using plan_stages [of pe db req b] by (auto simp: batch_fields)

lemma mirrors_tracked: "mirrors pe db \<Longrightarrow> readable pe \<Longrightarrow> files_tracked db"
  unfolding files_tracked_def
proof
  fix s assume m: "mirrors pe db" "readable pe" "s \<in> set (list_symbols db)"
  then have "symbols_in_file db (file_path s) \<noteq> []" by (auto simp: symbols_in_file_def filter_empty_conv)
  with m(1) have "file_path s \<in> set (admitted_rel_paths pe)" unfolding mirrors_def by (metis (full_types))
  with m(1,2) show "map_of (db_files db) (file_path s) \<noteq> None" by (auto simp: mirrors_def readable_def)
qed

text \<open>How much a full plan holds.\<close>

lemma full_plan_counts:
  assumes "plan pe db Full = Inr b" "store_inv env db" "tree_listed pe" "readable pe"
  shows "length (file_rows b) = card (set (admitted_rel_paths pe))"
    "length (file_deletes b) = card {p \<in> fst ` set (db_files db). p \<notin> set (admitted_rel_paths pe)}"
    "length (symbol_upserts b) = (\<Sum>p \<in> set (admitted_rel_paths pe). length (pf_symbols (the (source_file pe p))))"
proof -
  let ?A = "set (admitted_rel_paths pe)"
  obtain changed deleted where c: "b = build_batch pe db RFull changed deleted" "changed_ok pe db changed"
    "\<forall>p. p \<in> set deleted \<longleftrightarrow> map_of (db_files db) p \<noteq> None \<and> p \<notin> ?A"
    "\<forall>p. map_of changed p = (if p \<in> ?A then fresh_file pe db p else None)"
    using full_plan [OF assms] by blast
  have dist: "distinct (map fst changed)"
    using c(2) by (auto simp: changed_ok_def bt_wf_def strict_sorted_iff)
  have "fst ` set changed = {p. map_of changed p \<noteq> None}" by (auto simp: map_of_eq_None_iff)
  also have "\<dots> = ?A" using c(4) assms(4) by (auto simp: readable_def fresh_file_def)
  finally have keys: "set (map fst changed) = ?A" by simp
  have "length changed = card (set (map fst changed))" using distinct_card [OF dist] by simp
  then show "length (file_rows b) = card ?A" by (simp add: c(1) batch_fields keys del: set_map)
  have "length (bset deleted) = card (set deleted)" by (metis bset_def distinct_card distinct_sort set_bset distinct_remdups)
  moreover have "set deleted = {p \<in> fst ` set (db_files db). p \<notin> ?A}" using c(3) by (auto simp: map_of_eq_None_iff)
  ultimately show "length (file_deletes b) = card {p \<in> fst ` set (db_files db). p \<notin> ?A}" by (simp add: c(1) batch_fields)
  have src: "length (pf_symbols f) = length (pf_symbols (the (source_file pe p)))" if "(p, f) \<in> set changed" for p f
  proof -
    have "fresh_file pe db p = Some f" using that c(2) by (auto simp: changed_ok_def)
    with fresh_file_row(3) [OF this] show ?thesis by auto
  qed
  have "length (files_new changed) = sum_list (map (\<lambda>(_, f). length (pf_symbols f)) changed)"
    by (simp add: files_new_def length_concat comp_def split_def)
  also have "\<dots> = sum_list (map (\<lambda>p. length (pf_symbols (the (source_file pe p)))) (map fst changed))"
    using src by (auto simp: comp_def intro!: arg_cong [where f = sum_list])
  also have "\<dots> = (\<Sum>p \<in> ?A. length (pf_symbols (the (source_file pe p))))"
    using sum_list_distinct_conv_sum_set [OF dist] keys by metis
  finally show "length (symbol_upserts b) = (\<Sum>p \<in> ?A. length (pf_symbols (the (source_file pe p))))"
    by (simp add: c(1) batch_fields)
qed

lemma full_mirrors:
  assumes "store_inv env db" "log_inv db" "db_generation db \<noteq> None" "tree_listed pe" "readable pe" "ids_by_file pe owner"
    "rows_by_file db owner" "files_tracked db"
  shows "\<exists>b db' r. plan pe db Full = Inr b \<and> publish dbg env now b db = (db', Inr r) \<and> store_inv env db' \<and> log_inv db'
    \<and> mirrors pe db' \<and> rows_by_file db' owner"
proof -
  obtain b where b: "plan pe db Full = Inr b" using plan_total [OF assms(4,5)] by blast
  obtain db' r where pub: "publish dbg env now b db = (db', Inr r)"
    using publish_body_progress [OF assms(1,2) plan_no_vectors [OF b], of dbg now] by (auto simp: publish_body_result)
  have "store_inv env db' \<and> log_inv db'"
    using publish_keeps [OF pub [unfolded publish_def] assms(1,2)] .
  with b pub published_full_mirrors [OF b same_rows_refl pub assms(1,4-8)] show ?thesis by blast
qed

text \<open>A reconciling plan finds nothing to do in an index that mirrors a fully parsed tree.\<close>

definition settled_tree :: "plan_env \<Rightarrow> bool" where
  "settled_tree pe \<longleftrightarrow>
     (\<forall>p \<in> set (admitted_rel_paths pe). \<forall>bytes. pe_read pe p = Inr bytes \<longrightarrow>
        fr_status (pf_row (parse_file pe p bytes (pe_hash pe bytes) [])) = POk
        \<and> (pf_symbols (parse_file pe p bytes (pe_hash pe bytes) []) \<noteq> [] \<or> pe_utf8 pe bytes \<and> trim bytes = []))"

lemma empty_plan:
  "build_batch pe db r [] [] = empty_batch r"
  by (simp add: build_batch_def sort_batch_def empty_batch_def files_new_def files_old_def edges_incident_def
      planned_edges_def bounded_resolver_symbols_def collect_references_def symbols_by_values_def Let_def)

lemma mirrored_reconcile:
  assumes "store_inv env db" "mirrors pe db" "readable pe" "settled_tree pe"
  shows "plan pe db Reconcile = Inr (empty_batch RReconcile)"
proof -
  let ?v = "walk_view pe db"
  obtain c d where scan: "fold (scan_candidate pe db False (pv_cache ?v)) (pv_candidates ?v) ([], pv_deleted ?v) = (c, d)"
    by fastforce
  have files: "map_of (db_files db) p = (if p \<in> set (admitted_rel_paths pe) then map_option pf_row (source_file pe p) else None)"
    and syms: "symbols_in_file db p = (if p \<in> set (admitted_rel_paths pe) then source_symbols (the (source_file pe p)) else [])" for p
    using assms(2) by (simp_all add: mirrors_def)
  have no: "\<not> rescanned pe db False (db_files db) p" if p: "p \<in> set (admitted_rel_paths pe)" for p
  proof -
    obtain bytes where r: "pe_read pe p = Inr bytes" using p assms(3) by (cases "pe_read pe p") (auto simp: readable_def source_file_def)
    let ?f = "parse_file pe p bytes (pe_hash pe bytes) []"
    have "fr_hash (pf_row ?f) = pe_hash pe bytes" by (simp add: parse_file_def Let_def)
    moreover have "fr_status (pf_row ?f) = POk" "pf_symbols ?f \<noteq> [] \<or> pe_utf8 pe bytes \<and> trim bytes = []"
      using assms(4) p r unfolding settled_tree_def by blast+
    moreover have src: "source_file pe p = Some ?f" using r by (simp add: source_file_def)
    have "map_of (db_files db) p = Some (pf_row ?f)" "symbols_in_file db p = source_symbols ?f"
      using files [of p] syms [of p] p src by simp_all
    moreover have "source_symbols ?f \<noteq> [] \<longleftrightarrow> pf_symbols ?f \<noteq> []" unfolding source_symbols_def by simp
    ultimately have "unchanged_file pe (db_files db) p bytes (symbols_in_file db p)"
      by (simp only: unchanged_file_def option.case)
    with r show ?thesis by (simp add: rescanned_def)
  qed
  have gone: "set (pv_deleted ?v) = {}"
  proof -
    have False if "p \<in> set (pv_deleted ?v)" for p
    proof -
      have "map_of (db_files db) p \<noteq> None" "p \<notin> set (admitted_rel_paths pe)"
        using that by (auto simp: walk_view_def map_of_eq_None_iff simp del: not_None_eq)
      with files show False by simp
    qed
    then show ?thesis by (metis equals0I)
  qed
  have ok: "changed_ok pe db []" by (simp add: changed_ok_def)
  have "map_of c p = None" for p
    using scan_candidates [OF scan ok, of p] no by (auto simp: walk_view_def)
  then have c: "c = []" by (metis list.set_cases map_of_eq_None_iff ex_in_conv image_eqI set_empty)
  have "fresh_file pe db p \<noteq> None" if "p \<in> set (admitted_rel_paths pe)" for p
    using that assms(3) by (simp add: fresh_file_def readable_def)
  then have "set d = {}"
    using scan_candidates [OF scan ok] gone by (auto simp: walk_view_def)
  with c scan show ?thesis
    by (simp add: plan_def trigger_ids_def files_old_def files_new_def add_affected_dependents_def
        add_reference_dependents_def reference_candidates_def symbols_by_values_def empty_plan Let_def)
qed

text \<open>A path whose file and whose row disagree, as a plan sees it.\<close>

definition stale_path :: "plan_env \<Rightarrow> database \<Rightarrow> string \<Rightarrow> bool" where
  "stale_path pe db p \<longleftrightarrow>
     (if p \<in> set (admitted_rel_paths pe)
      then rescanned pe db False (db_files db) p \<or> (source_file pe p = None \<and> map_of (db_files db) p \<noteq> None)
      else map_of (db_files db) p \<noteq> None)"

definition rel_paths :: "plan_env \<Rightarrow> string list \<Rightarrow> string set" where
  "rel_paths pe paths = {p. \<exists>q \<in> set paths. pe_rel pe q = Some p}"

lemma rel_paths_snoc: "rel_paths pe (paths @ [q]) = rel_paths pe paths \<union> set_option (pe_rel pe q)"
  by (auto simp: rel_paths_def)

lemma touched_view:
  "bt_wf (pv_cache (view_of pe db (Touched paths)))
   \<and> (\<forall>p. map_of (pv_cache (view_of pe db (Touched paths))) p = (if p \<in> rel_paths pe paths then map_of (db_files db) p else None))
   \<and> set (pv_candidates (view_of pe db (Touched paths))) = {p \<in> rel_paths pe paths. is_admitted pe p}
   \<and> set (pv_deleted (view_of pe db (Touched paths))) = {p \<in> rel_paths pe paths. \<not> is_admitted pe p \<and> map_of (db_files db) p \<noteq> None}"
proof (induction paths rule: rev_induct)
  case Nil
  then show ?case by (simp add: rel_paths_def)
next
  case (snoc q paths)
  let ?v = "view_of pe db (Touched paths)"
  have v: "view_of pe db (Touched (paths @ [q])) = touch_path pe db q ?v" by simp
  show ?case
  proof (cases "pe_rel pe q")
    case None
    with snoc show ?thesis unfolding v rel_paths_snoc by (simp add: touch_path_def)
  next
    case (Some rel)
    let ?c = "case map_of (db_files db) rel of Some row \<Rightarrow> bt_insert rel row (pv_cache ?v) | None \<Rightarrow> pv_cache ?v"
    have t: "touch_path pe db q ?v =
        (if is_admitted pe rel then ?v\<lparr>pv_cache := ?c, pv_candidates := bset (rel # pv_candidates ?v)\<rparr>
         else if map_of ?c rel \<noteq> None then ?v\<lparr>pv_cache := ?c, pv_deleted := bset (rel # pv_deleted ?v)\<rparr>
         else ?v\<lparr>pv_cache := ?c\<rparr>)"
      by (simp add: touch_path_def Some Let_def del: not_None_eq view_of.simps)
    have c: "bt_wf ?c \<and> (\<forall>p. map_of ?c p = (if p \<in> rel_paths pe (paths @ [q]) then map_of (db_files db) p else None))"
      using snoc Some by (auto simp: rel_paths_snoc bt_wf_insert map_of_bt_insert simp del: view_of.simps split: option.split)
    have rel: "rel \<in> rel_paths pe (paths @ [q])" "rel_paths pe (paths @ [q]) = insert rel (rel_paths pe paths)"
      by (simp_all add: rel_paths_snoc Some)
    show ?thesis
      unfolding v t using c rel snoc
      by (cases "is_admitted pe rel"; cases "map_of (db_files db) rel \<noteq> None") (auto simp del: view_of.simps)
  qed
qed

lemma build_batch_reason: "(build_batch pe db r changed deleted)\<lparr>breason := r'\<rparr> = build_batch pe db r' changed deleted"
  by (simp add: build_batch_def sort_batch_def empty_batch_def Let_def)

lemma touched_reconcile:
  assumes "store_inv env db" "tree_listed pe" "\<forall>p \<in> set (admitted_rel_paths pe). is_admitted pe p"
    "\<forall>p. stale_path pe db p \<longrightarrow> p \<in> rel_paths pe paths"
  shows "plan pe db (Touched paths) = and_then (plan pe db Reconcile) (\<lambda>b. Inr (b\<lparr>breason := RIncremental\<rparr>))"
proof -
  let ?t = "view_of pe db (Touched paths)" and ?w = "walk_view pe db"
  obtain c d where t: "fold (scan_candidate pe db False (pv_cache ?t)) (pv_candidates ?t) ([], pv_deleted ?t) = (c, d)" by fastforce
  obtain c' d' where w: "fold (scan_candidate pe db False (pv_cache ?w)) (pv_candidates ?w) ([], pv_deleted ?w) = (c', d')" by fastforce
  have ok: "changed_ok pe db []" by (simp add: changed_ok_def)
  note st = scan_candidates [OF t ok] and sw = scan_candidates [OF w ok]
  note view = touched_view [of pe db paths]
  have adm: "is_admitted pe p \<longleftrightarrow> p \<in> set (admitted_rel_paths pe)" for p
    using assms(2,3) is_admitted_walked by blast
  have cached: "map_of (pv_cache ?t) p = map_of (db_files db) p" if "p \<in> rel_paths pe paths" for p using that view by simp
  then have res: "rescanned pe db False (pv_cache ?t) p = rescanned pe db False (db_files db) p" if "p \<in> rel_paths pe paths" for p
    using cached [OF that] by (cases "pe_read pe p") (simp_all add: rescanned_def unchanged_file_def del: view_of.simps)
  have cand: "p \<in> set (pv_candidates ?t) \<longleftrightarrow> p \<in> rel_paths pe paths \<and> p \<in> set (admitted_rel_paths pe)" for p
    using view adm by simp
  have "map_of c p = map_of c' p" for p
    using st [of p] sw [of p] cand [of p] res [of p] assms(4) [THEN spec, of p]
    by (simp add: walk_view_def stale_path_def del: view_of.simps) metis
  moreover have "bt_wf c" "bt_wf c'" using st sw by (simp_all add: changed_ok_def)
  ultimately have c: "c = c'" by (intro bt_eqI) auto
  have none: "fresh_file pe db p = None \<longleftrightarrow> source_file pe p = None" for p by (simp add: fresh_file_def)
  have del_t: "p \<in> set d \<longleftrightarrow> p \<in> rel_paths pe paths \<and> map_of (db_files db) p \<noteq> None
      \<and> (p \<in> set (admitted_rel_paths pe) \<longrightarrow> source_file pe p = None)" for p
    using st cand [of p] cached [of p] view adm none [of p] by (auto simp del: view_of.simps not_None_eq)
  have del_w: "p \<in> set d' \<longleftrightarrow> map_of (db_files db) p \<noteq> None \<and> (p \<in> set (admitted_rel_paths pe) \<longrightarrow> source_file pe p = None)" for p
    using sw none [of p] by (auto simp: walk_view_def map_of_eq_None_iff simp del: not_None_eq)
  have "set d = set d'" using del_t del_w assms(4) unfolding stale_path_def by (auto simp del: not_None_eq)
  moreover have "bset d = d" "bset d' = d'"
    using st sw view_of_admits [OF assms(1), of pe "Touched paths"] view_of_admits [OF assms(1), of pe Reconcile] by simp_all
  ultimately have "d = d'" by (metis bset_cong)
  with c t w show ?thesis
    by (cases "add_affected_dependents pe db (trigger_ids db c d) c")
      (auto simp: plan_def Let_def build_batch_reason and_then_def simp del: view_of.simps(1) split: sum.splits)
qed

subsection \<open>Properties\<close>

text \<open>
  C7: Whatever the request, publishing a plan leaves every file of the batch exactly as its source says:
  a deleted file has no row and no symbols, a planned file has the row and the symbols of its parse, and
  the symbols and the row of any other file are untouched.
\<close>

theorem plan_publish_files:
  assumes "plan pe db req = Inr b" "publish dbg env now b db = (db', Inr r)" "store_inv env db"
    "tree_listed pe" "ids_by_file pe owner" "rows_by_file db owner"
  shows "symbols_in_file db' p =
      (if p \<in> set (file_deletes b) then []
       else if p \<in> fr_path ` set (file_rows b) then source_symbols (the (source_file pe p)) else symbols_in_file db p)
    \<and> map_of (db_files db') p =
      (if p \<in> set (file_deletes b) then None
       else if p \<in> fr_path ` set (file_rows b) then map_option pf_row (source_file pe p) else map_of (db_files db) p)"
proof -
  obtain changed deleted where b: "b = build_batch pe db (reason_of req) changed deleted" and ok: "changed_ok pe db changed"
    and dis: "\<forall>p. map_of changed p \<noteq> None \<longrightarrow> p \<notin> set deleted"
    using plan_files [OF assms(1,3,4)] by blast
  have same: "same_rows b (build_batch pe db (reason_of req) changed deleted)" by (simp add: b)
  note t = planned_tables [OF assms(2,3) same ok dis assms(5,6)]
  show ?thesis
  proof (cases "map_of changed p")
    case None
    then have "p \<notin> fr_path ` set (file_rows b)"
      using ok fresh_file_row(1) by (auto simp: b batch_fields changed_ok_def bt_wf_map_of)
    with None t show ?thesis by (simp add: b batch_fields)
  next
    case (Some f)
    then have f: "(p, f) \<in> set changed" "fr_path (pf_row f) = p"
      using fresh_file_row(1) [OF changed_ok_map_of [OF ok Some]] by (auto dest: map_of_SomeD)
    obtain g where "source_file pe p = Some g" "pf_row g = pf_row f" "source_symbols g = source_symbols f"
      using fresh_file_row(3) [OF changed_ok_map_of [OF ok Some]] by (auto simp: source_symbols_def)
    moreover have "p \<in> fr_path ` set (file_rows b)" using f by (force simp: b batch_fields)
    ultimately show ?thesis using Some t dis by (simp add: b batch_fields)
  qed
qed

text \<open>
  C3: A full index of a readable tree always commits and makes the index the image of the tree; if moreover
  every file parsed completely (\<open>settled_tree\<close>), the reconciling plan that follows has nothing left to do.
  Assumed are that an id names the file it comes from, in what the parsers report (\<open>ids_by_file\<close>) and in
  the index (\<open>rows_by_file\<close>), and that the file of every indexed symbol has a row (\<open>files_tracked\<close>); the
  new index satisfies the latter two again.
\<close>

theorem full_index_converges:
  assumes "store_inv env db" "log_inv db" "db_generation db \<noteq> None" "tree_listed pe" "readable pe" "ids_by_file pe owner"
    "rows_by_file db owner" "files_tracked db"
  shows "\<exists>b db' r. plan pe db Full = Inr b \<and> publish dbg env now b db = (db', Inr r) \<and> mirrors pe db'
    \<and> rows_by_file db' owner \<and> files_tracked db'
    \<and> (settled_tree pe \<longrightarrow> plan pe db' Reconcile = Inr (empty_batch RReconcile))"
  using full_mirrors [OF assms, of dbg now] mirrored_reconcile mirrors_tracked assms(5) by blast

text \<open>
  C8: The watcher's queue loses nothing a walk of the tree would find: if every path whose file and row
  disagree was offered, then whatever the queue's capacity the request it hands out yields the batch of a
  reconcile, up to the reason recorded with it. A file with an ignored name is excluded: the walk would
  index it.
\<close>

theorem watched_changes_suffice:
  assumes "store_inv env db" "tree_listed pe" "\<forall>p \<in> set (admitted_rel_paths pe). is_admitted pe p"
    "\<forall>p. stale_path pe db p \<longrightarrow> (\<exists>q \<in> offered_paths obs. pe_rel pe q = Some p)"
    "take_request (offer_all obs (new_queue cap)) = (Some req, wq)"
  shows "plan pe db req = and_then (plan pe db Reconcile) (\<lambda>b. Inr (b\<lparr>breason := reason_of req\<rparr>))"
proof -
  consider "req = Reconcile" | "req = Touched (sorted_list_of_set (offered_paths obs))"
    using assms(5) take_after_offers [of obs cap] by (auto split: if_splits)
  then show ?thesis
  proof cases
    case 1
    have "b\<lparr>breason := RReconcile\<rparr> = b" if "plan pe db Reconcile = Inr b" for b
      using plan_stages [OF that] by (auto simp: build_batch_reason)
    with 1 show ?thesis by (cases "plan pe db Reconcile") simp_all
  next
    case 2
    have "\<forall>p. stale_path pe db p \<longrightarrow> p \<in> rel_paths pe (sorted_list_of_set (offered_paths obs))"
      using assms(4) by (simp add: rel_paths_def)
    with 2 show ?thesis using touched_reconcile [OF assms(1-3)] by simp
  qed
qed

text \<open>
  An admitted file of the index that can no longer be read is dropped from the batch, but if one of its
  symbols refers to another the file is looked up again as a dependent of itself, and that read's error is
  the error of the whole plan: nothing of the tree is published while the file stays unreadable.
\<close>

theorem unreadable_dependent_aborts:
  assumes "store_inv env db" "tree_listed pe" "is_admitted pe p" "pe_read pe p = Inl msg" "map_of (db_files db) p \<noteq> None"
    "e \<in> set (list_edges db)" "s \<in> set (list_symbols db)" "t \<in> set (list_symbols db)"
    "src_id e = sid s" "dst_id e = sid t" "file_path s = p" "file_path t = p"
  shows "\<exists>err. plan pe db Reconcile = Inl err"
proof -
  let ?w = "walk_view pe db"
  obtain c d where scan: "fold (scan_candidate pe db False (pv_cache ?w)) (pv_candidates ?w) ([], pv_deleted ?w) = (c, d)" by fastforce
  have none: "fresh_file pe db p = None" using assms(4) by (rule fresh_file_read(2))
  have ok0: "changed_ok pe db []" by (simp add: changed_ok_def)
  have ok: "changed_ok pe db c" using scan_candidates [OF scan ok0] by simp
  have "p \<in> set (admitted_rel_paths pe)" by (rule is_admitted_walked [OF assms(2,3)])
  then have "p \<in> set d" using scan_candidates [OF scan ok0] none assms(5) by (simp add: walk_view_def)
  then have t: "sid t \<in> set (trigger_ids db c d)"
    using assms(8,12) by (auto simp: trigger_ids_def symbol_ids_in_file_def)
  let ?ids = "trigger_ids db c d"
  have dbok: "db_ok db" using assms(1) by (simp add: store_inv_def)
  have "e \<in> set (edges_incident db ?ids In)"
    using t assms(6,10) by (simp add: edges_incident_filter [OF dbok] incident_def follows_inbound_def)
  then have s: "s \<in> set (hydrate_ids db (bset (map src_id (edges_incident db ?ids In))))"
    using assms(7,9) by (force simp: symbols_by_values_filter [OF dbok])
  have "\<exists>err. try_fold (add_dependent pe db (\<lambda>_. True)) (hydrate_ids db (bset (map src_id (edges_incident db ?ids In)))) c = Inl err"
  proof (rule try_fold_fails [where P = "changed_ok pe db", OF s ok])
    show "changed_ok pe db v" if "changed_ok pe db u" "add_dependent pe db (\<lambda>_. True) y u = Inr v" for y u v
      using add_dependent_cases [OF that(2)] that(1) changed_ok_insert by blast
    show "\<exists>err. add_dependent pe db (\<lambda>_. True) s u = Inl err" if "changed_ok pe db u" for u
    proof -
      have "map_of u p = None" using changed_ok_map_of [OF that, of p] none by (cases "map_of u p") auto
      then show ?thesis using assms(3,4,11) by (simp add: add_dependent_def)
    qed
  qed
  then show ?thesis using scan t by (force simp: plan_def add_affected_dependents_def Let_def)
qed

text \<open>
  The two admission tests disagree on a file whose own name is an ignored one: with the index up to date a
  reconcile leaves it indexed, while touching that very file deletes it from the index.
\<close>

theorem ignored_file_name_flips:
  assumes "store_inv env db" "tree_listed pe" "readable pe" "settled_tree pe" "mirrors pe db"
    "p \<in> set (admitted_rel_paths pe)" "path_name p \<in> set (ignored_names (pe_config pe))" "pe_rel pe q = Some p"
  shows "plan pe db Reconcile = Inr (empty_batch RReconcile)
    \<and> (\<exists>b. plan pe db (Touched [q]) = Inr b \<and> p \<in> set (file_deletes b))"
proof -
  have "path_parts p \<noteq> []"
    unfolding path_parts_def by (induction p) (auto split: list.splits)
  then have "path_name p \<in> set (path_parts p)" by (simp add: path_name_def)
  then have no: "\<not> is_admitted pe p" using assms(7) by (auto simp: is_admitted_def list_all_iff)
  have "source_file pe p \<noteq> None" using assms(3,6) by (simp add: readable_def)
  then have cached: "map_of (db_files db) p \<noteq> None" using assms(5,6) by (simp add: mirrors_def)
  obtain b where b: "plan pe db (Touched [q]) = Inr b" using plan_total [OF assms(2,3)] by blast
  obtain c0 c d where scan: "fold (scan_candidate pe db False (pv_cache (view_of pe db (Touched [q]))))
      (pv_candidates (view_of pe db (Touched [q]))) ([], pv_deleted (view_of pe db (Touched [q]))) = (c0, d)"
    and bb: "b = build_batch pe db RIncremental c d"
    using plan_stages [OF b] by auto
  have "p \<in> set (pv_deleted (view_of pe db (Touched [q])))"
    using touched_view [of pe db "[q]"] assms(8) no cached by (simp add: rel_paths_def del: view_of.simps)
  then have "p \<in> set d" using scan_candidates [OF scan] by (simp add: changed_ok_def)
  with b bb mirrored_reconcile [OF assms(1,5,3,4)] show ?thesis by (simp add: batch_fields)
qed

subsection \<open>A small tree\<close>

text \<open>One Python file with one symbol; \<open>ignore\<close> are the ignored names, \<open>ok\<close> whether it can be read.\<close>

definition sample_tree :: "string list \<Rightarrow> bool \<Rightarrow> plan_env" where
  "sample_tree ignore ok =
     \<lparr>pe_config = \<lparr>cfg_ignore = ignore, cfg_languages = [''python''], cfg_artifacts = False, cfg_ci = []\<rparr>,
      pe_tree = [''a.py''], pe_is_file = (\<lambda>p. p = ''a.py''),
      pe_read = (\<lambda>p. if ok \<and> p = ''a.py'' then Inr ''x'' else Inl ''denied''), pe_rel = Some, pe_hash = id,
      pe_utf8 = (\<lambda>_. True),
      pe_parse_source = (\<lambda>p t. \<lparr>po_symbols = [sample_symbol p p], po_status = POk, po_language = None\<rparr>),
      pe_extract = (\<lambda>k p t. \<lparr>po_symbols = [], po_status = POk, po_language = None\<rparr>), pe_enrich = id, pe_now = 0,
      pe_text = ascii_text, pe_order = insertion_order, pe_fts = (\<lambda>_ _ _. None)\<rparr>"

lemma sample_admitted: "admitted_rel_paths (sample_tree ignore ok) = [''a.py'']"
  by (simp add: admitted_rel_paths_def sample_tree_def admits_kind_def detect_language_def path_extension_def path_name_def
      path_parts_def LANG_BY_EXT_def to_ascii_lowercase_def ascii_lower_def Let_def)

lemma sample_is_admitted: "''a.py'' \<notin> set ignore \<Longrightarrow> is_admitted (sample_tree ignore ok) ''a.py''"
  using sample_admitted [of ignore ok]
  by (simp add: admitted_rel_paths_def is_admitted_def sample_tree_def path_parts_def ignored_names_def split: if_splits)

lemma sample_rel: "pe_rel (sample_tree ignore ok) = Some"
  by (simp add: sample_tree_def)

lemma sample_source:
  "source_file (sample_tree ignore True) ''a.py'' = Some (parse_file (sample_tree ignore True) ''a.py'' ''x'' ''x'' [])"
  "pf_symbols (parse_file (sample_tree ignore True) ''a.py'' ''x'' ''x'' []) = [sample_symbol ''a.py'' ''a.py'']"
  "fr_status (pf_row (parse_file (sample_tree ignore True) ''a.py'' ''x'' ''x'' [])) = POk"
  using sample_admitted [of ignore True]
  by (simp_all add: source_file_def parse_file_def sample_tree_def parse_any_def admitted_rel_paths_def admits_kind_def Let_def
      split: if_splits)

lemma sample_tree_ok:
  "tree_listed (sample_tree ignore ok)" "readable (sample_tree ignore True)" "ids_by_file (sample_tree ignore ok) id"
  "rows_by_file empty_database id" "files_tracked empty_database" "settled_tree (sample_tree ignore True)"
proof -
  show "tree_listed (sample_tree ignore ok)" by (simp add: tree_listed_def sample_tree_def)
  show "readable (sample_tree ignore True)" by (simp add: readable_def sample_admitted sample_source)
  show "ids_by_file (sample_tree ignore ok) id" by (simp add: ids_by_file_def sample_tree_def sample_symbol_def)
  show "rows_by_file empty_database id" by (simp add: rows_by_file_def list_symbols_def empty_database_def)
  show "files_tracked empty_database" by (simp add: files_tracked_def list_symbols_def empty_database_def)
  show "settled_tree (sample_tree ignore True)"
  proof -
    have "pe_read (sample_tree ignore True) ''a.py'' = Inr ''x''" "pe_hash (sample_tree ignore True) = id"
      by (simp_all add: sample_tree_def)
    then show ?thesis by (simp add: settled_tree_def sample_admitted sample_source)
  qed
qed

lemma sample_full:
  "\<exists>b db' r. plan (sample_tree ignore True) empty_database Full = Inr b
    \<and> publish id plain_env 7 b empty_database = (db', Inr r) \<and> store_inv plain_env db' \<and> log_inv db'
    \<and> mirrors (sample_tree ignore True) db'"
proof -
  have "db_generation empty_database \<noteq> None" by (simp add: empty_database_def)
  from full_mirrors [OF store_inv_empty log_inv_empty this, of "sample_tree ignore True" id] sample_tree_ok
  show ?thesis by blast
qed

theorem plan_publish_files_witness:
  "\<exists>b db' r. plan (sample_tree [] True) empty_database Full = Inr b \<and> publish id plain_env 7 b empty_database = (db', Inr r)
    \<and> symbols_in_file db' ''a.py'' =
      (if ''a.py'' \<in> set (file_deletes b) then []
       else if ''a.py'' \<in> fr_path ` set (file_rows b) then source_symbols (the (source_file (sample_tree [] True) ''a.py''))
       else symbols_in_file empty_database ''a.py'')"
proof -
  obtain b db' r where p: "plan (sample_tree [] True) empty_database Full = Inr b"
    "publish id plain_env 7 b empty_database = (db', Inr r)"
    using sample_full by blast
  from plan_publish_files [OF p store_inv_empty, of id "''a.py''"] p sample_tree_ok show ?thesis by blast
qed

theorem full_index_converges_witness:
  "\<exists>b db' r. plan (sample_tree [] True) empty_database Full = Inr b \<and> publish id plain_env 7 b empty_database = (db', Inr r)
    \<and> mirrors (sample_tree [] True) db' \<and> plan (sample_tree [] True) db' Reconcile = Inr (empty_batch RReconcile)"
proof -
  have "db_generation empty_database \<noteq> None" by (simp add: empty_database_def)
  from full_index_converges [OF store_inv_empty log_inv_empty this, of "sample_tree [] True" id] sample_tree_ok
  show ?thesis by blast
qed

theorem watched_changes_suffice_witness:
  "plan (sample_tree [] True) empty_database (Touched [''a.py'']) =
     and_then (plan (sample_tree [] True) empty_database Reconcile) (\<lambda>b. Inr (b\<lparr>breason := reason_of (Touched [''a.py''])\<rparr>))"
proof (rule watched_changes_suffice [where obs = "[(1, \<lparr>path = ''a.py'', kind = Modify\<rparr>)]" and cap = 1 and wq = "new_queue 1"])
  have "map_of (db_files empty_database) p = None" for p by (simp add: empty_database_def)
  then show "\<forall>p. stale_path (sample_tree [] True) empty_database p \<longrightarrow>
      (\<exists>q \<in> offered_paths [(1, \<lparr>path = ''a.py'', kind = Modify\<rparr>)]. pe_rel (sample_tree [] True) q = Some p)"
    by (auto simp: stale_path_def sample_admitted offered_paths_def sample_rel split: if_splits)
  show "take_request (offer_all [(1, \<lparr>path = ''a.py'', kind = Modify\<rparr>)] (new_queue 1)) = (Some (Touched [''a.py'']), new_queue 1)"
    by (simp add: take_after_offers offered_paths_def)
qed (simp_all add: store_inv_empty sample_tree_ok sample_admitted sample_is_admitted)

definition sample_index :: database where
  "sample_index =
     empty_database\<lparr>db_symbols := [(''f'', sample_symbol ''a.py'' ''f''), (''g'', sample_symbol ''a.py'' ''g'')],
       db_fts := [(''f'', fts_doc_of (sample_symbol ''a.py'' ''f'')), (''g'', fts_doc_of (sample_symbol ''a.py'' ''g''))],
       db_edges := [((''f'', ''g'', ''calls''), \<lparr>src_id = ''f'', dst_id = ''g'', ekind = Calls, confidence = 1, meta = JObj []\<rparr>)],
       db_files := [(''a.py'', \<lparr>fr_path = ''a.py'', fr_language = ''python'', fr_size = 1, fr_hash = ''x'', fr_parsed_at = 0, fr_status = POk\<rparr>)]\<rparr>"

lemma store_inv_sample_index: "store_inv plain_env sample_index"
  by (simp add: store_inv_def db_ok_def fts_synced_def vec_ok_def sample_index_def empty_database_def sample_symbol_def
      bt_wf_def edge_key_def)

theorem unreadable_dependent_aborts_witness:
  "\<exists>err. plan (sample_tree [] False) sample_index Reconcile = Inl err"
proof (rule unreadable_dependent_aborts [OF store_inv_sample_index, where p = "''a.py''" and msg = "''denied''"])
  show "\<lparr>src_id = ''f'', dst_id = ''g'', ekind = Calls, confidence = 1, meta = JObj []\<rparr> \<in> set (list_edges sample_index)"
    by (simp add: sample_index_def list_edges_def)
  show "sample_symbol ''a.py'' ''f'' \<in> set (list_symbols sample_index)" "sample_symbol ''a.py'' ''g'' \<in> set (list_symbols sample_index)"
    by (simp_all add: sample_index_def list_symbols_def)
qed (simp_all add: sample_tree_ok sample_is_admitted sample_symbol_def, simp_all add: sample_tree_def sample_index_def)

theorem ignored_file_name_flips_witness:
  "\<exists>db. plan (sample_tree [''a.py''] True) db Reconcile = Inr (empty_batch RReconcile)
    \<and> (\<exists>b. plan (sample_tree [''a.py''] True) db (Touched [''a.py'']) = Inr b \<and> ''a.py'' \<in> set (file_deletes b))"
proof -
  obtain db where db: "store_inv plain_env db" "mirrors (sample_tree [''a.py''] True) db" using sample_full by blast
  have "path_name ''a.py'' = ''a.py''" by (simp add: path_name_def path_parts_def)
  moreover have "''a.py'' \<in> set (ignored_names (pe_config (sample_tree [''a.py''] True)))"
    "pe_rel (sample_tree [''a.py''] True) ''a.py'' = Some ''a.py''"
    by (simp_all add: sample_tree_def ignored_names_def)
  ultimately show ?thesis
    using ignored_file_name_flips [OF db(1) sample_tree_ok(1) sample_tree_ok(2) sample_tree_ok(6) db(2)]
    by (metis sample_admitted list.set_intros(1))
qed

end
