(* ===== verification/Lifecycle.thy ===== *)
theory Lifecycle
  imports Prelude
begin

text \<open>
  The model slot of \<open>crates/cognis-embed/src/lifecycle.rs\<close>: a lazily loaded embedding session
  shared by concurrent callers. Each operation under the mutex is a function of the slot and the
  clock (nanoseconds); a concurrent history interleaves them, with the loader's factory running
  outside the lock. Sessions are values of a type \<open>'e\<close>; the condition variable is the guard of
  the waking step.
\<close>

subsection \<open>Environment\<close>

definition secs :: "nat \<Rightarrow> nat" where
  "secs n = n * 1000000000"

definition DEFAULT_FAILURE_COOLDOWN :: nat where "DEFAULT_FAILURE_COOLDOWN = secs 30"
definition DEFAULT_IDLE_EVICT_AFTER :: nat where "DEFAULT_IDLE_EVICT_AFTER = secs 300"

text \<open>\<open>raw\<close> is the variable's value, \<open>None\<close> when it is unset or not text.\<close>

definition duration_from_env_secs :: "string option \<Rightarrow> nat \<Rightarrow> nat" where
  "duration_from_env_secs raw dflt =
     (case raw of
        None \<Rightarrow> dflt
      | Some r \<Rightarrow>
          let t = trim r
          in if t = [] then dflt
             else case parse_u64 t of None \<Rightarrow> dflt | Some n \<Rightarrow> if n = 0 then dflt else secs n)"

definition failure_cooldown_from_env :: "string option \<Rightarrow> nat" where
  "failure_cooldown_from_env raw = duration_from_env_secs raw DEFAULT_FAILURE_COOLDOWN"

definition idle_evict_after_from_env :: "string option \<Rightarrow> nat" where
  "idle_evict_after_from_env raw = duration_from_env_secs raw DEFAULT_IDLE_EVICT_AFTER"

subsection \<open>The slot\<close>

datatype demand_error = Cooldown (until: nat) (why: string) | LoadFailed (why: string)

datatype evict_outcome =
    Evicted
  | AlreadyEmpty
  | InFlight nat
  | NotIdle (idle_for: nat) (need: nat)

datatype 'e slot =
    Empty
  | Loading (waiters: nat)
  | Ready (embedder: 'e) (in_flight_count: nat) (last_used: nat)
  | Failed (retry_at: nat) (failure: string)

definition ready :: "nat \<Rightarrow> 'e \<Rightarrow> 'e slot" where
  "ready now e = Ready e 0 now"

definition from_optional :: "nat \<Rightarrow> 'e option \<Rightarrow> 'e slot" where
  "from_optional now e = (case e of Some x \<Rightarrow> ready now x | None \<Rightarrow> Empty)"

fun is_loaded :: "'e slot \<Rightarrow> bool" where
  "is_loaded (Ready _ _ _) = True"
| "is_loaded _ = False"

fun slot_in_flight :: "'e slot \<Rightarrow> nat" where
  "slot_in_flight (Ready _ n _) = n"
| "slot_in_flight _ = 0"

fun slot_last_used :: "'e slot \<Rightarrow> nat option" where
  "slot_last_used (Ready _ _ t) = Some t"
| "slot_last_used _ = None"

fun try_borrow :: "nat \<Rightarrow> 'e slot \<Rightarrow> 'e option \<times> 'e slot" where
  "try_borrow now (Ready e n _) = (Some e, Ready e (n + 1) now)"
| "try_borrow now s = (None, s)"

text \<open>
  One pass of the loop of \<open>borrow_or_load\<close> under the lock: a borrow, an error, another pass, a
  wait for the loader, or the claim of the load.
\<close>

datatype 'e demand = Borrowed 'e | Refused demand_error | Again | Wait | Claimed

fun demand_pass :: "nat \<Rightarrow> 'e slot \<Rightarrow> 'e demand \<times> 'e slot" where
  "demand_pass now (Ready e n _) = (Borrowed e, Ready e (n + 1) now)"
| "demand_pass now (Failed t m) =
     (if now < t then (Refused (Cooldown t m), Failed t m) else (Again, Empty))"
| "demand_pass now (Loading w) = (Wait, Loading (w + 1))"
| "demand_pass now Empty = (Claimed, Loading 0)"

text \<open>The loader publishes what the factory returned.\<close>

fun finish_load :: "nat \<Rightarrow> nat \<Rightarrow> string + 'e \<Rightarrow> 'e slot \<Rightarrow> (demand_error + 'e) \<times> 'e slot" where
  "finish_load now cooldown (Inr e) s = (Inr e, Ready e 1 now)"
| "finish_load now cooldown (Inl m) s = (Inl (LoadFailed m), Failed (now + cooldown) m)"

fun try_idle_evict :: "nat \<Rightarrow> nat \<Rightarrow> 'e slot \<Rightarrow> evict_outcome \<times> 'e slot" where
  "try_idle_evict now idle_after (Ready e n t) =
     (if 0 < n then (InFlight n, Ready e n t)
      else if now - t < idle_after then (NotIdle (now - t) idle_after, Ready e n t)
      else (Evicted, Empty))"
| "try_idle_evict now idle_after s = (AlreadyEmpty, s)"

fun release_borrow :: "nat \<Rightarrow> 'e slot \<Rightarrow> 'e slot" where
  "release_borrow now (Ready e n _) = Ready e (n - 1) now"
| "release_borrow now s = s"

subsection \<open>Concurrent histories\<close>

text \<open>Threads are numbered; each runs a call with its own cooldown.\<close>

datatype 'e thread =
    Idle
  | Demanding nat
  | Waiting nat
  | Running nat
  | Holding 'e

record 'e sys =
  slot :: "'e slot"
  threads :: "'e thread list"
  clock :: nat

definition set_thread :: "nat \<Rightarrow> 'e thread \<Rightarrow> 'e slot \<Rightarrow> 'e sys \<Rightarrow> 'e sys" where
  "set_thread i t s y = y\<lparr>slot := s, threads := (threads y)[i := t]\<rparr>"

definition after_pass :: "nat \<Rightarrow> 'e demand \<Rightarrow> 'e thread" where
  "after_pass cooldown d =
     (case d of Borrowed e \<Rightarrow> Holding e | Refused _ \<Rightarrow> Idle | Again \<Rightarrow> Demanding cooldown
      | Wait \<Rightarrow> Waiting cooldown | Claimed \<Rightarrow> Running cooldown)"

inductive slot_step :: "'e sys \<Rightarrow> 'e sys \<Rightarrow> bool" where
  call: "i < length (threads y) \<Longrightarrow> threads y ! i = Idle \<Longrightarrow>
    slot_step y (set_thread i (Demanding c) (slot y) y)"
| pass: "i < length (threads y) \<Longrightarrow> threads y ! i = Demanding c \<Longrightarrow> demand_pass (clock y) (slot y) = (d, s) \<Longrightarrow>
    slot_step y (set_thread i (after_pass c d) s y)"
| wake: "i < length (threads y) \<Longrightarrow> threads y ! i = Waiting c \<Longrightarrow> (\<forall>w. slot y \<noteq> Loading w) \<Longrightarrow>
    slot_step y (set_thread i (Demanding c) (slot y) y)"
| load: "i < length (threads y) \<Longrightarrow> threads y ! i = Running c \<Longrightarrow> finish_load (clock y) c r (slot y) = (x, s) \<Longrightarrow>
    slot_step y (set_thread i (case x of Inr e \<Rightarrow> Holding e | Inl _ \<Rightarrow> Idle) s y)"
| peek: "i < length (threads y) \<Longrightarrow> threads y ! i = Idle \<Longrightarrow> try_borrow (clock y) (slot y) = (Some e, s) \<Longrightarrow>
    slot_step y (set_thread i (Holding e) s y)"
| release: "i < length (threads y) \<Longrightarrow> threads y ! i = Holding e \<Longrightarrow>
    slot_step y (set_thread i Idle (release_borrow (clock y) (slot y)) y)"
| evict: "try_idle_evict (clock y) a (slot y) = (r, s) \<Longrightarrow> slot_step y (y\<lparr>slot := s\<rparr>)"
| tick: "slot_step y (y\<lparr>clock := clock y + k\<rparr>)"

inductive_cases slot_stepE: "slot_step y z"

inductive slot_reachable :: "'e sys \<Rightarrow> bool" where
  start: "\<forall>t \<in> set ts. t = Idle \<Longrightarrow> slot_reachable \<lparr>slot = from_optional now e, threads = ts, clock = now\<rparr>"
| step: "slot_reachable y \<Longrightarrow> slot_step y z \<Longrightarrow> slot_reachable z"

subsection \<open>The invariant\<close>

definition borrowers :: "'e thread list \<Rightarrow> nat" where
  "borrowers ts = length (filter (\<lambda>t. \<exists>e. t = Holding e) ts)"

definition loaders :: "'e thread list \<Rightarrow> nat" where
  "loaders ts = length (filter (\<lambda>t. \<exists>c. t = Running c) ts)"

definition slot_inv :: "'e sys \<Rightarrow> bool" where
  "slot_inv y \<longleftrightarrow>
     loaders (threads y) = (case slot y of Loading _ \<Rightarrow> 1 | _ \<Rightarrow> 0)
   \<and> borrowers (threads y) = slot_in_flight (slot y)
   \<and> (\<forall>e \<in> {e. Holding e \<in> set (threads y)}. \<exists>n t. slot y = Ready e n t)"

lemma filter_update:
  "i < length ts \<Longrightarrow>
     length (filter P (ts[i := t])) + of_bool (P (ts ! i)) = length (filter P ts) + of_bool (P t)"
proof (induction ts arbitrary: i)
  case (Cons x ts)
  then show ?case by (cases i) auto
qed simp

lemma borrowers_update:
  "i < length ts \<Longrightarrow> borrowers (ts[i := t]) + of_bool (\<exists>e. ts ! i = Holding e) = borrowers ts + of_bool (\<exists>e. t = Holding e)"
  unfolding borrowers_def by (rule filter_update)

lemma loaders_update:
  "i < length ts \<Longrightarrow> loaders (ts[i := t]) + of_bool (\<exists>c. ts ! i = Running c) = loaders ts + of_bool (\<exists>c. t = Running c)"
  unfolding loaders_def by (rule filter_update)

lemma holding_update: "i < length ts \<Longrightarrow> Holding e \<in> set (ts[i := t]) \<Longrightarrow> t = Holding e \<or> Holding e \<in> set ts"
  using set_update_subset_insert [of ts i t] by auto

lemma borrowers_pos: "Holding e \<in> set ts \<Longrightarrow> 0 < borrowers ts"
  by (auto simp: borrowers_def filter_empty_conv)

lemma loaders_pos: "i < length ts \<Longrightarrow> ts ! i = Running c \<Longrightarrow> 0 < loaders ts"
  by (auto simp: loaders_def filter_empty_conv) (metis nth_mem)

text \<open>How a step of one thread changes the counts it takes part in.\<close>

lemma slot_inv_set:
  assumes "i < length (threads y)"
    and "loaders (threads y) + of_bool (\<exists>c. t = Running c) = (case s of Loading _ \<Rightarrow> 1 | _ \<Rightarrow> 0) + of_bool (\<exists>c. threads y ! i = Running c)"
    and "borrowers (threads y) + of_bool (\<exists>e. t = Holding e) = slot_in_flight s + of_bool (\<exists>e. threads y ! i = Holding e)"
    and "\<And>e. t = Holding e \<or> Holding e \<in> set (threads y) \<Longrightarrow> 0 < slot_in_flight s \<Longrightarrow> \<exists>n u. s = Ready e n u"
  shows "slot_inv (set_thread i t s y)"
proof -
  let ?ts = "(threads y)[i := t]"
  have l: "loaders ?ts = (case s of Loading _ \<Rightarrow> 1 | _ \<Rightarrow> 0)"
    using loaders_update [OF assms(1), of t] assms(2) by linarith
  have b: "borrowers ?ts = slot_in_flight s"
    using borrowers_update [OF assms(1), of t] assms(3) by linarith
  have "\<exists>n u. s = Ready e n u" if "Holding e \<in> set ?ts" for e
    using assms(4) [of e] holding_update [OF assms(1) that] borrowers_pos [OF that] b by simp
  with l b show ?thesis by (simp add: slot_inv_def set_thread_def)
qed

lemma slot_inv_step: "slot_step y z \<Longrightarrow> slot_inv y \<Longrightarrow> slot_inv z"
proof (induction rule: slot_step.induct)
  case (call i y c)
  then show ?case by (intro slot_inv_set) (auto simp: slot_inv_def)
next
  case (pass i y c d s)
  have inv: "loaders (threads y) = (case slot y of Loading _ \<Rightarrow> 1 | _ \<Rightarrow> 0)"
    "borrowers (threads y) = slot_in_flight (slot y)"
    "\<And>e. Holding e \<in> set (threads y) \<Longrightarrow> \<exists>n t. slot y = Ready e n t"
    using pass(4) by (auto simp: slot_inv_def)
  show ?case
  proof (rule slot_inv_set [OF pass(1)])
    show "loaders (threads y) + of_bool (\<exists>c'. after_pass c d = Running c')
        = (case s of Loading _ \<Rightarrow> 1 | _ \<Rightarrow> 0) + of_bool (\<exists>c'. threads y ! i = Running c')"
      using inv(1) pass(2,3) by (cases "slot y") (auto simp: after_pass_def split: if_splits slot.splits dest: sym)
    show "borrowers (threads y) + of_bool (\<exists>e. after_pass c d = Holding e)
        = slot_in_flight s + of_bool (\<exists>e. threads y ! i = Holding e)"
      using inv(2) pass(2,3) by (cases "slot y") (auto simp: after_pass_def split: if_splits dest: sym)
    show "\<exists>n u. s = Ready e n u" if "after_pass c d = Holding e \<or> Holding e \<in> set (threads y)" for e
      using inv(3) [of e] that pass(3) by (cases "slot y") (auto simp: after_pass_def split: if_splits)
  qed
next
  case (wake i y c)
  then show ?case by (intro slot_inv_set) (auto simp: slot_inv_def)
next
  case (load i y c r x s)
  have "0 < loaders (threads y)" by (rule loaders_pos [OF load(1,2)])
  with load(4) have lo: "\<exists>w. slot y = Loading w" "loaders (threads y) = 1"
    by (auto simp: slot_inv_def split: slot.splits)
  then obtain w where w: "slot y = Loading w" by blast
  have none: "borrowers (threads y) = 0" using load(4) w by (simp add: slot_inv_def)
  then have none': "Holding e \<notin> set (threads y)" for e using borrowers_pos by fastforce
  show ?case
  proof (cases r)
    case (Inl m)
    then have x: "x = Inl (LoadFailed m)" "s = Failed (clock y + c) m" using load(3) by auto
    show ?thesis
      unfolding x by (rule slot_inv_set [OF load(1)]) (simp_all add: load(2) lo(2) none none')
  next
    case (Inr e)
    then have x: "x = Inr e" "s = Ready e 1 (clock y)" using load(3) by auto
    show ?thesis
      unfolding x by (rule slot_inv_set [OF load(1)]) (simp_all add: load(2) lo(2) none none')
  qed
next
  case (peek i y e s)
  then obtain e' n t where "slot y = Ready e' n t" by (cases "slot y") auto
  with peek show ?case by (intro slot_inv_set) (auto simp: slot_inv_def)
next
  case (release i y e)
  then have mem: "Holding e \<in> set (threads y)" by (metis nth_mem)
  with release(3) obtain n t where s: "slot y = Ready e n t" by (auto simp: slot_inv_def)
  have "0 < n" using borrowers_pos [OF mem] release(3) s by (simp add: slot_inv_def)
  with release s show ?case by (intro slot_inv_set) (auto simp: slot_inv_def)
next
  case (evict y a r s)
  show ?case
  proof (cases "slot y")
    case (Ready e n t)
    with evict(1) consider "s = slot y" | "s = Empty" "n = 0" by (auto split: if_splits)
    then show ?thesis
    proof cases
      case 1
      with evict(2) show ?thesis by (simp add: slot_inv_def)
    next
      case 2
      then have b: "borrowers (threads y) = 0" "loaders (threads y) = 0"
        using evict(2) Ready by (simp_all add: slot_inv_def)
      then have "Holding e' \<notin> set (threads y)" for e' using borrowers_pos by fastforce
      with b 2 show ?thesis by (simp add: slot_inv_def)
    qed
  qed (use evict in \<open>auto simp: slot_inv_def\<close>)
next
  case (tick y k)
  then show ?case by (simp add: slot_inv_def)
qed

lemma slot_inv_reachable: "slot_reachable y \<Longrightarrow> slot_inv y"
proof (induction rule: slot_reachable.induct)
  case (start ts now e)
  then have "loaders ts = 0" "borrowers ts = 0" "\<And>e. Holding e \<notin> set ts"
    by (auto simp: loaders_def borrowers_def filter_empty_conv)
  then show ?case by (cases e) (simp_all add: slot_inv_def from_optional_def ready_def)
next
  case (step y z)
  then show ?case by (blast intro: slot_inv_step)
qed

subsection \<open>Properties\<close>

text \<open>
  C22: Loading is single-flight and no caller is left behind: in every interleaving at most one
  thread runs the factory, it does so exactly while the slot is loading, the in-flight count is the
  number of live borrows, and a thread that waits can go on at once or some loader is running. The factory
  returns, with a session or an error; \<open>abandoned_load\<close> is about one that does not.
\<close>

theorem slot_single_flight:
  assumes "slot_reachable y"
  shows "loaders (threads y) \<le> 1 \<and> (loaders (threads y) = 1 \<longleftrightarrow> (\<exists>w. slot y = Loading w))
    \<and> borrowers (threads y) = slot_in_flight (slot y)
    \<and> (i < length (threads y) \<and> threads y ! i = Waiting c \<longrightarrow>
         slot_step y (set_thread i (Demanding c) (slot y) y) \<or> (\<exists>d. Running d \<in> set (threads y)))"
proof -
  have inv: "slot_inv y" by (rule slot_inv_reachable [OF assms])
  have "\<exists>d. Running d \<in> set (threads y)" if "slot y = Loading w" for w
  proof -
    have "loaders (threads y) = 1" using inv that by (simp add: slot_inv_def)
    then have "filter (\<lambda>t. \<exists>c. t = Running c) (threads y) \<noteq> []" by (auto simp: loaders_def)
    then show ?thesis by (auto simp: filter_empty_conv)
  qed
  moreover have "slot_step y (set_thread i (Demanding c) (slot y) y)"
    if "i < length (threads y)" "threads y ! i = Waiting c" "\<forall>w. slot y \<noteq> Loading w"
    using that by (rule slot_step.wake)
  ultimately show ?thesis
    using inv by (auto simp: slot_inv_def split: slot.splits)
qed

lemma two_callers: "slot_reachable \<lparr>slot = Loading 1, threads = [Running 5, Waiting 5], clock = (0 :: nat)\<rparr>"
proof -
  let ?y = "\<lambda>s ts. \<lparr>slot = s, threads = ts, clock = (0 :: nat)\<rparr>"
  have 0: "slot_reachable (?y Empty [Idle, Idle])"
    using slot_reachable.start [of "[Idle, Idle]" 0 None] by (simp add: from_optional_def)
  have "slot_step (?y Empty [Idle, Idle]) (?y Empty [Demanding 5, Idle])"
    using slot_step.call [of 0 "?y Empty [Idle, Idle]" 5] by (simp add: set_thread_def)
  then have 1: "slot_reachable (?y Empty [Demanding 5, Idle])" by (rule slot_reachable.step [OF 0])
  have "slot_step (?y Empty [Demanding 5, Idle]) (?y (Loading 0) [Running 5, Idle])"
    using slot_step.pass [of 0 "?y Empty [Demanding 5, Idle]" 5 Claimed "Loading 0"]
    by (simp add: set_thread_def after_pass_def)
  then have 2: "slot_reachable (?y (Loading 0) [Running 5, Idle])" by (rule slot_reachable.step [OF 1])
  have "slot_step (?y (Loading 0) [Running 5, Idle]) (?y (Loading 0) [Running 5, Demanding 5])"
    using slot_step.call [of 1 "?y (Loading 0) [Running 5, Idle]" 5] by (simp add: set_thread_def)
  then have 3: "slot_reachable (?y (Loading 0) [Running 5, Demanding 5])" by (rule slot_reachable.step [OF 2])
  have "slot_step (?y (Loading 0) [Running 5, Demanding 5]) (?y (Loading 1) [Running 5, Waiting 5])"
    using slot_step.pass [of 1 "?y (Loading 0) [Running 5, Demanding 5]" 5 Wait "Loading 1"]
    by (simp add: set_thread_def after_pass_def)
  then show ?thesis by (rule slot_reachable.step [OF 3])
qed

theorem slot_single_flight_witness:
  "loaders [Running 5, Waiting (5 :: nat)] \<le> 1 \<and> (\<exists>d. Running d \<in> set [Running 5, Waiting (5 :: nat)])"
  using slot_single_flight [OF two_callers, of 1 5]
  by (auto elim: slot_stepE simp: set_thread_def)

text \<open>
  A session in use is never evicted: as long as a thread holds a borrow of it, the slot holds
  that very session and an eviction attempt, whatever the idle interval, is refused with the number
  of live borrows.
\<close>

theorem slot_eviction_safe:
  assumes "slot_reachable y" "Holding e \<in> set (threads y)"
  shows "try_idle_evict now a (slot y) = (InFlight (borrowers (threads y)), slot y)
    \<and> embedder (slot y) = e \<and> is_loaded (slot y)"
proof -
  have inv: "slot_inv y" by (rule slot_inv_reachable [OF assms(1)])
  with assms(2) obtain n t where s: "slot y = Ready e n t" by (auto simp: slot_inv_def)
  with inv borrowers_pos [OF assms(2)] show ?thesis by (simp add: slot_inv_def)
qed

lemma one_borrower: "slot_reachable \<lparr>slot = Ready ''m'' 1 7, threads = [Holding ''m''], clock = (7 :: nat)\<rparr>"
proof -
  let ?y = "\<lparr>slot = Ready ''m'' 0 7, threads = [Idle], clock = (7 :: nat)\<rparr>"
  have "slot_reachable ?y"
    using slot_reachable.start [of "[Idle]" 7 "Some ''m''"] by (simp add: from_optional_def ready_def)
  moreover have "slot_step ?y \<lparr>slot = Ready ''m'' 1 7, threads = [Holding ''m''], clock = (7 :: nat)\<rparr>"
    using slot_step.peek [of 0 ?y "''m''" "Ready ''m'' 1 7"] by (simp add: set_thread_def)
  ultimately show ?thesis by (rule slot_reachable.step)
qed

theorem slot_eviction_safe_witness:
  "try_idle_evict 1000 0 (Ready ''m'' 1 7) = (InFlight 1, Ready ''m'' 1 7)"
  using slot_eviction_safe [OF one_borrower, of "''m''" 1000 0] by (simp add: borrowers_def)

text \<open>
  Only the thread that loads takes the slot out of its loading state. When its factory panics that thread is gone: the
  slot is loading with nobody to publish a result, and stays so whatever is called, so that nobody borrows again and
  a caller can only wait.
\<close>

theorem abandoned_load:
  assumes "slot_step\<^sup>*\<^sup>* y z" "slot y = Loading w" "\<forall>t \<in> set (threads y). (\<nexists>c. t = Running c) \<and> (\<nexists>e. t = Holding e)"
  shows "(\<exists>w'. slot z = Loading w') \<and> (\<forall>t \<in> set (threads z). (\<nexists>c. t = Running c) \<and> (\<nexists>e. t = Holding e))"
  using assms(1)
proof (induction rule: rtranclp_induct)
  case base
  then show ?case using assms(2,3) by blast
next
  case (step x z)
  then obtain w' where x: "slot x = Loading w'" by blast
  have quiet: "(\<nexists>c. t = Running c) \<and> (\<nexists>e. t = Holding e)" if "t \<in> set ((threads x)[i := u])" "\<nexists>c. u = Running c" "\<nexists>e. u = Holding e" for t i u
    using set_update_subset_insert [of "threads x" i u] step.IH that by blast
  from step.hyps(2) show ?case
  proof (cases rule: slot_step.cases)
    case (pass i c d s)
    then have "d = Wait" "s = Loading (w' + 1)" using x by simp_all
    then show ?thesis using pass quiet [of _ i "Waiting c"] by (auto simp: set_thread_def after_pass_def)
  next
    case (load i c r u s)
    then show ?thesis using step.IH by (metis nth_mem)
  next
    case (release i e)
    then show ?thesis using step.IH by (metis nth_mem)
  qed (use x quiet step.IH in \<open>auto simp: set_thread_def\<close>)
qed

theorem abandoned_load_witness:
  "\<forall>z :: string sys. slot_step\<^sup>*\<^sup>* \<lparr>slot = Loading 0, threads = [Idle, Idle], clock = (0 :: nat)\<rparr> z \<longrightarrow> (\<exists>w'. slot z = Loading w')"
proof (intro allI impI)
  fix z :: "string sys"
  assume "slot_step\<^sup>*\<^sup>* \<lparr>slot = Loading 0, threads = [Idle, Idle], clock = (0 :: nat)\<rparr> z"
  from abandoned_load [OF this, of 0] show "\<exists>w'. slot z = Loading w'" by simp
qed

end
