(* ===== verification/Pipeline.thy ===== *)
theory Pipeline
  imports Planner Embed_Queue Lifecycle
begin

text \<open>
  The indexing pipeline (\<open>crates/cognis-indexer/src/pipeline.rs\<close>): a request is planned, its new symbols
  are embedded if a model is to hand, the batch is published and the embedding queue drained. What the
  model slot hands out, the fingerprint of the model and the faults of the transactions are fields of the
  argument \<open>en\<close>. The list of files in flight is only reported, so it is left out.
\<close>

subsection \<open>State\<close>

record pipeline_env =
  pl_tree :: plan_env
  pl_drain :: drain_env
  pl_budget :: nat
  pl_allow_load :: bool
  pl_borrow :: "Embed_Queue.embedder option"
  pl_digest :: string
  pl_model :: string
  pl_dbg :: "string \<Rightarrow> string"
  pl_faults :: txn_faults
  pl_clock :: int
  pl_drain_clock :: int

record index_stats =
  st_processed :: nat
  st_removed :: nat
  st_symbols :: nat
  st_edges :: nat
  st_redacted :: nat
  st_pending :: nat
  st_errors :: "string list"

definition default_stats :: index_stats where
  "default_stats = \<lparr>st_processed = 0, st_removed = 0, st_symbols = 0, st_edges = 0, st_redacted = 0, st_pending = 0, st_errors = []\<rparr>"

definition merge_stats :: "index_stats \<Rightarrow> index_stats \<Rightarrow> index_stats" where
  "merge_stats a b =
     \<lparr>st_processed = st_processed a + st_processed b, st_removed = st_removed a + st_removed b,
      st_symbols = st_symbols a + st_symbols b, st_edges = st_edges a + st_edges b,
      st_redacted = st_redacted a + st_redacted b, st_pending = st_pending a + st_pending b,
      st_errors = st_errors a @ st_errors b\<rparr>"

subsection \<open>The semantic part of a batch\<close>

datatype model_outcome = Vectors "(string \<times> f32 list) list" nat | NeedPending | NoSemantic

definition model_outcome :: "pipeline_env \<Rightarrow> symbol list \<Rightarrow> model_outcome" where
  "model_outcome en ss =
     (case pl_borrow en of
        None \<Rightarrow> if pl_allow_load en then NeedPending else NoSemantic
      | Some e \<Rightarrow>
          (case embed_batch e (map embedding_text ss) of
             Inl _ \<Rightarrow> NeedPending
           | Inr vs \<Rightarrow>
               if length vs = length ss
               then Vectors (zip (map sid ss) vs) (case vs of [] \<Rightarrow> embedding_dim e | v # _ \<Rightarrow> length v)
               else NeedPending))"

definition prepare_semantic_batch :: "pipeline_env \<Rightarrow> publish_batch \<Rightarrow> publish_batch" where
  "prepare_semantic_batch en b =
     (if symbol_upserts b = [] then b
      else let ids = map sid (symbol_upserts b);
               b = (case model_outcome en (symbol_upserts b) of
                      NoSemantic \<Rightarrow> b\<lparr>queue_enqueue := [], queue_remove := queue_remove b @ ids\<rparr>
                    | NeedPending \<Rightarrow>
                        b\<lparr>vector_upserts := [], queue_enqueue := map (\<lambda>s. (sid s, file_path s)) (symbol_upserts b)\<rparr>
                    | Vectors rows width \<Rightarrow>
                        b\<lparr>vector_upserts := rows, queue_enqueue := [], queue_remove := queue_remove b @ ids,
                          bfingerprint := Some \<lparr>fp_digest = pl_digest en, fp_dim = width, fp_model = pl_model en\<rparr>\<rparr>)
           in b\<lparr>queue_remove := bset (queue_remove b)\<rparr>)"

subsection \<open>Operations\<close>

definition drain_pending_vectors :: "pipeline_env \<Rightarrow> database \<Rightarrow> database \<times> (cognis_error + nat)" where
  "drain_pending_vectors en db =
     (case drain (pl_drain en) (pl_drain_clock en) (pl_budget en) db of
        (db, Inl e) \<Rightarrow> (db, Inl e)
      | (db, Inr out) \<Rightarrow> (db, Inr (pending_vectors out)))"

definition drain_only :: "pipeline_env \<Rightarrow> database \<Rightarrow> database \<times> (cognis_error + index_stats)" where
  "drain_only en db =
     (case drain_pending_vectors en db of
        (db, Inl e) \<Rightarrow> (db, Inl e)
      | (db, Inr n) \<Rightarrow> (db, Inr (default_stats\<lparr>st_pending := n\<rparr>)))"

definition publish_batch :: "pipeline_env \<Rightarrow> publish_batch \<Rightarrow> database \<Rightarrow> database \<times> (cognis_error + index_stats)" where
  "publish_batch en b db =
     (case publish_with_checkpoints (pl_dbg en) (dr_sqlite (pl_drain en)) (fst (pl_faults en)) (snd (pl_faults en)) (\<lambda>_. None)
             (pl_clock en) (prepare_semantic_batch en b) db of
        (db, Inl e) \<Rightarrow> (db, Inl e)
      | (db, Inr _) \<Rightarrow>
          (case drain_pending_vectors en db of
             (db, Inl e) \<Rightarrow> (db, Inl e)
           | (db, Inr n) \<Rightarrow>
               (db, Inr \<lparr>st_processed = length (file_rows b), st_removed = length (file_deletes b),
                         st_symbols = length (symbol_upserts b), st_edges = length (edge_upserts b),
                         st_redacted = length (filter (\<lambda>s. ''secret_redacted'' \<in> set (untrusted_flags s)) (symbol_upserts b)),
                         st_pending = n, st_errors = []\<rparr>)))"

definition publish_request ::
  "pipeline_env \<Rightarrow> string plan_request \<Rightarrow> database \<Rightarrow> database \<times> (cognis_error + index_stats)" where
  "publish_request en req db =
     (case plan (pl_tree en) db req of
        Inl e \<Rightarrow> (db, Inl e)
      | Inr b \<Rightarrow> if batch_is_empty b then drain_only en db else publish_batch en b db)"

definition index_repo :: "pipeline_env \<Rightarrow> bool \<Rightarrow> database \<Rightarrow> database \<times> (cognis_error + index_stats)" where
  "index_repo en full db = publish_request en (if full then Full else Reconcile) db"

definition index_changed_files :: "pipeline_env \<Rightarrow> string list \<Rightarrow> database \<Rightarrow> database \<times> (cognis_error + index_stats)" where
  "index_changed_files en paths db = (if paths = [] then drain_only en db else publish_request en (Touched paths) db)"

definition index_batch :: "pipeline_env \<Rightarrow> string list \<Rightarrow> database \<Rightarrow> database \<times> (cognis_error + index_stats)" where
  "index_batch en paths db = (if paths = [] then drain_only en db else publish_request en (Touched paths) db)"

text \<open>A file without a cache row may still have symbols; they are removed by their ids.\<close>

definition orphan_batch :: "string list \<Rightarrow> publish_batch" where
  "orphan_batch ids = (empty_batch RIncremental)\<lparr>symbol_deletes := ids, vector_deletes := ids, queue_remove := ids\<rparr>"

definition remove_file :: "pipeline_env \<Rightarrow> string \<Rightarrow> database \<Rightarrow> database \<times> (cognis_error + index_stats)" where
  "remove_file en p db =
     (case pe_rel (pl_tree en) p of
        None \<Rightarrow> (db, Inr default_stats)
      | Some rel \<Rightarrow>
          (case plan (pl_tree en) db (Touched [p]) of
             Inl e \<Rightarrow> (db, Inl e)
           | Inr b \<Rightarrow>
               if \<not> batch_is_empty b then publish_batch en b db
               else let ids = symbol_ids_in_file db rel
                    in if ids = [] then drain_only en db
                       else (case publish_batch en (orphan_batch ids) db of
                               (db, Inl e) \<Rightarrow> (db, Inl e)
                             | (db, Inr st) \<Rightarrow> (db, Inr (st\<lparr>st_removed := 1\<rparr>)))))"

text \<open>The model may be evicted only when no vector is pending, and it is idle.\<close>

definition try_idle_evict_model ::
  "nat \<Rightarrow> nat \<Rightarrow> nat \<Rightarrow> nat \<Rightarrow> cognis_error option \<Rightarrow> database \<Rightarrow> 'e slot \<Rightarrow> evict_outcome \<times> 'e slot" where
  "try_idle_evict_model now last_activity idle_after inflight read_err db s =
     (case read_err of
        Some _ \<Rightarrow> (InFlight 1, s)
      | None \<Rightarrow>
          if 0 < pending_vector_count db then (InFlight (pending_vector_count db), s)
          else if 0 < inflight then (InFlight inflight, s)
          else if now - last_activity < idle_after then (NotIdle (now - last_activity) idle_after, s)
          else try_idle_evict now idle_after s)"

text \<open>Opening a pipeline with an embedder at hand shapes the vector table for it.\<close>

definition with_embedder :: "sqlite_env \<Rightarrow> txn_faults \<Rightarrow> Embed_Queue.embedder option \<Rightarrow> database \<Rightarrow> database \<times> (cognis_error + unit)" where
  "with_embedder env f e db =
     (case e of
        Some emb \<Rightarrow> if 0 < embedding_dim emb then reconcile_embedding_dim env (fst f) (snd f) (embedding_dim emb) db else (db, Inr ())
      | None \<Rightarrow> (db, Inr ()))"

definition open_with_policy :: "pipeline_env \<Rightarrow> bool \<Rightarrow> Embed_Queue.embedder option \<Rightarrow> database \<Rightarrow> database \<times> (cognis_error + unit)" where
  "open_with_policy en eager built db =
     (case with_embedder (dr_sqlite (pl_drain en)) (pl_faults en) (if eager then built else None) db of
        (db, Inl e) \<Rightarrow> (db, Inl e)
      | (db, Inr _) \<Rightarrow> (fst (drain_pending_vectors en db), Inr ()))"

subsection \<open>Per-file writes\<close>

text \<open>\<open>writer.rs\<close>: the symbols of a file are stamped and written, then its edges, each in its own transaction.\<close>

definition write_file ::
  "txn_faults \<Rightarrow> txn_faults \<Rightarrow> int \<Rightarrow> symbol list \<Rightarrow> edge list \<Rightarrow> database \<Rightarrow> database \<times> (cognis_error + unit)" where
  "write_file f g now ss es db =
     (case (if ss = [] then (db, Inr ()) else upsert_symbols (fst f) (snd f) (map (\<lambda>s. s\<lparr>updated_at := now\<rparr>) ss) db) of
        (db, Inl e) \<Rightarrow> (db, Inl e)
      | (db, Inr _) \<Rightarrow> if es = [] then (db, Inr ()) else upsert_edges (fst g) (snd g) es db)"

fun delete_symbols :: "sqlite_env \<Rightarrow> (nat \<Rightarrow> txn_faults) \<Rightarrow> nat \<Rightarrow> string list \<Rightarrow> database \<Rightarrow> database \<times> (cognis_error + unit)" where
  "delete_symbols env f n [] db = (db, Inr ())"
| "delete_symbols env f n (i # is) db =
     (case delete_symbol env (fst (f n)) (snd (f n)) i db of
        (db, Inl e) \<Rightarrow> (db, Inl e)
      | (db, Inr _) \<Rightarrow> delete_symbols env f (Suc n) is db)"

subsection \<open>Every operation keeps the index consistent\<close>

definition narrow_models :: "pipeline_env \<Rightarrow> bool" where
  "narrow_models en \<longleftrightarrow> (\<forall>n e. dr_borrow (pl_drain en) n = Some e \<longrightarrow> embedding_dim e < 2 ^ 64)"

abbreviation index_fine :: "pipeline_env \<Rightarrow> database \<Rightarrow> bool" where
  "index_fine en \<equiv> index_ok (dr_sqlite (pl_drain en))"

lemma drain_keeps:
  assumes "narrow_models en" "index_fine en db"
  shows "index_fine en (fst (drain_pending_vectors en db))" "index_fine en (fst (drain_only en db))"
proof -
  obtain d x where d: "drain (pl_drain en) (pl_drain_clock en) (pl_budget en) db = (d, x)" by fastforce
  have "index_fine en d" by (rule index_ok_drain [OF d assms(2)]) (use assms(1) in \<open>simp add: narrow_models_def\<close>)
  with d show "index_fine en (fst (drain_pending_vectors en db))" "index_fine en (fst (drain_only en db))"
    by (simp_all add: drain_only_def drain_pending_vectors_def split: sum.splits prod.splits)
qed

lemma publish_batch_keeps:
  assumes "narrow_models en" "index_fine en db"
  shows "index_fine en (fst (publish_batch en b db))"
proof -
  obtain d x where p: "publish_with_checkpoints (pl_dbg en) (dr_sqlite (pl_drain en)) (fst (pl_faults en)) (snd (pl_faults en)) (\<lambda>_. None)
      (pl_clock en) (prepare_semantic_batch en b) db = (d, x)" by fastforce
  have "index_fine en d" using publish_keeps [OF p] assms(2) by (simp add: index_ok_def)
  with p drain_keeps(1) [OF assms(1), of d] show ?thesis
    by (auto simp: publish_batch_def split: sum.splits prod.splits)
qed

lemma publish_request_keeps:
  assumes "narrow_models en" "index_fine en db"
  shows "index_fine en (fst (publish_request en req db))"
  using assms drain_keeps(2) [OF assms] publish_batch_keeps [OF assms]
  by (simp add: publish_request_def split: sum.split)

interpretation requests: index_writer env "\<lambda>(en, req) db.
    if narrow_models en \<and> dr_sqlite (pl_drain en) = env then publish_request en req db else (db, Inr default_stats)" for env
  by unfold_locales (auto simp: publish_request_keeps)

text \<open>
  C5: Whatever fails in planning, embedding, publishing or draining, every entry point of the pipeline leaves a
  consistent index: an error is reported with the index of the last committed transaction.
\<close>

theorem pipeline_keeps_index:
  assumes "narrow_models en" "index_fine en db"
  shows "index_fine en (fst (index_repo en full db)) \<and> index_fine en (fst (index_changed_files en paths db))
    \<and> index_fine en (fst (index_batch en paths db)) \<and> index_fine en (fst (remove_file en p db))"
proof -
  have "index_fine en (fst (remove_file en p db))"
    using assms drain_keeps(2) [OF assms] publish_batch_keeps [OF assms]
    by (auto simp: remove_file_def Let_def split: option.split sum.splits prod.splits) (metis fst_conv)+
  then show ?thesis
    using assms drain_keeps(2) [OF assms] publish_request_keeps [OF assms]
    by (simp add: index_repo_def index_changed_files_def index_batch_def)
qed

subsection \<open>A pipeline without a model\<close>

lemma prepare_same_rows: "same_rows (prepare_semantic_batch en b) b"
  by (cases "model_outcome en (symbol_upserts b)") (simp_all add: prepare_semantic_batch_def same_rows_def Let_def)

definition lexical_only :: "pipeline_env \<Rightarrow> bool" where
  "lexical_only en \<longleftrightarrow> pl_borrow en = None \<and> pl_faults en = (None, None)
     \<and> dr_open_fault (pl_drain en) = None \<and> dr_snapshot_fault (pl_drain en) = None
     \<and> (\<forall>n. dr_borrow (pl_drain en) n = None \<and> dr_write_faults (pl_drain en) n = (None, None)
            \<and> dr_read_faults (pl_drain en) n = None \<and> dr_failure_faults (pl_drain en) n = None)"

lemma prepare_lexical: "pl_borrow en = None \<Longrightarrow> vector_upserts b = [] \<Longrightarrow> vector_upserts (prepare_semantic_batch en b) = []"
  by (simp add: prepare_semantic_batch_def model_outcome_def Let_def)

lemma lexical_rows:
  assumes "\<forall>n. dr_borrow en n = None \<and> dr_write_faults en n = (None, None)
      \<and> dr_read_faults en n = None \<and> dr_failure_faults en n = None"
  shows "\<exists>db' d. drain_rows en now n rows k db = (db', Inr d) \<and> db_symbols db' = db_symbols db \<and> db_files db' = db_files db"
  using assms
proof (induction rows arbitrary: n k db)
  case (Cons row rows)
  let ?gone = "advance_semantic_if_queue_empty now (delete_queued (du_symbol row) db)"
  have "db_symbols ?gone = db_symbols db \<and> db_files ?gone = db_files db"
    by (simp add: advance_semantic_if_queue_empty_def delete_queued_def)
  then show ?case
    using Cons.prems Cons.IH [OF Cons.prems, of "Suc n" k ?gone]
      Cons.IH [OF Cons.prems, of "Suc n" k "reschedule (dr_ladder en) row ''embedder unavailable'' now db"]
    by (auto simp: remove_stale_queue_row_def with_write_txn_def embed_symbol_def record_failure_def split: list.split)
qed simp

lemma lexical_drain:
  assumes "lexical_only en"
  shows "\<exists>db'. drain_pending_vectors en db = (db', Inr (pending_vector_count db')) \<and> db_symbols db' = db_symbols db
    \<and> db_files db' = db_files db"
proof -
  obtain db1 d where "drain_rows (pl_drain en) (pl_drain_clock en) 0 (due_rows (pl_drain_clock en) (pl_budget en) db) 0 db = (db1, Inr d)"
    "db_symbols db1 = db_symbols db" "db_files db1 = db_files db"
    using lexical_rows [of "pl_drain en"] assms by (fastforce simp: lexical_only_def)
  then have "\<exists>db' d'. drain (pl_drain en) (pl_drain_clock en) (pl_budget en) db = (db', Inr (pending_snapshot db'\<lparr>drained_count := d'\<rparr>))
      \<and> db_symbols db' = db_symbols db \<and> db_files db' = db_files db"
    using assms by (auto simp: drain_def read_snapshot_def lexical_only_def Let_def)
  then show ?thesis by (fastforce simp: drain_pending_vectors_def pending_snapshot_def)
qed

lemma mirrors_cong:
  "db_symbols db' = db_symbols db \<Longrightarrow> db_files db' = db_files db \<Longrightarrow> mirrors pe db' = mirrors pe db"
  by (simp add: mirrors_def symbols_in_file_def list_symbols_def)

lemma batch_empty_empty: "batch_is_empty (empty_batch r)"
  by (simp add: batch_is_empty_def empty_batch_def)

lemma lexical_publish:
  assumes "lexical_only en" "index_fine en db" "vector_upserts b = []"
  shows "\<exists>db1 r db' st. publish (pl_dbg en) (dr_sqlite (pl_drain en)) (pl_clock en) (prepare_semantic_batch en b) db = (db1, Inr r)
    \<and> publish_batch en b db = (db', Inr st) \<and> db_symbols db' = db_symbols db1 \<and> db_files db' = db_files db1
    \<and> st_processed st = length (file_rows b) \<and> st_removed st = length (file_deletes b) \<and> st_symbols st = length (symbol_upserts b)
    \<and> st_edges st = length (edge_upserts b) \<and> st_pending st = pending_vector_count db' \<and> st_errors st = []"
proof -
  have "vector_upserts (prepare_semantic_batch en b) = []"
    using assms(1,3) by (intro prepare_lexical) (simp_all add: lexical_only_def)
  then obtain db1 r where p: "publish (pl_dbg en) (dr_sqlite (pl_drain en)) (pl_clock en) (prepare_semantic_batch en b) db = (db1, Inr r)"
    using publish_progress assms(2) unfolding index_ok_def by blast
  obtain db' where d: "drain_pending_vectors en db1 = (db', Inr (pending_vector_count db'))" "db_symbols db' = db_symbols db1"
      "db_files db' = db_files db1"
    using lexical_drain [OF assms(1)] by blast
  have "publish_with_checkpoints (pl_dbg en) (dr_sqlite (pl_drain en)) (fst (pl_faults en)) (snd (pl_faults en)) (\<lambda>_. None)
      (pl_clock en) (prepare_semantic_batch en b) db = (db1, Inr r)"
    using p assms(1) by (simp add: publish_def lexical_only_def)
  with p d show ?thesis by (auto simp: publish_batch_def)
qed

text \<open>
  What a full run reports: the files of the tree, the rows it drops, the symbols it parsed, the edges of its
  batch, and the vectors still owed.
\<close>

definition full_stats :: "plan_env \<Rightarrow> database \<Rightarrow> publish_batch \<Rightarrow> database \<Rightarrow> index_stats \<Rightarrow> bool" where
  "full_stats pe db b db' st \<longleftrightarrow>
     st_processed st = card (set (admitted_rel_paths pe))
     \<and> st_removed st = card {p \<in> fst ` set (db_files db). p \<notin> set (admitted_rel_paths pe)}
     \<and> st_symbols st = (\<Sum>p \<in> set (admitted_rel_paths pe). length (pf_symbols (the (source_file pe p))))
     \<and> st_edges st = length (edge_upserts b) \<and> st_pending st = pending_vector_count db' \<and> st_errors st = []"

lemma lexical_full_run:
  assumes "lexical_only en" "index_fine en db" "tree_listed (pl_tree en)" "readable (pl_tree en)"
    "ids_by_file (pl_tree en) owner" "rows_by_file db owner" "files_tracked db"
  shows "\<exists>b db' st. plan (pl_tree en) db Full = Inr b \<and> index_repo en True db = (db', Inr st) \<and> mirrors (pl_tree en) db'
    \<and> full_stats (pl_tree en) db b db' st"
proof -
  have inv: "store_inv (dr_sqlite (pl_drain en)) db" using assms(2) by (simp add: index_ok_def)
  obtain b where b: "plan (pl_tree en) db Full = Inr b" using plan_total assms(3,4) by blast
  note counts = full_plan_counts [OF b inv assms(3,4)]
  obtain db1 r db' st where p: "publish (pl_dbg en) (dr_sqlite (pl_drain en)) (pl_clock en) (prepare_semantic_batch en b) db = (db1, Inr r)"
    "publish_batch en b db = (db', Inr st)" "db_symbols db' = db_symbols db1" "db_files db' = db_files db1"
    and st: "st_processed st = length (file_rows b)" "st_removed st = length (file_deletes b)" "st_symbols st = length (symbol_upserts b)"
      "st_edges st = length (edge_upserts b)" "st_pending st = pending_vector_count db'" "st_errors st = []"
    using lexical_publish [OF assms(1,2) plan_no_vectors [OF b]] by blast
  have m1: "mirrors (pl_tree en) db1"
    using published_full_mirrors [OF b prepare_same_rows p(1) inv assms(3-7)] by simp
  show ?thesis
  proof (cases "batch_is_empty b")
    case False
    then have "index_repo en True db = (db', Inr st)" using b p(2) by (simp add: index_repo_def publish_request_def)
    moreover have "mirrors (pl_tree en) db'" using m1 p(3,4) mirrors_cong [of db' db1] by simp
    moreover have "full_stats (pl_tree en) db b db' st" using st counts by (simp add: full_stats_def)
    ultimately show ?thesis using b by blast
  next
    case True
    obtain db2 where d: "drain_pending_vectors en db = (db2, Inr (pending_vector_count db2))" "db_symbols db2 = db_symbols db"
        "db_files db2 = db_files db"
      using lexical_drain [OF assms(1)] by blast
    have "symbols_after b db = map_of (db_symbols db) \<and> files_after b db = map_of (db_files db)"
      using True
      by (simp add: batch_is_empty_def symbols_after_def [abs_def] files_after_def [abs_def] removed_symbols_def symbol_written_def latest_def)
    then have "map_of (db_symbols db1) = map_of (db_symbols db)" "map_of (db_files db1) = map_of (db_files db)"
      using publish_tables(1,3) [OF p(1) inv] same_rows_after [OF prepare_same_rows [of en b]] by auto
    moreover have "store_inv (dr_sqlite (pl_drain en)) db1" by (rule publish_store_inv [OF p(1) inv])
    ultimately have "db_symbols db1 = db_symbols db" "db_files db1 = db_files db"
      using inv by (auto simp: store_inv_def db_ok_def intro!: bt_eqI)
    then have "mirrors (pl_tree en) db2" using m1 d(2,3) mirrors_cong [of db2 db1] by simp
    moreover have "index_repo en True db = (db2, Inr (default_stats\<lparr>st_pending := pending_vector_count db2\<rparr>))"
      using b True d(1) by (simp add: index_repo_def publish_request_def drain_only_def)
    moreover have "full_stats (pl_tree en) db b db2 (default_stats\<lparr>st_pending := pending_vector_count db2\<rparr>)"
      using counts True by (simp add: full_stats_def default_stats_def batch_is_empty_def)
    ultimately show ?thesis using b by blast
  qed
qed

text \<open>
  C4: Without a model and without a fault the pipeline still indexes: a full run of a readable tree succeeds
  and leaves the image of the tree. It reports the number of the tree's files as processed, of the dropped
  rows as removed, of the parsed symbols and the planned edges, and the queue's length as pending. If every
  file parsed completely (\<open>settled_tree\<close>), the run that follows on the unchanged tree finds no file to
  process. Assumed are that an id names the file it comes from, in what the parsers report and in the index,
  and that the file of every indexed symbol has a row.
\<close>

theorem lexical_index_converges:
  assumes "lexical_only en" "index_fine en db" "tree_listed (pl_tree en)" "readable (pl_tree en)"
    "ids_by_file (pl_tree en) owner" "rows_by_file db owner" "files_tracked db"
  shows "\<exists>b db' st. plan (pl_tree en) db Full = Inr b \<and> index_repo en True db = (db', Inr st) \<and> mirrors (pl_tree en) db'
    \<and> full_stats (pl_tree en) db b db' st
    \<and> (settled_tree (pl_tree en) \<longrightarrow>
        (\<exists>db'' st'. index_repo en False db' = (db'', Inr st') \<and> mirrors (pl_tree en) db''
          \<and> st_processed st' = 0 \<and> st_removed st' = 0 \<and> st_symbols st' = 0 \<and> st_edges st' = 0))"
proof -
  have nm: "narrow_models en" using assms(1) by (simp add: narrow_models_def lexical_only_def)
  obtain b dba sta where a: "plan (pl_tree en) db Full = Inr b" "index_repo en True db = (dba, Inr sta)" "mirrors (pl_tree en) dba"
    "full_stats (pl_tree en) db b dba sta"
    using lexical_full_run [OF assms] by blast
  have fine: "index_fine en dba" using publish_request_keeps [OF nm assms(2), of Full] a(2) by (simp add: index_repo_def)
  have "\<exists>db'' st'. index_repo en False dba = (db'', Inr st') \<and> mirrors (pl_tree en) db''
      \<and> st_processed st' = 0 \<and> st_removed st' = 0 \<and> st_symbols st' = 0 \<and> st_edges st' = 0" if "settled_tree (pl_tree en)"
  proof -
    have rec: "plan (pl_tree en) dba Reconcile = Inr (empty_batch RReconcile)"
      using mirrored_reconcile fine a(3) assms(4) that unfolding index_ok_def by blast
    obtain dbb where d: "drain_pending_vectors en dba = (dbb, Inr (pending_vector_count dbb))" "db_symbols dbb = db_symbols dba"
        "db_files dbb = db_files dba"
      using lexical_drain [OF assms(1)] by blast
    have "index_repo en False dba = (dbb, Inr (default_stats\<lparr>st_pending := pending_vector_count dbb\<rparr>))"
      using rec d(1) by (simp add: index_repo_def publish_request_def batch_empty_empty drain_only_def)
    moreover have "mirrors (pl_tree en) dbb" using a(3) d(2,3) mirrors_cong [of dbb dba] by simp
    ultimately show ?thesis by (auto simp: default_stats_def)
  qed
  with a show ?thesis by blast
qed

subsection \<open>A model that loads on demand\<close>

text \<open>A model of dimension two, a first batch it embeds, and a second one that comes while it cannot.\<close>

definition small_model :: Embed_Queue.embedder where
  "small_model = \<lparr>embedding_dim = 2, embed_batch = (\<lambda>ts. Inr (map (\<lambda>_. [1, 0]) ts))\<rparr>"

definition small_pipeline :: "Embed_Queue.embedder option \<Rightarrow> pipeline_env" where
  "small_pipeline borrowed =
     \<lparr>pl_tree = sample_tree [] True, pl_drain = sample_drain (Some small_model), pl_budget = 0, pl_allow_load = True,
      pl_borrow = borrowed, pl_digest = ''m'', pl_model = ''m'', pl_dbg = id, pl_faults = (None, None), pl_clock = 7, pl_drain_clock = 7\<rparr>"

definition one_symbol_batch :: "string \<Rightarrow> publish_batch" where
  "one_symbol_batch i = (empty_batch RIncremental)\<lparr>symbol_upserts := [sample_symbol ''f'' i]\<rparr>"

definition embedded_first :: database where
  "embedded_first =
     empty_database\<lparr>db_symbols := [(''a'', sample_symbol ''f'' ''a'')], db_fts := [(''a'', fts_doc_of (sample_symbol ''f'' ''a''))],
       db_vec := [(''a'', [1, 0])], db_space := Some \<lparr>vs_digest = ''m'', vs_dim = 2, vs_model = ''m'', vs_established_at = 7\<rparr>,
       db_generation := Some \<lparr>source_generation = 1, semantic_generation = 1, gen_updated_at = 7\<rparr>,
       db_batches := [(1, \<lparr>br_committed_at = 7, br_file_count = 0, br_reason = ''incremental''\<rparr>)]\<rparr>"

definition pending_second :: database where
  "pending_second =
     embedded_first\<lparr>db_symbols := [(''a'', sample_symbol ''f'' ''a''), (''b'', sample_symbol ''f'' ''b'')],
       db_fts := db_fts embedded_first @ [(''b'', fts_doc_of (sample_symbol ''f'' ''b''))],
       db_queue := [(''b'', fresh_queue_row 7 ''f'')],
       db_generation := Some \<lparr>source_generation = 2, semantic_generation = 1, gen_updated_at = 7\<rparr>,
       db_batches := [(1, \<lparr>br_committed_at = 7, br_file_count = 0, br_reason = ''incremental''\<rparr>),
                      (2, \<lparr>br_committed_at = 7, br_file_count = 0, br_reason = ''incremental''\<rparr>)]\<rparr>"

lemmas evaluation = publish_batch_def publish_with_checkpoints_def with_write_txn_def publish_body_def publish_stages_def on_db_def on_db_err_def
  prepare_semantic_batch_def model_outcome_def drain_pending_vectors_def drain_def read_snapshot_def pending_snapshot_def
  empty_batch_def upsert_symbol_def upsert_vector_space_and_vectors_def
  classify_change_def first_bad_vector_def establish_space_def reshape_vectors_def vec0_table_present_def prepare_vec_def
  replace_vector_def insert_vector_def delete_vector_def collect_file_symbol_ids_def delete_file_queue_rows_def
  delete_file_rows_def advance_generation_def record_stage_def record_batch_def covered_paths_def receipt_of_def
  delete_queued_def fts_doc_of_def enqueue_symbol_def recreate_vec_table_def kept_vectors_def bset_def fresh_queue_row_def

lemma first_batch:
  "\<exists>st. publish_batch (small_pipeline (Some small_model)) (one_symbol_batch ''a'') empty_database = (embedded_first, Inr st)"
  by (simp add: embedded_first_def evaluation small_pipeline_def small_model_def one_symbol_batch_def sample_drain_def
      plain_env_def empty_database_def sample_symbol_def Let_def)

lemma second_batch:
  "\<exists>st. publish_batch (small_pipeline None) (one_symbol_batch ''b'') embedded_first = (pending_second, Inr st)"
  by (simp add: pending_second_def embedded_first_def evaluation small_pipeline_def small_model_def one_symbol_batch_def sample_drain_def
      plain_env_def empty_database_def sample_symbol_def Let_def)

lemma second_drain:
  "\<exists>db out. drain (sample_drain (Some small_model)) 9 8 pending_second = (db, Inr out) \<and> drained_count out = 1 \<and> db_vec db = [(''b'', [1, 0])]
    \<and> db_symbols db = db_symbols pending_second \<and> db_queue db = []
    \<and> db_generation db = Some \<lparr>source_generation = 2, semantic_generation = 2, gen_updated_at = 9\<rparr>"
proof -
  have due: "due_rows 9 8 pending_second = [\<lparr>du_symbol = ''b'', du_file = ''f'', du_attempts = 0\<rparr>]"
    by (simp add: due_rows_def pending_second_def fresh_queue_row_def)
  have "hydrate_ids pending_second [''b''] = [sample_symbol ''f'' ''b'']"
    by (subst symbols_by_values_filter)
      (simp_all add: pending_second_def embedded_first_def db_ok_def empty_database_def bt_wf_def sample_symbol_def list_symbols_def)
  moreover have "map_of (db_meta pending_second) k = None" "db_vec_form pending_second = None" for k
    by (simp_all add: pending_second_def embedded_first_def empty_database_def)
  ultimately show ?thesis
    by (simp add: drain_def read_snapshot_def pending_snapshot_def due embed_symbol_def sample_drain_def small_model_def reconcile_embedding_dim_def with_write_txn_def
        recreate_vec_table_def vec0_table_present_def plain_env_def persist_success_def upsert_symbol_vectors_def prepare_vec_def
        replace_vector_def insert_vector_def delete_vector_def advance_semantic_if_queue_empty_def pending_vector_count_def delete_queued_def
        DEFAULT_EMBEDDING_DIM_def Let_def)
      (simp add: pending_second_def)
qed

text \<open>
  C40: A publication does not record the dimension of its vectors where the drain looks for it. So whatever
  the index and the batch, if the recorded dimension is not the one of the model, the first drain that
  embeds a symbol drops every vector the publication wrote or kept: a symbol that was not queued is still
  in the index, but has no vector and is queued nowhere. When the queue is empty the semantic generation is
  nevertheless recorded as caught up.
\<close>

theorem drain_drops_published_vectors:
  assumes "index_ok (dr_sqlite en) db0" "publish dbg (dr_sqlite en) now b db0 = (db, Inr r)"
    and "recorded_dim db0 \<noteq> d" "0 < d" "d < 2 ^ 64" "\<And>n e. dr_borrow en n = Some e \<Longrightarrow> embedding_dim e = d"
    and "drain en later budget db = (db', Inr out)" "0 < drained_count out"
    and "i \<notin> fst ` set (db_queue db)" "i \<in> fst ` set (db_symbols db)"
  shows "i \<in> fst ` set (db_symbols db') \<and> i \<notin> fst ` set (db_vec db') \<and> i \<notin> fst ` set (db_queue db')
    \<and> (db_queue db' = [] \<longrightarrow> map_option semantic_generation (db_generation db') = map_option source_generation (db_generation db'))"
proof -
  have ok: "index_ok (dr_sqlite en) db"
    using publish_keeps [OF assms(2) [unfolded publish_def]] assms(1) unfolding index_ok_def by blast
  have rec: "recorded_dim db \<noteq> d" using assms(3) recorded_dim_cong [OF publish_meta [OF assms(2)]] by simp
  obtain y where "drain_rows en later 0 (due_rows later budget db) 0 db = (db', y)" "y = Inr (drained_count out)"
    using drain_cases [OF assms(7)] assms(8) by auto
  then have run: "drain_rows en later 0 (due_rows later budget db) 0 db = (db', Inr (drained_count out))" by simp
  have "(recorded_dim db' \<noteq> d \<and> drained_count out = 0 \<or> fst ` set (db_vec db') \<subseteq> fst ` set (db_queue db))
      \<and> fst ` set (db_queue db') \<subseteq> fst ` set (db_queue db)"
  proof (rule drain_rows_unrecorded [OF run ok _ assms(4,5) _ due_rows_queued])
    show "dr_borrow en n = Some e \<Longrightarrow> embedding_dim e = d" for n e by (rule assms(6))
  qed (simp add: rec)
  then have vec: "fst ` set (db_vec db') \<subseteq> fst ` set (db_queue db)" and queue: "fst ` set (db_queue db') \<subseteq> fst ` set (db_queue db)"
    using assms(8) by (simp_all del: set_map)
  have fine: "index_ok (dr_sqlite en) db'"
  proof (rule index_ok_drain [OF assms(7) ok])
    show "dr_borrow en n = Some e \<Longrightarrow> embedding_dim e < 2 ^ 64" for n e using assms(5) assms(6) [of n e] by simp
  qed
  then obtain g where g: "db_generation db' = Some g" "semantic_generation g = source_generation g \<longleftrightarrow> db_queue db' = []"
    unfolding index_ok_def log_inv_def by blast
  have sym: "i \<in> fst ` set (db_symbols db')"
  proof (rule drain_symbols [OF assms(7) ok _ assms(5,10)])
    show "dr_borrow en n = Some e \<Longrightarrow> embedding_dim e = d" for n e by (rule assms(6))
  qed
  have "i \<notin> fst ` set (db_vec db')" "i \<notin> fst ` set (db_queue db')" using vec queue assms(9) by (meson subsetD)+
  with sym g show ?thesis by simp
qed

subsection \<open>Witnesses\<close>

lemma index_ok_empty: "index_ok env empty_database"
  by (simp add: index_ok_def store_inv_empty log_inv_empty)

definition lexical_pipeline :: pipeline_env where
  "lexical_pipeline = (small_pipeline None)\<lparr>pl_drain := sample_drain None, pl_budget := 8\<rparr>"

theorem pipeline_keeps_index_witness:
  "index_fine (small_pipeline None) (fst (index_repo (small_pipeline None) True empty_database))
   \<and> index_fine (small_pipeline None) (fst (index_changed_files (small_pipeline None) [''a.py''] empty_database))
   \<and> index_fine (small_pipeline None) (fst (index_batch (small_pipeline None) [] empty_database))
   \<and> index_fine (small_pipeline None) (fst (remove_file (small_pipeline None) ''a.py'' empty_database))"
proof -
  have "narrow_models (small_pipeline None)"
    by (simp add: narrow_models_def small_pipeline_def sample_drain_def small_model_def)
  from pipeline_keeps_index [OF this index_ok_empty] show ?thesis by blast
qed

theorem lexical_index_converges_witness:
  "\<exists>b db' st db'' st'. index_repo lexical_pipeline True empty_database = (db', Inr st) \<and> mirrors (sample_tree [] True) db'
    \<and> full_stats (sample_tree [] True) empty_database b db' st
    \<and> index_repo lexical_pipeline False db' = (db'', Inr st') \<and> mirrors (sample_tree [] True) db''
    \<and> st_processed st' = 0 \<and> st_removed st' = 0 \<and> st_symbols st' = 0"
proof -
  have "lexical_only lexical_pipeline" and t: "pl_tree lexical_pipeline = sample_tree [] True"
    by (simp_all add: lexical_pipeline_def small_pipeline_def sample_drain_def lexical_only_def)
  from lexical_index_converges [OF this(1) index_ok_empty, unfolded t, OF sample_tree_ok(1-5)] sample_tree_ok(6)
  show ?thesis by blast
qed

lemma second_publication:
  "\<exists>r. publish id plain_env 7 (prepare_semantic_batch (small_pipeline None) (one_symbol_batch ''b'')) embedded_first = (pending_second, Inr r)"
  by (simp add: publish_def pending_second_def embedded_first_def evaluation small_pipeline_def one_symbol_batch_def
      plain_env_def empty_database_def sample_symbol_def Let_def)

lemma index_ok_embedded_first: "index_ok plain_env embedded_first"
proof -
  obtain st where "publish_batch (small_pipeline (Some small_model)) (one_symbol_batch ''a'') empty_database = (embedded_first, Inr st)"
    using first_batch by blast
  moreover have "narrow_models (small_pipeline (Some small_model))" "dr_sqlite (pl_drain (small_pipeline (Some small_model))) = plain_env"
    by (simp_all add: narrow_models_def small_pipeline_def sample_drain_def small_model_def)
  ultimately show ?thesis using publish_batch_keeps [OF _ index_ok_empty] by (metis fst_conv)
qed

theorem drain_drops_published_vectors_witness:
  "\<exists>db r db' out. publish id plain_env 7 (prepare_semantic_batch (small_pipeline None) (one_symbol_batch ''b'')) embedded_first = (db, Inr r)
    \<and> map_of (db_vec db) ''a'' = Some [1, 0] \<and> drain (sample_drain (Some small_model)) 9 8 db = (db', Inr out)
    \<and> ''a'' \<in> fst ` set (db_symbols db') \<and> ''a'' \<notin> fst ` set (db_vec db') \<and> ''a'' \<notin> fst ` set (db_queue db')"
proof -
  have env: "dr_sqlite (sample_drain (Some small_model)) = plain_env" by (simp add: sample_drain_def)
  obtain r where p: "publish id plain_env 7 (prepare_semantic_batch (small_pipeline None) (one_symbol_batch ''b'')) embedded_first
      = (pending_second, Inr r)" using second_publication by blast
  obtain db out where d: "drain (sample_drain (Some small_model)) 9 8 pending_second = (db, Inr out)" "drained_count out = 1"
    using second_drain by blast
  have rec: "recorded_dim embedded_first \<noteq> 2"
    by (simp add: recorded_dim_def embedded_first_def empty_database_def DEFAULT_EMBEDDING_DIM_def)
  have "''a'' \<in> fst ` set (db_symbols db) \<and> ''a'' \<notin> fst ` set (db_vec db) \<and> ''a'' \<notin> fst ` set (db_queue db)"
    using drain_drops_published_vectors [where d = 2 and i = "''a''", OF index_ok_embedded_first [folded env] p [folded env] rec _ _ _ d(1)] d(2)
    by (simp add: sample_drain_def small_model_def pending_second_def)
  moreover have "map_of (db_vec pending_second) ''a'' = Some [1, 0]" by (simp add: pending_second_def embedded_first_def)
  ultimately show ?thesis using p d(1) by blast
qed

end
