(* ===== verification/Impact.thy ===== *)
theory Impact
  imports Diffuse Complexity
begin

text \<open>
  Change-impact analysis over the reverse graphs (\<open>crates/cognis-csar/src/impact.rs\<close>) and its
  report types (\<open>crates/cognis-core/src/complexity.rs\<close>). The order in which the code iterates the
  estimate map is the argument \<open>iter\<close>; symbols by id are a finite map.
\<close>

subsection \<open>Reports\<close>

record impact_dimensions =
  structural_blast_radius :: f64
  complexity_amplification :: f64
  contract_breakage_risk :: f64
  test_coverage_gap :: f64

record amplification_path =
  ap_caller_id :: string
  ap_caller_name :: string
  ap_caller_file :: string
  ap_caller_line :: nat
  cumulative_loop_depth :: u8
  amplification_factor :: f64
  time_before :: string
  time_after :: string
  call_chain :: "string list"

record breakage_site =
  bs_caller_id :: string
  bs_caller_name :: string
  bs_caller_file :: string
  bs_caller_line :: nat
  target_symbol :: string
  bs_reason :: string
  severity :: f64

record impact_report =
  impact_level :: string
  composite_risk_score :: f64
  dimensions :: impact_dimensions
  breaking_call_sites :: "breakage_site list"
  complexity_amplifications :: "amplification_path list"
  affected_entrypoints :: "string list"
  minimal_test_suite :: "string list"
  untested_high_risk_paths :: "string list"
  reached_symbol_count :: nat
  reached_module_count :: nat

subsection \<open>Seeds\<close>

definition CSIA_BEHAVIORAL_ALPHA :: f64 where "CSIA_BEHAVIORAL_ALPHA = 15/100"
definition CSIA_COMPLEXITY_ALPHA :: f64 where "CSIA_COMPLEXITY_ALPHA = 10/100"
definition CSIA_DEFAULT_EPS :: f64 where "CSIA_DEFAULT_EPS = 1/100000"

record impact_seed =
  seed_id :: string
  contract_severity :: f64
  contract_reason :: "string option"
  old_complexity :: complexity_class
  new_complexity :: complexity_class

text \<open>\<open>f64::clamp\<close>.\<close>

definition clamp :: "f64 \<Rightarrow> f64 \<Rightarrow> f64 \<Rightarrow> f64" where
  "clamp lo hi x = (if x < lo then lo else if hi < x then hi else x)"

definition body_edit :: "string \<Rightarrow> complexity_class \<Rightarrow> complexity_class \<Rightarrow> impact_seed" where
  "body_edit i old new =
     \<lparr>seed_id = i, contract_severity = 0, contract_reason = None, old_complexity = old, new_complexity = new\<rparr>"

definition signature_edit ::
  "string \<Rightarrow> f64 \<Rightarrow> string \<Rightarrow> complexity_class \<Rightarrow> complexity_class \<Rightarrow> impact_seed" where
  "signature_edit i sev r old new =
     \<lparr>seed_id = i, contract_severity = clamp 0 1 sev, contract_reason = Some r, old_complexity = old,
      new_complexity = new\<rparr>"

definition is_test_symbol :: "symbol \<Rightarrow> bool" where
  "is_test_symbol s =
     (let name = to_ascii_lowercase (sname s); path = to_ascii_lowercase (file_path s)
      in starts_with name ''test_'' \<or> ends_with name ''_test''
       \<or> str_contains path ''/test/'' \<or> str_contains path ''/tests/''
       \<or> starts_with path ''test/'' \<or> starts_with path ''tests/''
       \<or> ends_with path ''_test.py'' \<or> ends_with path ''_test.go'' \<or> ends_with path ''_test.rs''
       \<or> ends_with path ''.test.ts'' \<or> ends_with path ''.spec.ts''
       \<or> ends_with path ''.test.js'' \<or> ends_with path ''.spec.js''
       \<or> ends_with path ''test.java'' \<or> ends_with path ''tests.cs'')"

definition is_entrypoint_symbol :: "symbol \<Rightarrow> bool" where
  "is_entrypoint_symbol s \<longleftrightarrow>
     skind s = Route \<or> sname s = ''main'' \<or> starts_with (sname s) ''handle_''
     \<or> ends_with (sname s) ''Handler'' \<or> ends_with (sname s) ''Controller''
     \<or> str_contains (file_path s) ''routes'' \<or> str_contains (file_path s) ''controllers''
     \<or> str_contains (file_path s) ''api/''"

definition degree_delta :: "impact_seed \<Rightarrow> f64" where
  "degree_delta s = max (effective_degree (new_complexity s) - effective_degree (old_complexity s)) 0"

definition complexity_weight :: "impact_seed \<Rightarrow> f64" where
  "complexity_weight s =
     (let delta_deg = degree_delta s
      in if delta_deg > 0 then delta_deg else max (effective_degree (new_complexity s)) (1/4))"

definition seed_vector :: "code_graph \<Rightarrow> (impact_seed \<Rightarrow> f64) \<Rightarrow> impact_seed list \<Rightarrow> (int \<times> f64) list" where
  "seed_vector g w seeds =
     concat (map (\<lambda>s. case index g (seed_id s) of None \<Rightarrow> [] | Some i \<Rightarrow> [(as_i32 i, w s)]) seeds)"

definition normalize_seed :: "(int \<times> f64) list \<Rightarrow> (int \<times> f64) list" where
  "normalize_seed v =
     (let total = fold (\<lambda>p t. t + snd p) v 0
      in if total > 0 then map (\<lambda>(i, w). (i, w / total)) v else v)"

definition impact_push ::
  "(f64 \<Rightarrow> string) \<Rightarrow> code_graph \<Rightarrow> (int \<times> f64) list \<Rightarrow> f64 \<Rightarrow> (cognis_error + push_result) option" where
  "impact_push show_f64 g v alpha =
     (if v \<noteq> [] then approximate_ppr_push show_f64 g v alpha CSIA_DEFAULT_EPS
      else Some (Inr \<lparr>estimate = [], residual = [], pr_work = 0, pr_pushes = 0\<rparr>))"

subsection \<open>What the change reaches\<close>

record reach =
  reached_symbols :: "(symbol \<times> f64) list"
  reached_modules :: "string list"
  entrypoints :: "(string \<times> f64) list"
  tests :: "(string \<times> f64) list"
  prod_mass :: f64
  test_mass :: f64
  weighted_criticality :: f64

definition reach_init :: reach where
  "reach_init = \<lparr>reached_symbols = [], reached_modules = [], entrypoints = [], tests = [],
     prod_mass = 0, test_mass = 0, weighted_criticality = 0\<rparr>"

definition site_label :: "symbol \<Rightarrow> string" where
  "site_label s = qualified_name s @ '' ('' @ file_path s @ '':'' @ show_nat (line_start s) @ '')''"

definition criticality :: "symbol \<Rightarrow> f64" where
  "criticality s = 1 + (if is_entrypoint_symbol s then 15/10 else 0) + (if untrusted_flags s \<noteq> [] then 5/10 else 0)"

definition get_node :: "code_graph \<Rightarrow> int \<Rightarrow> string option" where
  "get_node g i = (if as_usize i < length (node_ids g) then Some (node_ids g ! as_usize i) else None)"

definition reached_symbol ::
  "code_graph \<Rightarrow> string list \<Rightarrow> (string \<rightharpoonup> symbol) \<Rightarrow> int \<times> f64 \<Rightarrow> symbol option" where
  "reached_symbol g seed_ids symbols p =
     (if snd p < 1/10000 then None
      else case get_node g (fst p) of
             None \<Rightarrow> None
           | Some i \<Rightarrow> if i \<in> set seed_ids then None else symbols i)"

definition reach_step ::
  "code_graph \<Rightarrow> string list \<Rightarrow> (string \<rightharpoonup> symbol) \<Rightarrow> int \<times> f64 \<Rightarrow> reach \<Rightarrow> reach" where
  "reach_step g seed_ids symbols p r =
     (case reached_symbol g seed_ids symbols p of
        None \<Rightarrow> r
      | Some s \<Rightarrow>
          let mass = snd p;
              r = r\<lparr>reached_symbols := reached_symbols r @ [(s, mass)],
                    reached_modules := (if smodule s \<in> set (reached_modules r) then reached_modules r
                                        else reached_modules r @ [smodule s])\<rparr>
          in if is_test_symbol s
             then r\<lparr>test_mass := test_mass r + mass, tests := tests r @ [(site_label s, mass)]\<rparr>
             else r\<lparr>prod_mass := prod_mass r + mass,
                    entrypoints := (if is_entrypoint_symbol s then entrypoints r @ [(site_label s, mass)]
                                    else entrypoints r),
                    weighted_criticality := weighted_criticality r + mass * criticality s\<rparr>)"

definition reach_all ::
  "code_graph \<Rightarrow> string list \<Rightarrow> (string \<rightharpoonup> symbol) \<Rightarrow> (int \<times> f64) list \<Rightarrow> reach" where
  "reach_all g seed_ids symbols ps =
     (let r = fold (reach_step g seed_ids symbols) ps reach_init
      in r\<lparr>entrypoints := sort_key (\<lambda>p. - snd p) (entrypoints r),
           tests := sort_key (\<lambda>p. - snd p) (tests r)\<rparr>)"

definition blast_radius :: "reach \<Rightarrow> f64" where
  "blast_radius r =
     (if reached_symbols r = [] then 0
      else clamp 0 1 (1 - exp (- (14/10) * weighted_criticality r
             - 18/100 * ln (real (1 + length (reached_symbols r)))
             - 15/100 * ln (real (1 + length (reached_modules r))))))"

subsection \<open>Contract breakage\<close>

definition breakage ::
  "code_graph \<Rightarrow> string list \<Rightarrow> (string \<rightharpoonup> symbol) \<Rightarrow> impact_seed \<Rightarrow> nat \<Rightarrow> int \<times> f64
   \<Rightarrow> f64 \<times> breakage_site list \<Rightarrow> f64 \<times> breakage_site list" where
  "breakage g seed_ids symbols s u = (\<lambda>(v, w) (survival, sites).
     if as_usize v = u then (survival, sites)
     else case get_node g v of
            None \<Rightarrow> (survival, sites)
          | Some caller_id \<Rightarrow>
              if caller_id \<in> set seed_ids then (survival, sites)
              else case symbols caller_id of
                     None \<Rightarrow> (survival, sites)
                   | Some c \<Rightarrow>
                       let sev = clamp 0 1 (contract_severity s * clamp (1/10) 1 w)
                       in (survival * (1 - sev),
                           sites @ [\<lparr>bs_caller_id = sid c, bs_caller_name = qualified_name c,
                             bs_caller_file = file_path c, bs_caller_line = line_start c,
                             target_symbol = (case symbols (seed_id s) of Some t \<Rightarrow> qualified_name t | None \<Rightarrow> seed_id s),
                             bs_reason = (case contract_reason s of Some r \<Rightarrow> r
                                | None \<Rightarrow> ''Signature or contract modified without updating caller''),
                             severity = sev\<rparr>]))"

definition breakage_seed ::
  "code_graph \<Rightarrow> string list \<Rightarrow> (string \<rightharpoonup> symbol) \<Rightarrow> impact_seed
   \<Rightarrow> f64 \<times> breakage_site list \<Rightarrow> f64 \<times> breakage_site list" where
  "breakage_seed g seed_ids symbols s st =
     (if contract_severity s \<le> 0 then st
      else case index g (seed_id s) of
             None \<Rightarrow> st
           | Some u \<Rightarrow>
               (case neighbors g u of
                  (ix, ws) \<Rightarrow> fold (breakage g seed_ids symbols s u) (zip ix ws) st))"

subsection \<open>Complexity amplification\<close>

record amplification =
  amps :: "amplification_path list"
  max_caf :: f64
  max_degree_jump :: f64

text \<open>A queue entry: node, hop, loop depth so far, and the names of the call chain.\<close>

type_synonym bfs_entry = "nat \<times> nat \<times> u8 \<times> string list"

definition amplify ::
  "impact_seed \<Rightarrow> symbol \<Rightarrow> u8 \<Rightarrow> string list \<Rightarrow> amplification \<Rightarrow> amplification" where
  "amplify s c loops chain a =
     (if 0 < loops \<or> 0 < degree_delta s
      then let loop_mult = polynomial loops;
               before = nest_mul loop_mult (old_complexity s);
               after = nest_mul loop_mult (new_complexity s);
               jump = max (effective_degree after - effective_degree before) 0;
               caf = 4 ^ unat loops * max (degree_delta s) (1/2)
           in if 0 < loops \<and> 2 \<le> effective_degree after \<or> 1 \<le> jump
              then \<lparr>amps = amps a @ [\<lparr>ap_caller_id = sid c, ap_caller_name = qualified_name c,
                      ap_caller_file = file_path c, ap_caller_line = line_start c,
                      cumulative_loop_depth = loops, amplification_factor = caf,
                      time_before = notation_of before, time_after = notation_of after,
                      call_chain = chain\<rparr>],
                    max_caf = max (max_caf a) caf, max_degree_jump = max (max_degree_jump a) jump\<rparr>
              else a
      else a)"

definition visit ::
  "code_graph \<Rightarrow> (string \<rightharpoonup> symbol) \<Rightarrow> (string \<times> string \<rightharpoonup> u8) \<Rightarrow> impact_seed \<Rightarrow> bfs_entry \<Rightarrow> int
   \<Rightarrow> nat list \<times> bfs_entry list \<times> amplification \<Rightarrow> nat list \<times> bfs_entry list \<times> amplification" where
  "visit g symbols depths s = (\<lambda>(cur, hop, loops, chain) caller (visited, queue, a).
     if as_usize caller \<in> set visited then (visited, queue, a)
     else let visited = as_usize caller # visited
          in case get_node g caller of
               None \<Rightarrow> (visited, queue, a)
             | Some caller_id \<Rightarrow>
                 (case symbols caller_id of
                    None \<Rightarrow> (visited, queue, a)
                  | Some c \<Rightarrow>
                      let edge_loops = (case depths (caller_id, node_ids g ! cur) of Some d \<Rightarrow> d | None \<Rightarrow> 0);
                          new_loops = sat_add8 loops edge_loops;
                          next_chain = chain @ [qualified_name c]
                      in (visited, queue @ [(as_usize caller, hop + 1, new_loops, next_chain)],
                          amplify s c new_loops next_chain a)))"

definition unvisited :: "code_graph \<Rightarrow> nat list \<Rightarrow> nat" where
  "unvisited g visited = card (as_usize ` set (indices g) - set visited)"

lemma visit_measure:
  assumes "caller \<in> set (indices g)" "visit g symbols depths s e caller (visited, queue, a) = (visited', queue', a')"
  shows "length queue' + unvisited g visited' \<le> length queue + unvisited g visited"
proof (cases "as_usize caller \<in> set visited")
  case True
  with assms(2) show ?thesis by (cases e) (auto simp: visit_def)
next
  case False
  have "as_usize caller \<in> as_usize ` set (indices g) - set visited" using assms(1) False by auto
  moreover have "as_usize ` set (indices g) - set (as_usize caller # visited)
      = (as_usize ` set (indices g) - set visited) - {as_usize caller}" by auto
  ultimately have "Suc (unvisited g (as_usize caller # visited)) = unvisited g visited"
    unfolding unvisited_def by (metis List.finite_set card_Suc_Diff1 finite_Diff finite_imageI)
  moreover have "visited' = as_usize caller # visited" "length queue' \<le> Suc (length queue)"
    using assms(2) False by (cases e; auto simp: visit_def Let_def split: option.splits)+
  ultimately show ?thesis by simp
qed

lemma visits_measure:
  "set callers \<subseteq> set (indices g) \<Longrightarrow> fold (visit g symbols depths s e) callers (visited, queue, a) = (visited', queue', a')
     \<Longrightarrow> length queue' + unvisited g visited' \<le> length queue + unvisited g visited"
proof (induction callers arbitrary: visited queue a)
  case (Cons caller callers)
  obtain v q b where step: "visit g symbols depths s e caller (visited, queue, a) = (v, q, b)"
    by (metis prod_cases3)
  then have "length q + unvisited g v \<le> length queue + unvisited g visited"
    using Cons.prems(1) by (intro visit_measure) auto
  moreover have "length queue' + unvisited g visited' \<le> length q + unvisited g v"
    using Cons.IH [of v q b] Cons.prems step by simp
  ultimately show ?case by linarith
qed simp

lemma neighbors_subset: "set (fst (neighbors g u)) \<subseteq> set (indices g)"
  by (auto simp: neighbors_def slice_def Let_def dest!: in_set_takeD in_set_dropD)

lemma bfs_measure:
  "(case fold (visit g symbols depths s e) (fst (neighbors g u)) (visited, queue, a) of
      (visited', queue', _) \<Rightarrow> length queue' + unvisited g visited') < Suc (length queue + unvisited g visited)"
  using visits_measure [OF neighbors_subset, of g symbols depths s e u visited queue a]
  by (fastforce simp: less_Suc_eq_le split: prod.split)

function bfs ::
  "code_graph \<Rightarrow> (string \<rightharpoonup> symbol) \<Rightarrow> (string \<times> string \<rightharpoonup> u8) \<Rightarrow> impact_seed
   \<Rightarrow> nat list \<Rightarrow> bfs_entry list \<Rightarrow> amplification \<Rightarrow> amplification" where
  "bfs g symbols depths s visited [] a = a"
| "bfs g symbols depths s visited ((cur, hop, loops, chain) # queue) a =
     (if 4 \<le> hop then bfs g symbols depths s visited queue a
      else case fold (visit g symbols depths s (cur, hop, loops, chain)) (fst (neighbors g cur)) (visited, queue, a) of
             (visited', queue', a') \<Rightarrow> bfs g symbols depths s visited' queue' a')"
  by pat_completeness auto
termination
  by (relation "measure (\<lambda>(g, _, _, _, visited, queue, _). length queue + unvisited g visited)")
     (auto intro: bfs_measure)

definition amplify_seed ::
  "code_graph \<Rightarrow> (string \<rightharpoonup> symbol) \<Rightarrow> (string \<times> string \<rightharpoonup> u8) \<Rightarrow> impact_seed \<Rightarrow> amplification \<Rightarrow> amplification" where
  "amplify_seed g symbols depths s a =
     (if degree_delta s \<le> 0 \<and> effective_degree (new_complexity s) < 1 then a
      else case index g (seed_id s) of
             None \<Rightarrow> a
           | Some start \<Rightarrow>
               let name = (case symbols (seed_id s) of Some t \<Rightarrow> qualified_name t | None \<Rightarrow> seed_id s)
               in bfs g symbols depths s [start] [(start, 0, 0, [name])] a)"

definition amplifications ::
  "code_graph \<Rightarrow> (string \<rightharpoonup> symbol) \<Rightarrow> (string \<times> string \<rightharpoonup> u8) \<Rightarrow> impact_seed list \<Rightarrow> amplification" where
  "amplifications g symbols depths seeds =
     (let a = fold (amplify_seed g symbols depths) seeds \<lparr>amps = [], max_caf = 0, max_degree_jump = 0\<rparr>
      in a\<lparr>amps := take 10 (sort_key (\<lambda>p. - amplification_factor p) (amps a))\<rparr>)"

definition amplified_mass :: "code_graph \<Rightarrow> string list \<Rightarrow> (int \<times> f64) list \<Rightarrow> f64" where
  "amplified_mass g seed_ids ps =
     fold (\<lambda>p t. t + snd p)
       (filter (\<lambda>p. case get_node g (fst p) of None \<Rightarrow> False | Some i \<Rightarrow> i \<notin> set seed_ids) ps) 0"

subsection \<open>The report\<close>

definition coverage_gap :: "impact_seed list \<Rightarrow> reach \<Rightarrow> f64 \<times> string list" where
  "coverage_gap seeds r =
     (if prod_mass r \<le> 1/10000 \<and> (\<forall>s \<in> set seeds. contract_severity s = 0) then (0, [])
      else let gap = prod_mass r / (prod_mass r + 3 * test_mass r + 1/1000000);
               paths =
                 (if tests r = [] \<and> (entrypoints r \<noteq> [] \<or> reached_symbols r \<noteq> [])
                  then let eps = map (\<lambda>p. ''Impacted entrypoint `'' @ fst p
                                @ ''` has 0 covering tests on the reverse call path'') (take 3 (entrypoints r))
                       in if eps = []
                          then [show_nat (length (reached_symbols r))
                                  @ '' upstream dependent symbol(s) impacted with 0 reached test symbols'']
                          else eps
                  else [])
           in (clamp 0 1 gap, paths))"

definition composite_score :: "impact_dimensions \<Rightarrow> f64" where
  "composite_score d =
     clamp 0 1 (30/100 * structural_blast_radius d + 35/100 * complexity_amplification d
        + 25/100 * contract_breakage_risk d + 10/100 * test_coverage_gap d)"

definition level_of :: "f64 \<Rightarrow> impact_dimensions \<Rightarrow> nat \<Rightarrow> string" where
  "level_of composite d reached =
     (if 70/100 \<le> composite \<or> 80/100 \<le> contract_breakage_risk d \<or> 75/100 \<le> complexity_amplification d
      then ''critical''
      else if 45/100 \<le> composite \<or> 45/100 \<le> contract_breakage_risk d \<or> 50/100 \<le> complexity_amplification d
      then ''high''
      else if 20/100 \<le> composite \<or> 0 < reached then ''medium''
      else ''low'')"

definition empty_report :: impact_report where
  "empty_report = \<lparr>impact_level = ''low'', composite_risk_score = 0,
     dimensions = \<lparr>structural_blast_radius = 0, complexity_amplification = 0,
       contract_breakage_risk = 0, test_coverage_gap = 0\<rparr>,
     breaking_call_sites = [], complexity_amplifications = [], affected_entrypoints = [],
     minimal_test_suite = [], untested_high_risk_paths = [], reached_symbol_count = 0,
     reached_module_count = 0\<rparr>"

definition impact_report_of ::
  "impact_graph \<Rightarrow> (string \<rightharpoonup> symbol) \<Rightarrow> impact_seed list \<Rightarrow> (string \<times> string \<rightharpoonup> u8)
   \<Rightarrow> (int \<times> f64) list \<Rightarrow> (int \<times> f64) list \<Rightarrow> impact_report" where
  "impact_report_of ig symbols seeds depths struct_est cplx_est =
     (let g = reverse_structural ig;
          seed_ids = map seed_id seeds;
          r = reach_all g seed_ids symbols struct_est;
          (survival, sites) = fold (breakage_seed g seed_ids symbols) seeds (1, []);
          a = amplifications g symbols depths seeds;
          (gap, untested) = coverage_gap seeds r;
          d = \<lparr>structural_blast_radius = blast_radius r,
               complexity_amplification =
                 clamp 0 1 (tanh (45/100 * max_degree_jump a + 4/100 * max_caf a
                              + 30/100 * amplified_mass g seed_ids cplx_est)),
               contract_breakage_risk = clamp 0 1 (1 - survival),
               test_coverage_gap = gap\<rparr>;
          composite = composite_score d
      in \<lparr>impact_level = level_of composite d (length (reached_symbols r)),
          composite_risk_score = composite, dimensions = d, breaking_call_sites = sites,
          complexity_amplifications = amps a,
          affected_entrypoints = map fst (take 10 (entrypoints r)),
          minimal_test_suite = map fst (take 10 (tests r)),
          untested_high_risk_paths = untested,
          reached_symbol_count = length (reached_symbols r),
          reached_module_count = length (reached_modules r)\<rparr>)"

definition evaluate_change_impact ::
  "(f64 \<Rightarrow> string) \<Rightarrow> ((int \<times> f64) list \<Rightarrow> (int \<times> f64) list) \<Rightarrow> impact_graph \<Rightarrow> (string \<rightharpoonup> symbol)
   \<Rightarrow> impact_seed list \<Rightarrow> (string \<times> string \<rightharpoonup> u8) \<Rightarrow> (cognis_error + impact_report) option" where
  "evaluate_change_impact show_f64 iter ig symbols seeds depths =
     (if seeds = [] \<or> is_empty (reverse_structural ig) then Some (Inr empty_report)
      else let g = reverse_structural ig
           in case impact_push show_f64 g
                     (normalize_seed (seed_vector g (\<lambda>s. 1 + contract_severity s) seeds)) CSIA_BEHAVIORAL_ALPHA of
                None \<Rightarrow> None
              | Some (Inl e) \<Rightarrow> Some (Inl e)
              | Some (Inr sp) \<Rightarrow>
                  (case impact_push show_f64 (reverse_complexity ig)
                          (normalize_seed (seed_vector g complexity_weight seeds)) CSIA_COMPLEXITY_ALPHA of
                     None \<Rightarrow> None
                   | Some (Inl e) \<Rightarrow> Some (Inl e)
                   | Some (Inr cp) \<Rightarrow>
                       Some (Inr (impact_report_of ig symbols seeds depths (iter (estimate sp)) (iter (estimate cp))))))"

subsection \<open>Ranges\<close>

lemma clamp01 [simp]: "0 \<le> clamp 0 1 x" "clamp 0 1 x \<le> 1"
  by (simp_all add: clamp_def)

lemma clamp01_zero [simp]: "clamp 0 1 0 = 0"
  by (simp add: clamp_def)

lemma clamp01_id: "0 \<le> x \<Longrightarrow> x \<le> 1 \<Longrightarrow> clamp 0 1 x = x"
  by (simp add: clamp_def)

definition in_unit :: "f64 \<Rightarrow> bool" where
  "in_unit x \<longleftrightarrow> 0 \<le> x \<and> x \<le> 1"

lemma in_unit_clamp [simp]: "in_unit (clamp 0 1 x)" "in_unit 0"
  by (simp_all add: in_unit_def)

lemma coverage_gap_bounds: "in_unit (fst (coverage_gap seeds r)) \<and> length (snd (coverage_gap seeds r)) \<le> 3"
  by (simp add: coverage_gap_def Let_def)

lemma seed_vector_nonneg:
  "\<forall>s \<in> set seeds. 0 \<le> w s \<Longrightarrow> \<forall>(u, m) \<in> set (normalize_seed (seed_vector g w seeds)). 0 \<le> m"
proof -
  assume "\<forall>s \<in> set seeds. 0 \<le> w s"
  then have "\<forall>(u, m) \<in> set (seed_vector g w seeds). 0 \<le> m"
    by (fastforce simp: seed_vector_def split: option.splits)
  then show ?thesis
    by (auto simp: normalize_seed_def Let_def)
qed

lemma impact_push_returns:
  assumes "wf_graph g" "0 < alpha" "alpha \<le> 1" "\<forall>(u, m) \<in> set v. 0 \<le> m"
  shows "\<exists>r. impact_push show_f64 g v alpha = Some (Inr r)"
proof (cases "v = []")
  case False
  have eps: "0 < CSIA_DEFAULT_EPS" by (simp add: CSIA_DEFAULT_EPS_def)
  show ?thesis
    by (rule push_result [OF assms(1-3) eps assms(4), of show_f64]) (simp add: impact_push_def False)
qed (simp add: impact_push_def)

text \<open>Call chains have at most five names: the seed and four hops.\<close>

definition entry_ok :: "bfs_entry \<Rightarrow> bool" where
  "entry_ok e = (case e of (_, hop, _, chain) \<Rightarrow> length chain = hop + 1)"

definition chains_ok :: "amplification \<Rightarrow> bool" where
  "chains_ok a \<longleftrightarrow> (\<forall>p \<in> set (amps a). length (call_chain p) \<le> 5)"

lemma chains_ok_amplify: "chains_ok a \<Longrightarrow> length chain \<le> 5 \<Longrightarrow> chains_ok (amplify s c loops chain a)"
  by (auto simp: chains_ok_def amplify_def Let_def)

lemma visit_ok:
  assumes "chains_ok a" "\<forall>q \<in> set queue. entry_ok q" "entry_ok e" "fst (snd e) < 4"
    "visit g symbols depths s e caller (visited, queue, a) = (visited', queue', a')"
  shows "chains_ok a' \<and> (\<forall>q \<in> set queue'. entry_ok q)"
proof -
  obtain cur hop loops chain where e: "e = (cur, hop, loops, chain)" by (metis prod_cases4)
  then have len: "length chain = hop + 1" "hop < 4" using assms(3,4) by (simp_all add: entry_ok_def)
  then have "chains_ok (amplify s c l (chain @ [x]) a)" for c l x
    using assms(1) by (intro chains_ok_amplify) simp_all
  with assms len show ?thesis
    by (auto simp: e visit_def Let_def entry_ok_def split: if_splits option.splits)
qed

lemma visits_ok:
  "chains_ok a \<Longrightarrow> \<forall>q \<in> set queue. entry_ok q \<Longrightarrow> entry_ok e \<Longrightarrow> fst (snd e) < 4 \<Longrightarrow>
     fold (visit g symbols depths s e) callers (visited, queue, a) = (visited', queue', a')
     \<Longrightarrow> chains_ok a' \<and> (\<forall>q \<in> set queue'. entry_ok q)"
proof (induction callers arbitrary: visited queue a)
  case (Cons caller callers)
  obtain v q b where step: "visit g symbols depths s e caller (visited, queue, a) = (v, q, b)"
    by (metis prod_cases3)
  have ok: "chains_ok b \<and> (\<forall>x \<in> set q. entry_ok x)"
    by (rule visit_ok [OF Cons.prems(1-4) step])
  have rest: "fold (visit g symbols depths s e) callers (v, q, b) = (visited', queue', a')"
    using Cons.prems(5) step by simp
  show ?case
    by (rule Cons.IH [OF conjunct1 [OF ok] conjunct2 [OF ok] Cons.prems(3,4) rest])
qed simp

lemma bfs_ok:
  "chains_ok a \<Longrightarrow> \<forall>q \<in> set queue. entry_ok q \<Longrightarrow> chains_ok (bfs g symbols depths s visited queue a)"
proof (induction g symbols depths s visited queue a rule: bfs.induct)
  case (2 g symbols depths s visited cur hop loops chain queue a)
  obtain v q b where step:
    "fold (visit g symbols depths s (cur, hop, loops, chain)) (fst (neighbors g cur)) (visited, queue, a) = (v, q, b)"
    by (metis prod_cases3)
  show ?case
  proof (cases "4 \<le> hop")
    case True
    with 2 show ?thesis by simp
  next
    case False
    have "chains_ok b \<and> (\<forall>x \<in> set q. entry_ok x)"
      by (rule visits_ok [OF _ _ _ _ step]) (use 2 False in simp_all)
    with False 2 step show ?thesis by simp
  qed
qed simp

lemma amplifications_ok: "chains_ok (amplifications g symbols depths seeds) \<and> length (amps (amplifications g symbols depths seeds)) \<le> 10"
proof -
  have "chains_ok a \<Longrightarrow> chains_ok (amplify_seed g symbols depths s a)" for s a
    by (auto simp: amplify_seed_def Let_def entry_ok_def simp del: bfs.simps intro: bfs_ok split: option.splits)
  then have "chains_ok a \<Longrightarrow> chains_ok (fold (amplify_seed g symbols depths) seeds a)" for a
    by (induction seeds arbitrary: a) simp_all
  from this [of "\<lparr>amps = [], max_caf = 0, max_degree_jump = 0\<rparr>"] show ?thesis
    by (auto simp: amplifications_def chains_ok_def Let_def dest: in_set_takeD)
qed

subsection \<open>Breakage\<close>

definition survives :: "f64 \<times> breakage_site list \<Rightarrow> bool" where
  "survives st \<longleftrightarrow> fst st = prod_list (map (\<lambda>b. 1 - severity b) (snd st)) \<and> (\<forall>b \<in> set (snd st). in_unit (severity b))"

lemma survives_breakage: "survives st \<Longrightarrow> survives (breakage g ids symbols s u e st)"
  by (cases st; cases e) (auto simp: breakage_def survives_def Let_def split: option.splits)

lemma survives_all: "survives (fold (breakage_seed g ids symbols) seeds (1, []))"
proof -
  have "survives st \<Longrightarrow> survives (fold (breakage g ids symbols s u) es st)" for st s u es
    by (induction es arbitrary: st) (simp_all add: survives_breakage)
  then have "survives st \<Longrightarrow> survives (breakage_seed g ids symbols s st)" for st s
    by (auto simp: breakage_seed_def split: option.splits prod.splits)
  then have "survives st \<Longrightarrow> survives (fold (breakage_seed g ids symbols) seeds st)" for st
    by (induction seeds arbitrary: st) simp_all
  moreover have "survives (1, [])" by (simp add: survives_def)
  ultimately show ?thesis by blast
qed

lemma prod_survival:
  fixes xs :: "f64 list"
  assumes "\<forall>x \<in> set xs. in_unit x"
  shows "in_unit (prod_list (map (\<lambda>x. 1 - x) xs)) \<and> (\<forall>x \<in> set xs. prod_list (map (\<lambda>x. 1 - x) xs) \<le> 1 - x)"
  using assms
proof (induction xs)
  case (Cons x xs)
  let ?p = "prod_list (map (\<lambda>x. 1 - x) xs)"
  have x: "0 \<le> 1 - x" "1 - x \<le> 1" and p: "0 \<le> ?p" "?p \<le> 1" and ys: "\<forall>y \<in> set xs. ?p \<le> 1 - y"
    using Cons by (simp_all add: in_unit_def)
  have "(1 - x) * ?p \<le> 1 - x" "(1 - x) * ?p \<le> ?p"
    using x p by (simp_all add: mult_left_le mult_left_le_one_le)
  moreover have "0 \<le> (1 - x) * ?p" using x p by simp
  ultimately show ?case using x ys p by (auto simp: in_unit_def; force)
qed (simp add: in_unit_def)

subsection \<open>The order of iteration\<close>

definition reached_list ::
  "code_graph \<Rightarrow> string list \<Rightarrow> (string \<rightharpoonup> symbol) \<Rightarrow> (int \<times> f64) list \<Rightarrow> (symbol \<times> f64) list" where
  "reached_list g ids symbols ps =
     concat (map (\<lambda>p. case reached_symbol g ids symbols p of None \<Rightarrow> [] | Some s \<Rightarrow> [(s, snd p)]) ps)"

definition summary_of :: "(symbol \<times> f64) list \<Rightarrow> reach \<Rightarrow> bool" where
  "summary_of l r \<longleftrightarrow> reached_symbols r = l
     \<and> distinct (reached_modules r) \<and> set (reached_modules r) = smodule ` fst ` set l
     \<and> tests r = map (\<lambda>p. (site_label (fst p), snd p)) (filter (\<lambda>p. is_test_symbol (fst p)) l)
     \<and> test_mass r = (\<Sum>p\<leftarrow>l. if is_test_symbol (fst p) then snd p else 0)
     \<and> prod_mass r = (\<Sum>p\<leftarrow>l. if is_test_symbol (fst p) then 0 else snd p)
     \<and> weighted_criticality r = (\<Sum>p\<leftarrow>l. if is_test_symbol (fst p) then 0 else snd p * criticality (fst p))"

lemma summary_reach: "summary_of (reached_list g ids symbols ps) (fold (reach_step g ids symbols) ps reach_init)"
proof (induction ps rule: rev_induct)
  case Nil
  show ?case by (simp add: summary_of_def reach_init_def reached_list_def)
next
  case (snoc p ps)
  show ?case
  proof (cases "reached_symbol g ids symbols p")
    case None
    with snoc show ?thesis by (simp add: reached_list_def reach_step_def)
  next
    case (Some s)
    then have "reached_list g ids symbols (ps @ [p]) = reached_list g ids symbols ps @ [(s, snd p)]"
      by (simp add: reached_list_def)
    with Some snoc show ?thesis
      by (auto simp: reach_step_def Let_def summary_of_def)
  qed
qed

lemma mset_reached_list:
  assumes "mset ps = mset qs"
  shows "mset (reached_list g ids symbols ps) = mset (reached_list g ids symbols qs)"
proof -
  have "mset (reached_list g ids symbols ps) =
      (\<Sum>p\<in>#mset ps. mset (case reached_symbol g ids symbols p of None \<Rightarrow> [] | Some s \<Rightarrow> [(s, snd p)]))" for ps
    by (simp add: reached_list_def mset_concat sum_mset_sum_list [symmetric] o_def flip: mset_map)
  with assms show ?thesis by simp
qed

lemma sum_list_mset: "mset xs = mset ys \<Longrightarrow> (\<Sum>x\<leftarrow>xs. f x) = (\<Sum>x\<leftarrow>ys. f x :: f64)"
  by (metis mset_map sum_mset_sum_list)

lemma fst_coverage_gap:
  "fst (coverage_gap seeds r) =
     (if prod_mass r \<le> 1/10000 \<and> (\<forall>s \<in> set seeds. contract_severity s = 0) then 0
      else clamp 0 1 (prod_mass r / (prod_mass r + 3 * test_mass r + 1/1000000)))"
  by (simp add: coverage_gap_def Let_def)

lemma reach_update_scores [simp]:
  "blast_radius (r\<lparr>entrypoints := x, tests := y\<rparr>) = blast_radius r"
  "fst (coverage_gap seeds (r\<lparr>entrypoints := x, tests := y\<rparr>)) = fst (coverage_gap seeds r)"
  by (simp_all add: blast_radius_def fst_coverage_gap)

lemma summary_scores:
  assumes "summary_of l r" "summary_of l' r'" "mset l = mset l'"
  shows "blast_radius r = blast_radius r' \<and> fst (coverage_gap seeds r) = fst (coverage_gap seeds r')
    \<and> length (reached_symbols r) = length (reached_symbols r') \<and> length (reached_modules r) = length (reached_modules r')"
proof -
  have "length (reached_modules r) = length (reached_modules r')"
    using assms mset_eq_setD [OF assms(3)] unfolding summary_of_def by (metis distinct_card)
  moreover have "length l = length l'" "l = [] \<longleftrightarrow> l' = []" using assms(3) by (auto dest: mset_eq_length)
  ultimately show ?thesis
    using assms(1,2) sum_list_mset [OF assms(3)]
    by (simp add: summary_of_def blast_radius_def fst_coverage_gap)
qed

lemma reach_all_scores:
  assumes "mset ps = mset qs"
  shows "blast_radius (reach_all g ids symbols ps) = blast_radius (reach_all g ids symbols qs)
    \<and> fst (coverage_gap seeds (reach_all g ids symbols ps)) = fst (coverage_gap seeds (reach_all g ids symbols qs))
    \<and> length (reached_symbols (reach_all g ids symbols ps)) = length (reached_symbols (reach_all g ids symbols qs))
    \<and> length (reached_modules (reach_all g ids symbols ps)) = length (reached_modules (reach_all g ids symbols qs))"
  using summary_scores [OF summary_reach summary_reach mset_reached_list [OF assms], of g ids symbols seeds]
  by (simp add: reach_all_def Let_def)

lemma fold_masses: "fold (\<lambda>p t. t + snd p) ps (t :: f64) = t + (\<Sum>p\<leftarrow>ps. snd p)"
  by (induction ps arbitrary: t) auto

lemma amplified_mass_mset: "mset ps = mset qs \<Longrightarrow> amplified_mass g ids ps = amplified_mass g ids qs"
  unfolding amplified_mass_def fold_masses
  by (intro arg_cong [where f = "\<lambda>x. 0 + x"] sum_list_mset) simp

lemma evaluate_cases:
  "let e = evaluate_change_impact show_f64 iter ig symbols seeds depths
   in e = None \<or> (\<exists>x. e = Some (Inl x)) \<or> e = Some (Inr empty_report)
    \<or> (\<exists>a b. e = Some (Inr (impact_report_of ig symbols seeds depths a b)))"
proof -
  let ?g = "reverse_structural ig"
  show ?thesis
  proof (cases "impact_push show_f64 ?g (normalize_seed (seed_vector ?g (\<lambda>s. 1 + contract_severity s) seeds))
      CSIA_BEHAVIORAL_ALPHA")
    case None
    then show ?thesis by (simp add: evaluate_change_impact_def Let_def)
  next
    case (Some x)
    show ?thesis
    proof (cases "impact_push show_f64 (reverse_complexity ig) (normalize_seed (seed_vector ?g complexity_weight seeds))
        CSIA_COMPLEXITY_ALPHA")
      case None
      with Some show ?thesis by (cases x) (simp_all add: evaluate_change_impact_def Let_def)
    next
      case (Some y)
      with \<open>_ = Some x\<close> show ?thesis
        by (cases x; cases y) (auto simp: evaluate_change_impact_def Let_def)
    qed
  qed
qed

subsection \<open>Properties\<close>

lemma impact_report_bounds:
  assumes "wf_graph (reverse_structural ig)" "wf_graph (reverse_complexity ig)"
    and "\<forall>s \<in> set seeds. 0 \<le> contract_severity s"
  shows "\<exists>r. evaluate_change_impact show_f64 iter ig symbols seeds depths = Some (Inr r)
    \<and> in_unit (composite_risk_score r) \<and> in_unit (structural_blast_radius (dimensions r))
    \<and> in_unit (complexity_amplification (dimensions r)) \<and> in_unit (contract_breakage_risk (dimensions r))
    \<and> in_unit (test_coverage_gap (dimensions r)) \<and> length (complexity_amplifications r) \<le> 10
    \<and> length (affected_entrypoints r) \<le> 10 \<and> length (minimal_test_suite r) \<le> 10
    \<and> length (untested_high_risk_paths r) \<le> 3
    \<and> (\<forall>p \<in> set (complexity_amplifications r). length (call_chain p) \<le> 5)"
    (is "\<exists>r. _ = _ \<and> ?ok r")
proof (cases "seeds = [] \<or> is_empty (reverse_structural ig)")
  case True
  then show ?thesis by (auto simp: evaluate_change_impact_def empty_report_def)
next
  case False
  let ?g = "reverse_structural ig"
  have "\<forall>s \<in> set seeds. 0 \<le> 1 + contract_severity s" using assms(3) by (simp add: add_nonneg_nonneg)
  note sv = seed_vector_nonneg [OF this, of ?g]
  have "\<forall>s \<in> set seeds. 0 \<le> complexity_weight s"
    by (auto simp: complexity_weight_def Let_def max_def effective_degree_nonneg)
  note cv = seed_vector_nonneg [OF this, of ?g]
  have par: "0 < CSIA_BEHAVIORAL_ALPHA" "CSIA_BEHAVIORAL_ALPHA \<le> 1" "0 < CSIA_COMPLEXITY_ALPHA" "CSIA_COMPLEXITY_ALPHA \<le> 1"
    by (simp_all add: CSIA_BEHAVIORAL_ALPHA_def CSIA_COMPLEXITY_ALPHA_def)
  obtain sp where sp: "impact_push show_f64 ?g (normalize_seed (seed_vector ?g (\<lambda>s. 1 + contract_severity s) seeds))
      CSIA_BEHAVIORAL_ALPHA = Some (Inr sp)"
    using impact_push_returns [OF assms(1) par(1,2) sv] by blast
  obtain cp where cp: "impact_push show_f64 (reverse_complexity ig) (normalize_seed (seed_vector ?g complexity_weight seeds))
      CSIA_COMPLEXITY_ALPHA = Some (Inr cp)"
    using impact_push_returns [OF assms(2) par(3,4) cv] by blast
  have "evaluate_change_impact show_f64 iter ig symbols seeds depths =
      Some (Inr (impact_report_of ig symbols seeds depths (iter (estimate sp)) (iter (estimate cp))))"
    using False by (simp add: evaluate_change_impact_def Let_def sp cp)
  moreover have "?ok (impact_report_of ig symbols seeds depths a b)" for a b
  proof -
    obtain survival sites where s: "fold (breakage_seed ?g (map seed_id seeds) symbols) seeds (1, []) = (survival, sites)"
      by fastforce
    obtain gap untested where c: "coverage_gap seeds (reach_all ?g (map seed_id seeds) symbols a) = (gap, untested)"
      by fastforce
    have "in_unit gap" "length untested \<le> 3"
      using coverage_gap_bounds [of seeds "reach_all ?g (map seed_id seeds) symbols a"] by (simp_all add: c)
    then show ?thesis
      using amplifications_ok [of ?g symbols depths seeds]
      by (simp add: impact_report_of_def Let_def s c composite_score_def blast_radius_def chains_ok_def)
  qed
  ultimately show ?thesis by blast
qed

text \<open>
  On well-formed reverse graphs the analysis returns a report, whose four dimensions and
  composite score lie between 0 and 1, with at most ten amplification paths, entry points and tests
  and three untested paths, and with call chains of at most five names.
\<close>

theorem impact_returns_bounded:
  assumes "wf_graph (reverse_structural ig)" "wf_graph (reverse_complexity ig)"
    and "\<forall>s \<in> set seeds. 0 \<le> contract_severity s"
  shows "\<exists>r. evaluate_change_impact show_f64 iter ig symbols seeds depths = Some (Inr r)
    \<and> in_unit (composite_risk_score r) \<and> in_unit (structural_blast_radius (dimensions r))
    \<and> in_unit (complexity_amplification (dimensions r)) \<and> in_unit (contract_breakage_risk (dimensions r))
    \<and> in_unit (test_coverage_gap (dimensions r)) \<and> length (complexity_amplifications r) \<le> 10
    \<and> length (affected_entrypoints r) \<le> 10 \<and> length (minimal_test_suite r) \<le> 10
    \<and> length (untested_high_risk_paths r) \<le> 3
    \<and> (\<forall>p \<in> set (complexity_amplifications r). length (call_chain p) \<le> 5)"
  using assms by (rule impact_report_bounds)

definition pair_impact :: impact_graph where
  "pair_impact = impact_graph_build [''a'', ''b'']
     [\<lparr>src_id = ''a'', dst_id = ''b'', ekind = Calls, confidence = 1, meta = JObj []\<rparr>] Map.empty"

lemma wf_pair_impact: "wf_graph (reverse_structural pair_impact)" "wf_graph (reverse_complexity pair_impact)"
  "indexed (reverse_structural pair_impact)"
proof -
  have fits: "length [''a'', ''b''] + 2 * length (projected ix f [e]) < 2 ^ 31" for ix f e
    using length_projected [of ix f "[e]"] by simp
  show "wf_graph (reverse_structural pair_impact)" "wf_graph (reverse_complexity pair_impact)"
    "indexed (reverse_structural pair_impact)"
    unfolding pair_impact_def impact_graph_build_def fold_project_edge
    by (simp_all add: wf_from_weighted_triples [OF fits] indexed_from_weighted_triples)
qed

theorem impact_returns_bounded_witness:
  "\<exists>r. evaluate_change_impact (\<lambda>_. []) (\<lambda>m. m) pair_impact Map.empty
         [signature_edit ''b'' 2 ''renamed'' Constant linear] Map.empty = Some (Inr r)
    \<and> in_unit (composite_risk_score r) \<and> in_unit (structural_blast_radius (dimensions r))
    \<and> in_unit (complexity_amplification (dimensions r)) \<and> in_unit (contract_breakage_risk (dimensions r))
    \<and> in_unit (test_coverage_gap (dimensions r)) \<and> length (complexity_amplifications r) \<le> 10
    \<and> length (affected_entrypoints r) \<le> 10 \<and> length (minimal_test_suite r) \<le> 10
    \<and> length (untested_high_risk_paths r) \<le> 3
    \<and> (\<forall>p \<in> set (complexity_amplifications r). length (call_chain p) \<le> 5)"
  by (rule impact_returns_bounded) (simp_all add: wf_pair_impact signature_edit_def)

text \<open>
  The contract risk of a report is the chance that some broken call site fails: one minus the
  product of the chances that each is spared. It is at least the severity of every site, so a site
  of severity 80% makes the change critical.
\<close>

theorem contract_risk_of_sites:
  "case evaluate_change_impact show_f64 iter ig symbols seeds depths of
     Some (Inr r) \<Rightarrow>
       contract_breakage_risk (dimensions r) = 1 - prod_list (map (\<lambda>b. 1 - severity b) (breaking_call_sites r))
     \<and> list_all (\<lambda>b. severity b \<le> contract_breakage_risk (dimensions r)) (breaking_call_sites r)
     \<and> list_all (\<lambda>b. severity b < 80/100 \<or> impact_level r = ''critical'') (breaking_call_sites r)
   | _ \<Rightarrow> True"
proof -
  let ?P = "\<lambda>r. contract_breakage_risk (dimensions r) = 1 - prod_list (map (\<lambda>b. 1 - severity b) (breaking_call_sites r))
     \<and> list_all (\<lambda>b. severity b \<le> contract_breakage_risk (dimensions r)) (breaking_call_sites r)
     \<and> list_all (\<lambda>b. severity b < 80/100 \<or> impact_level r = ''critical'') (breaking_call_sites r)"
  have "?P (impact_report_of ig symbols seeds depths a b)" for a b
  proof -
    let ?g = "reverse_structural ig"
    obtain survival sites where s: "fold (breakage_seed ?g (map seed_id seeds) symbols) seeds (1, []) = (survival, sites)"
      by fastforce
    obtain gap untested where c: "coverage_gap seeds (reach_all ?g (map seed_id seeds) symbols a) = (gap, untested)"
      by fastforce
    have sv: "survival = prod_list (map (\<lambda>b. 1 - severity b) sites)" "\<forall>b \<in> set sites. in_unit (severity b)"
      using survives_all [of ?g "map seed_id seeds" symbols seeds] by (simp_all add: s survives_def)
    have unit: "in_unit survival" "\<forall>b \<in> set sites. survival \<le> 1 - severity b"
      using prod_survival [of "map severity sites"] sv by (simp_all add: o_def)
    have risk: "clamp 0 1 (1 - survival) = 1 - survival"
      using unit(1) by (intro clamp01_id) (simp_all add: in_unit_def)
    let ?r = "impact_report_of ig symbols seeds depths a b"
    have r: "contract_breakage_risk (dimensions ?r) = 1 - survival" "breaking_call_sites ?r = sites"
      "impact_level ?r = level_of (composite_risk_score ?r) (dimensions ?r) (reached_symbol_count ?r)"
      by (simp_all add: impact_report_of_def Let_def s c risk)
    have sev: "severity b \<le> 1 - survival" if "b \<in> set sites" for b using unit(2) that by fastforce
    moreover have "severity b < 80/100 \<or> impact_level ?r = ''critical''" if "b \<in> set sites" for b
    proof (cases "severity b < 80/100")
      case False
      have "80/100 \<le> contract_breakage_risk (dimensions ?r)" using sev [OF that] r(1) False by linarith
      then show ?thesis by (simp add: r(3) level_of_def)
    qed simp
    ultimately show ?thesis
      using sv(1) by (simp add: r(1,2) list_all_iff)
  qed
  moreover have "?P empty_report" by (simp add: empty_report_def)
  moreover define P where "P = (?P :: impact_report \<Rightarrow> bool)"
  ultimately have "P (impact_report_of ig symbols seeds depths a b)" "P empty_report" for a b by blast+
  then have "case evaluate_change_impact show_f64 iter ig symbols seeds depths of
     Some (Inr r) \<Rightarrow> P r | _ \<Rightarrow> True"
    using evaluate_cases [of show_f64 iter ig symbols seeds depths] by (auto simp: Let_def)
  then show ?thesis unfolding P_def .
qed

definition report_scores ::
  "impact_report \<Rightarrow> string \<times> f64 \<times> impact_dimensions \<times> breakage_site list \<times> amplification_path list \<times> nat \<times> nat" where
  "report_scores r = (impact_level r, composite_risk_score r, dimensions r, breaking_call_sites r,
     complexity_amplifications r, reached_symbol_count r, reached_module_count r)"

text \<open>
  The verdict of a report (level, scores, dimensions, broken sites, amplification paths and
  counts) does not depend on the order in which the estimate maps are iterated.
\<close>

theorem impact_verdict_deterministic:
  assumes "\<And>m. mset (iter m) = mset m"
  shows "map_option (map_sum id report_scores) (evaluate_change_impact show_f64 iter ig symbols seeds depths)
       = map_option (map_sum id report_scores) (evaluate_change_impact show_f64 (\<lambda>m. m) ig symbols seeds depths)"
proof -
  have "report_scores (impact_report_of ig symbols seeds depths (iter a) (iter b))
      = report_scores (impact_report_of ig symbols seeds depths a b)" for a b
    using reach_all_scores [OF assms [of a], of "reverse_structural ig" "map seed_id seeds" symbols seeds]
      amplified_mass_mset [OF assms [of b], of "reverse_structural ig" "map seed_id seeds"]
    by (simp add: impact_report_of_def report_scores_def Let_def split_def)
  then show ?thesis
    by (simp add: evaluate_change_impact_def Let_def split: option.split sum.split)
qed

theorem impact_verdict_deterministic_witness:
  "map_option (map_sum id report_scores)
     (evaluate_change_impact (\<lambda>_. []) rev pair_impact Map.empty [body_edit ''b'' Constant linear] Map.empty)
   = map_option (map_sum id report_scores)
     (evaluate_change_impact (\<lambda>_. []) (\<lambda>m. m) pair_impact Map.empty [body_edit ''b'' Constant linear] Map.empty)"
  by (rule impact_verdict_deterministic) simp

end
