(* ===== verification/Lease.thy ===== *)
theory Lease
  imports Prelude
begin

text \<open>
  The repository lease of \<open>crates/cognis-core/src/lease.rs\<close>. The lease file is shared by processes
  that can only read it and replace it as a whole, so \<open>acquire_or_attach\<close>, the heartbeat and the
  release are sequences of atomic file operations. Each is given as a transition of a program
  counter that does one file operation, run alone (the uncontended case) or interleaved. What a
  process knows of itself and its clock is an environment; times are seconds.
\<close>

datatype lease_role = Indexd | Mcpd | OwnerRole

fun role_file_name :: "lease_role \<Rightarrow> string" where
  "role_file_name Indexd = ''indexd.lease''"
| "role_file_name Mcpd = ''mcpd.lease''"
| "role_file_name OwnerRole = ''owner.lease''"

definition DEFAULT_LEASE_TTL :: f64 where "DEFAULT_LEASE_TTL = 30"

record lease_record =
  owner_nonce :: string
  pid :: nat
  process_start_id :: string
  heartbeat_at :: f64
  expiry :: f64

definition is_live_at :: "f64 \<Rightarrow> lease_record \<Rightarrow> bool" where
  "is_live_at now r \<longleftrightarrow> now < expiry r"

definition is_expired_at :: "f64 \<Rightarrow> lease_record \<Rightarrow> bool" where
  "is_expired_at now r \<longleftrightarrow> \<not> is_live_at now r"

text \<open>What reading the lease file finds.\<close>

datatype lease_file = NoFile | BadJson | Unreadable | OnDisk lease_record

text \<open>
  A process: its id and start id, the clock, the nonce it would generate now, whether writing the
  file succeeds now.
\<close>

record lease_env =
  now :: f64
  my_pid :: nat
  my_start :: string
  nonce :: string
  write_ok :: bool

definition new_owner_record :: "f64 \<Rightarrow> lease_env \<Rightarrow> lease_record" where
  "new_owner_record ttl e = \<lparr>owner_nonce = nonce e, pid = my_pid e, process_start_id = my_start e,
     heartbeat_at = now e, expiry = now e + ttl\<rparr>"

definition write_lease :: "lease_env \<Rightarrow> lease_record \<Rightarrow> lease_file \<Rightarrow> bool \<times> lease_file" where
  "write_lease e r f = (if write_ok e then (True, OnDisk r) else (False, f))"

text \<open>
  The program counter: before the first read, before and after each write, the outcomes, and an
  owner that is about to refresh or remove the file, has stopped refreshing it, or has left.
\<close>

datatype lease_pc =
    Start
  | Write
  | Verify lease_record
  | Overwrite
  | VerifyAgain lease_record
  | Rewrite lease_record
  | WriteVanished
  | Owner lease_record
  | Attached lease_record
  | IoFail
  | Beat lease_record
  | Leave lease_record
  | Stale lease_record
  | Gone

definition same_process :: "lease_env \<Rightarrow> lease_record \<Rightarrow> bool" where
  "same_process e r \<longleftrightarrow> pid r = my_pid e \<and> process_start_id r = my_start e"

fun acquire_step :: "f64 \<Rightarrow> lease_env \<Rightarrow> lease_file \<Rightarrow> lease_pc \<Rightarrow> lease_file \<times> lease_pc" where
  "acquire_step ttl e f Start =
     (case f of
        OnDisk r \<Rightarrow> (f, if is_live_at (now e) r \<and> \<not> same_process e r then Attached r else Write)
      | NoFile \<Rightarrow> (f, Write)
      | BadJson \<Rightarrow> (f, Write)
      | Unreadable \<Rightarrow> (f, IoFail))"
| "acquire_step ttl e f Write =
     (let r = new_owner_record ttl e
      in case write_lease e r f of (ok, f') \<Rightarrow> (f', if ok then Verify r else IoFail))"
| "acquire_step ttl e f (Verify r) =
     (case f of
        OnDisk d \<Rightarrow> (f, if owner_nonce d = owner_nonce r then Owner r
                        else if is_live_at (now e) d then Attached d else Overwrite)
      | NoFile \<Rightarrow> (f, WriteVanished)
      | _ \<Rightarrow> (f, IoFail))"
| "acquire_step ttl e f Overwrite =
     (let r = new_owner_record ttl e
      in case write_lease e r f of (ok, f') \<Rightarrow> (f', if ok then VerifyAgain r else IoFail))"
| "acquire_step ttl e f (VerifyAgain r) =
     (case f of
        OnDisk d \<Rightarrow> (f, if owner_nonce d = owner_nonce r then Owner r else Attached d)
      | NoFile \<Rightarrow> (f, Rewrite r)
      | _ \<Rightarrow> (f, IoFail))"
| "acquire_step ttl e f (Rewrite r) = (snd (write_lease e r f), Owner r)"
| "acquire_step ttl e f WriteVanished =
     (let r = new_owner_record ttl e
      in case write_lease e r f of (ok, f') \<Rightarrow> (f', if ok then Owner r else IoFail))"
| "acquire_step ttl e f pc = (f, pc)"

text \<open>The heartbeat refreshes the record in memory, reads the file, then writes it.\<close>

definition refreshed :: "f64 \<Rightarrow> lease_env \<Rightarrow> lease_record \<Rightarrow> lease_record" where
  "refreshed ttl e r = r\<lparr>heartbeat_at := now e, expiry := now e + ttl\<rparr>"

fun heartbeat_step :: "f64 \<Rightarrow> lease_env \<Rightarrow> lease_file \<Rightarrow> lease_pc \<Rightarrow> lease_file \<times> lease_pc" where
  "heartbeat_step ttl e f (Owner r) =
     (let r = refreshed ttl e r
      in case f of
           OnDisk d \<Rightarrow> (f, if owner_nonce d \<noteq> owner_nonce r then Stale r else Beat r)
         | NoFile \<Rightarrow> (f, Beat r)
         | _ \<Rightarrow> (f, Stale r))"
| "heartbeat_step ttl e f (Beat r) =
     (case write_lease e r f of (ok, f') \<Rightarrow> (f', if ok then Owner r else Stale r))"
| "heartbeat_step ttl e f pc = (f, pc)"

text \<open>The release reads the file and removes it if it is ours (\<open>write_ok\<close>: the removal works).\<close>

fun release_step :: "lease_env \<Rightarrow> lease_file \<Rightarrow> lease_pc \<Rightarrow> lease_file \<times> lease_pc" where
  "release_step e f (Owner r) =
     (case f of OnDisk d \<Rightarrow> (f, if owner_nonce d = owner_nonce r then Leave r else Gone) | _ \<Rightarrow> (f, Gone))"
| "release_step e f (Stale r) =
     (case f of OnDisk d \<Rightarrow> (f, if owner_nonce d = owner_nonce r then Leave r else Gone) | _ \<Rightarrow> (f, Gone))"
| "release_step e f (Leave r) = (if write_ok e then NoFile else f, Gone)"
| "release_step e f pc = (f, pc)"

subsection \<open>A call that runs alone\<close>

fun run_alone :: "nat \<Rightarrow> f64 \<Rightarrow> lease_env \<Rightarrow> lease_file \<times> lease_pc \<Rightarrow> lease_file \<times> lease_pc" where
  "run_alone 0 ttl e s = s"
| "run_alone (Suc n) ttl e (f, pc) = run_alone n ttl e (acquire_step ttl e f pc)"

text \<open>No path of \<open>acquire_or_attach\<close> has more than six file operations.\<close>

definition acquire_or_attach :: "f64 option \<Rightarrow> lease_env \<Rightarrow> lease_file \<Rightarrow> lease_file \<times> lease_pc" where
  "acquire_or_attach ttl e f =
     run_alone 6 (case ttl of Some t \<Rightarrow> t | None \<Rightarrow> DEFAULT_LEASE_TTL) e (f, Start)"

definition heartbeat :: "f64 \<Rightarrow> lease_env \<Rightarrow> lease_file \<Rightarrow> lease_record \<Rightarrow> lease_file \<times> lease_pc" where
  "heartbeat ttl e f r =
     (case heartbeat_step ttl e f (Owner r) of (f', pc) \<Rightarrow> heartbeat_step ttl e f' pc)"

definition release :: "lease_env \<Rightarrow> lease_file \<Rightarrow> lease_record \<Rightarrow> lease_file" where
  "release e f r = (case release_step e f (Owner r) of (f', pc) \<Rightarrow> fst (release_step e f' pc))"

subsection \<open>Interleaved processes\<close>

record lease_sys =
  lfile :: lease_file
  clock :: f64
  procs :: "nat \<Rightarrow> lease_pc"

text \<open>Process \<open>i\<close> has id \<open>i\<close>; the nonce it generates and the outcome of its writes are free.\<close>

definition env_of :: "lease_sys \<Rightarrow> nat \<Rightarrow> string \<Rightarrow> bool \<Rightarrow> lease_env" where
  "env_of y i n ok = \<lparr>now = clock y, my_pid = i, my_start = [], nonce = n, write_ok = ok\<rparr>"

inductive lease_step :: "f64 \<Rightarrow> lease_sys \<Rightarrow> lease_sys \<Rightarrow> bool" for ttl :: f64 where
  acquiring: "acquire_step ttl (env_of y i n ok) (lfile y) (procs y i) = (f, pc) \<Longrightarrow>
    lease_step ttl y (y\<lparr>lfile := f, procs := (procs y)(i := pc)\<rparr>)"
| beating: "heartbeat_step ttl (env_of y i n ok) (lfile y) (procs y i) = (f, pc) \<Longrightarrow>
    lease_step ttl y (y\<lparr>lfile := f, procs := (procs y)(i := pc)\<rparr>)"
| leaving: "release_step (env_of y i n ok) (lfile y) (procs y i) = (f, pc) \<Longrightarrow>
    lease_step ttl y (y\<lparr>lfile := f, procs := (procs y)(i := pc)\<rparr>)"
| passing: "0 \<le> d \<Longrightarrow> lease_step ttl y (y\<lparr>clock := clock y + d\<rparr>)"

definition lease_init :: "lease_sys" where
  "lease_init = \<lparr>lfile = NoFile, clock = 0, procs = \<lambda>_. Start\<rparr>"

subsection \<open>Properties\<close>

lemma run_alone_final:
  "acquire_step ttl e f pc = (f, pc) \<Longrightarrow> run_alone n ttl e (f, pc) = (f, pc)"
  by (induction n) simp_all

lemma acquire_or_attach_cases:
  "acquire_or_attach (Some ttl) e f =
     (case f of
        Unreadable \<Rightarrow> (f, IoFail)
      | OnDisk r \<Rightarrow>
          if is_live_at (now e) r \<and> \<not> same_process e r then (f, Attached r)
          else if write_ok e then (OnDisk (new_owner_record ttl e), Owner (new_owner_record ttl e))
          else (f, IoFail)
      | _ \<Rightarrow>
          if write_ok e then (OnDisk (new_owner_record ttl e), Owner (new_owner_record ttl e))
          else (f, IoFail))"
  by (cases f) (simp_all add: acquire_or_attach_def numeral_eq_Suc write_lease_def Let_def)

text \<open>
  C32: Calls that do not overlap respect the lease: once a process has acquired it, a call of another
  process that starts before the lease expires attaches to the first process's record and leaves the
  file alone; at or after the expiry it takes the lease over, its own write succeeding.
\<close>

theorem lease_exclusive_sequential:
  assumes "acquire_or_attach (Some ttl) e f = (f', Owner r)" "\<not> same_process e' r" "write_ok e'"
  shows "acquire_or_attach (Some ttl') e' f' =
    (if now e' < now e + ttl then (f', Attached r)
     else (OnDisk (new_owner_record ttl' e'), Owner (new_owner_record ttl' e')))"
proof -
  have "f' = OnDisk r \<and> r = new_owner_record ttl e"
    using assms(1) by (auto simp: acquire_or_attach_cases split: lease_file.splits if_splits)
  with assms(2,3) show ?thesis
    by (auto simp: acquire_or_attach_cases is_live_at_def new_owner_record_def)
qed

theorem lease_exclusive_sequential_witness:
  "let e1 = \<lparr>now = 0, my_pid = 1, my_start = [], nonce = ''a'', write_ok = True\<rparr>;
       e2 = \<lparr>now = 5, my_pid = 2, my_start = [], nonce = ''b'', write_ok = True\<rparr>;
       r = new_owner_record 30 e1
   in acquire_or_attach (Some 30) e2 (OnDisk r) = (OnDisk r, Attached r)"
  unfolding Let_def
  by (subst lease_exclusive_sequential [where f = NoFile and ttl = 30
        and e = "\<lparr>now = 0, my_pid = 1, my_start = [], nonce = ''a'', write_ok = True\<rparr>"])
     (simp_all add: acquire_or_attach_cases same_process_def new_owner_record_def)

text \<open>
  A heartbeat or a release that runs alone never touches another owner's record: with another
  nonce in the file, the file stays as it is, and the heartbeat stops.
\<close>

theorem lease_foreign_untouched:
  assumes "owner_nonce d \<noteq> owner_nonce r"
  shows "heartbeat ttl e (OnDisk d) r = (OnDisk d, Stale (refreshed ttl e r)) \<and> release e (OnDisk d) r = OnDisk d"
  using assms by (simp add: heartbeat_def release_def refreshed_def Let_def)

theorem lease_foreign_untouched_witness:
  "let r = \<lparr>owner_nonce = ''a'', pid = 1, process_start_id = [], heartbeat_at = 0, expiry = 30\<rparr>;
       d = r\<lparr>owner_nonce := ''b''\<rparr>;
       e = \<lparr>now = 5, my_pid = 1, my_start = [], nonce = ''c'', write_ok = True\<rparr>
   in release e (OnDisk d) r = OnDisk d"
  unfolding Let_def by (rule lease_foreign_untouched [THEN conjunct2]) simp

text \<open>
  C33: Overlapping calls do not: two processes that both read the missing lease before either writes
  it can both acquire it. Each writes and verifies its own record in turn, so the check after the
  write sees nothing wrong, and both are owners while both leases are live.
\<close>

theorem lease_double_acquire:
  "\<exists>y r s. (lease_step 30)\<^sup>*\<^sup>* lease_init y \<and> procs y 1 = Owner r \<and> procs y 2 = Owner s
     \<and> owner_nonce r \<noteq> owner_nonce s \<and> is_live_at (clock y) r \<and> is_live_at (clock y) s"
proof -
  let ?e1 = "\<lparr>now = 0, my_pid = 1, my_start = [], nonce = ''a'', write_ok = True\<rparr>"
  let ?e2 = "\<lparr>now = 0, my_pid = 2, my_start = [], nonce = ''b'', write_ok = True\<rparr>"
  let ?r = "new_owner_record 30 ?e1" and ?s = "new_owner_record 30 ?e2"
  let ?y = "\<lambda>f p q. \<lparr>lfile = f, clock = 0, procs = (\<lambda>_. Start)(1 := p, 2 := q)\<rparr>"
  have step1: "lease_step 30 (?y f p q) (?y f' p' q)" if "acquire_step 30 ?e1 f p = (f', p')" for f p q f' p'
    using lease_step.acquiring [of 30 "?y f p q" 1 "''a''" True f' p'] that
    by (simp add: env_of_def fun_upd_twist)
  have step2: "lease_step 30 (?y f p q) (?y f' p q')" if "acquire_step 30 ?e2 f q = (f', q')" for f p q f' q'
    using lease_step.acquiring [of 30 "?y f p q" 2 "''b''" True f' q'] that
    by (simp add: env_of_def)
  note snoc = rtranclp.rtrancl_into_rtrancl [where r = "lease_step 30"]
  have "lease_init = ?y NoFile Start Start" by (simp add: lease_init_def fun_eq_iff)
  then have 0: "(lease_step 30)\<^sup>*\<^sup>* lease_init (?y NoFile Start Start)" by simp
  have 1: "(lease_step 30)\<^sup>*\<^sup>* lease_init (?y NoFile Write Start)"
    by (rule snoc [OF 0 step1]) simp
  have 2: "(lease_step 30)\<^sup>*\<^sup>* lease_init (?y NoFile Write Write)"
    by (rule snoc [OF 1 step2]) simp
  have 3: "(lease_step 30)\<^sup>*\<^sup>* lease_init (?y (OnDisk ?r) (Verify ?r) Write)"
    by (rule snoc [OF 2 step1]) (simp add: write_lease_def Let_def)
  have 4: "(lease_step 30)\<^sup>*\<^sup>* lease_init (?y (OnDisk ?r) (Owner ?r) Write)"
    by (rule snoc [OF 3 step1]) simp
  have 5: "(lease_step 30)\<^sup>*\<^sup>* lease_init (?y (OnDisk ?s) (Owner ?r) (Verify ?s))"
    by (rule snoc [OF 4 step2]) (simp add: write_lease_def Let_def)
  have "(lease_step 30)\<^sup>*\<^sup>* lease_init (?y (OnDisk ?s) (Owner ?r) (Owner ?s))"
    by (rule snoc [OF 5 step2]) simp
  then show ?thesis
    by (intro exI [of _ "?y (OnDisk ?s) (Owner ?r) (Owner ?s)"] exI [of _ ?r] exI [of _ ?s])
       (simp add: new_owner_record_def is_live_at_def)
qed

end
