(* ===== verification/Store_Engine.thy ===== *)
theory Store_Engine
  imports Embed_Queue Retrieval Diffuse Mcp_Server Lifecycle
begin

text \<open>
  The retrieval engine over the store (\<open>crates/cognis-mcp/src/store_engine.rs\<close>, its interface
  \<open>engine.rs\<close>, and the pinned snapshots of \<open>crates/cognis-store/src/snapshot.rs\<close>), and the full scans kept
  as its oracle (\<open>reference_scan.rs\<close>). The engine's own state is its model slot, the counter of
  similarity computations and the code graph it keeps for one generation. SQLite's full-text and vector
  queries, its scan orders, the embedder's factory and the clock are fields of the argument \<open>en\<close>.
\<close>

subsection \<open>Snapshots\<close>

record snapshot =
  sn_db :: database
  sn_source :: int
  sn_semantic :: int
  sn_pending :: nat

text \<open>The reads of one call all see the database as it was at its first read.\<close>

definition snapshot_open :: "database \<Rightarrow> cognis_error + snapshot" where
  "snapshot_open db =
     (case db_generation db of
        None \<Rightarrow> Inl (StoreError ''Query returned no rows'')
      | Some g \<Rightarrow>
          Inr \<lparr>sn_db = db, sn_source = generation.source_generation g,
               sn_semantic = generation.semantic_generation g, sn_pending = length (db_queue db)\<rparr>)"

definition parse_direction :: "string \<Rightarrow> direction option" where
  "parse_direction s =
     (if s = ''out'' then Some Out else if s = ''in'' then Some In else if s = ''both'' then Some Both else None)"

subsection \<open>The interface of the tools\<close>

text \<open>
  An operation may change the engine's interior state; \<open>None\<close> is a panic. The context's snapshot is
  fixed for the call, so it is part of the operations.
\<close>

type_synonym ('s, 'a) io = "'s \<Rightarrow> ('a \<times> 's) option"

record 's retrieval_engine =
  en_fts :: "string \<Rightarrow> nat \<Rightarrow> ('s, cognis_error + hit list) io"
  en_semantic :: "string \<Rightarrow> nat \<Rightarrow> ('s, cognis_error + hit list) io"
  en_diffuse :: "hit list list \<Rightarrow> nat \<Rightarrow> f64 \<Rightarrow> f64 \<Rightarrow> ('s, cognis_error + hit list) io"
  en_hydrate :: "string list \<Rightarrow> ('s, cognis_error + symbol list) io"
  en_lookup :: "string \<Rightarrow> string option \<Rightarrow> ('s, cognis_error + symbol option) io"
  en_trace :: "string \<Rightarrow> string \<Rightarrow> nat \<Rightarrow> ('s, cognis_error + hit list) io"
  en_graph :: "('s, cognis_error + code_graph) io"
  en_semantic_available :: "'s \<Rightarrow> bool"
  en_edge_context :: "'s \<Rightarrow> bool"

subsection \<open>The engine's state and environment\<close>

type_synonym query_embedder = "string \<Rightarrow> string + f32 list"

record store_engine =
  model :: "query_embedder slot"
  query_digest :: string
  cooldown :: nat
  allow_demand_load :: bool
  integration_edge_context :: bool
  similarity_computations :: u64
  resident_graph :: "(int \<times> code_graph) option"
  model_uses :: nat

text \<open>The \<open>n\<close>-th use of the slot reads the clock \<open>ee_now n\<close>, and its factory would return \<open>ee_build n\<close>.\<close>

record engine_env =
  ee_sqlite :: sqlite_env
  ee_fts :: "(string \<times> fts_doc) list \<Rightarrow> string \<Rightarrow> nat \<Rightarrow> (string \<times> string option \<times> f64 option) list option"
  ee_knn :: "database \<Rightarrow> f32 list \<Rightarrow> nat \<Rightarrow> (string \<times> f64 option) list option"
  ee_scan_vectors :: "(string \<times> f32 list) list \<Rightarrow> (string \<times> f32 list) list"
  ee_scan_ids :: "string list \<Rightarrow> string list"
  ee_scan_edges :: "edge list \<Rightarrow> edge list"
  ee_lower :: "string \<Rightarrow> string"
  ee_show_f64 :: "f64 \<Rightarrow> string"
  ee_iter :: "(int \<times> f64) list \<Rightarrow> (int \<times> f64) list"
  ee_now :: "nat \<Rightarrow> nat"
  ee_build :: "nat \<Rightarrow> string + query_embedder"

definition engine_new :: "string \<Rightarrow> store_engine" where
  "engine_new digest =
     \<lparr>model = Empty, query_digest = digest, cooldown = DEFAULT_FAILURE_COOLDOWN, allow_demand_load = False,
      integration_edge_context = False, similarity_computations = 0, resident_graph = None, model_uses = 0\<rparr>"

definition engine_with_embedder :: "nat \<Rightarrow> string \<Rightarrow> query_embedder option \<Rightarrow> store_engine" where
  "engine_with_embedder now digest e = (engine_new digest)\<lparr>model := from_optional now e\<rparr>"

text \<open>Opening builds the model at once when the policy is eager; a failed build leaves the slot empty.\<close>

definition engine_open :: "nat \<Rightarrow> string \<Rightarrow> nat \<Rightarrow> bool \<Rightarrow> bool \<Rightarrow> string + query_embedder \<Rightarrow> store_engine" where
  "engine_open now digest cool edge_context eager built =
     \<lparr>model = (if eager then from_optional now (case built of Inl _ \<Rightarrow> None | Inr e \<Rightarrow> Some e) else Empty),
      query_digest = digest, cooldown = cool, allow_demand_load = True,
      integration_edge_context = edge_context, similarity_computations = 0, resident_graph = None, model_uses = 0\<rparr>"

subsection \<open>The vector space guard\<close>

datatype guard_verdict = Allow | Withhold string string

definition guard :: "vector_space option \<Rightarrow> string \<Rightarrow> guard_verdict" where
  "guard space digest =
     (case space of
        Some v \<Rightarrow> if vs_digest v \<noteq> [] \<and> vs_digest v = digest then Allow else Withhold (vs_digest v) digest
      | None \<Rightarrow> Withhold [] digest)"

definition vector_space_allows :: "snapshot \<Rightarrow> store_engine \<Rightarrow> bool" where
  "vector_space_allows sn s \<longleftrightarrow> guard (db_space (sn_db sn)) (query_digest s) = Allow"

lemma guard_Allow: "guard space d = Allow \<longleftrightarrow> (\<exists>v. space = Some v \<and> vs_digest v \<noteq> [] \<and> vs_digest v = d)"
  by (auto simp: guard_def split: option.split)

subsection \<open>Operations\<close>

text \<open>
  \<open>borrow_or_load\<close> of a slot no other thread uses: a failure past its cooldown is retried at once, and
  no load is ever seen in progress (\<open>None\<close> would be the wait for one).
\<close>

definition borrow_or_load :: "nat \<Rightarrow> nat \<Rightarrow> string + 'e \<Rightarrow> 'e slot \<Rightarrow> ((demand_error + 'e) \<times> 'e slot) option" where
  "borrow_or_load now cool built s =
     (case demand_pass now s of
        (Borrowed e, s) \<Rightarrow> Some (Inr e, s)
      | (Refused x, s) \<Rightarrow> Some (Inl x, s)
      | (Wait, s) \<Rightarrow> None
      | (Claimed, s) \<Rightarrow> Some (finish_load now cool built s)
      | (Again, s) \<Rightarrow> Some (finish_load now cool built (snd (demand_pass now s))))"

definition demand_embedder :: "engine_env \<Rightarrow> store_engine \<Rightarrow> (query_embedder option \<times> store_engine) option" where
  "demand_embedder en s =
     (let n = model_uses s; s = s\<lparr>model_uses := n + 1\<rparr>
      in case try_borrow (ee_now en n) (model s) of
           (Some e, m) \<Rightarrow> Some (Some e, s\<lparr>model := m\<rparr>)
         | (None, m) \<Rightarrow>
             if \<not> allow_demand_load s then Some (None, s)
             else map_option (\<lambda>(r, m). (case r of Inl _ \<Rightarrow> None | Inr e \<Rightarrow> Some e, s\<lparr>model := m\<rparr>))
                    (borrow_or_load (ee_now en n) (cooldown s) (ee_build en n) (model s)))"

text \<open>The borrow ends when the search returns.\<close>

definition give_back :: "engine_env \<Rightarrow> store_engine \<Rightarrow> store_engine" where
  "give_back en s = s\<lparr>model := release_borrow (ee_now en (model_uses s)) (model s), model_uses := model_uses s + 1\<rparr>"

definition engine_semantic_search ::
  "engine_env \<Rightarrow> snapshot \<Rightarrow> string \<Rightarrow> nat \<Rightarrow> (store_engine, cognis_error + hit list) io" where
  "engine_semantic_search en sn query k s =
     (if \<not> vector_space_allows sn s then Some (Inr [], s)
      else case demand_embedder en s of
             None \<Rightarrow> None
           | Some (None, s) \<Rightarrow> Some (Inr [], s)
           | Some (Some embed_text, s) \<Rightarrow>
               let q = trim query
               in if q = [] \<or> k = 0 then Some (Inr [], give_back en s)
                  else case embed_text q of
                         Inl _ \<Rightarrow> Some (Inr [], give_back en s)
                       | Inr v \<Rightarrow>
                           let s = s\<lparr>similarity_computations :=
                                       similarity_computations s + of_nat (vec_row_count (ee_sqlite en) (sn_db sn))\<rparr>
                           in Some (Inr (vec_search (ee_knn en) (ee_scan_vectors en) (sn_db sn) v k), give_back en s))"

definition resident_code_graph :: "engine_env \<Rightarrow> snapshot \<Rightarrow> (store_engine, cognis_error + code_graph) io" where
  "resident_code_graph en sn s =
     (case resident_graph s of
        Some (gen, g) \<Rightarrow>
          if gen = sn_source sn \<and> \<not> is_empty g then Some (Inr g, s)
          else (case build_code_graph (ee_scan_ids en) (ee_scan_edges en) (sn_db sn) None of
                  Inl e \<Rightarrow> Some (Inl e, s)
                | Inr g \<Rightarrow> Some (Inr g, s\<lparr>resident_graph := Some (sn_source sn, g)\<rparr>))
      | None \<Rightarrow>
          (case build_code_graph (ee_scan_ids en) (ee_scan_edges en) (sn_db sn) None of
             Inl e \<Rightarrow> Some (Inl e, s)
           | Inr g \<Rightarrow> Some (Inr g, s\<lparr>resident_graph := Some (sn_source sn, g)\<rparr>)))"

definition engine_diffuse ::
  "engine_env \<Rightarrow> snapshot \<Rightarrow> hit list list \<Rightarrow> nat \<Rightarrow> f64 \<Rightarrow> f64 \<Rightarrow> (store_engine, cognis_error + hit list) io" where
  "engine_diffuse en sn seeds k alpha eps s =
     (case resident_code_graph en sn s of
        None \<Rightarrow> None
      | Some (Inl e, s) \<Rightarrow> Some (Inl e, s)
      | Some (Inr g, s) \<Rightarrow>
          map_option (\<lambda>r. (r, s)) (diffuse_seed_hits (ee_show_f64 en) (ee_iter en) g seeds k alpha eps))"

definition engine_hydrate :: "snapshot \<Rightarrow> string list \<Rightarrow> symbol list" where
  "engine_hydrate sn ids = (if ids = [] then [] else hydrate_ids (sn_db sn) ids)"

definition engine_lookup :: "engine_env \<Rightarrow> snapshot \<Rightarrow> string \<Rightarrow> string option \<Rightarrow> symbol option" where
  "engine_lookup en sn name_or_id kind =
     (let needle = trim name_or_id
      in if needle = [] then None else resolve_symbol (ee_lower en) (sn_db sn) needle kind)"

definition semantic_available :: "engine_env \<Rightarrow> snapshot \<Rightarrow> store_engine \<Rightarrow> bool" where
  "semantic_available en sn s \<longleftrightarrow>
     is_loaded (model s) \<and> 0 < vec_row_count (ee_sqlite en) (sn_db sn) \<and> vector_space_allows sn s"

subsection \<open>Dependency traces\<close>

definition dependency_hit :: "string \<Rightarrow> nat \<Rightarrow> hit" where
  "dependency_hit i hop =
     with_evidence (hit_new i (1 / real hop) ''structural'' ''dependency'') (JObj [(''depth'', JInt (int hop))])"

text \<open>The loops of a trace: the nodes visited, those of the next hop, and the hits.\<close>

type_synonym trace = "string list \<times> string list \<times> hit list"

definition trace_edge :: "(string \<Rightarrow> edge \<Rightarrow> string option) \<Rightarrow> nat \<Rightarrow> string \<Rightarrow> edge \<Rightarrow> trace \<Rightarrow> trace" where
  "trace_edge neighbor hop node e =
     (\<lambda>(visited, next, hits).
        case (if dst_missing e then None else neighbor node e) of
          None \<Rightarrow> (visited, next, hits)
        | Some n \<Rightarrow>
            if n \<in> set visited then (visited, next, hits)
            else (n # visited, next @ [n], hits @ [dependency_hit n hop]))"

fun trace_hops ::
  "(string list \<Rightarrow> edge list) \<Rightarrow> (string \<Rightarrow> edge \<Rightarrow> string option) \<Rightarrow> nat \<Rightarrow> nat \<Rightarrow> string list \<Rightarrow> string list \<Rightarrow> hit list \<Rightarrow> hit list" where
  "trace_hops fetch neighbor hop 0 visited frontier hits = hits"
| "trace_hops fetch neighbor hop (Suc n) visited frontier hits =
     (let (visited, next, hits) =
        fold (\<lambda>node. fold (trace_edge neighbor hop node) (fetch frontier)) frontier (visited, [], hits)
      in if next = [] then hits else trace_hops fetch neighbor (hop + 1) n visited next hits)"

definition neighbor_in :: "direction \<Rightarrow> string \<Rightarrow> edge \<Rightarrow> string option" where
  "neighbor_in d node e =
     (case d of
        Out \<Rightarrow> if src_id e = node then Some (dst_id e) else None
      | In \<Rightarrow> if dst_id e = node then Some (src_id e) else None
      | Both \<Rightarrow> if src_id e = node then Some (dst_id e) else if dst_id e = node then Some (src_id e) else None)"

definition engine_dependency_trace :: "snapshot \<Rightarrow> string \<Rightarrow> string \<Rightarrow> nat \<Rightarrow> hit list" where
  "engine_dependency_trace sn start direction depth =
     (case parse_direction direction of
        None \<Rightarrow> []
      | Some d \<Rightarrow>
          trace_hops (\<lambda>frontier. edges_incident (sn_db sn) frontier d) (neighbor_in d) 1 depth
            [start] [start] [])"

subsection \<open>The engine as the tools see it\<close>

definition store_ops :: "engine_env \<Rightarrow> snapshot \<Rightarrow> store_engine retrieval_engine" where
  "store_ops en sn =
     \<lparr>en_fts = (\<lambda>q k s. Some (Inr (fts_search (ee_fts en) (sn_db sn) q k), s)),
      en_semantic = engine_semantic_search en sn,
      en_diffuse = engine_diffuse en sn,
      en_hydrate = (\<lambda>ids s. Some (Inr (engine_hydrate sn ids), s)),
      en_lookup = (\<lambda>name kind s. Some (Inr (engine_lookup en sn name kind), s)),
      en_trace = (\<lambda>i d depth s. Some (Inr (engine_dependency_trace sn i d depth), s)),
      en_graph = resident_code_graph en sn,
      en_semantic_available = semantic_available en sn,
      en_edge_context = integration_edge_context\<rparr>"

text \<open>A database without one of its indexes is refused; \<open>present\<close> are the indexes SQLite lists.\<close>

definition REQUIRED_INDEXES :: "string list" where
  "REQUIRED_INDEXES =
     [''idx_symbol_file'', ''idx_symbol_qname'', ''idx_symbol_name'', ''idx_symbol_name_lower'', ''idx_edge_src'',
      ''idx_edge_dst'', ''idx_embedding_queue_file'']"

definition missing_required_indexes :: "string list \<Rightarrow> string list" where
  "missing_required_indexes present = filter (\<lambda>i. i \<notin> set present) REQUIRED_INDEXES"

definition refuse_missing_indexes :: "string list \<Rightarrow> cognis_error + unit" where
  "refuse_missing_indexes present =
     (let missing = missing_required_indexes present
      in if missing = [] then Inr ()
         else Inl (RetrievalError (''missing required index: '' @ join '', '' missing)))"

definition open_snapshot :: "string list \<Rightarrow> database \<Rightarrow> cognis_error + snapshot" where
  "open_snapshot present db = and_then (refuse_missing_indexes present) (\<lambda>_. snapshot_open db)"

subsection \<open>The full scans\<close>

definition reference_hydrate :: "database \<Rightarrow> string list \<Rightarrow> symbol list" where
  "reference_hydrate db ids = (if ids = [] then [] else filter (\<lambda>s. sid s \<in> set ids) (list_symbols db))"

definition reference_rank :: "(string \<Rightarrow> string) \<Rightarrow> string \<Rightarrow> symbol \<Rightarrow> nat" where
  "reference_rank lower needle s =
     (let n = lower needle
      in if sid s = needle then 6 else if qualified_name s = needle then 5 else if sname s = needle then 4
         else if lower (sname s) = n then 3
         else if str_contains (lower (sname s)) n \<or> str_contains (lower (qualified_name s)) n then 2
         else if str_contains (lower (sid s)) n then 1 else 0)"

definition reference_lookup :: "(string \<Rightarrow> string) \<Rightarrow> database \<Rightarrow> string \<Rightarrow> string option \<Rightarrow> symbol option" where
  "reference_lookup lower db name_or_id kind =
     (let needle = trim name_or_id
      in if needle = [] then None
         else map_option snd
                (best_candidate (reference_rank lower needle)
                   (filter (\<lambda>s. case kind of None \<Rightarrow> True | Some k \<Rightarrow> kind_json (skind s) = k) (list_symbols db))))"

definition reference_neighbor :: "string \<Rightarrow> string \<Rightarrow> edge \<Rightarrow> string option" where
  "reference_neighbor direction node e =
     (if direction = ''out'' \<and> src_id e = node then Some (dst_id e)
      else if direction = ''in'' \<and> dst_id e = node then Some (src_id e)
      else if direction = ''both'' \<and> src_id e = node then Some (dst_id e)
      else if direction = ''both'' \<and> dst_id e = node then Some (src_id e)
      else None)"

definition reference_trace :: "database \<Rightarrow> string \<Rightarrow> string \<Rightarrow> nat \<Rightarrow> hit list" where
  "reference_trace db start direction depth =
     trace_hops (\<lambda>_. list_edges db) (reference_neighbor direction) 1 depth [start] [start] []"


subsection \<open>A trace is a breadth-first search\<close>

text \<open>The arcs a trace follows.\<close>

definition arcs :: "(string \<Rightarrow> edge \<Rightarrow> string option) \<Rightarrow> edge list \<Rightarrow> (string \<times> string) set" where
  "arcs neighbor es = {(x, y). \<exists>e \<in> set es. \<not> dst_missing e \<and> neighbor x e = Some y}"

text \<open>The nodes at distance \<open>n\<close>.\<close>

definition sphere :: "('a \<times> 'a) set \<Rightarrow> 'a \<Rightarrow> nat \<Rightarrow> 'a set" where
  "sphere R s n = {x. (s, x) \<in> R ^^ n \<and> (\<forall>i < n. (s, x) \<notin> R ^^ i)}"

lemma sphere_0 [simp]: "sphere R s 0 = {s}"
  by (auto simp: sphere_def)

lemma sphere_disjoint: "x \<in> sphere R s i \<Longrightarrow> x \<in> sphere R s j \<Longrightarrow> i = j"
  unfolding sphere_def by (metis (mono_tags, lifting) linorder_neqE_nat mem_Collect_eq)

lemma relpow_sphere:
  assumes "(s, x) \<in> R ^^ n"
  shows "\<exists>i \<le> n. x \<in> sphere R s i"
proof -
  let ?i = "LEAST i. (s, x) \<in> R ^^ i"
  have "(s, x) \<in> R ^^ ?i" using assms by (rule LeastI)
  moreover have "(s, x) \<notin> R ^^ j" if "j < ?i" for j using that by (rule not_less_Least)
  ultimately have "x \<in> sphere R s ?i" by (simp add: sphere_def)
  moreover have "?i \<le> n" using assms by (rule Least_le)
  ultimately show ?thesis by blast
qed

text \<open>A node of the next sphere is a successor of the last one that no earlier one holds.\<close>

lemma sphere_Suc: "sphere R s (Suc n) = {y. \<exists>x \<in> sphere R s n. (x, y) \<in> R} - (\<Union>i \<le> n. sphere R s i)"
proof (intro equalityI subsetI DiffI)
  fix y
  assume y: "y \<in> sphere R s (Suc n)"
  then obtain x where x: "(s, x) \<in> R ^^ n" "(x, y) \<in> R" by (auto simp: sphere_def)
  then obtain i where i: "i \<le> n" "x \<in> sphere R s i" using relpow_sphere by metis
  have "(s, y) \<in> R ^^ Suc i" using i(2) x(2) by (auto simp: sphere_def)
  moreover have "(s, y) \<notin> R ^^ j" if "j < Suc n" for j using y that by (simp add: sphere_def)
  ultimately have "\<not> Suc i < Suc n" by blast
  with i(1) have "i = n" by simp
  with i x show "y \<in> {y. \<exists>x \<in> sphere R s n. (x, y) \<in> R}" by auto
  show "y \<notin> (\<Union>i \<le> n. sphere R s i)" using y sphere_disjoint [of y R s "Suc n"] by fastforce
next
  fix y
  assume y: "y \<in> {y. \<exists>x \<in> sphere R s n. (x, y) \<in> R} - (\<Union>i \<le> n. sphere R s i)"
  then have "(s, y) \<in> R ^^ Suc n" by (auto simp: sphere_def)
  then obtain i where "i \<le> Suc n" "y \<in> sphere R s i" using relpow_sphere by metis
  with y show "y \<in> sphere R s (Suc n)" by (cases "i = Suc n") auto
qed

lemma sphere_empty: "sphere R s n = {} \<Longrightarrow> sphere R s (n + k) = {}"
  by (induction k) (simp_all add: sphere_Suc)

text \<open>One hop finds the new neighbours of its frontier, each once.\<close>

definition hop_ok :: "nat \<Rightarrow> string list \<Rightarrow> hit list \<Rightarrow> string set \<Rightarrow> trace \<Rightarrow> bool" where
  "hop_ok hop visited hits new st = (case st of (v, next, hs) \<Rightarrow>
     set v = set visited \<union> set next \<and> distinct next \<and> set next = new - set visited
     \<and> hs = hits @ map (\<lambda>n. dependency_hit n hop) next)"

lemma trace_edge_ok:
  assumes "hop_ok hop visited hits new st"
  shows "hop_ok hop visited hits (new \<union> (if dst_missing e then {} else set_option (neighbor node e))) (trace_edge neighbor hop node e st)"
  using assms by (cases st) (auto simp: hop_ok_def trace_edge_def split: option.splits)

definition successors :: "(string \<Rightarrow> edge \<Rightarrow> string option) \<Rightarrow> edge list \<Rightarrow> string \<Rightarrow> string set" where
  "successors neighbor es x = {y. (x, y) \<in> arcs neighbor es}"

lemma trace_node_ok:
  assumes "hop_ok hop visited hits new st"
  shows "hop_ok hop visited hits (new \<union> successors neighbor es node) (fold (trace_edge neighbor hop node) es st)"
  using assms
proof (induction es arbitrary: new st)
  case Nil
  then show ?case by (simp add: successors_def arcs_def)
next
  case (Cons e es)
  have "new \<union> successors neighbor (e # es) node
      = new \<union> (if dst_missing e then {} else set_option (neighbor node e)) \<union> successors neighbor es node"
    by (auto simp: successors_def arcs_def)
  with Cons.IH [OF trace_edge_ok [OF Cons.prems]] show ?case by simp
qed

lemma trace_hop_ok:
  assumes "hop_ok hop visited hits new st"
  shows "hop_ok hop visited hits (new \<union> (\<Union>x \<in> set frontier. successors neighbor es x))
    (fold (\<lambda>node. fold (trace_edge neighbor hop node) es) frontier st)"
  using assms
proof (induction frontier arbitrary: new st)
  case (Cons x frontier)
  show ?case using Cons.IH [OF trace_node_ok [OF Cons.prems]] by (simp add: Un_assoc)
qed simp

text \<open>The hits found by the hops before \<open>hop\<close>.\<close>

definition hits_upto :: "(string \<times> string) set \<Rightarrow> string \<Rightarrow> nat \<Rightarrow> hit list \<Rightarrow> bool" where
  "hits_upto R s hop hits \<longleftrightarrow>
     set hits = {dependency_hit x j | x j. 1 \<le> j \<and> j < hop \<and> x \<in> sphere R s j} \<and> distinct (map symbol_id hits)
     \<and> sorted (map (\<lambda>h. - score h) hits)"

lemma dependency_hit_simps [simp]: "symbol_id (dependency_hit x j) = x" "score (dependency_hit x j) = 1 / real j"
  by (simp_all add: dependency_hit_def)

lemma hits_upto_Suc:
  assumes "hits_upto R s hop hits" "set next = sphere R s hop" "distinct next" "1 \<le> hop"
  shows "hits_upto R s (Suc hop) (hits @ map (\<lambda>n. dependency_hit n hop) next)"
proof -
  let ?found = "map (\<lambda>n. dependency_hit n hop) next"
  have hits: "set hits = {dependency_hit x j | x j. 1 \<le> j \<and> j < hop \<and> x \<in> sphere R s j}" "distinct (map symbol_id hits)"
    "sorted (map (\<lambda>h. - score h) hits)"
    using assms(1) by (simp_all add: hits_upto_def)
  have "set (hits @ ?found) = {dependency_hit x j | x j. 1 \<le> j \<and> j < Suc hop \<and> x \<in> sphere R s j}"
    using hits(1) assms(2,4) by (auto simp: less_Suc_eq)
  moreover have "symbol_id h \<notin> set next" if "h \<in> set hits" for h
    using that hits(1) assms(2) sphere_disjoint [of _ R s _ hop] by force
  then have "distinct (map symbol_id (hits @ ?found))"
    using hits(2) assms(3) by (auto simp: o_def)
  moreover have far: "1 / real hop \<le> score h" if h: "h \<in> set hits" for h
  proof -
    obtain x j where "h = dependency_hit x j" "1 \<le> j" "j < hop" using h hits(1) by auto
    then show ?thesis by (simp add: frac_le)
  qed
  have "sorted (map (\<lambda>h. - score h) ?found)" by (simp add: o_def map_replicate_const)
  then have "sorted (map (\<lambda>h. - score h) (hits @ ?found))"
    using hits(3) far by (simp add: sorted_append)
  ultimately show ?thesis by (simp add: hits_upto_def)
qed

lemma trace_hops_bfs:
  assumes "\<And>fr x. x \<in> set fr \<Longrightarrow> successors neighbor (fetch fr) x = successors neighbor es x"
    and "set visited = (\<Union>i < hop. sphere (arcs neighbor es) s i)" "set frontier = sphere (arcs neighbor es) s (hop - 1)"
    and "hits_upto (arcs neighbor es) s hop hits" "1 \<le> hop"
  shows "hits_upto (arcs neighbor es) s (hop + n) (trace_hops fetch neighbor hop n visited frontier hits)"
  using assms(2-)
proof (induction n arbitrary: hop visited frontier hits)
  case (Suc n)
  let ?R = "arcs neighbor es"
  let ?st = "fold (\<lambda>node. fold (trace_edge neighbor hop node) (fetch frontier)) frontier (visited, [], hits)"
  obtain v found hs where st: "?st = (v, found, hs)" using prod_cases3 by blast
  have "hop_ok hop visited hits {} (visited, [], hits)" by (simp add: hop_ok_def)
  from trace_hop_ok [OF this, where frontier = frontier and neighbor = neighbor and es = "fetch frontier"]
  have ok: "hop_ok hop visited hits (\<Union>x \<in> set frontier. successors neighbor es x) (v, found, hs)"
    using assms(1) by (simp add: st)
  have "{..<hop} = {..hop - 1}" using Suc.prems(4) by auto
  then have sph: "set found = sphere ?R s hop"
    using ok sphere_Suc [of ?R s "hop - 1"] Suc.prems by (auto simp: hop_ok_def successors_def)
  have hs: "hits_upto ?R s (Suc hop) hs"
    using hits_upto_Suc [OF Suc.prems(3) sph] ok Suc.prems(4) by (auto simp: hop_ok_def)
  show ?case
  proof (cases "found = []")
    case True
    then have "sphere ?R s j = {}" if "hop \<le> j" for j
      using sph sphere_empty [of ?R s hop "j - hop"] that by simp
    then have "{dependency_hit x j | x j. 1 \<le> j \<and> j < hop + Suc n \<and> x \<in> sphere ?R s j}
        = {dependency_hit x j | x j. 1 \<le> j \<and> j < Suc hop \<and> x \<in> sphere ?R s j}"
      by (metis (no_types, opaque_lifting) Suc_le_eq empty_iff less_SucI linorder_not_less order.strict_trans2 le_add1 order_less_le_trans)
    with hs True show ?thesis by (simp add: st hits_upto_def)
  next
    case False
    have "set v = (\<Union>i < Suc hop. sphere ?R s i)"
      using ok Suc.prems(1) sph by (auto simp: hop_ok_def less_Suc_eq)
    with Suc.IH [OF this _ hs] sph False show ?thesis by (simp add: st)
  qed
qed simp

subsection \<open>Bounded queries are the full scans\<close>

lemma neighbor_incident: "neighbor_in d node e = Some y \<Longrightarrow> node \<in> A \<Longrightarrow> incident A d e"
  by (cases d) (auto simp: neighbor_in_def incident_def follows_outbound_def follows_inbound_def split: if_splits)

lemma incident_successors:
  assumes "db_ok db" "x \<in> set fr"
  shows "successors (neighbor_in d) (edges_incident db fr d) x = successors (neighbor_in d) (list_edges db) x"
  using neighbor_incident [OF _ assms(2)] by (auto simp: successors_def arcs_def edges_incident_filter [OF assms(1)])

lemma trace_irrelevant:
  assumes "\<And>e. \<not> P e \<Longrightarrow> neighbor node e = None"
  shows "fold (trace_edge neighbor hop node) (filter P es) st = fold (trace_edge neighbor hop node) es st"
proof (induction es arbitrary: st)
  case (Cons e es)
  show ?case
  proof (cases "P e")
    case False
    with assms have "trace_edge neighbor hop node e st = st" by (cases st) (simp add: trace_edge_def)
    with Cons False show ?thesis by simp
  qed (use Cons in simp)
qed simp

lemma trace_hops_cong:
  assumes "\<And>fr hop node st. node \<in> set fr \<Longrightarrow>
    fold (trace_edge f hop node) (fetch fr) st = fold (trace_edge g hop node) (fetch' fr) st"
  shows "trace_hops fetch f hop n visited fr hits = trace_hops fetch' g hop n visited fr hits"
proof (induction n arbitrary: hop visited fr hits)
  case (Suc n)
  have "fold (\<lambda>node. fold (trace_edge f hop node) (fetch fr)) fr st
      = fold (\<lambda>node. fold (trace_edge g hop node) (fetch' fr)) fr st" for st
    using assms by (intro fold_cong) auto
  then show ?case by (simp add: Suc split: prod.split)
qed simp

lemma reference_neighbor_of: "parse_direction s = Some d \<Longrightarrow> reference_neighbor s = neighbor_in d"
  by (auto simp: fun_eq_iff parse_direction_def reference_neighbor_def neighbor_in_def split: if_splits)

lemma reference_neighbor_none: "parse_direction s = None \<Longrightarrow> reference_neighbor s node e = None"
  by (auto simp: parse_direction_def reference_neighbor_def split: if_splits)

lemma trace_nothing: "(\<And>node e. neighbor node e = None) \<Longrightarrow> trace_hops fetch neighbor hop n visited fr [] = []"
proof (cases n)
  case (Suc m)
  assume "\<And>node e. neighbor node e = None"
  then have "trace_edge neighbor hop node e st = st" for node e st by (cases st) (simp add: trace_edge_def)
  then have "fold (trace_edge neighbor hop node) es st = st" for node es st by (induction es arbitrary: st) simp_all
  then have "fold (\<lambda>node. fold (trace_edge neighbor hop node) (fetch fr)) ns st = st" for ns st by (induction ns arbitrary: st) simp_all
  with Suc show ?thesis by simp
qed simp

text \<open>
  C34: A dependency trace that asks the store only for the edges at each frontier, and a hydration that asks only
  for the primary keys wanted, return what the scans of the whole tables return, element for element.
\<close>

theorem bounded_trace_is_scan:
  assumes "db_ok (sn_db sn)"
  shows "engine_dependency_trace sn start direction depth = reference_trace (sn_db sn) start direction depth
    \<and> engine_hydrate sn ids = reference_hydrate (sn_db sn) ids"
proof (cases "parse_direction direction")
  case None
  have "engine_hydrate sn ids = reference_hydrate (sn_db sn) ids"
    using symbols_by_values_filter [OF assms, of ColId] by (simp add: engine_hydrate_def reference_hydrate_def)
  with None trace_nothing [OF reference_neighbor_none] show ?thesis
    by (simp add: engine_dependency_trace_def reference_trace_def)
next
  case (Some d)
  have "fold (trace_edge (neighbor_in d) hop node) (edges_incident (sn_db sn) fr d) st
      = fold (trace_edge (neighbor_in d) hop node) (list_edges (sn_db sn)) st" if "node \<in> set fr" for fr hop node st
    unfolding edges_incident_filter [OF assms]
    by (rule trace_irrelevant) (use neighbor_incident [OF _ that] in \<open>fastforce intro: classical\<close>)
  then have "engine_dependency_trace sn start direction depth = reference_trace (sn_db sn) start direction depth"
    unfolding engine_dependency_trace_def reference_trace_def Some reference_neighbor_of [OF Some] option.case
    by (rule trace_hops_cong)
  moreover have "engine_hydrate sn ids = reference_hydrate (sn_db sn) ids"
    using symbols_by_values_filter [OF assms, of ColId] by (simp add: engine_hydrate_def reference_hydrate_def)
  ultimately show ?thesis ..
qed

text \<open>A snapshot of the sample store: a call from \<open>a\<close> to \<open>b\<close>.\<close>

definition sample_snapshot :: snapshot where
  "sample_snapshot = \<lparr>sn_db = sample_store, sn_source = 1, sn_semantic = 0, sn_pending = 0\<rparr>"

definition sample_engine_env :: engine_env where
  "sample_engine_env =
     \<lparr>ee_sqlite = plain_env, ee_fts = (\<lambda>_ _ _. None), ee_knn = (\<lambda>_ _ _. None), ee_scan_vectors = id, ee_scan_ids = id,
      ee_scan_edges = id, ee_lower = to_ascii_lowercase, ee_show_f64 = (\<lambda>_. []), ee_iter = id, ee_now = (\<lambda>_. 0),
      ee_build = (\<lambda>_. Inl [])\<rparr>"

lemma db_ok_sample: "db_ok (sn_db sample_snapshot)"
  using store_inv_sample by (simp add: sample_snapshot_def store_inv_def)

lemma sample_rows:
  "list_symbols (sn_db sample_snapshot) = [flagged_symbol, flagged_symbol\<lparr>sid := ''b''\<rparr>]"
  "list_edges (sn_db sample_snapshot) = [\<lparr>src_id = ''a'', dst_id = ''b'', ekind = Calls, confidence = 1, meta = stored_meta JNull\<rparr>]"
  by (simp_all add: sample_snapshot_def sample_store_def flagged_symbol_def list_symbols_def list_edges_def upsert_symbol_def
      upsert_edge_def empty_database_def edge_key_def)

theorem bounded_trace_is_scan_witness:
  "engine_dependency_trace sample_snapshot ''b'' ''in'' 3 = [dependency_hit ''a'' 1]
    \<and> map sid (engine_hydrate sample_snapshot [''b'', ''c'']) = [''b'']"
  using bounded_trace_is_scan [OF db_ok_sample, of "''b''" "''in''" 3 "[''b'', ''c'']"]
  by (simp add: reference_trace_def reference_hydrate_def sample_rows reference_neighbor_def trace_edge_def dst_missing_def
      stored_meta_def flagged_symbol_def numeral_eq_Suc)

text \<open>
  C17: A trace reports exactly the symbols reachable within its depth, each once, at the length of the shortest
  path to it, nearest first; an edge whose target is missing is never followed.
\<close>

theorem trace_shortest_paths:
  assumes "db_ok (sn_db sn)" "parse_direction direction = Some d"
  shows "set (engine_dependency_trace sn start direction depth)
      = {dependency_hit x j | x j. 1 \<le> j \<and> j \<le> depth \<and> x \<in> sphere (arcs (neighbor_in d) (list_edges (sn_db sn))) start j}
    \<and> distinct (map symbol_id (engine_dependency_trace sn start direction depth))
    \<and> sorted (map (\<lambda>h. - score h) (engine_dependency_trace sn start direction depth))"
proof -
  have "hits_upto (arcs (neighbor_in d) (list_edges (sn_db sn))) start (1 + depth) (engine_dependency_trace sn start direction depth)"
    unfolding engine_dependency_trace_def assms(2) option.case
    by (rule trace_hops_bfs) (simp_all add: incident_successors [OF assms(1)] hits_upto_def lessThan_Suc)
  then show ?thesis by (simp add: hits_upto_def less_Suc_eq_le)
qed

theorem trace_shortest_paths_witness:
  "dependency_hit ''b'' 1 \<in> set (engine_dependency_trace sample_snapshot ''a'' ''out'' 1)"
proof -
  have "(''a'', ''b'') \<in> arcs (neighbor_in Out) (list_edges (sn_db sample_snapshot))"
    by (simp add: arcs_def sample_rows neighbor_in_def dst_missing_def stored_meta_def)
  then have "''b'' \<in> sphere (arcs (neighbor_in Out) (list_edges (sn_db sample_snapshot))) ''a'' 1"
    by (auto simp: sphere_def)
  with trace_shortest_paths [OF db_ok_sample, of "''out''" Out "''a''" 1] show ?thesis
    by (auto simp: parse_direction_def)
qed

lemma find_filter: "find P (filter Q xs) = find (\<lambda>x. P x \<and> Q x) xs"
  by (induction xs) auto

lemma best_candidate_cong: "(\<And>s. s \<in> set cs \<Longrightarrow> f s = g s) \<Longrightarrow> best_candidate f cs = best_candidate g cs"
  unfolding best_candidate_def by (intro fold_cong) (auto split: option.split)

lemma find_split: "find P xs = Some x \<Longrightarrow> \<exists>ps qs. xs = ps @ x # qs \<and> P x \<and> (\<forall>y \<in> set ps. \<not> P y)"
proof (induction xs)
  case (Cons y ys)
  show ?case
  proof (cases "P y")
    case False
    with Cons obtain ps qs where "ys = ps @ x # qs \<and> P x \<and> (\<forall>y \<in> set ps. \<not> P y)" by auto
    with False have "y # ys = (y # ps) @ x # qs \<and> P x \<and> (\<forall>z \<in> set (y # ps). \<not> P z)" by simp
    then show ?thesis by blast
  next
    case True
    with Cons.prems have "y # ys = [] @ x # ys \<and> P x" by simp
    then show ?thesis by (metis empty_iff list.set(1))
  qed
qed simp

text \<open>The best candidate is the first of the highest rank.\<close>

definition better :: "('a \<Rightarrow> nat) \<Rightarrow> 'a \<Rightarrow> (nat \<times> 'a) option \<Rightarrow> (nat \<times> 'a) option" where
  "better rank s b =
     (if 0 < rank s \<and> (case b of None \<Rightarrow> True | Some (r, _) \<Rightarrow> r < rank s) then Some (rank s, s) else b)"

lemma best_candidate_better: "best_candidate rank cs = fold (better rank) cs None"
  by (simp add: best_candidate_def better_def [abs_def])

lemma better_below:
  "(\<And>t. t \<in> set ps \<Longrightarrow> rank t < m) \<Longrightarrow> (case b of None \<Rightarrow> True | Some (r, _) \<Rightarrow> r < m) \<Longrightarrow>
    (case fold (better rank) ps b of None \<Rightarrow> True | Some (r, _) \<Rightarrow> r < m)"
proof (induction ps arbitrary: b)
  case (Cons p ps)
  have "case better rank p b of None \<Rightarrow> True | Some (r, _) \<Rightarrow> r < m"
    using Cons.prems by (simp add: better_def)
  with Cons show ?case by simp
qed simp

lemma better_keeps: "(\<And>t. t \<in> set qs \<Longrightarrow> rank t \<le> m) \<Longrightarrow> fold (better rank) qs (Some (m, s)) = Some (m, s)"
proof (induction qs)
  case (Cons q qs)
  then have "rank q \<le> m" by simp
  then have "better rank q (Some (m, s)) = Some (m, s)" by (simp add: better_def)
  with Cons show ?case by simp
qed simp

lemma find_same: "(\<And>t. t \<in> set xs \<Longrightarrow> P t = Q t) \<Longrightarrow> find P xs = find Q xs"
  by (induction xs) auto

lemma best_candidate_first:
  assumes "find P cs = Some s" "\<And>t. t \<in> set cs \<Longrightarrow> P t \<longleftrightarrow> rank t = m" "\<And>t. t \<in> set cs \<Longrightarrow> rank t \<le> m" "0 < m"
  shows "best_candidate rank cs = Some (m, s)"
proof -
  have "find (\<lambda>t. rank t = m) cs = Some s" using assms(1) find_same [of cs P "\<lambda>t. rank t = m"] assms(2) by simp
  from find_split [OF this] obtain ps qs where cs: "cs = ps @ s # qs" and s: "rank s = m" and ps: "\<forall>t \<in> set ps. rank t \<noteq> m"
    by auto
  have below: "\<And>t. t \<in> set ps \<Longrightarrow> rank t < m" using ps assms(3) cs by (simp add: order_less_le)
  from better_below [of ps rank m None, OF below] have "case fold (better rank) ps None of None \<Rightarrow> True | Some (r, _) \<Rightarrow> r < m" by simp
  then have "better rank s (fold (better rank) ps None) = Some (m, s)" using s assms(4) by (auto simp: better_def split: option.splits)
  then show ?thesis using better_keeps [of qs rank m s] assms(3) cs by (simp add: best_candidate_better)
qed

abbreviation of_kind :: "string option \<Rightarrow> symbol \<Rightarrow> bool" where
  "of_kind kind s \<equiv> (case kind of None \<Rightarrow> True | Some k \<Rightarrow> kind_json (skind s) = k)"

lemma resolve_exact_find: "resolve_exact db column v kind = find (\<lambda>s. column s = v) (filter (of_kind kind) (list_symbols db))"
  by (simp add: resolve_exact_def find_filter)

lemma all_candidates:
  assumes "db_ok db" "length (filter (of_kind kind) (list_symbols db)) \<le> LOOKUP_CANDIDATE_CAP"
  shows "sort_key sid (take LOOKUP_CANDIDATE_CAP (sort_key f (filter (of_kind kind) (list_symbols db))))
    = filter (of_kind kind) (list_symbols db)"
proof -
  let ?rows = "filter (of_kind kind) (list_symbols db)"
  have "sorted_wrt (\<lambda>s t. sid s < sid t) ?rows" using db_ok_symbols(2) [OF assms(1)] by (rule sorted_wrt_filter)
  then have "sorted (map sid ?rows)" by (simp add: sorted_map) (metis (no_types, lifting) less_imp_le sorted_wrt_mono_rel)
  moreover have "inj_on sid (set ?rows)" using db_ok_symbols(3) [OF assms(1)] by (rule inj_on_subset) auto
  ultimately have "sort_key sid (sort_key f ?rows) = ?rows" by (intro sort_key_inj_key_eq) simp_all
  with assms(2) show ?thesis by simp
qed

text \<open>
  C35: The indexed ladder (exact id, qualified name, name, lower-cased name, then a ranked substring) resolves a
  name to the symbol the full scan ranks best, ties in id order, as long as SQLite folds the case of the stored
  names as Rust does and the kind has no more symbols than the substring step considers.
\<close>

theorem lookup_ladder_is_scan:
  assumes "db_ok (sn_db sn)" "\<forall>s \<in> set (list_symbols (sn_db sn)). ee_lower en (sname s) = to_ascii_lowercase (sname s)"
    and "length (filter (of_kind kind) (list_symbols (sn_db sn))) \<le> LOOKUP_CANDIDATE_CAP"
  shows "engine_lookup en sn name kind = reference_lookup (ee_lower en) (sn_db sn) name kind"
proof (cases "trim name = []")
  case False
  let ?low = "ee_lower en" and ?v = "trim name" and ?rows = "filter (of_kind kind) (list_symbols (sn_db sn))"
  let ?rank = "reference_rank ?low ?v"
  have le6: "?rank t \<le> 6" for t by (simp add: reference_rank_def Let_def)
  have ladder: "engine_lookup en sn name kind =
      (case first_some (\<lambda>(column, v). find (\<lambda>s. column s = v) ?rows)
          [(sid, ?v), (qualified_name, ?v), (sname, ?v), (\<lambda>s. to_ascii_lowercase (sname s), ?low ?v)] of
         Some s \<Rightarrow> Some s | None \<Rightarrow> map_option snd (best_candidate (lookup_rank ?low ?v) ?rows))"
    using False unfolding engine_lookup_def resolve_symbol_def Let_def resolve_exact_find trim_idem
      all_candidates [OF assms(1,3)] by (simp only: if_False)
  have scan: "reference_lookup ?low (sn_db sn) name kind = map_option snd (best_candidate ?rank ?rows)"
    using False by (simp add: reference_lookup_def)
  have low: "?low (sname t) = to_ascii_lowercase (sname t)" if "t \<in> set ?rows" for t
    using assms(2) that by simp
  show ?thesis
  proof (cases "find (\<lambda>s. sid s = ?v) ?rows")
    case (Some s)
    have "best_candidate ?rank ?rows = Some (6, s)"
      by (rule best_candidate_first [OF Some _ le6]) (simp_all add: reference_rank_def Let_def)
    with Some show ?thesis by (simp add: ladder scan)
  next
    case 6: None
    then have id: "sid t \<noteq> ?v" if "t \<in> set ?rows" for t using that by (simp add: find_None_iff)
    show ?thesis
    proof (cases "find (\<lambda>s. qualified_name s = ?v) ?rows")
      case (Some s)
      have "best_candidate ?rank ?rows = Some (5, s)"
        by (rule best_candidate_first [OF Some]) (simp_all add: reference_rank_def Let_def id)
      with Some 6 show ?thesis by (simp add: ladder scan)
    next
      case 5: None
      then have qn: "qualified_name t \<noteq> ?v" if "t \<in> set ?rows" for t using that by (simp add: find_None_iff)
      show ?thesis
      proof (cases "find (\<lambda>s. sname s = ?v) ?rows")
        case (Some s)
        have "best_candidate ?rank ?rows = Some (4, s)"
          by (rule best_candidate_first [OF Some]) (simp_all add: reference_rank_def Let_def id qn)
        with Some 5 6 show ?thesis by (simp add: ladder scan)
      next
        case 4: None
        then have nm: "sname t \<noteq> ?v" if "t \<in> set ?rows" for t using that by (simp add: find_None_iff)
        have "best_candidate ?rank ?rows = best_candidate (lookup_rank ?low ?v) ?rows"
          by (rule best_candidate_cong) (simp add: reference_rank_def lookup_rank_def Let_def id qn nm)
        note fuzzy = this
        show ?thesis
        proof (cases "find (\<lambda>s. to_ascii_lowercase (sname s) = ?low ?v) ?rows")
          case (Some s)
          have "best_candidate ?rank ?rows = Some (3, s)"
            by (rule best_candidate_first [OF Some]) (simp_all add: reference_rank_def Let_def id qn nm low)
          with Some 4 5 6 show ?thesis by (simp add: ladder scan)
        next
          case None
          with fuzzy 4 5 6 show ?thesis by (simp add: ladder scan)
        qed
      qed
    qed
  qed
qed (simp add: engine_lookup_def reference_lookup_def)

theorem lookup_ladder_is_scan_witness:
  "map_option sid (engine_lookup sample_engine_env sample_snapshot '' M.A '' None) = Some ''a''"
proof -
  have low: "ee_lower sample_engine_env = to_ascii_lowercase" by (simp add: sample_engine_env_def)
  have "engine_lookup sample_engine_env sample_snapshot '' M.A '' None
      = reference_lookup (ee_lower sample_engine_env) (sn_db sample_snapshot) '' M.A '' None"
    by (rule lookup_ladder_is_scan [OF db_ok_sample]) (simp_all add: low sample_rows LOOKUP_CANDIDATE_CAP_def)
  then show ?thesis unfolding low reference_lookup_def sample_rows by code_simp
qed

end
