(* ===== verification/Tarjan.thy ===== *)
theory Tarjan
  imports Prelude
begin

text \<open>
  Tarjan's algorithm as \<open>crates/cognis-indexer/src/complexity.rs\<close> writes it (\<open>tarjan_scc\<close>). The graph is the
  list of the successors of each node; the stack is a list with its top first. The recursion is on fuel:
  every call visits a node that was not visited, so as much fuel as there are nodes is enough.
\<close>

subsection \<open>The algorithm\<close>

record tarjan =
  t_index :: nat
  t_indices :: "nat option list"
  t_low :: "nat list"
  t_on :: "bool list"
  t_stack :: "nat list"
  t_sccs :: "nat list list"

definition tarjan_init :: "nat \<Rightarrow> tarjan" where
  "tarjan_init n =
     \<lparr>t_index = 0, t_indices = replicate n None, t_low = replicate n 0, t_on = replicate n False,
      t_stack = [], t_sccs = []\<rparr>"

definition enter :: "nat \<Rightarrow> tarjan \<Rightarrow> tarjan" where
  "enter u st = st\<lparr>t_indices := (t_indices st)[u := Some (t_index st)], t_low := (t_low st)[u := t_index st],
     t_index := t_index st + 1, t_stack := u # t_stack st, t_on := (t_on st)[u := True]\<rparr>"

definition lower :: "nat \<Rightarrow> nat \<Rightarrow> tarjan \<Rightarrow> tarjan" where
  "lower u x st = st\<lparr>t_low := (t_low st)[u := min (t_low st ! u) x]\<rparr>"

text \<open>The loop that pops a component; an empty stack would end it.\<close>

fun pop_until :: "nat \<Rightarrow> nat list \<Rightarrow> nat list \<times> nat list" where
  "pop_until u [] = ([], [])"
| "pop_until u (w # ws) = (if w = u then ([w], ws) else let (c, rest) = pop_until u ws in (w # c, rest))"

definition close :: "nat \<Rightarrow> tarjan \<Rightarrow> tarjan" where
  "close u st =
     (if Some (t_low st ! u) = t_indices st ! u
      then let (c, rest) = pop_until u (t_stack st)
           in st\<lparr>t_stack := rest, t_on := fold (\<lambda>w on. on[w := False]) c (t_on st), t_sccs := t_sccs st @ [c]\<rparr>
      else st)"

fun strongconnect :: "nat \<Rightarrow> nat list list \<Rightarrow> nat \<Rightarrow> tarjan \<Rightarrow> tarjan option"
  and visit_edges :: "nat \<Rightarrow> nat list list \<Rightarrow> nat \<Rightarrow> nat list \<Rightarrow> tarjan \<Rightarrow> tarjan option" where
  "strongconnect 0 adj u st = None"
| "strongconnect (Suc f) adj u st = map_option (close u) (visit_edges f adj u (adj ! u) (enter u st))"
| "visit_edges f adj u [] st = Some st"
| "visit_edges f adj u (v # vs) st =
     (if t_indices st ! v = None
      then (case strongconnect f adj v st of
              None \<Rightarrow> None
            | Some st \<Rightarrow> visit_edges f adj u vs (lower u (t_low st ! v) st))
      else if t_on st ! v then visit_edges f adj u vs (lower u (the (t_indices st ! v)) st)
      else visit_edges f adj u vs st)"

fun tarjan_from :: "nat list list \<Rightarrow> nat list \<Rightarrow> tarjan \<Rightarrow> tarjan option" where
  "tarjan_from adj [] st = Some st"
| "tarjan_from adj (u # us) st =
     (if t_indices st ! u = None
      then (case strongconnect (length adj) adj u st of None \<Rightarrow> None | Some st \<Rightarrow> tarjan_from adj us st)
      else tarjan_from adj us st)"

definition tarjan_scc :: "nat list list \<Rightarrow> nat list list option" where
  "tarjan_scc adj = map_option t_sccs (tarjan_from adj [0..<length adj] (tarjan_init (length adj)))"

subsection \<open>Invariant\<close>

definition arcs :: "nat list list \<Rightarrow> (nat \<times> nat) set" where
  "arcs adj = {(u, v). u < length adj \<and> v \<in> set (adj ! u)}"

definition reaches :: "nat list list \<Rightarrow> nat \<Rightarrow> nat \<Rightarrow> bool" where
  "reaches adj u v \<longleftrightarrow> (u, v) \<in> (arcs adj)\<^sup>*"

lemma reaches_refl [simp]: "reaches adj u u"
  by (simp add: reaches_def)

lemma reaches_trans [trans]: "reaches adj u v \<Longrightarrow> reaches adj v w \<Longrightarrow> reaches adj u w"
  by (simp add: reaches_def)

lemma reaches_arc: "u < length adj \<Longrightarrow> v \<in> set (adj ! u) \<Longrightarrow> reaches adj u v"
  by (auto simp: reaches_def arcs_def)

definition wf_adj :: "nat list list \<Rightarrow> bool" where
  "wf_adj adj \<longleftrightarrow> (\<forall>vs \<in> set adj. \<forall>v \<in> set vs. v < length adj)"

definition visited :: "tarjan \<Rightarrow> nat set" where
  "visited st = {v. v < length (t_indices st) \<and> t_indices st ! v \<noteq> None}"

abbreviation num :: "tarjan \<Rightarrow> nat \<Rightarrow> nat" where
  "num st v \<equiv> the (t_indices st ! v)"

text \<open>Each component's successors are in it or in an earlier one.\<close>

fun callees_first :: "nat list list \<Rightarrow> nat set \<Rightarrow> nat list list \<Rightarrow> bool" where
  "callees_first adj done [] = True"
| "callees_first adj done (c # cs) =
     ((\<forall>x \<in> set c. set (adj ! x) \<subseteq> set c \<union> done) \<and> callees_first adj (done \<union> set c) cs)"

lemma callees_first_snoc:
  "callees_first adj D (cs @ [c]) \<longleftrightarrow>
     callees_first adj D cs \<and> (\<forall>x \<in> set c. set (adj ! x) \<subseteq> set c \<union> (D \<union> set (concat cs)))"
  by (induction cs arbitrary: D) (auto simp: Un_assoc)

definition strongly_connected :: "nat list list \<Rightarrow> nat list \<Rightarrow> bool" where
  "strongly_connected adj c \<longleftrightarrow> c \<noteq> [] \<and> (\<forall>x \<in> set c. \<forall>y \<in> set c. reaches adj x y)"

definition shape :: "nat list list \<Rightarrow> tarjan \<Rightarrow> bool" where
  "shape adj st \<longleftrightarrow>
     length (t_indices st) = length adj \<and> length (t_low st) = length adj \<and> length (t_on st) = length adj
     \<and> visited st = set (t_stack st) \<union> set (concat (t_sccs st))
     \<and> distinct (t_stack st @ concat (t_sccs st))
     \<and> (\<forall>v < length adj. t_on st ! v \<longleftrightarrow> v \<in> set (t_stack st))
     \<and> sorted_wrt (\<lambda>x y. num st y < num st x) (t_stack st)
     \<and> (\<forall>v \<in> visited st. num st v < t_index st)"

text \<open>\<open>G\<close> are the nodes whose calls are active.\<close>

definition tinv :: "nat list list \<Rightarrow> nat set \<Rightarrow> tarjan \<Rightarrow> bool" where
  "tinv adj G st \<longleftrightarrow> shape adj st
     \<and> (\<forall>c \<in> set (t_sccs st). strongly_connected adj c) \<and> callees_first adj {} (t_sccs st)
     \<and> G \<subseteq> set (t_stack st)
     \<and> (\<forall>v \<in> visited st - G. set (adj ! v) \<subseteq> visited st)
     \<and> (\<forall>x \<in> set (t_stack st). \<exists>g \<in> G. num st g \<le> num st x \<and> reaches adj x g)
     \<and> (\<forall>g \<in> G. \<forall>x \<in> set (t_stack st). num st g \<le> num st x \<longrightarrow> reaches adj g x)"

text \<open>What a call leaves of the state it was given.\<close>

definition extends :: "tarjan \<Rightarrow> tarjan \<Rightarrow> bool" where
  "extends st st' \<longleftrightarrow> visited st \<subseteq> visited st'
     \<and> (\<forall>v \<in> visited st. t_indices st' ! v = t_indices st ! v \<and> t_low st' ! v = t_low st ! v)
     \<and> (\<forall>v \<in> visited st' - visited st. t_index st \<le> num st' v)"

text \<open>The low link of \<open>u\<close> over the stack \<open>S\<close> below it: \<open>new\<close> are the nodes above.\<close>

definition low_ok :: "nat list list \<Rightarrow> nat list \<Rightarrow> nat \<Rightarrow> nat list \<Rightarrow> tarjan \<Rightarrow> bool" where
  "low_ok adj S u new st \<longleftrightarrow>
     t_low st ! u \<le> num st u
     \<and> (t_low st ! u = num st u \<or> (\<exists>y \<in> set S. num st y = t_low st ! u \<and> reaches adj u y))
     \<and> (\<forall>x \<in> set new. \<forall>y \<in> set (adj ! x) \<inter> set S. t_low st ! u \<le> num st y)"

definition grown :: "nat list list \<Rightarrow> nat set \<Rightarrow> tarjan \<Rightarrow> nat \<Rightarrow> tarjan \<Rightarrow> bool" where
  "grown adj G st u st' \<longleftrightarrow> tinv adj G st' \<and> extends st st' \<and> u \<in> visited st'
     \<and> (\<exists>new. t_stack st' = new @ t_stack st \<and> low_ok adj (t_stack st) u new st')"

definition scanning :: "nat list list \<Rightarrow> nat set \<Rightarrow> nat \<Rightarrow> tarjan \<Rightarrow> nat set \<Rightarrow> tarjan \<Rightarrow> bool" where
  "scanning adj G u st P st' \<longleftrightarrow> tinv adj (insert u G) st' \<and> extends st st' \<and> u \<notin> visited st
     \<and> num st' u = t_index st
     \<and> (\<exists>new. t_stack st' = new @ u # t_stack st \<and> low_ok adj (t_stack st) u new st')
     \<and> (\<forall>y \<in> P. y \<in> visited st' \<and> (y \<in> set (t_stack st) \<longrightarrow> t_low st' ! u \<le> num st' y))"

subsection \<open>Steps\<close>

lemma enter_fields [simp]:
  "t_stack (enter u st) = u # t_stack st" "t_sccs (enter u st) = t_sccs st" "t_index (enter u st) = t_index st + 1"
  "t_indices (enter u st) = (t_indices st)[u := Some (t_index st)]" "t_low (enter u st) = (t_low st)[u := t_index st]"
  "t_on (enter u st) = (t_on st)[u := True]"
  by (simp_all add: enter_def)

lemma visited_enter: "u < length (t_indices st) \<Longrightarrow> visited (enter u st) = insert u (visited st)"
  by (auto simp: visited_def nth_list_update)

lemma num_enter: "u < length (t_indices st) \<Longrightarrow> num (enter u st) v = (if v = u then t_index st else num st v)"
  by simp

lemma shape_enter:
  assumes "shape adj st" "u < length adj" "u \<notin> visited st"
  shows "shape adj (enter u st)"
proof -
  have len: "u < length (t_indices st)" "length (t_low st) = length adj" "length (t_on st) = length adj"
    using assms(1,2) by (simp_all add: shape_def)
  have vis: "visited st = set (t_stack st) \<union> set (concat (t_sccs st))" using assms(1) by (simp add: shape_def)
  have u: "u \<notin> set (t_stack st)" "u \<notin> set (concat (t_sccs st))" using assms(3) vis by auto
  have below: "num st v < t_index st" if "v \<in> visited st" for v using assms(1) that by (simp add: shape_def)
  have old: "num (enter u st) v = num st v" if "v \<in> visited st" for v
    using that assms(3) num_enter [OF len(1)] by auto
  have "sorted_wrt (\<lambda>x y. num (enter u st) y < num (enter u st) x) (u # t_stack st)"
  proof -
    have "sorted_wrt (\<lambda>x y. num st y < num st x) (t_stack st)" using assms(1) by (simp add: shape_def)
    then have "sorted_wrt (\<lambda>x y. num (enter u st) y < num (enter u st) x) (t_stack st)"
      by (rule sorted_wrt_mono_rel [rotated]) (use old vis in auto)
    moreover have "\<forall>y \<in> set (t_stack st). num (enter u st) y < num (enter u st) u"
      using below old vis num_enter [OF len(1)] by auto
    ultimately show ?thesis by simp
  qed
  moreover have "visited (enter u st) = set (t_stack (enter u st)) \<union> set (concat (t_sccs (enter u st)))"
    using visited_enter [OF len(1)] vis by auto
  moreover have "\<forall>v \<in> visited (enter u st). num (enter u st) v < t_index (enter u st)"
    using visited_enter [OF len(1)] below old num_enter [OF len(1), of u] by (auto simp: less_Suc_eq)
  moreover have "distinct (t_stack (enter u st) @ concat (t_sccs (enter u st)))"
    using assms(1) u by (simp add: shape_def)
  moreover have "\<forall>v < length adj. t_on (enter u st) ! v \<longleftrightarrow> v \<in> set (t_stack (enter u st))"
    using assms(1,2) len by (auto simp: shape_def nth_list_update)
  ultimately show ?thesis using assms(1) by (simp add: shape_def)
qed

lemma scanning_enter:
  assumes "tinv adj G st" "u < length adj" "u \<notin> visited st" "\<And>g. g \<in> G \<Longrightarrow> reaches adj g u"
  shows "scanning adj G u st {} (enter u st)"
proof -
  have shape: "shape adj st" using assms(1) by (simp add: tinv_def)
  then have len: "u < length (t_indices st)" "u < length (t_low st)" using assms(2) by (simp_all add: shape_def)
  have stack: "set (t_stack st) \<subseteq> visited st" using shape by (auto simp: shape_def)
  have old: "num (enter u st) v = num st v" if "v \<in> visited st" for v
    using that assms(3) num_enter [OF len(1)] by auto
  have new: "num (enter u st) u = t_index st" using num_enter [OF len(1)] by simp
  have below: "num st v < t_index st" if "v \<in> visited st" for v using shape that by (simp add: shape_def)
  have G: "G \<subseteq> set (t_stack st)" using assms(1) by (simp add: tinv_def)
  have "\<forall>x \<in> set (t_stack (enter u st)). \<exists>g \<in> insert u G. num (enter u st) g \<le> num (enter u st) x \<and> reaches adj x g"
  proof
    fix x assume "x \<in> set (t_stack (enter u st))"
    then consider "x = u" | "x \<in> set (t_stack st)" by auto
    then show "\<exists>g \<in> insert u G. num (enter u st) g \<le> num (enter u st) x \<and> reaches adj x g"
    proof cases
      case 2
      then obtain g where "g \<in> G" "num st g \<le> num st x" "reaches adj x g" using assms(1) by (auto simp: tinv_def)
      moreover have "num (enter u st) g = num st g" "num (enter u st) x = num st x"
        using old stack G 2 \<open>g \<in> G\<close> by blast+
      ultimately show ?thesis by (intro bexI [of _ g]) auto
    qed auto
  qed
  moreover have "\<forall>g \<in> insert u G. \<forall>x \<in> set (t_stack (enter u st)). num (enter u st) g \<le> num (enter u st) x \<longrightarrow> reaches adj g x"
  proof (intro ballI impI)
    fix g x assume g: "g \<in> insert u G" and x: "x \<in> set (t_stack (enter u st))" and le: "num (enter u st) g \<le> num (enter u st) x"
    consider "x = u" | "x \<in> set (t_stack st)" "g = u" | "x \<in> set (t_stack st)" "g \<in> G" using x g by auto
    then show "reaches adj g x"
    proof cases
      case 1
      then show ?thesis using g assms(4) by auto
    next
      case 2
      then show ?thesis using le new old [of x] below [of x] stack by auto
    next
      case 3
      moreover have "num (enter u st) g = num st g" "num (enter u st) x = num st x" using old stack G 3 by blast+
      ultimately show ?thesis using assms(1) le by (simp add: tinv_def)
    qed
  qed
  moreover have "\<forall>v \<in> visited (enter u st) - insert u G. set (adj ! v) \<subseteq> visited (enter u st)"
    using assms(1) visited_enter [OF len(1)] by (auto simp: tinv_def)
  ultimately have "tinv adj (insert u G) (enter u st)"
    using assms(1) shape_enter [OF shape assms(2,3)] G by (auto simp: tinv_def)
  moreover have "t_indices (enter u st) ! v = t_indices st ! v \<and> t_low (enter u st) ! v = t_low st ! v" if "v \<in> visited st" for v
    using that assms(3) by (cases "v = u") simp_all
  then have "extends st (enter u st)"
    using assms(3) visited_enter [OF len(1)] new by (auto simp: extends_def)
  moreover have "low_ok adj (t_stack st) u [] (enter u st)"
    using len by (simp add: low_ok_def)
  ultimately show ?thesis using assms(3) new by (simp add: scanning_def)
qed

lemma low_above: "low_ok adj S u new st \<Longrightarrow> x \<in> set new \<Longrightarrow> y \<in> set (adj ! x) \<Longrightarrow> y \<in> set S \<Longrightarrow> t_low st ! u \<le> num st y"
  by (auto simp: low_ok_def)

lemma lower_fields [simp]:
  "t_stack (lower u x st) = t_stack st" "t_sccs (lower u x st) = t_sccs st" "t_index (lower u x st) = t_index st"
  "t_indices (lower u x st) = t_indices st" "t_on (lower u x st) = t_on st" "visited (lower u x st) = visited st"
  "v \<noteq> u \<Longrightarrow> t_low (lower u x st) ! v = t_low st ! v" "length (t_low (lower u x st)) = length (t_low st)"
  "u < length (t_low st) \<Longrightarrow> t_low (lower u x st) ! u = min (t_low st ! u) x"
  by (simp_all add: lower_def visited_def)

lemma tinv_lower [simp]: "tinv adj G (lower u x st) = tinv adj G st"
  by (simp add: tinv_def shape_def)

lemma active_below: "tinv adj G st \<Longrightarrow> x \<in> set (t_stack st) \<Longrightarrow> \<exists>g \<in> G. num st g \<le> num st x \<and> reaches adj x g"
  by (simp add: tinv_def)

lemma stack_order:
  assumes "shape adj st" "t_stack st = new @ u # S"
  shows "x \<in> set new \<Longrightarrow> num st u < num st x" "y \<in> set S \<Longrightarrow> num st y < num st u" "x \<in> set new \<Longrightarrow> y \<in> set S \<Longrightarrow> num st y < num st x"
  using assms by (auto simp: shape_def sorted_wrt_append)

lemma stack_visited: "shape adj st \<Longrightarrow> x \<in> set (t_stack st) \<Longrightarrow> x \<in> visited st"
  by (simp add: shape_def)

lemma scanning_facts:
  assumes "scanning adj G u st P st'"
  shows "tinv adj (insert u G) st'" "shape adj st'" "extends st st'" "u \<notin> visited st" "num st' u = t_index st"
    "u \<in> set (t_stack st')" "u \<in> visited st'" "u < length (t_low st')"
proof -
  show "tinv adj (insert u G) st'" "extends st st'" "u \<notin> visited st" "num st' u = t_index st"
    using assms by (simp_all add: scanning_def)
  then show sh: "shape adj st'" and st: "u \<in> set (t_stack st')" by (simp_all add: tinv_def)
  then show "u \<in> visited st'" by (rule stack_visited)
  then show "u < length (t_low st')" using sh by (simp add: visited_def shape_def)
qed

text \<open>A visited successor.\<close>

lemma scanning_old:
  assumes "scanning adj G u st P st'" "v \<in> visited st'" "v \<notin> set (t_stack st')"
  shows "scanning adj G u st (insert v P) st'"
  using assms by (auto simp: scanning_def)

lemma scanning_stacked:
  assumes scan: "scanning adj G u st P st'" and v: "v \<in> set (t_stack st')" "v \<in> set (adj ! u)" and u: "u < length adj"
  shows "scanning adj G u st (insert v P) (lower u (num st' v) st')"
proof -
  note f = scanning_facts [OF scan]
  obtain new where st: "t_stack st' = new @ u # t_stack st" and low: "low_ok adj (t_stack st) u new st'"
    using scan by (auto simp: scanning_def)
  let ?st = "lower u (num st' v) st'"
  have min: "t_low ?st ! u = min (t_low st' ! u) (num st' v)" using f(8) by simp
  have "low_ok adj (t_stack st) u new ?st"
  proof (cases "num st' v < t_low st' ! u")
    case True
    then have "num st' v < num st' u" using low by (simp add: low_ok_def)
    then have "v \<in> set (t_stack st)" using v(1) st stack_order(1) [OF f(2) st, of v] by auto
    then have "\<exists>y \<in> set (t_stack st). num st' y = t_low ?st ! u \<and> reaches adj u y"
      using True reaches_arc [OF u v(2)] by (intro bexI [of _ v]) (simp_all add: min)
    moreover have "num st' v \<le> num st' y" if "x \<in> set new" "y \<in> set (adj ! x)" "y \<in> set (t_stack st)" for x y
      using low_above [OF low that] True by simp
    ultimately show ?thesis using low True by (auto simp: low_ok_def min)
  next
    case False
    then show ?thesis using low by (auto simp: low_ok_def min)
  qed
  moreover have "extends st ?st" using f(3,4) unfolding extends_def by (metis lower_fields(3,4,6,7))
  moreover have "\<forall>y \<in> insert v P. y \<in> visited ?st \<and> (y \<in> set (t_stack st) \<longrightarrow> t_low ?st ! u \<le> num ?st y)"
    using scan stack_visited [OF f(2) v(1)] by (auto simp: scanning_def min)
  ultimately show ?thesis using scan st by (simp add: scanning_def)
qed

lemma later_trans:
  assumes "extends st0 st1" "extends st1 st2" "t_index st0 \<le> t_index st1"
  shows "extends st0 st2"
  using assms unfolding extends_def by (auto intro: order_trans)

text \<open>A successor just explored.\<close>

lemma scanning_new:
  assumes scan: "scanning adj G u st P st1" and v: "v \<notin> visited st1" "v \<in> set (adj ! u)" and u: "u < length adj"
    and grown: "grown adj (insert u G) st1 v st2"
  shows "scanning adj G u st (insert v P) (lower u (t_low st2 ! v) st2)"
proof -
  note f = scanning_facts [OF scan]
  obtain new where st1: "t_stack st1 = new @ u # t_stack st" and low1: "low_ok adj (t_stack st) u new st1"
    using scan by (auto simp: scanning_def)
  obtain new2 where st2: "t_stack st2 = new2 @ t_stack st1" and low2: "low_ok adj (t_stack st1) v new2 st2"
    using grown by (auto simp: grown_def)
  have g: "tinv adj (insert u G) st2" "shape adj st2" "extends st1 st2" "v \<in> visited st2"
    using grown by (simp_all add: grown_def tinv_def)
  have same: "num st2 x = num st1 x" "t_low st2 ! x = t_low st1 ! x" if "x \<in> visited st1" for x
    using g(3) that by (simp_all add: extends_def)
  have stacked: "x \<in> visited st1" if "x \<in> set (t_stack st1)" for x using stack_visited [OF f(2) that] .
  have S: "x \<in> visited st1" if "x \<in> set (t_stack st)" for x using stacked that st1 by simp
  have low_u: "t_low st2 ! u = t_low st1 ! u" "num st2 u = num st1 u" using same f(7) by blast+
  have later: "num st1 u < num st2 v"
  proof -
    have "num st1 u < t_index st1" using f(2,7) by (simp add: shape_def)
    also have "t_index st1 \<le> num st2 v" using g(3,4) v(1) by (simp add: extends_def)
    finally show ?thesis .
  qed
  let ?st = "lower u (t_low st2 ! v) st2"
  have "u < length (t_low st2)" using f(7) g(2) f(2) by (simp add: visited_def shape_def)
  then have min: "t_low ?st ! u = min (t_low st1 ! u) (t_low st2 ! v)" using low_u by simp
  have above: "\<forall>x \<in> set (new2 @ new). \<forall>y \<in> set (adj ! x) \<inter> set (t_stack st). t_low ?st ! u \<le> num ?st y"
  proof (intro ballI)
    fix x y assume x: "x \<in> set (new2 @ new)" and y: "y \<in> set (adj ! x) \<inter> set (t_stack st)"
    then have y1: "num st2 y = num st1 y" "y \<in> set (t_stack st1)" using same S st1 by auto
    from x consider "x \<in> set new2" | "x \<in> set new" by auto
    then show "t_low ?st ! u \<le> num ?st y"
    proof cases
      case 1
      then have "t_low st2 ! v \<le> num st2 y" using low_above [OF low2] y y1 by blast
      then show ?thesis by (simp add: min)
    next
      case 2
      then have "t_low st1 ! u \<le> num st1 y" using low_above [OF low1] y by blast
      then show ?thesis using y1 by (simp add: min)
    qed
  qed
  have "t_low ?st ! u = num ?st u \<or> (\<exists>y \<in> set (t_stack st). num ?st y = t_low ?st ! u \<and> reaches adj u y)"
  proof (cases "t_low st2 ! v < t_low st1 ! u")
    case True
    then have "t_low st2 ! v < num st1 u" using low1 by (simp add: low_ok_def)
    with later obtain y where y: "y \<in> set (t_stack st1)" "num st2 y = t_low st2 ! v" "reaches adj v y"
      using low2 by (auto simp: low_ok_def)
    then have "num st1 y < num st1 u" using \<open>t_low st2 ! v < num st1 u\<close> same stacked by simp
    then have "y \<in> set (t_stack st)" using y(1) st1 stack_order(1) [OF f(2) st1, of y] by auto
    then show ?thesis using True y(2,3) reaches_trans [OF reaches_arc [OF u v(2)]] by (auto simp: min)
  next
    case False
    then have "t_low ?st ! u = t_low st1 ! u" by (simp add: min)
    moreover have "num ?st y = num st1 y" if "y \<in> set (t_stack st)" for y using same S that by simp
    ultimately show ?thesis using low1 low_u by (auto simp: low_ok_def)
  qed
  then have "low_ok adj (t_stack st) u (new2 @ new) ?st"
    using above low1 low_u min by (auto simp: low_ok_def)
  moreover have "t_index st \<le> t_index st1" using f(2,5,7) by (metis less_imp_le shape_def)
  then have "extends st st2" using later_trans f(3) g(3) by blast
  then have "extends st ?st" using f(4) unfolding extends_def by (metis lower_fields(3,4,6,7))
  moreover have "\<forall>y \<in> insert v P. y \<in> visited ?st \<and> (y \<in> set (t_stack st) \<longrightarrow> t_low ?st ! u \<le> num ?st y)"
  proof (intro ballI conjI impI)
    fix y assume y: "y \<in> insert v P"
    have P: "z \<in> visited st1 \<and> (z \<in> set (t_stack st) \<longrightarrow> t_low st1 ! u \<le> num st1 z)" if "z \<in> P" for z
      using scan that by (auto simp: scanning_def)
    show "y \<in> visited ?st" using y g(3,4) P by (auto simp: extends_def)
    assume "y \<in> set (t_stack st)"
    then have "y \<in> visited st1" using S by blast
    then have "y \<in> P" using y v(1) by blast
    then have "t_low st1 ! u \<le> num st1 y" using P \<open>y \<in> set (t_stack st)\<close> by blast
    then show "t_low ?st ! u \<le> num ?st y" using same(1) [OF \<open>y \<in> visited st1\<close>] by (simp add: min min.coboundedI1)
  qed
  ultimately show ?thesis using g(1) f(4,5) low_u st1 st2 by (simp add: scanning_def)
qed

lemma pop_until_split: "u \<notin> set new \<Longrightarrow> pop_until u (new @ u # S) = (new @ [u], S)"
  by (induction new) auto

lemma length_cleared [simp]: "length (fold (\<lambda>w on. on[w := False]) c on) = length on"
  by (induction c arbitrary: on) simp_all

lemma nth_cleared: "v < length on \<Longrightarrow> fold (\<lambda>w on. on[w := False]) c on ! v \<longleftrightarrow> v \<notin> set c \<and> on ! v"
proof (induction c arbitrary: on)
  case (Cons a c)
  then show ?case by (cases "v = a") simp_all
qed simp

lemma visited_cong: "t_indices st' = t_indices st \<Longrightarrow> visited st' = visited st"
  by (simp add: visited_def)

text \<open>All successors have been scanned: the component is closed or left on the stack.\<close>

lemma close_stays:
  assumes scan: "scanning adj G u st (set (adj ! u)) st1" and G: "G \<subseteq> set (t_stack st)"
    and low: "t_low st1 ! u \<noteq> num st1 u"
  shows "tinv adj G st1"
proof -
  note f = scanning_facts [OF scan]
  obtain new where st1: "t_stack st1 = new @ u # t_stack st" and l: "low_ok adj (t_stack st) u new st1"
    using scan by (auto simp: scanning_def)
  obtain y where y: "y \<in> set (t_stack st)" "num st1 y = t_low st1 ! u" "reaches adj u y" using l low by (auto simp: low_ok_def)
  have below: "num st1 y < num st1 u" using stack_order(2) [OF f(2) st1 y(1)] .
  obtain g' where g': "g' \<in> insert u G" "num st1 g' \<le> num st1 y" "reaches adj y g'"
    using f(1) y(1) st1 unfolding tinv_def by (metis in_set_conv_decomp append_Cons append_assoc)
  then have g: "g' \<in> G" using below by auto
  have "\<exists>g \<in> G. num st1 g \<le> num st1 x \<and> reaches adj x g" if x: "x \<in> set (t_stack st1)" for x
  proof -
    obtain g where "g \<in> insert u G" "num st1 g \<le> num st1 x" "reaches adj x g" using active_below [OF f(1) x] by blast
    then consider "g = u" "num st1 u \<le> num st1 x" "reaches adj x u" | "g \<in> G" "num st1 g \<le> num st1 x" "reaches adj x g" by auto
    then show ?thesis
    proof cases
      case 1
      then have "num st1 g' \<le> num st1 x" "reaches adj x g'"
        using g'(2,3) y(3) below reaches_trans by (simp, metis)
      with g show ?thesis by blast
    qed blast
  qed
  moreover have "\<forall>v \<in> visited st1 - G. set (adj ! v) \<subseteq> visited st1"
    using f(1) scan by (auto simp: tinv_def scanning_def)
  moreover have "G \<subseteq> set (t_stack st1)" using G st1 by auto
  ultimately show ?thesis using f(1) by (simp add: tinv_def)
qed

lemma close_component:
  assumes scan: "scanning adj G u st (set (adj ! u)) st1" and G: "G \<subseteq> set (t_stack st)"
    and up: "\<And>g. g \<in> G \<Longrightarrow> reaches adj g u" and low: "t_low st1 ! u = num st1 u"
    and st1: "t_stack st1 = new @ u # t_stack st" and l: "low_ok adj (t_stack st) u new st1"
  shows "strongly_connected adj (new @ [u])" "\<And>x. x \<in> set (new @ [u]) \<Longrightarrow> set (adj ! x) \<subseteq> set (new @ [u]) \<union> set (concat (t_sccs st1))"
proof -
  note f = scanning_facts [OF scan]
  have down: "reaches adj u x" if "x \<in> set (new @ [u])" for x
    using f(1) that st1 stack_order(1) [OF f(2) st1, of x] by (auto simp: tinv_def less_imp_le)
  have "reaches adj x u" if x: "x \<in> set (new @ [u])" for x
  proof -
    have "x \<in> set (t_stack st1)" using x st1 by auto
    then obtain g where "g \<in> insert u G" "reaches adj x g" using active_below [OF f(1)] by blast
    then show ?thesis using up reaches_trans by blast
  qed
  then show "strongly_connected adj (new @ [u])"
    using down unfolding strongly_connected_def by (metis Nil_is_append_conv not_Cons_self2 reaches_trans)
  fix x assume x: "x \<in> set (new @ [u])"
  show "set (adj ! x) \<subseteq> set (new @ [u]) \<union> set (concat (t_sccs st1))"
  proof
    fix y assume y: "y \<in> set (adj ! x)"
    have dist: "distinct (new @ u # t_stack st)" using f(2) st1 by (auto simp: shape_def)
    have vx: "x \<in> visited st1" using x st1 stack_visited [OF f(2), of x] by auto
    have "y \<in> visited st1 \<and> (y \<in> set (t_stack st) \<longrightarrow> num st1 u \<le> num st1 y)"
    proof (cases "x = u")
      case True
      then show ?thesis using y scan low by (auto simp: scanning_def)
    next
      case False
      then have "x \<in> set new" using x by simp
      then have "x \<notin> insert u G" using dist G by auto
      then have "y \<in> visited st1" using f(1) y vx by (auto simp: tinv_def)
      with low_above [OF l \<open>x \<in> set new\<close> y] low show ?thesis by simp
    qed
    then have "y \<in> visited st1" "y \<notin> set (t_stack st)" using stack_order(2) [OF f(2) st1, of y] by auto
    then show "y \<in> set (new @ [u]) \<union> set (concat (t_sccs st1))" using f(2) st1 by (auto simp: shape_def)
  qed
qed

lemma close_pops:
  assumes scan: "scanning adj G u st (set (adj ! u)) st1" and G: "G \<subseteq> set (t_stack st)"
    and up: "\<And>g. g \<in> G \<Longrightarrow> reaches adj g u" and low: "t_low st1 ! u = num st1 u"
    and st1: "t_stack st1 = new @ u # t_stack st" and l: "low_ok adj (t_stack st) u new st1"
  shows "tinv adj G (close u st1) \<and> t_stack (close u st1) = t_stack st
    \<and> t_indices (close u st1) = t_indices st1 \<and> t_low (close u st1) = t_low st1 \<and> t_index (close u st1) = t_index st1"
proof -
  note f = scanning_facts [OF scan]
  let ?st = "close u st1"
  have dist: "distinct ((new @ u # t_stack st) @ concat (t_sccs st1))" using f(2) st1 by (auto simp: shape_def)
  have "Some (t_low st1 ! u) = t_indices st1 ! u" using low f(7) by (auto simp: visited_def)
  then have st: "t_stack ?st = t_stack st" "t_sccs ?st = t_sccs st1 @ [new @ [u]]" "t_indices ?st = t_indices st1"
    "t_low ?st = t_low st1" "t_index ?st = t_index st1" "t_on ?st = fold (\<lambda>w on. on[w := False]) (new @ [u]) (t_on st1)"
    using pop_until_split [of u new "t_stack st"] dist st1 by (simp_all add: close_def)
  have vis: "visited ?st = visited st1" using visited_cong [OF st(3)] .
  have "shape adj ?st"
  proof -
    have "visited st1 = set (t_stack st) \<union> set (concat (t_sccs st1 @ [new @ [u]]))" using f(2) st1 by (auto simp: shape_def)
    moreover have "distinct (t_stack st @ concat (t_sccs st1 @ [new @ [u]]))" using dist by auto
    moreover have "\<forall>v < length adj. t_on ?st ! v \<longleftrightarrow> v \<in> set (t_stack st)"
    proof (intro allI impI)
      fix v assume v: "v < length adj"
      then have "t_on ?st ! v \<longleftrightarrow> v \<notin> set (new @ [u]) \<and> t_on st1 ! v"
        unfolding st(6) using f(2) by (intro nth_cleared) (simp add: shape_def)
      also have "\<dots> \<longleftrightarrow> v \<notin> set (new @ [u]) \<and> v \<in> set (new @ u # t_stack st)" using f(2) v st1 by (simp add: shape_def)
      also have "\<dots> \<longleftrightarrow> v \<in> set (t_stack st)" using dist by auto
      finally show "t_on ?st ! v \<longleftrightarrow> v \<in> set (t_stack st)" .
    qed
    moreover have "sorted_wrt (\<lambda>x y. num st1 y < num st1 x) (t_stack st)"
      using f(2) st1 by (simp add: shape_def sorted_wrt_append)
    moreover have "length (t_indices st1) = length adj" "length (t_low st1) = length adj" "length (t_on ?st) = length adj"
      "\<forall>v \<in> visited st1. num st1 v < t_index st1"
      using f(2) by (simp_all add: shape_def st(6) del: UN_simps)
    ultimately show ?thesis unfolding shape_def vis st(1-5) by blast
  qed
  moreover note comp = close_component [OF scan G up low st1 l]
  have "\<forall>c \<in> set (t_sccs ?st). strongly_connected adj c" "callees_first adj {} (t_sccs ?st)"
    using f(1) comp st(2) by (auto simp: tinv_def callees_first_snoc)
  moreover have "\<forall>v \<in> visited ?st - G. set (adj ! v) \<subseteq> visited ?st"
    using f(1) scan vis by (auto simp: tinv_def scanning_def)
  moreover have "\<exists>g \<in> G. num ?st g \<le> num ?st x \<and> reaches adj x g" if x: "x \<in> set (t_stack ?st)" for x
  proof -
    have "x \<in> set (t_stack st)" using x st(1) by simp
    then have "x \<in> set (t_stack st1)" "num st1 x < num st1 u" using st1 stack_order(2) [OF f(2) st1] by auto
    moreover obtain g where "g \<in> insert u G" "num st1 g \<le> num st1 x" "reaches adj x g"
      using active_below [OF f(1) \<open>x \<in> set (t_stack st1)\<close>] by blast
    ultimately show ?thesis using st(3) by auto
  qed
  moreover have "\<forall>g \<in> G. \<forall>x \<in> set (t_stack ?st). num ?st g \<le> num ?st x \<longrightarrow> reaches adj g x"
    using f(1) st(1,3) st1 by (auto simp: tinv_def)
  ultimately show ?thesis using G st by (simp add: tinv_def)
qed

lemma grown_close:
  assumes scan: "scanning adj G u st (set (adj ! u)) st1" and G: "G \<subseteq> set (t_stack st)"
    and up: "\<And>g. g \<in> G \<Longrightarrow> reaches adj g u"
  shows "grown adj G st u (close u st1)"
proof -
  note f = scanning_facts [OF scan]
  obtain new where st1: "t_stack st1 = new @ u # t_stack st" and l: "low_ok adj (t_stack st) u new st1"
    using scan by (auto simp: scanning_def)
  show ?thesis
  proof (cases "t_low st1 ! u = num st1 u")
    case True
    note c = close_pops [OF scan G up True st1 l]
    have "visited (close u st1) = visited st1" using c visited_cong by blast
    then have "extends st (close u st1)" "u \<in> visited (close u st1)" using f(3,7) c by (auto simp: extends_def)
    moreover have "low_ok adj (t_stack st) u [] (close u st1)" using c True by (simp add: low_ok_def)
    ultimately show ?thesis using c unfolding grown_def by (metis append_Nil)
  next
    case False
    then have "close u st1 = st1" using f(7) by (auto simp: close_def visited_def)
    moreover have "low_ok adj (t_stack st) u (new @ [u]) st1"
    proof -
      have "t_low st1 ! u \<le> num st1 y" if "y \<in> set (adj ! u)" "y \<in> set (t_stack st)" for y
        using scan that by (auto simp: scanning_def)
      then show ?thesis using l by (auto simp: low_ok_def)
    qed
    moreover have "t_stack st1 = (new @ [u]) @ t_stack st" using st1 by simp
    ultimately show ?thesis using close_stays [OF scan G False] f(3,7) unfolding grown_def by metis
  qed
qed

subsection \<open>The recursion\<close>

definition unvisited :: "tarjan \<Rightarrow> nat" where
  "unvisited st = card ({..<length (t_indices st)} - visited st)"

lemma unvisited_less:
  assumes "visited st \<subseteq> visited st'" "length (t_indices st') = length (t_indices st)"
  shows "unvisited st' \<le> unvisited st" "v \<in> visited st' - visited st \<Longrightarrow> unvisited st' < unvisited st"
proof -
  show "unvisited st' \<le> unvisited st" using assms by (auto simp: unvisited_def intro: card_mono)
  assume "v \<in> visited st' - visited st"
  moreover have "v < length (t_indices st)" using calculation assms(2) by (simp add: visited_def)
  ultimately have "{..<length (t_indices st')} - visited st' \<subset> {..<length (t_indices st)} - visited st"
    using assms by auto
  then show "unvisited st' < unvisited st" unfolding unvisited_def by (intro psubset_card_mono) simp_all
qed

lemma tinv_length: "tinv adj G st \<Longrightarrow> length (t_indices st) = length adj"
  by (simp add: tinv_def shape_def)

lemma not_visited: "v < length (t_indices st) \<Longrightarrow> t_indices st ! v = None \<longleftrightarrow> v \<notin> visited st"
  by (simp add: visited_def)

lemma strongconnect_correct:
  shows "wf_adj adj \<Longrightarrow> tinv adj G st \<Longrightarrow> u < length adj \<Longrightarrow> u \<notin> visited st \<Longrightarrow> (\<forall>g \<in> G. reaches adj g u) \<Longrightarrow> unvisited st \<le> f \<Longrightarrow>
      \<exists>st'. strongconnect f adj u st = Some st' \<and> grown adj G st u st'"
    and "wf_adj adj \<Longrightarrow> scanning adj G u st0 P st \<Longrightarrow> u < length adj \<Longrightarrow> (\<forall>g \<in> G. reaches adj g u) \<Longrightarrow> set vs \<subseteq> set (adj ! u) \<Longrightarrow>
      unvisited st \<le> f \<Longrightarrow> \<exists>st'. visit_edges f adj u vs st = Some st' \<and> scanning adj G u st0 (P \<union> set vs) st'"
proof (induction f adj u st and f adj u vs st arbitrary: G and G st0 P rule: strongconnect_visit_edges.induct)
  case (1 adj u st)
  then have "u \<in> {..<length (t_indices st)} - visited st" using tinv_length by auto
  then have "unvisited st \<noteq> 0" unfolding unvisited_def by (metis card_0_eq empty_iff finite_Diff finite_lessThan)
  with 1 show ?case by simp
next
  case (2 f adj u st)
  have scan: "scanning adj G u st {} (enter u st)" using 2 by (intro scanning_enter) auto
  have "visited st \<subseteq> visited (enter u st)" "u \<in> visited (enter u st) - visited st"
    using scanning_facts [OF scan] by (auto simp: extends_def)
  then have "unvisited (enter u st) < unvisited st" by (intro unvisited_less(2)) auto
  with 2 have "unvisited (enter u st) \<le> f" by simp
  with 2 scan obtain st' where st': "visit_edges f adj u (adj ! u) (enter u st) = Some st'"
    "scanning adj G u st (set (adj ! u)) st'" by fastforce
  have "G \<subseteq> set (t_stack st)" using 2 by (simp add: tinv_def)
  with grown_close [OF st'(2)] 2 st'(1) show ?case by auto
next
  case (3 f adj u st)
  then show ?case by auto
next
  case (4 f adj u v vs st)
  note scan = "4.prems"(2) and u = "4.prems"(3) and up = "4.prems"(4)
  note f = scanning_facts [OF scan]
  have v: "v \<in> set (adj ! u)" and vs: "set vs \<subseteq> set (adj ! u)" using "4.prems"(5) by simp_all
  have len: "length (t_indices st) = length adj" using tinv_length f(1) by blast
  have "v < length adj" using "4.prems"(1) v nth_mem [OF u] by (auto simp: wf_adj_def)
  then have vn: "v < length (t_indices st)" using len by simp
  have P: "insert v P \<union> set vs = P \<union> set (v # vs)" by auto
  consider "v \<notin> visited st" | "v \<in> visited st" "t_on st ! v" | "v \<in> visited st" "\<not> t_on st ! v" by blast
  then show ?case
  proof cases
    case 1
    then have none: "t_indices st ! v = None" using not_visited [OF vn] by blast
    have "\<forall>g \<in> insert u G. reaches adj g v" using up reaches_arc [OF u v] reaches_trans by blast
    then obtain st2 where st2: "strongconnect f adj v st = Some st2" "grown adj (insert u G) st v st2"
      using "4.IH"(1) [OF none "4.prems"(1) f(1) \<open>v < length adj\<close> 1 _ "4.prems"(6)] by blast
    have "length (t_indices st2) = length adj" using st2(2) tinv_length by (auto simp: grown_def)
    then have "unvisited st2 \<le> unvisited st" using st2(2) len by (intro unvisited_less(1)) (simp_all add: grown_def extends_def)
    then have "unvisited (lower u (t_low st2 ! v) st2) \<le> f" using "4.prems"(6) by (simp add: unvisited_def)
    from "4.IH"(2) [OF none st2(1) "4.prems"(1) scanning_new [OF scan 1 v u st2(2)] u up vs this]
    show ?thesis using none st2(1) by (simp add: P)
  next
    case 2
    then have some: "t_indices st ! v \<noteq> None" using not_visited [OF vn] by blast
    have "v \<in> set (t_stack st)" using f(2) 2(2) \<open>v < length adj\<close> by (simp add: shape_def)
    moreover have "unvisited (lower u (num st v) st) \<le> f" using "4.prems"(6) by (simp add: unvisited_def)
    moreover have "visit_edges f adj u (v # vs) st = visit_edges f adj u vs (lower u (num st v) st)" using some 2(2) by auto
    ultimately show ?thesis
      using "4.IH"(3) [OF some 2(2) "4.prems"(1) scanning_stacked [OF scan _ v u] u up vs] by (simp only: P)
  next
    case 3
    then have some: "t_indices st ! v \<noteq> None" using not_visited [OF vn] by blast
    have "v \<notin> set (t_stack st)" using f(2) 3(2) \<open>v < length adj\<close> by (simp add: shape_def)
    with "4.IH"(4) [OF some 3(2) "4.prems"(1) scanning_old [OF scan 3(1)] u up vs "4.prems"(6)]
    have "\<exists>st'. visit_edges f adj u vs st = Some st' \<and> scanning adj G u st0 (insert v P \<union> set vs) st'" by blast
    moreover have "visit_edges f adj u (v # vs) st = visit_edges f adj u vs st" using some 3(2) by auto
    ultimately show ?thesis by (simp only: P)
  qed
qed

subsection \<open>The result\<close>

lemma tinv_init: "tinv adj {} (tarjan_init (length adj))"
proof -
  have "visited (tarjan_init (length adj)) = {}" by (auto simp: visited_def tarjan_init_def)
  then show ?thesis by (simp add: tinv_def shape_def) (simp add: tarjan_init_def)
qed

lemma no_call_no_stack: "tinv adj {} st \<Longrightarrow> t_stack st = []"
  by (cases "t_stack st") (auto simp: tinv_def)

lemma tarjan_from_correct:
  assumes "wf_adj adj"
  shows "tinv adj {} st \<Longrightarrow> set us \<subseteq> {..<length adj} \<Longrightarrow>
    \<exists>st'. tarjan_from adj us st = Some st' \<and> tinv adj {} st' \<and> visited st \<union> set us \<subseteq> visited st'"
proof (induction us arbitrary: st)
  case (Cons u us)
  then have len: "length (t_indices st) = length adj" "u < length adj" using tinv_length by auto
  show ?case
  proof (cases "u \<in> visited st")
    case True
    then have "t_indices st ! u \<noteq> None" using not_visited [of u st] len by simp
    moreover obtain st' where "tarjan_from adj us st = Some st'" "tinv adj {} st'" "visited st \<union> set us \<subseteq> visited st'"
      using Cons.IH [OF Cons.prems(1)] Cons.prems(2) by auto
    ultimately show ?thesis using True by auto
  next
    case False
    then have none: "t_indices st ! u = None" using not_visited [of u st] len by simp
    have "unvisited st \<le> length adj" unfolding unvisited_def len(1)
      by (metis Diff_subset card_lessThan card_mono finite_lessThan)
    then obtain st1 where st1: "strongconnect (length adj) adj u st = Some st1" "grown adj {} st u st1"
      using strongconnect_correct(1) [OF assms Cons.prems(1) len(2) False] by blast
    then have g: "tinv adj {} st1" "visited st \<subseteq> visited st1" "u \<in> visited st1" by (auto simp: grown_def extends_def)
    then obtain st' where "tarjan_from adj us st1 = Some st'" "tinv adj {} st'" "visited st1 \<union> set us \<subseteq> visited st'"
      using Cons.IH [OF g(1)] Cons.prems(2) by auto
    then show ?thesis using none st1(1) g(2,3) by auto
  qed
qed simp

text \<open>Nodes that reach each other are in the same component.\<close>

lemma callees_first_earlier:
  assumes "callees_first adj D cs" "(x, y) \<in> arcs adj" "x \<in> set (concat cs)"
  shows "y \<in> D \<union> set (concat cs)"
  using assms by (induction cs arbitrary: D) (auto simp: arcs_def)

lemma callees_first_closed:
  assumes "callees_first adj {} cs" "reaches adj x y" "x \<in> set (concat cs)"
  shows "y \<in> set (concat cs)"
  using assms(2,3) unfolding reaches_def
proof (induction rule: rtrancl_induct)
  case (step y z)
  then show ?case using callees_first_earlier [OF assms(1)] by blast
qed

lemma callees_first_append: "callees_first adj D (xs @ ys) \<longleftrightarrow> callees_first adj D xs \<and> callees_first adj (D \<union> set (concat xs)) ys"
  by (induction xs arbitrary: D) (auto simp: Un_assoc)

lemma component_maximal:
  assumes "callees_first adj {} (xs @ c # ys)" "distinct (concat (xs @ c # ys))" "x \<in> set c" "reaches adj x y" "reaches adj y x"
  shows "y \<in> set c"
proof -
  have first: "callees_first adj {} (xs @ [c])" "callees_first adj {} xs" using assms(1) by (simp_all add: callees_first_append)
  have "y \<in> set (concat (xs @ [c]))" using callees_first_closed [OF first(1) assms(4)] assms(3) by simp
  moreover have "y \<notin> set (concat xs)"
  proof
    assume "y \<in> set (concat xs)"
    then have "x \<in> set (concat xs)" using callees_first_closed [OF first(2) assms(5)] by blast
    then show False using assms(2,3) by auto
  qed
  ultimately show ?thesis by auto
qed

lemma tarjan_correct:
  assumes "wf_adj adj"
  shows "\<exists>sccs. tarjan_scc adj = Some sccs \<and> set (concat sccs) = {..<length adj} \<and> distinct (concat sccs)
    \<and> callees_first adj {} sccs
    \<and> (\<forall>c \<in> set sccs. \<forall>x \<in> set c. set c = {y. reaches adj x y \<and> reaches adj y x})"
proof -
  obtain st where st: "tarjan_from adj [0..<length adj] (tarjan_init (length adj)) = Some st" "tinv adj {} st"
    "visited (tarjan_init (length adj)) \<union> set [0..<length adj] \<subseteq> visited st"
    using tarjan_from_correct [OF assms tinv_init, of "[0..<length adj]"] by (auto simp: atLeast0LessThan)
  have sh: "shape adj st" and comps: "\<forall>c \<in> set (t_sccs st). strongly_connected adj c" "callees_first adj {} (t_sccs st)"
    using st(2) by (simp_all add: tinv_def)
  have "visited st \<subseteq> {..<length adj}" using tinv_length [OF st(2)] by (auto simp: visited_def)
  then have vis: "set (concat (t_sccs st)) = {..<length adj}"
    using st(3) sh no_call_no_stack [OF st(2)] by (auto simp: shape_def)
  have dist: "distinct (concat (t_sccs st))" using sh by (simp add: shape_def)
  have "set c = {y. reaches adj x y \<and> reaches adj y x}" if c: "c \<in> set (t_sccs st)" "x \<in> set c" for c x
  proof -
    obtain xs ys where split: "t_sccs st = xs @ c # ys" using c(1) by (meson split_list)
    have "y \<in> set c" if "reaches adj x y" "reaches adj y x" for y
      by (rule component_maximal [OF _ _ c(2) that]) (use comps(2) dist split in auto)
    moreover have "reaches adj x y \<and> reaches adj y x" if "y \<in> set c" for y
      using comps(1) c that by (simp add: strongly_connected_def)
    ultimately show ?thesis by blast
  qed
  then show ?thesis using st(1) vis dist comps(2) by (simp add: tarjan_scc_def)
qed

text \<open>
  C15: Tarjan's algorithm returns for every well-formed call graph, and returns its strongly connected components:
  every function is in exactly one, functions that reach each other are together and only those, and a component
  comes after every other component it calls.
\<close>

theorem tarjan_finds_components:
  assumes "wf_adj adj"
  shows "\<exists>sccs. tarjan_scc adj = Some sccs \<and> set (concat sccs) = {..<length adj} \<and> distinct (concat sccs)
    \<and> callees_first adj {} sccs
    \<and> (\<forall>c \<in> set sccs. \<forall>x \<in> set c. set c = {y. reaches adj x y \<and> reaches adj y x})"
  by (rule tarjan_correct [OF assms])

definition sample_calls :: "nat list list" where
  "sample_calls = [[1], [2], [0, 3], [4], [3], [5, 0]]"

theorem tarjan_finds_components_witness:
  "tarjan_scc sample_calls = Some [[4, 3], [2, 1, 0], [5]]
    \<and> {y. reaches sample_calls 3 y \<and> reaches sample_calls y 3} = {4, 3}"
proof -
  have eq: "tarjan_scc sample_calls = Some [[4, 3], [2, 1, 0], [5]]" by code_simp
  have "wf_adj sample_calls" by code_simp
  from tarjan_finds_components [OF this] eq
  have "\<forall>c \<in> set [[4, 3], [2, 1, 0], [5]]. \<forall>x \<in> set c. set c = {y. reaches sample_calls x y \<and> reaches sample_calls y x}"
    by (metis option.inject)
  then have "set [4, 3] = {y. reaches sample_calls 3 y \<and> reaches sample_calls y 3}"
    by (meson list.set_intros)
  with eq show ?thesis by simp
qed

end
