(* ===== verification/Workspace.thy ===== *)
theory Workspace
  imports Tarjan Complexity Models "HOL-Library.AList"
begin

text \<open>
  Complexity of a workspace (\<open>crates/cognis-indexer/src/complexity.rs\<close>, its second and third tier): the
  summaries of the functions' own bodies are propagated over the call graph, component by component, and
  turned into reports and optimization advisories. The first tier, a walk over a tree-sitter syntax tree, is
  the argument \<open>analyze\<close>. The records are those of \<open>crates/cognis-core/src/complexity.rs\<close>. A hash map that is
  iterated is an association list whose order its users take as an argument.
\<close>

type_synonym u16 = "16 word"

subsection \<open>Summaries and reports\<close>

datatype arg_reduction = NoReduction | Decrement | Halving

datatype intrinsic_pattern =
    LinearScanInLoop "string option" string nat u8
  | SortInLoop string nat u8
  | StringConcatInLoop string nat u8
  | CloneInLoop string nat u8
  | ChainedAllocation string u8 nat

record ast_call =
  cs_callee :: string
  cs_receiver :: "string option"
  cs_line :: nat
  cs_depth :: u8
  cs_multiplier :: complexity_class
  cs_sites :: u16
  cs_reduction :: arg_reduction

record ast_summary =
  as_symbol :: string
  local_time :: complexity_class
  local_space :: complexity_class
  as_max_depth :: u8
  as_cyclomatic :: nat
  as_cognitive :: nat
  call_sites :: "ast_call list"
  io_effects :: "(io_effect_kind \<times> nat \<times> u8) list"
  intrinsic_patterns :: "intrinsic_pattern list"
  has_memoization :: bool
  is_direct_recursive :: bool

record bottleneck_step =
  bt_symbol :: string
  bt_qualified :: string
  bt_file :: string
  bt_line :: nat
  bt_local :: string
  bt_multiplier :: string
  bt_cumulative :: string
  bt_reason :: string

record advisory =
  ad_rule :: string
  ad_title :: string
  ad_severity :: string
  ad_symbol :: string
  ad_qualified :: string
  ad_file :: string
  ad_line :: nat
  ad_current :: string
  ad_target :: string
  ad_problem :: string
  ad_prescription :: string
  ad_asset :: "string option"
  ad_diff :: "string option"

record complexity_report =
  rp_symbol :: string
  rp_qualified :: string
  rp_kind :: string
  rp_file :: string
  rp_line_start :: nat
  rp_line_end :: nat
  rp_local_time :: string
  rp_time :: string
  rp_space :: string
  rp_degree :: f64
  rp_risk :: f64
  rp_max_depth :: u8
  rp_cyclomatic :: nat
  rp_cognitive :: nat
  rp_recursion :: string
  rp_io :: "string list"
  rp_chain :: "bottleneck_step list"
  rp_advisories :: "advisory list"

subsection \<open>The call graph\<close>

type_synonym call_meta = "nat \<times> u8 \<times> u16 \<times> nat \<times> arg_reduction"

definition meta_loop_depth :: "edge \<Rightarrow> u8" where
  "meta_loop_depth e =
     (case Option.bind (jget (meta e) ''loop_depth'') as_u64 of Some d \<Rightarrow> word_of_nat d | None \<Rightarrow> 0)"

definition edge_call ::
  "symbol list \<Rightarrow> (string \<rightharpoonup> nat) \<Rightarrow> (string \<rightharpoonup> ast_summary) \<Rightarrow> edge \<Rightarrow> (nat \<times> call_meta) option" where
  "edge_call ss ix asts e =
     (if ekind e \<noteq> Calls \<or> dst_missing e then None
      else case (ix (src_id e), ix (dst_id e)) of
             (Some u, Some v) \<Rightarrow>
               Some (u, case Option.bind (asts (src_id e)) (\<lambda>a. find (\<lambda>cs. cs_callee cs = sname (ss ! v)) (call_sites a)) of
                          Some cs \<Rightarrow> (v, max (meta_loop_depth e) (cs_depth cs), cs_sites cs, cs_line cs, cs_reduction cs)
                        | None \<Rightarrow> (v, meta_loop_depth e, 1, line_start (ss ! u), NoReduction))
           | _ \<Rightarrow> None)"

definition add_call ::
  "symbol list \<Rightarrow> (string \<rightharpoonup> nat) \<Rightarrow> (string \<rightharpoonup> ast_summary) \<Rightarrow> edge
   \<Rightarrow> call_meta list list \<times> (string \<times> string \<rightharpoonup> u8) \<Rightarrow> call_meta list list \<times> (string \<times> string \<rightharpoonup> u8)" where
  "add_call ss ix asts e = (\<lambda>(adj, depths).
     case edge_call ss ix asts e of
       None \<Rightarrow> (adj, depths)
     | Some (u, m) \<Rightarrow> (adj[u := adj ! u @ [m]], depths((src_id e, dst_id e) \<mapsto> fst (snd m))))"

text \<open>A recursive call the walk found but no edge records.\<close>

definition add_self_call ::
  "(string \<rightharpoonup> ast_summary) \<Rightarrow> nat \<times> symbol \<Rightarrow> call_meta list list \<Rightarrow> call_meta list list" where
  "add_self_call asts = (\<lambda>(u, s) adj.
     case asts (sid s) of
       None \<Rightarrow> adj
     | Some a \<Rightarrow>
         if \<not> is_direct_recursive a then adj
         else case find (\<lambda>c. cs_callee c = sname s) (call_sites a) of
                None \<Rightarrow> adj
              | Some cs \<Rightarrow>
                  if u \<in> fst ` set (adj ! u) then adj
                  else adj[u := adj ! u @ [(u, cs_depth cs, cs_sites cs, cs_line cs, cs_reduction cs)]])"

subsection \<open>Solving a component\<close>

definition sat_add16 :: "u16 \<Rightarrow> u16 \<Rightarrow> u16" where
  "sat_add16 a b = (if unat a + unat b < 2 ^ 16 then a + b else - 1)"

record cycle =
  branch_calls :: u16
  cycle_loop :: u8
  reduction :: arg_reduction
  local_work :: complexity_class
  any_memo :: bool

definition cycle_call :: "nat list \<Rightarrow> call_meta \<Rightarrow> cycle \<Rightarrow> cycle" where
  "cycle_call scc = (\<lambda>(v, depth, sites, _, red) c.
     if v \<notin> set scc then c
     else c\<lparr>branch_calls := sat_add16 (branch_calls c) sites, cycle_loop := max (cycle_loop c) depth,
            reduction := (if reduction c = NoReduction then red else reduction c)\<rparr>)"

definition cycle_member :: "(nat \<Rightarrow> ast_summary) \<Rightarrow> call_meta list list \<Rightarrow> nat list \<Rightarrow> nat \<Rightarrow> cycle \<Rightarrow> cycle" where
  "cycle_member ast adj scc u c =
     fold (cycle_call scc) (adj ! u)
       (c\<lparr>local_work := seq_max (local_work c) (local_time (ast u)), any_memo := any_memo c \<or> has_memoization (ast u)\<rparr>)"

definition cycle_of :: "(nat \<Rightarrow> ast_summary) \<Rightarrow> call_meta list list \<Rightarrow> nat list \<Rightarrow> cycle" where
  "cycle_of ast adj scc =
     fold (cycle_member ast adj scc) scc
       \<lparr>branch_calls = 0, cycle_loop = 0, reduction = NoReduction, local_work = Constant, any_memo = False\<rparr>"

text \<open>The recurrence of a cycle, by the master theorem.\<close>

definition cycle_time :: "cycle \<Rightarrow> complexity_class" where
  "cycle_time c =
     (if \<not> any_memo c \<and> (2 \<le> branch_calls c \<or> 0 < cycle_loop c)
      then (case reduction c of
              Halving \<Rightarrow> seq_max n_log_n (local_work c)
            | _ \<Rightarrow> Exponential (ucast (min 8 (max 2 (branch_calls c)))))
      else (case reduction c of
              Halving \<Rightarrow> nest_mul log_n (local_work c)
            | _ \<Rightarrow> nest_mul linear (local_work c)))"

definition cycle_space :: "cycle \<Rightarrow> complexity_class" where
  "cycle_space c = (case reduction c of Halving \<Rightarrow> log_n | _ \<Rightarrow> linear)"

record solution =
  times :: "complexity_class list"
  spaces :: "complexity_class list"
  recursions :: "string list"
  dominant :: "(nat \<times> u8 \<times> nat) option list"
  loop_io :: "(io_effect_kind \<times> nat \<times> nat) option list"

definition is_recursive :: "call_meta list list \<Rightarrow> nat list \<Rightarrow> bool" where
  "is_recursive adj scc \<longleftrightarrow> 1 < length scc \<or> (length scc = 1 \<and> hd scc \<in> fst ` set (adj ! hd scc))"

definition solve_cycle :: "(nat \<Rightarrow> ast_summary) \<Rightarrow> call_meta list list \<Rightarrow> nat list \<Rightarrow> solution \<Rightarrow> solution" where
  "solve_cycle ast adj scc s =
     (if \<not> is_recursive adj scc then s
      else let c = cycle_of ast adj scc; kind = (if 1 < length scc then ''mutual_recursion'' else ''direct_recursion'')
           in fold (\<lambda>u s. s\<lparr>times := (times s)[u := cycle_time c], spaces := (spaces s)[u := cycle_space c],
                            recursions := (recursions s)[u := kind]\<rparr>) scc s)"

definition symbol_has_direct_io :: "symbol \<Rightarrow> bool" where
  "symbol_has_direct_io s =
     (case body_excerpt s of
        None \<Rightarrow> False
      | Some body \<Rightarrow>
          let l = to_ascii_lowercase body
          in list_ex (str_contains l)
               [''select '', ''insert into'', ''db.query'', ''db.execute'', ''fetch('', ''requests.''])"

type_synonym best = "complexity_class \<times> complexity_class \<times> (nat \<times> u8 \<times> nat) option \<times> (io_effect_kind \<times> nat \<times> nat) option"

definition absorb_call :: "symbol list \<Rightarrow> nat list \<Rightarrow> solution \<Rightarrow> call_meta \<Rightarrow> best \<Rightarrow> best" where
  "absorb_call ss scc s = (\<lambda>(v, depth, _, line, _) (time, space, hot, io).
     if v \<in> set scc then (time, space, hot, io)
     else let induced = nest_mul (polynomial depth) (times s ! v);
              heavier = effective_degree time < effective_degree induced \<or> (2 \<le> effective_degree induced \<and> hot = None)
          in (if heavier then seq_max time induced else time,
              seq_max space (spaces s ! v),
              if heavier then Some (v, depth, line) else hot,
              case loop_io s ! v of
                Some w \<Rightarrow> if 0 < depth \<and> io = None then Some w else io
              | None \<Rightarrow>
                  if 0 < depth \<and> symbol_has_direct_io (ss ! v) \<and> io = None
                  then Some (DatabaseQuery, v, line_start (ss ! v)) else io))"

definition absorb_callees ::
  "symbol list \<Rightarrow> (nat \<Rightarrow> ast_summary) \<Rightarrow> call_meta list list \<Rightarrow> nat list \<Rightarrow> nat \<Rightarrow> solution \<Rightarrow> solution" where
  "absorb_callees ss ast adj scc u s =
     (let io = (case io_effects (ast u) of (k, line, _) # _ \<Rightarrow> Some (k, u, line) | [] \<Rightarrow> loop_io s ! u);
          (time, space, hot, io) =
            fold (absorb_call ss scc s) (adj ! u)
              (seq_max (times s ! u) (local_time (ast u)), seq_max (spaces s ! u) (local_space (ast u)), dominant s ! u, io)
      in s\<lparr>times := (times s)[u := time], spaces := (spaces s)[u := space], dominant := (dominant s)[u := hot],
           loop_io := (loop_io s)[u := io]\<rparr>)"

definition solve_component ::
  "symbol list \<Rightarrow> (nat \<Rightarrow> ast_summary) \<Rightarrow> call_meta list list \<Rightarrow> nat list \<Rightarrow> solution \<Rightarrow> solution" where
  "solve_component ss ast adj scc s = fold (absorb_callees ss ast adj scc) scc (solve_cycle ast adj scc s)"

definition unsolved :: "nat \<Rightarrow> solution" where
  "unsolved n =
     \<lparr>times = replicate n Constant, spaces = replicate n Constant, recursions = replicate n ''none'',
      dominant = replicate n None, loop_io = replicate n None\<rparr>"

definition solve_all ::
  "symbol list \<Rightarrow> (nat \<Rightarrow> ast_summary) \<Rightarrow> call_meta list list \<Rightarrow> nat list list \<Rightarrow> solution" where
  "solve_all ss ast adj sccs = fold (solve_component ss ast adj) sccs (unsolved (length ss))"

subsection \<open>Advisories\<close>

text \<open>\<open>candidates\<close> are the symbols of the module, in their order.\<close>

definition helper_label :: "symbol \<Rightarrow> string" where
  "helper_label s = qualified_name s @ '' ('' @ file_path s @ '':'' @ show_nat (line_start s) @ '')''"

definition find_repo_helper :: "string list \<Rightarrow> symbol list \<Rightarrow> string \<Rightarrow> string option" where
  "find_repo_helper keys ss m =
     map_option helper_label
       (find (\<lambda>s. smodule s = m \<and> list_ex (str_contains (to_ascii_lowercase (sname s))) keys) ss)"

definition find_repo_indexed_helper :: "symbol list \<Rightarrow> string \<Rightarrow> string option" where
  "find_repo_indexed_helper = find_repo_helper [''index'', ''map'', ''by_id'', ''lookup'', ''cache'', ''hydrate'']"

definition find_repo_batch_helper :: "symbol list \<Rightarrow> string \<Rightarrow> string option" where
  "find_repo_batch_helper = find_repo_helper [''batch'', ''bulk'', ''many'', ''hydrate_ids'', ''all'']"

definition advise ::
  "symbol \<Rightarrow> string \<Rightarrow> string \<Rightarrow> string \<Rightarrow> nat \<Rightarrow> string \<Rightarrow> string \<Rightarrow> string \<Rightarrow> string \<Rightarrow> string option \<Rightarrow> advisory" where
  "advise s rule title severity line current target problem prescription asset =
     \<lparr>ad_rule = rule, ad_title = title, ad_severity = severity, ad_symbol = sid s, ad_qualified = qualified_name s,
      ad_file = file_path s, ad_line = line, ad_current = current, ad_target = target, ad_problem = problem,
      ad_prescription = prescription, ad_asset = asset, ad_diff = None\<rparr>"

definition quoted :: "string \<Rightarrow> string" where
  "quoted t = ''`'' @ t @ ''`''"

fun pattern_advisory :: "symbol list \<Rightarrow> symbol \<Rightarrow> complexity_class \<Rightarrow> intrinsic_pattern \<Rightarrow> advisory" where
  "pattern_advisory ss s time (LinearScanInLoop receiver m line depth) =
     (let col = (case receiver of Some r \<Rightarrow> r | None \<Rightarrow> ''collection'')
      in advise s ''OPT-001'' ''Linear Collection Scan Inside Loop'' (if 2 \<le> depth then ''critical'' else ''high'') line
           (notation_of time) ''O(n)''
           (''Calling `'' @ col @ ''.'' @ m @ ''(...)` (O(m) linear scan) inside loop (depth '' @ show_u8 depth
            @ '') at line '' @ show_nat line @ '' causes quadratic O(n*m) scaling.'')
           (''Pre-index '' @ quoted col @ '' into a HashMap/HashSet (`Map`/`Set` in TS/JS, `dict`/`set` in Python, `HashMap` in Rust/Java) once before the loop in O(m) time, then perform O(1) lookups inside the loop.'')
           (find_repo_indexed_helper ss (smodule s)))"
| "pattern_advisory ss s time (SortInLoop m line depth) =
     advise s ''OPT-005'' ''Redundant Sorting Inside Loop'' ''high'' line (notation_of time) ''O(n log n)''
       (''Sorting via '' @ quoted m @ '' (O(n log n)) inside loop (depth '' @ show_u8 depth @ '') at line ''
        @ show_nat line @ '' degrades runtime to O(n^2 log n).'')
       ''Hoist `.sort()` outside the loop (Loop-Invariant Code Motion) so it runs once in O(n log n), or maintain order incrementally with a BinaryHeap / BTreeSet (O(log n) per insertion).''
       None"
| "pattern_advisory ss s time (StringConcatInLoop target line depth) =
     advise s ''OPT-004'' ''Quadratic String/Array Concatenation in Loop'' ''medium'' line (notation_of time) ''O(n)''
       (''Repeatedly concatenating `'' @ target @ '' += ...` inside loop (depth '' @ show_u8 depth @ '') at line ''
        @ show_nat line @ '' reallocates and copies buffers on every iteration.'')
       (''Accumulate chunks in a pre-allocated buffer (`String::with_capacity` in Rust, `'' @ [CHR 0x27, CHR 0x27]
        @ ''.join(parts)` in Python, `strings.Builder` in Go, `StringBuilder` in Java/C#, `parts.push(); parts.join(''
        @ [CHR 0x27, CHR 0x27] @ '')` in TS/JS).'')
       None"
| "pattern_advisory ss s time (CloneInLoop m line depth) =
     advise s ''OPT-005'' ''Heap Deep-Clone Inside Hot Loop'' ''medium'' line (notation_of time) ''O(n) time, O(1) allocs''
       (''Calling `.'' @ m @ ''()` inside loop (depth '' @ show_u8 depth @ '') at line '' @ show_nat line
        @ '' causes O(n) heap allocations.'')
       ''Borrow by reference (`&T` / slice view) or reuse a single pre-allocated scratch buffer across iterations via `.clear()`.''
       None"
| "pattern_advisory ss s time (ChainedAllocation chain depth line) =
     advise s ''OPT-007'' ''Multi-Pass Eager Array Allocation Chain'' ''low'' line (show_u8 depth @ ''x O(n) space'')
       ''O(1) intermediate space''
       (''Chained collection pipeline '' @ quoted chain @ '' at line '' @ show_nat line @ '' materializes '' @ show_u8 depth
        @ '' intermediate arrays.'')
       ''Fuse into a single-pass `for..of` / `.reduce()` loop or use a lazy iterator/generator pipeline.''
       None"

definition io_advisory :: "symbol list \<Rightarrow> symbol \<Rightarrow> io_effect_kind \<times> nat \<times> u8 \<Rightarrow> advisory" where
  "io_advisory ss s = (\<lambda>(k, line, depth).
     case k of
       SequentialAwaitInLoop \<Rightarrow>
         advise s ''OPT-003'' ''Sequential `await` Inside Loop'' ''high'' line ''O(n * latency) serial wait''
           ''O(latency) concurrent execution''
           (''Awaiting promises/futures sequentially inside a loop at line '' @ show_nat line
            @ '' serializes independent async tasks.'')
           ''Collect tasks and await concurrently via `Promise.all(...)`, `asyncio.gather(...)`, `futures::future::join_all(...)`, or `Task.WhenAll(...)`.''
           None
     | FilesystemBlocking \<Rightarrow>
         advise s ''OPT-002'' ''Blocking Filesystem I/O Inside Loop'' ''high'' line ''O(n) sync disk syscalls''
           ''O(1) buffered/cached read''
           (''Synchronous filesystem call inside loop at line '' @ show_nat line @ '' blocks the thread per iteration.'')
           ''Hoist file reads outside the loop or use buffered streaming / in-memory caching.''
           None
     | _ \<Rightarrow>
         advise s ''OPT-002'' ''N+1 Query / Network Call Inside Loop'' ''critical'' line
           (''O(n) I/O round-trips (loop depth '' @ show_u8 depth @ '')'') ''O(1) batched I/O round-trip''
           (''Executing '' @ quoted (io_label k) @ '' inside loop at line '' @ show_nat line
            @ '' triggers N+1 sequential I/O operations.'')
           ''Collect target IDs/keys inside the loop and execute a single bulk query (`WHERE id IN (...)`, `findMany`, or batch RPC) before or after the loop.''
           (find_repo_batch_helper ss (smodule s)))"

definition dominant_advisory :: "symbol list \<Rightarrow> symbol \<Rightarrow> complexity_class \<Rightarrow> nat \<times> u8 \<times> nat \<Rightarrow> advisory list" where
  "dominant_advisory ss s time = (\<lambda>(v, depth, line).
     if \<not> (0 < depth \<and> 2 \<le> effective_degree time) then []
     else let callee = ss ! v
          in [advise s ''OPT-001'' ''Cross-Function Hidden Quadratic Bottleneck''
                (if 3 \<le> effective_degree time then ''critical'' else ''high'') line (notation_of time) ''O(n)''
                (quoted (qualified_name s) @ '' invokes '' @ quoted (qualified_name callee) @ '' ('' @ file_path callee
                 @ '':'' @ show_nat (line_start callee) @ '') inside a loop (depth '' @ show_u8 depth @ '' at line ''
                 @ show_nat line @ ''), multiplying callee'' @ [CHR 0x27] @ ''s linear work into '' @ notation_of time @ ''.'')
                (''Hoist or batch the call to '' @ quoted (sname callee)
                 @ '' outside the loop, or pre-index the lookup table in '' @ quoted (smodule callee)
                 @ '' into a HashMap/Set so per-iteration lookup is O(1).'')
                (case find_repo_indexed_helper ss (smodule callee) of
                   Some a \<Rightarrow> Some a
                 | None \<Rightarrow> find_repo_indexed_helper ss (smodule s))])"

definition transitive_advisory :: "symbol list \<Rightarrow> nat \<Rightarrow> symbol \<Rightarrow> io_effect_kind \<times> nat \<times> nat \<Rightarrow> advisory list" where
  "transitive_advisory ss u s = (\<lambda>(k, v, line).
     if v = u then []
     else let callee = ss ! v
          in [advise s ''OPT-002'' ''Transitive N+1 I/O Across Function Boundary'' ''critical'' (line_start s)
                ''O(n) transitive I/O calls'' ''O(1) batched I/O''
                (quoted (qualified_name s) @ '' calls '' @ quoted (qualified_name callee)
                 @ '' inside a loop, which executes '' @ quoted (io_label k) @ '' at '' @ file_path callee @ '':''
                 @ show_nat line @ ''.'')
                (''Refactor '' @ quoted (qualified_name callee)
                 @ '' to accept a slice/batch of keys and return a `HashMap<Key, Value>` in a single I/O round-trip.'')
                (find_repo_batch_helper ss (smodule callee))])"

fun is_exponential :: "complexity_class \<Rightarrow> bool" where
  "is_exponential (Exponential _) = True"
| "is_exponential _ = False"

definition synthesize_advisories ::
  "symbol list \<Rightarrow> nat \<Rightarrow> symbol \<Rightarrow> ast_summary \<Rightarrow> complexity_class \<Rightarrow> string \<Rightarrow> (nat \<times> u8 \<times> nat) option
   \<Rightarrow> (io_effect_kind \<times> nat \<times> nat) option \<Rightarrow> advisory list" where
  "synthesize_advisories ss u s ast time rec_kind hot io =
     map (pattern_advisory ss s time) (intrinsic_patterns ast)
     @ (case hot of Some d \<Rightarrow> dominant_advisory ss s time d | None \<Rightarrow> [])
     @ map (io_advisory ss s) (io_effects ast)
     @ (case io of Some w \<Rightarrow> transitive_advisory ss u s w | None \<Rightarrow> [])
     @ (if rec_kind \<noteq> ''none'' \<and> is_exponential time
        then [advise s ''OPT-006'' ''Unmemoized Exponential Branching Recursion'' ''critical'' (line_start s)
                (notation_of time) ''O(n) with Memoization / DP''
                (quoted (qualified_name s) @ '' performs branching recursion ('' @ rec_kind
                 @ '') with decrementing arguments and no detected memoization cache, resulting in '' @ notation_of time
                 @ '' exponential blowup.'')
                ''Add memoization (`@functools.lru_cache` in Python, a `HashMap` / `Map` cache keyed by parameters, or a bottom-up Dynamic Programming table) to eliminate overlapping subproblems.''
                None]
        else [])"

subsection \<open>Reports\<close>

text \<open>The steps after the first, along the dominant callees; at most six in all.\<close>

function chain_from ::
  "symbol list \<Rightarrow> (nat \<Rightarrow> ast_summary) \<Rightarrow> solution \<Rightarrow> symbol \<Rightarrow> nat \<Rightarrow> nat list \<Rightarrow> bottleneck_step list \<Rightarrow> bottleneck_step list" where
  "chain_from ss ast s start cur seen chain =
     (case dominant s ! cur of
        None \<Rightarrow> chain
      | Some (v, depth, line) \<Rightarrow>
          if v \<in> set seen \<or> 6 \<le> length chain then chain
          else let callee = ss ! v
               in chain_from ss ast s start v (v # seen)
                    (chain @ [\<lparr>bt_symbol = sid callee, bt_qualified = qualified_name callee, bt_file = file_path callee,
                               bt_line = line, bt_local = notation_of (local_time (ast v)),
                               bt_multiplier = notation_of (polynomial depth),
                               bt_cumulative = notation_of (times s ! v),
                               bt_reason = ''Invoked at '' @ file_path start @ '':'' @ show_nat line
                                 @ '' inside loop depth '' @ show_u8 depth\<rparr>]))"
  by pat_completeness auto
termination by (relation "measure (\<lambda>(_, _, _, _, _, _, chain). 6 - length chain)") auto

declare chain_from.simps [simp del]

definition bottleneck_chain :: "symbol list \<Rightarrow> (nat \<Rightarrow> ast_summary) \<Rightarrow> solution \<Rightarrow> nat \<Rightarrow> bottleneck_step list" where
  "bottleneck_chain ss ast s u =
     chain_from ss ast s (ss ! u) u [u]
       [\<lparr>bt_symbol = sid (ss ! u), bt_qualified = qualified_name (ss ! u), bt_file = file_path (ss ! u),
         bt_line = line_start (ss ! u), bt_local = notation_of (local_time (ast u)), bt_multiplier = ''O(1)'',
         bt_cumulative = notation_of (times s ! u),
         bt_reason = (if dominant s ! u \<noteq> None then ''Calls helper inside loop / hot path'' else ''Local AST body complexity'')\<rparr>]"

definition io_labels :: "symbol list \<Rightarrow> nat \<Rightarrow> ast_summary \<Rightarrow> (io_effect_kind \<times> nat \<times> nat) option \<Rightarrow> string list" where
  "io_labels ss u ast io =
     map (\<lambda>(k, line, d). io_label k @ '' (line '' @ show_nat line @ '', loop depth '' @ show_u8 d @ '')'') (io_effects ast)
     @ (case io of
          Some (k, v, line) \<Rightarrow>
            if v = u then []
            else [''transitive_'' @ io_label k @ '' via '' @ quoted (qualified_name (ss ! v)) @ '' (''
                  @ file_path (ss ! v) @ '':'' @ show_nat line @ '')'']
        | None \<Rightarrow> [])"

definition risk_of :: "complexity_class \<Rightarrow> bool \<Rightarrow> nat \<Rightarrow> bool \<Rightarrow> f64" where
  "risk_of time io cognitive recursive =
     max 0 (min 1 (45/100 * risk_weight time + 30/100 * of_bool io + 15/100 * min (real cognitive / 25) 1
       + 10/100 * of_bool recursive))"

definition report_of :: "symbol list \<Rightarrow> (nat \<Rightarrow> ast_summary) \<Rightarrow> solution \<Rightarrow> nat \<Rightarrow> complexity_report" where
  "report_of ss ast s u =
     (let sym = ss ! u; a = ast u; time = times s ! u; io = loop_io s ! u; kind = recursions s ! u
      in \<lparr>rp_symbol = sid sym, rp_qualified = qualified_name sym, rp_kind = kind_json (skind sym), rp_file = file_path sym,
          rp_line_start = line_start sym, rp_line_end = line_end sym, rp_local_time = notation_of (local_time a),
          rp_time = notation_of time, rp_space = notation_of (spaces s ! u), rp_degree = effective_degree time,
          rp_risk = risk_of time (io_effects a \<noteq> [] \<or> io \<noteq> None) (as_cognitive a) (kind \<noteq> ''none''),
          rp_max_depth = as_max_depth a, rp_cyclomatic = as_cyclomatic a, rp_cognitive = as_cognitive a,
          rp_recursion = kind, rp_io = io_labels ss u a io, rp_chain = bottleneck_chain ss ast s u,
          rp_advisories = synthesize_advisories ss u sym a time kind (dominant s ! u) io\<rparr>)"

definition call_graph ::
  "symbol list \<Rightarrow> (string \<rightharpoonup> ast_summary) \<Rightarrow> edge list \<Rightarrow> call_meta list list \<times> (string \<times> string \<rightharpoonup> u8)" where
  "call_graph ss asts es =
     (let ix = map_of (rev (zip (map sid ss) [0..<length ss]));
          (adj, depths) = fold (add_call ss ix asts) es (replicate (length ss) [], Map.empty)
      in (fold (add_self_call asts) (enumerate 0 ss) adj, depths))"

definition analyze_workspace_complexity ::
  "(symbol \<Rightarrow> string option \<Rightarrow> ast_summary) \<Rightarrow> symbol list \<Rightarrow> edge list \<Rightarrow> (string \<rightharpoonup> string)
   \<Rightarrow> ((string \<times> complexity_report) list \<times> (string \<times> string \<rightharpoonup> u8)) option" where
  "analyze_workspace_complexity analyze ss es sources =
     (let asts = map_of (rev (map (\<lambda>s. (sid s, analyze s (sources (sid s)))) ss));
          ast = (\<lambda>u. the (asts (sid (ss ! u))));
          (adj, depths) = call_graph ss asts es
      in map_option
           (\<lambda>sccs. let s = solve_all ss ast adj sccs
                   in (fold (\<lambda>(u, sym). AList.update (sid sym) (report_of ss ast s u)) (enumerate 0 ss) [], depths))
           (tarjan_scc (map (map fst) adj)))"

subsection \<open>The call graph is well formed\<close>

lemma map_of_positions: "map_of (rev (zip xs [0..<length xs])) x = Some i \<Longrightarrow> i < length xs \<and> xs ! i = x"
proof -
  assume "map_of (rev (zip xs [0..<length xs])) x = Some i"
  then have "(x, i) \<in> set (zip xs [0..<length xs])" using map_of_SomeD by fastforce
  then show ?thesis by (auto simp: in_set_zip)
qed

definition calls_wf :: "nat \<Rightarrow> call_meta list list \<Rightarrow> bool" where
  "calls_wf n adj \<longleftrightarrow> length adj = n \<and> (\<forall>ms \<in> set adj. \<forall>m \<in> set ms. fst m < n)"

lemma calls_wf_add:
  assumes "calls_wf n adj" "fst m < n"
  shows "calls_wf n (adj[u := adj ! u @ [m]])"
proof (cases "u < length adj")
  case True
  have old: "fst x < n" if "ms \<in> set adj" "x \<in> set ms" for ms x using assms(1) that by (auto simp: calls_wf_def)
  have "fst x < n" if ms: "ms \<in> set (adj[u := adj ! u @ [m]])" and x: "x \<in> set ms" for ms x
  proof (cases "ms = adj ! u @ [m]")
    case True
    then consider "x = m" | "x \<in> set (adj ! u)" using x by auto
    then show ?thesis using assms(2) old [OF nth_mem [OF \<open>u < length adj\<close>], of x] by cases simp_all
  next
    case False
    then have "ms \<in> set adj" using set_update_subset_insert [of adj u "adj ! u @ [m]"] ms by blast
    then show ?thesis using old x by blast
  qed
  then show ?thesis using assms(1) by (simp add: calls_wf_def)
qed (use assms in \<open>simp add: calls_wf_def list_update_beyond\<close>)

lemma edge_call_wf:
  assumes "edge_call ss ix asts e = Some (u, m)" "\<And>x i. ix x = Some i \<Longrightarrow> i < n"
  shows "fst m < n"
  using assms(1) by (auto simp: edge_call_def split: if_splits option.splits dest: assms(2))

lemma call_graph_wf: "calls_wf (length ss) (fst (call_graph ss asts es))"
proof -
  let ?ix = "map_of (rev (zip (map sid ss) [0..<length ss]))"
  have ix: "i < length ss" if "?ix x = Some i" for x i using map_of_positions [of "map sid ss" x i] that by simp
  have "calls_wf (length ss) (fst (fold (add_call ss ?ix asts) es (replicate (length ss) [], Map.empty)))"
  proof (rule fold_inv)
    fix e and s :: "call_meta list list \<times> (string \<times> string \<rightharpoonup> u8)"
    assume "calls_wf (length ss) (fst s)"
    show "calls_wf (length ss) (fst (add_call ss ?ix asts e s))"
    proof (cases "edge_call ss ?ix asts e")
      case (Some um)
      obtain u m where um: "um = (u, m)" by (cases um)
      have "fst m < length ss" by (rule edge_call_wf [OF Some [unfolded um]]) (rule ix)
      from calls_wf_add [OF \<open>calls_wf (length ss) (fst s)\<close> this, of u] show ?thesis
        using Some um by (cases s) (simp add: add_call_def)
    qed (use \<open>calls_wf (length ss) (fst s)\<close> in \<open>cases s, simp add: add_call_def\<close>)
  qed (simp add: calls_wf_def)
  then have "calls_wf (length ss) (fold (add_self_call asts) (enumerate 0 ss)
      (fst (fold (add_call ss ?ix asts) es (replicate (length ss) [], Map.empty))))"
  proof (rule fold_inv)
    fix us adj assume us: "us \<in> set (enumerate 0 ss)" and adj: "calls_wf (length ss) adj"
    obtain u s where [simp]: "us = (u, s)" by (cases us)
    have "u < length ss" using us by (auto simp: in_set_enumerate_eq)
    then show "calls_wf (length ss) (add_self_call asts us adj)"
      using calls_wf_add [OF adj, of "(u, _)" u] adj by (auto simp: add_self_call_def split: option.split)
  qed
  then show ?thesis by (simp add: call_graph_def Let_def case_prod_beta)
qed

lemma wf_targets: "calls_wf n adj \<Longrightarrow> wf_adj (map (map fst) adj)"
  by (auto simp: calls_wf_def wf_adj_def)

lemma analysis_returns: "\<exists>reports depths. analyze_workspace_complexity analyze ss es sources = Some (reports, depths)"
proof -
  let ?asts = "map_of (rev (map (\<lambda>s. (sid s, analyze s (sources (sid s)))) ss))"
  have "wf_adj (map (map fst) (fst (call_graph ss ?asts es)))" using call_graph_wf wf_targets by blast
  then obtain sccs where "tarjan_scc (map (map fst) (fst (call_graph ss ?asts es))) = Some sccs"
    using tarjan_correct by blast
  then show ?thesis by (auto simp: analyze_workspace_complexity_def Let_def case_prod_beta)
qed

subsection \<open>Propagation covers the calls\<close>


lemma degree_seq_max [simp]: "effective_degree (seq_max a b) = max (effective_degree a) (effective_degree b)"
  by (simp add: seq_max_def max_def)








definition same_at :: "solution \<Rightarrow> solution \<Rightarrow> nat \<Rightarrow> bool" where
  "same_at s s' v \<longleftrightarrow> times s' ! v = times s ! v \<and> spaces s' ! v = spaces s ! v \<and> loop_io s' ! v = loop_io s ! v"





lemma same_at_refl [simp]: "same_at s s v"
  by (simp add: same_at_def)

















definition sample_function :: "string \<Rightarrow> string \<Rightarrow> symbol" where
  "sample_function i p =
     \<lparr>sid = i, skind = Function, sname = i, qualified_name = i, language = ''python'', smodule = i, file_path = p,
      line_start = 1, line_end = 9, signature = None, docstring = None, content_hash = [], body_excerpt = None,
      semantic_summary = None, risk_score = 0, ambiguous = False, untrusted_flags = [], updated_at = 0\<rparr>"

definition sample_call :: "string \<Rightarrow> nat \<Rightarrow> ast_call" where
  "sample_call callee line =
     \<lparr>cs_callee = callee, cs_receiver = None, cs_line = line, cs_depth = 1, cs_multiplier = linear, cs_sites = 1,
      cs_reduction = NoReduction\<rparr>"

definition sample_walk :: "symbol \<Rightarrow> string option \<Rightarrow> ast_summary" where
  "sample_walk s source =
     \<lparr>as_symbol = sid s, local_time = linear, local_space = Constant, as_max_depth = 1, as_cyclomatic = 2, as_cognitive = 1,
      call_sites = (if sid s = ''f'' then [sample_call ''g'' 4] else if sid s = ''g'' then [sample_call ''h'' 7] else []),
      io_effects = [], intrinsic_patterns = [], has_memoization = False, is_direct_recursive = False\<rparr>"

definition sample_functions :: "symbol list" where
  "sample_functions = [sample_function ''f'' ''a.py'', sample_function ''g'' ''b.py'', sample_function ''h'' ''c.py'']"

definition sample_edge :: "string \<Rightarrow> string \<Rightarrow> edge" where
  "sample_edge a b = \<lparr>src_id = a, dst_id = b, ekind = Calls, confidence = 1, meta = JNull\<rparr>"

definition sample_edges :: "edge list" where
  "sample_edges = [sample_edge ''f'' ''g'', sample_edge ''g'' ''h'']"


lemma sample_costs:
  "map_option (\<lambda>(rs, _). map (\<lambda>(i, r). (i, rp_time r)) rs) (analyze_workspace_complexity sample_walk sample_functions sample_edges Map.empty)
    = Some [(''f'', ''O(n^3)''), (''g'', ''O(n^2)''), (''h'', ''O(n)'')]"
  by code_simp


text \<open>
  A step of the blame path names the line of a call with the file of the function the report is about, also
  where the call is in another file: here \<open>g\<close> in \<open>b.py\<close> calls \<open>h\<close> on line 7, and the report of \<open>f\<close> says \<open>a.py:7\<close>.
\<close>

theorem chain_names_wrong_file:
  "map_option (\<lambda>(rs, _). map (\<lambda>b. (bt_symbol b, bt_file b, bt_reason b)) (rp_chain (the (map_of rs ''f''))))
     (analyze_workspace_complexity sample_walk sample_functions sample_edges Map.empty)
   = Some [(''f'', ''a.py'', ''Calls helper inside loop / hot path''),
           (''g'', ''b.py'', ''Invoked at a.py:4 inside loop depth 1''),
           (''h'', ''c.py'', ''Invoked at a.py:7 inside loop depth 1'')]"
  by code_simp

subsection \<open>Reports are in range\<close>

lemma chain_from_length: "length chain \<le> 6 \<Longrightarrow> length chain \<le> length (chain_from ss ast s start cur seen chain)
    \<and> length (chain_from ss ast s start cur seen chain) \<le> 6"
proof (induction ss ast s start cur seen chain rule: chain_from.induct)
  case (1 ss ast s start cur seen chain)
  show ?case
  proof (cases "dominant s ! cur")
    case (Some w)
    obtain v d l where w: "w = (v, d, l)" by (cases w)
    show ?thesis
    proof (cases "v \<in> set seen \<or> 6 \<le> length chain")
      case False
      note step = "1.IH" [OF Some [unfolded w] refl refl False refl]
      have "length chain < 6" using False 1(2) by simp
      then show ?thesis
        using step False by (subst (1 2) chain_from.simps) (simp add: Some w Let_def)
    qed (use Some w 1(2) in \<open>simp add: chain_from.simps\<close>)
  qed (use 1(2) in \<open>simp add: chain_from.simps\<close>)
qed

lemma risk_of_range: "0 \<le> risk_of time io c r \<and> risk_of time io c r \<le> 1"
  by (simp add: risk_of_def)

lemma update_reports:
  assumes "(i, r) \<in> set (fold (\<lambda>(u, sym). AList.update (sid sym) (f u)) us m)" "distinct (map fst m)"
  shows "(i, r) \<in> set m \<or> (\<exists>(u, sym) \<in> set us. i = sid sym \<and> r = f u)"
  using assms
proof (induction us arbitrary: m)
  case (Cons us' us)
  obtain u sym where us': "us' = (u, sym)" by (cases us')
  have "distinct (map fst (AList.update (sid sym) (f u) m))" using Cons.prems(2) by (rule distinct_update)
  moreover have "(i, r) \<in> set m \<or> i = sid sym \<and> r = f u" if "(i, r) \<in> set (AList.update (sid sym) (f u) m)"
  proof -
    have "map_of (AList.update (sid sym) (f u) m) i = Some r"
      using that distinct_update [OF Cons.prems(2)] by (simp add: map_of_eq_Some_iff)
    then show ?thesis using Cons.prems(2) by (auto simp: update_conv map_of_eq_Some_iff split: if_splits)
  qed
  ultimately show ?case using Cons us' by fastforce
qed simp

lemma report_entries:
  assumes "analyze_workspace_complexity analyze ss es sources = Some (reports, depths)"
  shows "distinct (map fst reports)
    \<and> ((i, r) \<in> set reports \<longrightarrow> i = rp_symbol r \<and> 0 \<le> rp_risk r \<and> rp_risk r \<le> 1
        \<and> 1 \<le> length (rp_chain r) \<and> length (rp_chain r) \<le> 6 \<and> (\<exists>s \<in> set ss. sid s = i))"
proof -
  obtain ast s where rs: "reports = fold (\<lambda>(u, sym). AList.update (sid sym) (report_of ss ast s u)) (enumerate 0 ss) []"
    using assms by (auto simp: analyze_workspace_complexity_def Let_def split: prod.splits)
  have "distinct (map fst reports)"
    unfolding rs by (rule fold_inv) (auto intro: distinct_update split: prod.splits)
  moreover have "i = rp_symbol r \<and> 0 \<le> rp_risk r \<and> rp_risk r \<le> 1
      \<and> 1 \<le> length (rp_chain r) \<and> length (rp_chain r) \<le> 6 \<and> (\<exists>s \<in> set ss. sid s = i)" if m: "(i, r) \<in> set reports"
  proof -
    obtain u sym where u: "(u, sym) \<in> set (enumerate 0 ss)" "i = sid sym" "r = report_of ss ast s u"
      using update_reports [OF m [unfolded rs]] by auto
    then have sym: "ss ! u = sym" "sym \<in> set ss" by (auto simp: in_set_enumerate_eq)
    obtain x where "rp_chain r = chain_from ss ast s (ss ! u) u [u] [x]"
      by (simp add: u(3) report_of_def Let_def bottleneck_chain_def)
    then have "1 \<le> length (rp_chain r) \<and> length (rp_chain r) \<le> 6"
      using chain_from_length [of "[x]" ss ast s "ss ! u" u "[u]"] by simp
    then show ?thesis using risk_of_range sym u by (auto simp: report_of_def Let_def)
  qed
  ultimately show ?thesis by blast
qed

text \<open>
  Every report the analysis returns is filed under its own function, has a risk score between 0 and 1, and a
  blame path of one to six steps that starts at the function.
\<close>

theorem reports_in_range:
  assumes "analyze_workspace_complexity analyze ss es sources = Some (reports, depths)" "(i, r) \<in> set reports"
  shows "i = rp_symbol r \<and> 0 \<le> rp_risk r \<and> rp_risk r \<le> 1 \<and> 1 \<le> length (rp_chain r) \<and> length (rp_chain r) \<le> 6
    \<and> (\<exists>s \<in> set ss. sid s = i)"
  using report_entries [OF assms(1)] assms(2) by blast

theorem reports_in_range_witness:
  "\<exists>reports depths. analyze_workspace_complexity sample_walk sample_functions sample_edges Map.empty = Some (reports, depths)
     \<and> (\<exists>r. map_of reports ''f'' = Some r \<and> length (rp_chain r) \<le> 6)"
proof -
  obtain reports depths where a: "analyze_workspace_complexity sample_walk sample_functions sample_edges Map.empty = Some (reports, depths)"
    using sample_costs by fastforce
  then have "map fst reports = [''f'', ''g'', ''h'']" using sample_costs by (auto simp: case_prod_beta)
  then obtain r where r: "map_of reports ''f'' = Some r" by (metis image_set list.set_intros(1) map_of_eq_None_iff not_Some_eq)
  then have "(''f'', r) \<in> set reports" by (rule map_of_SomeD)
  from reports_in_range [OF a this] a r show ?thesis by blast
qed

end
