(* ===== verification/Shadow.thy ===== *)
theory Shadow
  imports Workspace Impact Resolver
begin

text \<open>
  The guardrail for unsaved edits (\<open>crates/cognis-indexer/src/shadow.rs\<close>): the edited files are parsed in
  memory and laid over the symbols and edges of the index, complexity and change impact are evaluated on
  the overlay, and a verdict is given. The parser, the walk over a function's syntax tree, the orders of
  the hash tables and the time the call took are the fields of the argument \<open>env\<close>.
\<close>

subsection \<open>Edits and capsules\<close>

record file_edit =
  fe_path :: string
  fe_content :: string

record guardrail =
  gc_verdict :: string
  gc_latency_ms :: f64
  gc_generation :: string
  gc_summary :: string
  gc_reports :: "complexity_report list"
  gc_impact :: impact_report
  gc_advisories :: "advisory list"

type_synonym old_table = "((string \<times> string) \<times> symbol) list"

record shadow_env =
  se_parse :: "string \<Rightarrow> string \<Rightarrow> symbol list"
  se_analyze :: "symbol \<Rightarrow> string option \<Rightarrow> ast_summary"
  se_text :: text_env
  se_order :: hash_order
  se_reports :: "complexity_report list \<Rightarrow> complexity_report list"
  se_old :: "old_table \<Rightarrow> old_table"
  se_iter :: "(int \<times> f64) list \<Rightarrow> (int \<times> f64) list"
  se_show :: "f64 \<Rightarrow> string"
  se_latency :: f64

subsection \<open>Notation back to classes\<close>

definition parse_notation_to_class :: "string \<Rightarrow> complexity_class" where
  "parse_notation_to_class s =
     (if s = ''O(1)'' then Constant
      else if s = ''O(log n)'' then log_n
      else if s = ''O(sqrt(n))'' then sqrt_n
      else if s = ''O(n)'' then linear
      else if s = ''O(n log n)'' then n_log_n
      else if s = ''O(n^2)'' then quadratic
      else if s = ''O(n^3)'' then cubic
      else if s = ''O(n!)'' then Factorial
      else if str_contains s ''^n'' then Exponential 2
      else if starts_with s ''O(n^'' then Polynomial 4 0
      else Constant)"

subsection \<open>The overlay\<close>

text \<open>\<open>str::lines\<close>: a line ends with a newline, which may follow a carriage return.\<close>

definition strip_cr :: "string \<Rightarrow> string" where
  "strip_cr l = (if l \<noteq> [] \<and> last l = CHR 0x0D then butlast l else l)"

definition str_lines :: "string \<Rightarrow> string list" where
  "str_lines s =
     (let ps = split_at_char (CHR 0x0A) s
      in map strip_cr (butlast ps) @ (if last ps = [] then [] else [last ps]))"

text \<open>The lines of a symbol, counted from one.\<close>

definition function_source :: "string list \<Rightarrow> symbol \<Rightarrow> string option" where
  "function_source lines s =
     (let start = min (line_start s - 1) (length lines); stop = min (line_end s) (length lines)
      in if start < stop then Some (join [CHR 0x0A] (take (stop - start) (drop start lines))) else None)"

definition edited_paths :: "file_edit list \<Rightarrow> string set" where
  "edited_paths edits = fe_path ` set edits"

definition old_by_qname :: "symbol list \<Rightarrow> old_table" where
  "old_by_qname olds = fold (\<lambda>s. AList.update (file_path s, qualified_name s) s) olds []"

definition old_match :: "symbol list \<Rightarrow> string \<Rightarrow> string \<Rightarrow> string \<Rightarrow> symbol option" where
  "old_match olds p qname name =
     (case map_of (old_by_qname olds) (p, qname) of
        Some s \<Rightarrow> Some s
      | None \<Rightarrow> map_of (fold (\<lambda>s. AList.update (file_path s, sname s) s) olds []) (p, name))"

record overlay =
  ov_symbols :: "symbol list"
  ov_sources :: "string \<rightharpoonup> string"
  ov_touched :: "string list"

definition overlay_symbol :: "symbol list \<Rightarrow> string list \<Rightarrow> string \<Rightarrow> symbol \<Rightarrow> overlay \<Rightarrow> overlay" where
  "overlay_symbol olds lines p s o' =
     (let srcs = (case function_source lines s of Some t \<Rightarrow> (ov_sources o')(sid s \<mapsto> t) | None \<Rightarrow> ov_sources o');
          (i, srcs) =
            (case old_match olds p (qualified_name s) (sname s) of
               None \<Rightarrow> (sid s, srcs)
             | Some old \<Rightarrow>
                 (sid old, case srcs (sid s) of Some t \<Rightarrow> (srcs(sid s := None))(sid old \<mapsto> t) | None \<Rightarrow> srcs))
      in \<lparr>ov_symbols = ov_symbols o' @ [s\<lparr>sid := i\<rparr>], ov_sources = srcs, ov_touched = ov_touched o' @ [i]\<rparr>)"

definition overlay_edit :: "shadow_env \<Rightarrow> symbol list \<Rightarrow> file_edit \<Rightarrow> overlay \<Rightarrow> overlay" where
  "overlay_edit env olds e =
     fold (overlay_symbol olds (str_lines (fe_content e)) (fe_path e)) (se_parse env (fe_path e) (fe_content e))"

definition overlay_of :: "shadow_env \<Rightarrow> symbol list \<Rightarrow> file_edit list \<Rightarrow> overlay" where
  "overlay_of env base edits =
     fold (overlay_edit env (filter (\<lambda>s. file_path s \<in> edited_paths edits) base)) edits
       \<lparr>ov_symbols = filter (\<lambda>s. file_path s \<notin> edited_paths edits) base, ov_sources = Map.empty, ov_touched = []\<rparr>"

text \<open>Whether the source of an edge is edited, by the first symbol with its id.\<close>

definition edited_source :: "string set \<Rightarrow> symbol list \<Rightarrow> edge \<Rightarrow> bool" where
  "edited_source paths ss e =
     (case find (\<lambda>s. sid s = src_id e) ss of None \<Rightarrow> False | Some s \<Rightarrow> file_path s \<in> paths)"

definition overlay_edges ::
  "shadow_env \<Rightarrow> symbol list \<Rightarrow> edge list \<Rightarrow> file_edit list \<Rightarrow> symbol list \<Rightarrow> edge list" where
  "overlay_edges env base es edits ovs =
     (if edits = [] then es
      else filter (\<lambda>e. \<not> edited_source (edited_paths edits) base e) es
           @ filter (edited_source (edited_paths edits) ovs) (to_edges (resolve_edges (se_text env) (se_order env) ovs)))"

subsection \<open>Seeds\<close>

definition target_ids :: "symbol list \<Rightarrow> string list \<Rightarrow> string list" where
  "target_ids ovs queries =
     concat (map (\<lambda>q. map sid (filter (\<lambda>s. trim q \<in> {sid s, qualified_name s, sname s, file_path s}) ovs)) queries)"

definition hotspots :: "shadow_env \<Rightarrow> (string \<times> complexity_report) list \<Rightarrow> string list" where
  "hotspots env reports = take 5 (map rp_symbol (sort_key (\<lambda>r. - rp_risk r) (se_reports env (map snd reports))))"

definition touched_ids ::
  "shadow_env \<Rightarrow> overlay \<Rightarrow> (string \<times> complexity_report) list \<Rightarrow> string list \<Rightarrow> string list" where
  "touched_ids env o' reports queries =
     (let ids = (if ov_touched o' = [] then target_ids (ov_symbols o') queries else ov_touched o')
      in if ids = [] then hotspots env reports else ids)"

definition symbols_by_id :: "symbol list \<Rightarrow> string \<rightharpoonup> symbol" where
  "symbols_by_id ss = map_of (rev (map (\<lambda>s. (sid s, s)) ss))"

definition opt_text :: "string option \<Rightarrow> string" where
  "opt_text t = (case t of Some x \<Rightarrow> x | None \<Rightarrow> [])"

text \<open>The severity and the reason of a changed signature.\<close>

definition contract_change :: "symbol list \<Rightarrow> symbol \<Rightarrow> f64 \<times> string option" where
  "contract_change olds s =
     (case old_match olds (file_path s) (qualified_name s) (sname s) of
        None \<Rightarrow> (0, None)
      | Some old \<Rightarrow>
          if \<not> str_contains (opt_text (signature old)) ''(...'' \<and> signature old \<noteq> signature s
          then (85/100, Some (''Signature changed from `'' @ opt_text (signature old) @ ''` to `''
                  @ opt_text (signature s) @ ''`''))
          else (0, None))"

definition touched_seed ::
  "symbol list \<Rightarrow> (string \<rightharpoonup> symbol) \<Rightarrow> (string \<rightharpoonup> complexity_report) \<Rightarrow> (string \<rightharpoonup> complexity_report) \<Rightarrow> string
   \<Rightarrow> (bool \<times> impact_seed) option" where
  "touched_seed olds syms base reports i =
     (case reports i of
        None \<Rightarrow> None
      | Some r \<Rightarrow>
          let new_cplx = parse_notation_to_class (rp_time r);
              old_cplx = (case base i of Some b \<Rightarrow> parse_notation_to_class (rp_time b) | None \<Rightarrow> new_cplx);
              (sev, why) = (case syms i of Some s \<Rightarrow> contract_change olds s | None \<Rightarrow> (0, None))
          in Some (effective_degree old_cplx < effective_degree new_cplx,
                   \<lparr>seed_id = i, contract_severity = sev, contract_reason = why,
                    old_complexity = old_cplx, new_complexity = new_cplx\<rparr>))"

definition deleted_seeds :: "symbol list \<Rightarrow> old_table \<Rightarrow> impact_seed list" where
  "deleted_seeds ovs table =
     List.map_filter
       (\<lambda>((p, qname), old).
          if list_ex (\<lambda>s. sid s = sid old \<or> file_path s = p \<and> (qualified_name s = qname \<or> sname s = sname old)) ovs
          then None
          else Some (signature_edit (sid old) 1
                       (''Symbol `'' @ qname @ ''` was deleted or renamed in `'' @ p @ ''`'') Constant Constant))
       table"

subsection \<open>The capsule\<close>

definition focused :: "(string \<rightharpoonup> complexity_report) \<Rightarrow> string list \<Rightarrow> complexity_report list" where
  "focused reports ids = List.map_filter reports (dedup_from [] ids)"

definition verdict_of :: "impact_report \<Rightarrow> nat \<Rightarrow> advisory list \<Rightarrow> string" where
  "verdict_of r regressions advisories =
     (if breaking_call_sites r \<noteq> [] then ''WARN_CONTRACT_BREAKAGE''
      else if 0 < regressions \<or> complexity_amplifications r \<noteq> [] then ''WARN_COMPLEXITY_REGRESSION''
      else if list_ex (\<lambda>a. ad_severity a = ''critical'' \<or> ad_severity a = ''high'') advisories
      then ''WARN_OPTIMIZATION_NEEDED''
      else ''OK_OPTIMAL'')"

definition summary_of :: "string \<Rightarrow> complexity_report list \<Rightarrow> impact_report \<Rightarrow> nat \<Rightarrow> f64 \<Rightarrow> string" where
  "summary_of verdict reports r n latency =
     ''**Verdict: `'' @ verdict @ ''`** | Top Complexity: ''
     @ (case reports of x # _ \<Rightarrow> ''`'' @ rp_qualified x @ ''` ('' @ rp_time x @ '')'' | [] \<Rightarrow> ''none'')
     @ '' | Impact: **'' @ to_ascii_uppercase (impact_level r) @ ''** (score '' @ fmt_fixed 2 (composite_risk_score r)
     @ '', '' @ show_nat (reached_symbol_count r) @ '' upstream dependents, '' @ show_nat n
     @ '' advisories) | Latency: '' @ fmt_fixed 2 latency @ ''ms''"

definition shadow_capsule ::
  "shadow_env \<Rightarrow> string \<Rightarrow> (string \<rightharpoonup> complexity_report) \<Rightarrow> string list \<Rightarrow> nat \<Rightarrow> impact_report \<Rightarrow> guardrail" where
  "shadow_capsule env label reports ids regressions r =
     (let found = focused reports ids;
          advisories = concat (map rp_advisories found);
          sorted_reports = sort_key (\<lambda>r. - rp_risk r) found;
          verdict = verdict_of r regressions advisories
      in \<lparr>gc_verdict = verdict, gc_latency_ms = se_latency env, gc_generation = label,
          gc_summary = summary_of verdict sorted_reports r (length advisories) (se_latency env),
          gc_reports = sorted_reports, gc_impact = r, gc_advisories = advisories\<rparr>)"

definition shadow_seeds ::
  "shadow_env \<Rightarrow> symbol list \<Rightarrow> symbol list \<Rightarrow> (string \<rightharpoonup> complexity_report) \<Rightarrow> (string \<rightharpoonup> complexity_report)
   \<Rightarrow> string list \<Rightarrow> nat \<times> impact_seed list" where
  "shadow_seeds env olds ovs base reports ids =
     (let rs = List.map_filter (touched_seed olds (symbols_by_id ovs) base reports) ids
      in (length (filter fst rs), map snd rs @ deleted_seeds ovs (se_old env (old_by_qname olds))))"

text \<open>\<open>None\<close> would be a run that does not end; a failed impact analysis is replaced by an empty one.\<close>

definition analyze_shadow_patch ::
  "shadow_env \<Rightarrow> symbol list \<Rightarrow> edge list \<Rightarrow> file_edit list \<Rightarrow> string list \<Rightarrow> string \<Rightarrow> guardrail option" where
  "analyze_shadow_patch env base es edits queries label =
     (case analyze_workspace_complexity (se_analyze env) base es Map.empty of
        None \<Rightarrow> None
      | Some (base_reports, _) \<Rightarrow>
          let olds = filter (\<lambda>s. file_path s \<in> edited_paths edits) base;
              o' = overlay_of env base edits;
              ovs = ov_symbols o';
              oes = overlay_edges env base es edits ovs
          in case analyze_workspace_complexity (se_analyze env) ovs oes (ov_sources o') of
               None \<Rightarrow> None
             | Some (reports, depths) \<Rightarrow>
                 let ids = touched_ids env o' reports queries;
                     (regressions, seeds) = shadow_seeds env olds ovs (map_of base_reports) (map_of reports) ids
                 in case evaluate_change_impact (se_show env) (se_iter env) (impact_graph_build (map sid ovs) oes depths)
                           (symbols_by_id ovs) seeds depths of
                      None \<Rightarrow> None
                    | Some (Inl _) \<Rightarrow> Some (shadow_capsule env label (map_of reports) ids regressions empty_report)
                    | Some (Inr r) \<Rightarrow> Some (shadow_capsule env label (map_of reports) ids regressions r))"


subsection \<open>Verdicts\<close>

lemma wf_impact_build:
  assumes "length ids + 2 * length es < 2 ^ 31"
  shows "wf_graph (reverse_structural (impact_graph_build ids es depths))"
    and "wf_graph (reverse_complexity (impact_graph_build ids es depths))"
proof -
  have fits: "length ids + 2 * length (projected ix f es) < 2 ^ 31" for ix f
    using length_projected [of ix f es] assms by simp
  show "wf_graph (reverse_structural (impact_graph_build ids es depths))"
    "wf_graph (reverse_complexity (impact_graph_build ids es depths))"
    unfolding impact_graph_build_def fold_project_edge by (simp_all add: wf_from_weighted_triples [OF fits])
qed

lemma in_map_filter: "y \<in> set (List.map_filter f xs) \<longleftrightarrow> (\<exists>x \<in> set xs. f x = Some y)"
  by (force simp: List.map_filter_def image_iff)

lemma contract_change_severity: "fst (contract_change olds s) \<in> {0, 85/100}"
  by (simp add: contract_change_def split: option.split)

lemma touched_seedD:
  assumes "touched_seed olds syms base reports i = Some (b, s)"
  shows "seed_id s = i \<and> (contract_severity s = 0 \<or> (\<exists>x. syms i = Some x \<and> contract_severity s = fst (contract_change olds x)))"
  using assms by (auto simp: touched_seed_def Let_def split: option.splits prod.splits)

lemma deleted_seedD:
  assumes "s \<in> set (deleted_seeds ovs table)"
  shows "contract_severity s = 1 \<and> (\<exists>(k, old) \<in> set table. seed_id s = sid old \<and> (\<forall>x \<in> set ovs. sid x \<noteq> sid old))"
proof -
  obtain p q old where "((p, q), old) \<in> set table" "\<forall>x \<in> set ovs. sid x \<noteq> sid old"
    "s = signature_edit (sid old) 1 (''Symbol `'' @ q @ ''` was deleted or renamed in `'' @ p @ ''`'') Constant Constant"
    using assms by (auto simp: deleted_seeds_def in_map_filter list_ex_iff split: if_splits)
  then show ?thesis by (auto simp: signature_edit_def clamp_def)
qed

lemma shadow_seedsD:
  assumes "s \<in> set (snd (shadow_seeds env olds ovs base reports ids))"
  shows "(\<exists>i \<in> set ids. \<exists>b. touched_seed olds (symbols_by_id ovs) base reports i = Some (b, s))
    \<or> s \<in> set (deleted_seeds ovs (se_old env (old_by_qname olds)))"
  using assms by (fastforce simp: shadow_seeds_def Let_def in_map_filter)

lemma shadow_seeds_nonneg:
  assumes "s \<in> set (snd (shadow_seeds env olds ovs base reports ids))"
  shows "0 \<le> contract_severity s"
proof -
  have "0 \<le> fst (contract_change olds x)" for x
    using contract_change_severity [of olds x] by auto
  then show ?thesis
    using shadow_seedsD [OF assms] by (auto dest!: touched_seedD deleted_seedD)
qed

text \<open>The stages of an analysis; it always returns when the overlay's graph fits the row pointers.\<close>

lemma shadow_stages:
  assumes "length (ov_symbols (overlay_of env base edits))
    + 2 * length (overlay_edges env base es edits (ov_symbols (overlay_of env base edits))) < 2 ^ 31"
  shows "\<exists>base_reports base_depths reports depths ids n seeds r.
    analyze_workspace_complexity (se_analyze env) base es Map.empty = Some (base_reports, base_depths)
    \<and> analyze_workspace_complexity (se_analyze env) (ov_symbols (overlay_of env base edits))
        (overlay_edges env base es edits (ov_symbols (overlay_of env base edits))) (ov_sources (overlay_of env base edits))
      = Some (reports, depths)
    \<and> ids = touched_ids env (overlay_of env base edits) reports queries
    \<and> (n, seeds) = shadow_seeds env (filter (\<lambda>s. file_path s \<in> edited_paths edits) base)
         (ov_symbols (overlay_of env base edits)) (map_of base_reports) (map_of reports) ids
    \<and> evaluate_change_impact (se_show env) (se_iter env)
        (impact_graph_build (map sid (ov_symbols (overlay_of env base edits)))
          (overlay_edges env base es edits (ov_symbols (overlay_of env base edits))) depths)
        (symbols_by_id (ov_symbols (overlay_of env base edits))) seeds depths = Some (Inr r)
    \<and> in_unit (composite_risk_score r)
    \<and> analyze_shadow_patch env base es edits queries label = Some (shadow_capsule env label (map_of reports) ids n r)"
proof -
  let ?o = "overlay_of env base edits" and ?olds = "filter (\<lambda>s. file_path s \<in> edited_paths edits) base"
  let ?ovs = "ov_symbols ?o"
  let ?es = "overlay_edges env base es edits ?ovs"
  obtain base_reports base_depths where b: "analyze_workspace_complexity (se_analyze env) base es Map.empty = Some (base_reports, base_depths)"
    using analysis_returns by blast
  obtain reports depths where a: "analyze_workspace_complexity (se_analyze env) ?ovs ?es (ov_sources ?o) = Some (reports, depths)"
    using analysis_returns by blast
  let ?ids = "touched_ids env ?o reports queries"
  obtain n seeds where s: "shadow_seeds env ?olds ?ovs (map_of base_reports) (map_of reports) ?ids = (n, seeds)" by fastforce
  have "length (map sid ?ovs) + 2 * length ?es < 2 ^ 31" using assms by simp
  note wf = wf_impact_build [OF this, of depths]
  have "\<forall>x \<in> set seeds. 0 \<le> contract_severity x"
    using shadow_seeds_nonneg [of _ env ?olds ?ovs "map_of base_reports" "map_of reports" ?ids] by (simp add: s)
  from impact_report_bounds [OF wf this, of "se_show env" "se_iter env" "symbols_by_id ?ovs" depths]
  obtain r where r: "evaluate_change_impact (se_show env) (se_iter env) (impact_graph_build (map sid ?ovs) ?es depths)
      (symbols_by_id ?ovs) seeds depths = Some (Inr r)" "in_unit (composite_risk_score r)" by blast
  have "analyze_shadow_patch env base es edits queries label = Some (shadow_capsule env label (map_of reports) ?ids n r)"
    by (simp add: analyze_shadow_patch_def Let_def b a s r)
  with a b s r show ?thesis by metis
qed

lemma focused_reports:
  assumes "analyze_workspace_complexity f ss es srcs = Some (reports, depths)"
  shows "distinct (map rp_symbol (focused (map_of reports) ids))"
proof -
  have sym: "rp_symbol r = i" if "map_of reports i = Some r" for i r
    using report_entries [OF assms] map_of_SomeD [OF that] by metis
  have "map rp_symbol (List.map_filter (map_of reports) xs) = filter (\<lambda>i. map_of reports i \<noteq> None) xs" for xs
    by (induction xs) (auto simp: List.map_filter_simps sym split: option.split)
  then show ?thesis by (simp add: focused_def distinct_dedup_from)
qed

text \<open>
  C14: The guardrail always answers (as long as the overlay fits the graph's 32-bit rows), its score lies between 0
  and 1, its reports are listed once each by falling risk, and it says OK only if no call site breaks, no caller
  amplifies a cost, and no reported function has an advisory of high severity.
\<close>

theorem shadow_patch_guards:
  assumes "length (ov_symbols (overlay_of env base edits))
    + 2 * length (overlay_edges env base es edits (ov_symbols (overlay_of env base edits))) < 2 ^ 31"
  shows "\<exists>c. analyze_shadow_patch env base es edits queries label = Some c
    \<and> in_unit (composite_risk_score (gc_impact c))
    \<and> sorted (map (\<lambda>r. - rp_risk r) (gc_reports c)) \<and> distinct (map rp_symbol (gc_reports c))
    \<and> (gc_verdict c = ''OK_OPTIMAL'' \<longleftrightarrow> gc_verdict c \<notin> {''WARN_CONTRACT_BREAKAGE'', ''WARN_COMPLEXITY_REGRESSION'', ''WARN_OPTIMIZATION_NEEDED''})
    \<and> (gc_verdict c = ''OK_OPTIMAL'' \<longrightarrow>
         breaking_call_sites (gc_impact c) = [] \<and> complexity_amplifications (gc_impact c) = []
         \<and> (\<forall>r \<in> set (gc_reports c). \<forall>a \<in> set (rp_advisories r). ad_severity a \<notin> {''critical'', ''high''}))"
proof -
  obtain reports depths ids n r where a: "analyze_workspace_complexity (se_analyze env) (ov_symbols (overlay_of env base edits))
        (overlay_edges env base es edits (ov_symbols (overlay_of env base edits))) (ov_sources (overlay_of env base edits))
      = Some (reports, depths)"
    and c: "analyze_shadow_patch env base es edits queries label = Some (shadow_capsule env label (map_of reports) ids n r)"
    and u: "in_unit (composite_risk_score r)"
    using shadow_stages [OF assms, of queries label] by metis
  have "distinct (map rp_symbol (sort_key (\<lambda>r. - rp_risk r) (focused (map_of reports) ids)))"
    using focused_reports [OF a, of ids] by (simp add: distinct_map)
  moreover have "verdict_of r n advs = ''OK_OPTIMAL'' \<longleftrightarrow> breaking_call_sites r = [] \<and> n = 0 \<and> complexity_amplifications r = []
      \<and> (\<forall>a \<in> set advs. ad_severity a \<notin> {''critical'', ''high''})" for advs
    by (auto simp: verdict_of_def list_ex_iff)
  moreover have "verdict_of r n advs \<in> {''OK_OPTIMAL'', ''WARN_CONTRACT_BREAKAGE'', ''WARN_COMPLEXITY_REGRESSION'', ''WARN_OPTIMIZATION_NEEDED''}" for advs
    by (simp add: verdict_of_def)
  ultimately show ?thesis using u by (fastforce simp: c shadow_capsule_def Let_def)
qed


subsection \<open>Unchanged buffers\<close>

text \<open>What the overlay makes of a parsed symbol.\<close>

definition renamed :: "symbol list \<Rightarrow> string \<Rightarrow> symbol \<Rightarrow> symbol" where
  "renamed olds p s =
     s\<lparr>sid := (case old_match olds p (qualified_name s) (sname s) of None \<Rightarrow> sid s | Some old \<Rightarrow> sid old)\<rparr>"

lemma overlay_symbol_fields:
  "ov_symbols (overlay_symbol olds lines p s o') = ov_symbols o' @ [renamed olds p s]"
  "ov_touched (overlay_symbol olds lines p s o') = ov_touched o' @ [sid (renamed olds p s)]"
  by (simp_all add: overlay_symbol_def renamed_def Let_def split: option.split)

lemma overlay_edit_fields:
  "ov_symbols (overlay_edit env olds e o') = ov_symbols o' @ map (renamed olds (fe_path e)) (se_parse env (fe_path e) (fe_content e))"
  "ov_touched (overlay_edit env olds e o')
     = ov_touched o' @ map (sid \<circ> renamed olds (fe_path e)) (se_parse env (fe_path e) (fe_content e))"
proof -
  have "ov_symbols (fold (overlay_symbol olds ls p) ss o') = ov_symbols o' @ map (renamed olds p) ss
      \<and> ov_touched (fold (overlay_symbol olds ls p) ss o') = ov_touched o' @ map (sid \<circ> renamed olds p) ss" for ls p ss
    by (induction ss arbitrary: o') (simp_all add: overlay_symbol_fields)
  then show "ov_symbols (overlay_edit env olds e o') = ov_symbols o' @ map (renamed olds (fe_path e)) (se_parse env (fe_path e) (fe_content e))"
    "ov_touched (overlay_edit env olds e o')
       = ov_touched o' @ map (sid \<circ> renamed olds (fe_path e)) (se_parse env (fe_path e) (fe_content e))"
    by (simp_all add: overlay_edit_def)
qed

lemma overlay_symbols:
  "ov_symbols (overlay_of env base edits) = filter (\<lambda>s. file_path s \<notin> edited_paths edits) base
     @ concat (map (\<lambda>e. map (renamed (filter (\<lambda>s. file_path s \<in> edited_paths edits) base) (fe_path e))
                          (se_parse env (fe_path e) (fe_content e))) edits)"
proof -
  have "ov_symbols (fold (overlay_edit env olds) es o') = ov_symbols o'
      @ concat (map (\<lambda>e. map (renamed olds (fe_path e)) (se_parse env (fe_path e) (fe_content e))) es)" for olds es o'
    by (induction es arbitrary: o') (simp_all add: overlay_edit_fields)
  then show ?thesis by (simp add: overlay_of_def)
qed

lemma map_of_fold_update:
  "map_of (fold (\<lambda>s. AList.update (f s) s) xs m) k = (case find (\<lambda>s. f s = k) (rev xs) of Some s \<Rightarrow> Some s | None \<Rightarrow> map_of m k)"
  by (induction xs rule: rev_induct) (auto simp: update_conv' split: option.splits)

lemma set_update_subset: "set (AList.update k v m) \<subseteq> insert (k, v) (set m)"
  by (induction m) auto

lemma set_fold_update: "set (fold (\<lambda>s. AList.update (f s) s) xs []) \<subseteq> (\<lambda>s. (f s, s)) ` set xs"
proof (induction xs rule: rev_induct)
  case (snoc x xs)
  then show ?case using set_update_subset [of "f x" x "fold (\<lambda>s. AList.update (f s) s) xs []"] by auto
qed simp

lemma find_unique: "distinct (map f xs) \<Longrightarrow> x \<in> set xs \<Longrightarrow> find (\<lambda>s. f s = f x) xs = Some x"
  by (induction xs) auto

lemma old_match_self:
  assumes "distinct (map (\<lambda>s. (file_path s, qualified_name s)) olds)" "s \<in> set olds"
  shows "old_match olds (file_path s) (qualified_name s) n = Some s"
  using find_unique [of "\<lambda>s. (file_path s, qualified_name s)" "rev olds" s] assms
  by (simp add: old_match_def old_by_qname_def map_of_fold_update rev_map [symmetric])

lemma old_match_elsewhere:
  assumes "\<forall>s \<in> set olds. file_path s \<noteq> p"
  shows "old_match olds p q n = None"
proof -
  have "find (\<lambda>s. (file_path s, f s) = (p, x)) (rev olds) = None" for f :: "symbol \<Rightarrow> string" and x
    using assms by (auto simp: find_None_iff)
  then show ?thesis by (simp add: old_match_def old_by_qname_def map_of_fold_update)
qed

lemma no_breakage:
  assumes "evaluate_change_impact show_f64 iter ig symbols seeds depths = Some (Inr r)" "\<forall>s \<in> set seeds. contract_severity s = 0"
  shows "breaking_call_sites r = []"
proof -
  have "fold (breakage_seed g ids symbols) seeds st = st" for g ids st
    using assms(2) by (induction seeds) (simp_all add: breakage_seed_def)
  then show ?thesis
    using assms(1)
    by (auto simp: evaluate_change_impact_def impact_report_of_def empty_report_def Let_def case_prod_beta
        split: if_splits option.splits sum.splits)
qed

lemma kept_declarations:
  assumes parse: "\<And>e s. e \<in> set edits \<Longrightarrow> s \<in> set (se_parse env (fe_path e) (fe_content e)) \<Longrightarrow>
      file_path s = fe_path e \<and> (\<exists>old \<in> set base. file_path old = fe_path e
        \<and> qualified_name old = qualified_name s \<and> signature old = signature s)"
    and uniq: "distinct (map (\<lambda>s. (file_path s, qualified_name s)) (filter (\<lambda>s. file_path s \<in> edited_paths edits) base))"
    and x: "x \<in> set (ov_symbols (overlay_of env base edits))"
  shows "fst (contract_change (filter (\<lambda>s. file_path s \<in> edited_paths edits) base) x) = 0"
proof -
  let ?olds = "filter (\<lambda>s. file_path s \<in> edited_paths edits) base"
  consider "file_path x \<notin> edited_paths edits"
    | e s where "e \<in> set edits" "s \<in> set (se_parse env (fe_path e) (fe_content e))" "x = renamed ?olds (fe_path e) s"
    using x by (auto simp: overlay_symbols)
  then show ?thesis
  proof cases
    case 1
    then have "\<forall>s \<in> set ?olds. file_path s \<noteq> file_path x" by auto
    then show ?thesis by (simp add: contract_change_def old_match_elsewhere)
  next
    case (2 e s)
    obtain old where old: "old \<in> set base" "file_path old = fe_path e" "file_path s = fe_path e"
      "qualified_name old = qualified_name s" "signature old = signature s" using parse [OF 2(1,2)] by blast
    then have "old \<in> set ?olds" using 2(1) by (simp add: edited_paths_def)
    note self = old_match_self [OF uniq this]
    have same: "file_path x = file_path old" "qualified_name x = qualified_name old" "signature x = signature old"
      using old 2(3) by (simp_all add: renamed_def)
    show ?thesis unfolding contract_change_def same self by simp
  qed
qed

lemma kept_none_deleted:
  assumes parse: "\<And>e old. e \<in> set edits \<Longrightarrow> old \<in> set base \<Longrightarrow> file_path old = fe_path e \<Longrightarrow>
      \<exists>s \<in> set (se_parse env (fe_path e) (fe_content e)). qualified_name s = qualified_name old"
    and uniq: "distinct (map (\<lambda>s. (file_path s, qualified_name s)) (filter (\<lambda>s. file_path s \<in> edited_paths edits) base))"
    and order: "\<And>t. set (se_old env t) \<subseteq> set t"
  shows "deleted_seeds (ov_symbols (overlay_of env base edits))
      (se_old env (old_by_qname (filter (\<lambda>s. file_path s \<in> edited_paths edits) base))) = []"
proof -
  let ?olds = "filter (\<lambda>s. file_path s \<in> edited_paths edits) base" and ?ovs = "ov_symbols (overlay_of env base edits)"
  have kept: "\<exists>x \<in> set ?ovs. sid x = sid old" if "old \<in> set ?olds" for old
  proof -
    from that obtain e where e: "old \<in> set base" "e \<in> set edits" "file_path old = fe_path e" by (auto simp: edited_paths_def)
    obtain s where s: "s \<in> set (se_parse env (fe_path e) (fe_content e))" "qualified_name s = qualified_name old"
      using parse [OF e(2,1,3)] by blast
    have "sid (renamed ?olds (fe_path e) s) = sid old"
      using old_match_self [OF uniq that] by (simp add: renamed_def s(2) e(3) [symmetric])
    moreover have "renamed ?olds (fe_path e) s \<in> set ?ovs" using e(2) s(1) by (auto simp: overlay_symbols)
    ultimately show ?thesis by blast
  qed
  have "s \<notin> set (deleted_seeds ?ovs (se_old env (old_by_qname ?olds)))" for s
  proof
    assume "s \<in> set (deleted_seeds ?ovs (se_old env (old_by_qname ?olds)))"
    from deleted_seedD [OF this] obtain k old where d: "(k, old) \<in> set (se_old env (old_by_qname ?olds))"
      "\<forall>x \<in> set ?ovs. sid x \<noteq> sid old" by blast
    then have "(k, old) \<in> set (old_by_qname ?olds)" using order by blast
    then have "old \<in> set ?olds"
      using set_fold_update [of "\<lambda>s. (file_path s, qualified_name s)" ?olds] unfolding old_by_qname_def by blast
    with kept d(2) show False by blast
  qed
  then show ?thesis by (metis last_in_set)
qed

text \<open>
  C29: Edits that keep the declarations of their files break no call site, whatever they do to bodies, lines and the
  order of the symbols, and wherever the other symbols of the workspace are: when each edited file parses to symbols
  whose qualified names and signatures the index has for that file, and leaves none of the indexed ones out, then no
  call site is reported as broken and the verdict is not that of a breakage. This asks that no two indexed
  symbols of an edited file share their qualified name; overloads that do are misreported
  (\<open>overload_misfires\<close>).
\<close>

theorem unchanged_buffers_break_nothing:
  assumes "analyze_shadow_patch env base es edits queries label = Some c"
    and "\<And>e s. e \<in> set edits \<Longrightarrow> s \<in> set (se_parse env (fe_path e) (fe_content e)) \<Longrightarrow>
      file_path s = fe_path e \<and> (\<exists>old \<in> set base. file_path old = fe_path e
        \<and> qualified_name old = qualified_name s \<and> signature old = signature s)"
    and "\<And>e old. e \<in> set edits \<Longrightarrow> old \<in> set base \<Longrightarrow> file_path old = fe_path e \<Longrightarrow>
      \<exists>s \<in> set (se_parse env (fe_path e) (fe_content e)). qualified_name s = qualified_name old"
    and "distinct (map (\<lambda>s. (file_path s, qualified_name s)) (filter (\<lambda>s. file_path s \<in> edited_paths edits) base))"
    and "\<And>t. set (se_old env t) \<subseteq> set t"
  shows "breaking_call_sites (gc_impact c) = [] \<and> gc_verdict c \<noteq> ''WARN_CONTRACT_BREAKAGE''"
proof -
  let ?olds = "filter (\<lambda>s. file_path s \<in> edited_paths edits) base" and ?ovs = "ov_symbols (overlay_of env base edits)"
  have none_deleted: "deleted_seeds ?ovs (se_old env (old_by_qname ?olds)) = []"
  proof (rule kept_none_deleted)
    show "\<exists>s \<in> set (se_parse env (fe_path e) (fe_content e)). qualified_name s = qualified_name old"
      if "e \<in> set edits" "old \<in> set base" "file_path old = fe_path e" for e old using assms(3) that by blast
  qed (rule assms(4), rule assms(5))
  have quiet: "contract_severity s = 0" if s: "s \<in> set (snd (shadow_seeds env ?olds ?ovs b rs ids))" for s b rs ids
  proof -
    have "x \<in> set ?ovs" if "symbols_by_id ?ovs i = Some x" for i x
      using map_of_SomeD [OF that [unfolded symbols_by_id_def]] by auto
    moreover have "fst (contract_change ?olds x) = 0" if "x \<in> set ?ovs" for x
    proof (rule kept_declarations [OF _ assms(4) that])
      show "file_path s = fe_path e \<and> (\<exists>old \<in> set base. file_path old = fe_path e
          \<and> qualified_name old = qualified_name s \<and> signature old = signature s)"
        if "e \<in> set edits" "s \<in> set (se_parse env (fe_path e) (fe_content e))" for e s using assms(2) that by blast
    qed
    ultimately have "fst (contract_change ?olds x) = 0" if "symbols_by_id ?ovs i = Some x" for i x using that by blast
    then show ?thesis using shadow_seedsD [OF s] touched_seedD none_deleted by (metis empty_iff empty_set)
  qed
  have "verdict_of r n advs \<noteq> ''WARN_CONTRACT_BREAKAGE''" if "breaking_call_sites r = []" for r n advs
    using that by (simp add: verdict_of_def)
  moreover obtain reports ids n r where "c = shadow_capsule env label (map_of reports) ids n r" "breaking_call_sites r = []"
    using assms(1) no_breakage quiet
    unfolding analyze_shadow_patch_def Let_def case_prod_beta
    by (auto split: option.splits sum.splits simp: empty_report_def)
  ultimately show ?thesis by (simp add: shadow_capsule_def Let_def)
qed


text \<open>Three functions in three files, parsed as they are indexed.\<close>

definition sample_shadow :: shadow_env where
  "sample_shadow =
     \<lparr>se_parse = (\<lambda>p _. filter (\<lambda>s. file_path s = p) sample_functions), se_analyze = sample_walk, se_text = ascii_text,
      se_order = insertion_order, se_reports = id, se_old = id, se_iter = id, se_show = (\<lambda>_. []), se_latency = 3/2\<rparr>"

definition sample_edit :: file_edit where
  "sample_edit = \<lparr>fe_path = ''b.py'', fe_content = ''def g():''\<rparr>"

lemma sample_overlay:
  "length (ov_symbols (overlay_of sample_shadow sample_functions [sample_edit])) = 3"
  "length (overlay_edges sample_shadow sample_functions sample_edges [sample_edit]
     (ov_symbols (overlay_of sample_shadow sample_functions [sample_edit]))) = 1"
  by code_simp+

theorem shadow_patch_guards_witness:
  "\<exists>c. analyze_shadow_patch sample_shadow sample_functions sample_edges [sample_edit] [] ''1+shadow'' = Some c
     \<and> in_unit (composite_risk_score (gc_impact c)) \<and> distinct (map rp_symbol (gc_reports c))"
proof -
  have "length (ov_symbols (overlay_of sample_shadow sample_functions [sample_edit]))
    + 2 * length (overlay_edges sample_shadow sample_functions sample_edges [sample_edit]
        (ov_symbols (overlay_of sample_shadow sample_functions [sample_edit]))) < 2 ^ 31"
    by (simp add: sample_overlay)
  from shadow_patch_guards [OF this] show ?thesis by blast
qed

theorem unchanged_buffers_break_nothing_witness:
  "\<exists>c. analyze_shadow_patch sample_shadow sample_functions sample_edges [sample_edit] [] ''1+shadow'' = Some c
     \<and> breaking_call_sites (gc_impact c) = []"
proof -
  obtain c where c: "analyze_shadow_patch sample_shadow sample_functions sample_edges [sample_edit] [] ''1+shadow'' = Some c"
    using shadow_stages [of sample_shadow sample_functions "[sample_edit]" sample_edges "[]" "''1+shadow''"]
    by (auto simp: sample_overlay)
  have "breaking_call_sites (gc_impact c) = [] \<and> gc_verdict c \<noteq> ''WARN_CONTRACT_BREAKAGE''"
    by (rule unchanged_buffers_break_nothing [OF c])
      (auto simp: sample_shadow_def sample_edit_def sample_functions_def sample_function_def edited_paths_def)
  with c show ?thesis by blast
qed

subsection \<open>Where the guardrail misses and misfires\<close>

text \<open>
  A printed class is read back as itself exactly when it is one of ten; every other polynomial is read as a quartic,
  so that the step from \<open>n^2 log n\<close> to \<open>n^3\<close> is read as an improvement and not counted as a regression.
\<close>

theorem notation_read_back:
  "(parse_notation_to_class (notation_of c) = c \<longleftrightarrow>
     c \<in> {Constant, log_n, sqrt_n, linear, n_log_n, quadratic, cubic, Polynomial 4 0, Exponential 2, Factorial})
   \<and> effective_degree (Polynomial 2 1) < effective_degree cubic
   \<and> effective_degree (parse_notation_to_class (notation_of cubic))
       < effective_degree (parse_notation_to_class (notation_of (Polynomial 2 1)))"
proof -
  have read: "parse_notation_to_class s
      \<in> {Constant, log_n, sqrt_n, linear, n_log_n, quadratic, cubic, Polynomial 4 0, Exponential 2, Factorial}" for s
    by (simp add: parse_notation_to_class_def)
  have "parse_notation_to_class (notation_of c) = c"
    if "c \<in> {Constant, log_n, sqrt_n, linear, n_log_n, quadratic, cubic, Polynomial 4 0, Exponential 2, Factorial}"
    using that by (elim insertE emptyE) (hypsubst, code_simp)+
  moreover have "parse_notation_to_class (notation_of (Polynomial 2 1)) = Polynomial 4 0" "parse_notation_to_class (notation_of cubic) = cubic"
    by code_simp+
  ultimately show ?thesis using read [of "notation_of c"] by (auto simp: cubic_def)
qed


text \<open>
  A new method with the name of a method of another class of its file takes over that method's identity: here \<open>B.get\<close>
  is added beside \<open>A.get\<close>, both get the id of \<open>A.get\<close>, and the signature of \<open>A.get\<close>, which is unchanged, is reported
  as changed to the one of \<open>B.get\<close>.
\<close>

definition get_method :: "string \<Rightarrow> string \<Rightarrow> string \<Rightarrow> symbol" where
  "get_method i qname sig =
     (sample_function i ''m.py'')\<lparr>skind := Method, sname := ''get'', qualified_name := qname, signature := Some sig\<rparr>"

definition two_gets :: shadow_env where
  "two_gets = sample_shadow\<lparr>se_parse := (\<lambda>_ _. [get_method ''n1'' ''A.get'' ''get(self)'', get_method ''n2'' ''B.get'' ''get(self, key)''])\<rparr>"

theorem added_method_takes_identity:
  "let base = [get_method ''old'' ''A.get'' ''get(self)'']; edits = [\<lparr>fe_path = ''m.py'', fe_content = []\<rparr>];
       ovs = ov_symbols (overlay_of two_gets base edits)
   in map (\<lambda>s. (sid s, qualified_name s)) ovs = [(''old'', ''A.get''), (''old'', ''B.get'')]
    \<and> map_option (contract_change base) (symbols_by_id ovs ''old'')
        = Some (85/100, Some ''Signature changed from `get(self)` to `get(self, key)`'')"
  by code_simp


text \<open>
  Two overloads share their qualified name, and the table of old symbols keeps the one with the later id while the
  overlay keeps the one further down the file: a buffer equal to the indexed file is reported as changing a signature.
\<close>

definition two_overloads :: "symbol list" where
  "two_overloads = [get_method ''o1'' ''A.get'' ''get(String)'', get_method ''o2'' ''A.get'' ''get(int)'']"

theorem overload_misfires:
  "let env = sample_shadow\<lparr>se_parse := (\<lambda>_ _. rev two_overloads)\<rparr>; edits = [\<lparr>fe_path = ''m.py'', fe_content = []\<rparr>];
       ovs = ov_symbols (overlay_of env two_overloads edits)
   in map_option (contract_change two_overloads) (symbols_by_id ovs ''o2'')
        = Some (85/100, Some ''Signature changed from `get(int)` to `get(String)`'')"
  by code_simp

end
