(* ===== verification/Tools.thy ===== *)
theory Tools
  imports Store_Engine Shadow
begin

text \<open>
  The twelve tools of the MCP server (\<open>crates/cognis-mcp/src/tools.rs\<close>). A handler threads the engine's
  state and the call's context; an error ends it, and a panic (\<open>None\<close>) ends the process. The engine is any
  record of the interface \<open>retrieval_engine\<close>; reads of the pinned snapshot go to the snapshot of the call.
  The order in which a hash table is iterated, the walk over syntax trees and the parser are fields of \<open>te\<close>.
\<close>

subsection \<open>Handlers\<close>

type_synonym ('s, 'a) handler = "'s \<Rightarrow> tool_ctx \<Rightarrow> ((mcp_error + 'a) \<times> 's \<times> tool_ctx) option"

definition hret :: "'a \<Rightarrow> ('s, 'a) handler" where
  "hret x s ctx = Some (Inr x, s, ctx)"

definition hfail :: "mcp_error \<Rightarrow> ('s, 'a) handler" where
  "hfail e s ctx = Some (Inl e, s, ctx)"

definition hbind :: "('s, 'a) handler \<Rightarrow> ('a \<Rightarrow> ('s, 'b) handler) \<Rightarrow> ('s, 'b) handler" where
  "hbind m k s ctx =
     (case m s ctx of
        None \<Rightarrow> None
      | Some (Inl e, s, ctx) \<Rightarrow> Some (Inl e, s, ctx)
      | Some (Inr x, s, ctx) \<Rightarrow> k x s ctx)"

definition hsum :: "mcp_error + 'a \<Rightarrow> ('s, 'a) handler" where
  "hsum r s ctx = Some (r, s, ctx)"

text \<open>What the code unwraps, or what must return.\<close>

definition hopt :: "'a option \<Rightarrow> ('s, 'a) handler" where
  "hopt r s ctx = map_option (\<lambda>x. (Inr x, s, ctx)) r"

definition hget :: "('s \<Rightarrow> tool_ctx \<Rightarrow> 'a) \<Rightarrow> ('s, 'a) handler" where
  "hget f s ctx = Some (Inr (f s ctx), s, ctx)"

definition from_tool :: "'a tool \<Rightarrow> ('s, 'a) handler" where
  "from_tool t s ctx = (case t ctx of (r, ctx) \<Rightarrow> Some (r, s, ctx))"

definition note_included :: "bool \<Rightarrow> ('s, unit) handler" where
  "note_included b s ctx = Some (Inr (), s, if b then note_semantic_included ctx else ctx)"

definition engine_err :: "cognis_error \<Rightarrow> mcp_error" where
  "engine_err e = internal (''retrieval failed: '' @ show_error e)"

definition from_engine :: "('s, cognis_error + 'a) io \<Rightarrow> ('s, 'a) handler" where
  "from_engine m s ctx =
     (case m s of
        None \<Rightarrow> None
      | Some (Inl e, s) \<Rightarrow> Some (Inl (engine_err e), s, ctx)
      | Some (Inr x, s) \<Rightarrow> Some (Inr x, s, ctx))"

text \<open>\<open>if let Ok(x) = ...\<close>: an error is skipped.\<close>

definition if_ok :: "('s, cognis_error + 'a) io \<Rightarrow> ('s, 'a option) handler" where
  "if_ok m s ctx = (case m s of None \<Rightarrow> None | Some (r, s) \<Rightarrow> Some (Inr (case r of Inl _ \<Rightarrow> None | Inr x \<Rightarrow> Some x), s, ctx))"

text \<open>A stage runs if its gate lets it, and is skipped with its empty answer if the call is to be truncated.\<close>

definition staged :: "string \<Rightarrow> 'a \<Rightarrow> ('s, 'a) handler \<Rightarrow> ('s, 'a) handler" where
  "staged tool skipped m = hbind (from_tool (continue_stage tool)) (\<lambda>go. if go then m else hret skipped)"

fun hfold :: "('a \<Rightarrow> 'b \<Rightarrow> ('s, 'b) handler) \<Rightarrow> 'a list \<Rightarrow> 'b \<Rightarrow> ('s, 'b) handler" where
  "hfold f [] b = hret b"
| "hfold f (x # xs) b = hbind (f x b) (hfold f xs)"

text \<open>An argument clamped to its cap.\<close>

definition clamped :: "(caps \<Rightarrow> int \<Rightarrow> nat option) \<Rightarrow> int \<Rightarrow> ('s, nat) handler" where
  "clamped f x = hbind (hget (\<lambda>_ ctx. f (ccaps ctx) x)) hopt"

record tools_env =
  te_shadow :: shadow_env
  te_symbols :: "symbol list \<Rightarrow> symbol list"
  te_ids :: "string list \<Rightarrow> string list"
  te_lowercase :: "string \<Rightarrow> string"

definition CSAR_ALPHA :: f64 where "CSAR_ALPHA = 15/100"
definition CSAR_EPS :: f64 where "CSAR_EPS = 1/100000"
definition CSAR_SEED_K :: nat where "CSAR_SEED_K = 25"
definition DEFAULT_K :: int where "DEFAULT_K = 10"
definition ANALYSIS_SUBGRAPH_CAP :: nat where "ANALYSIS_SUBGRAPH_CAP = 96"

subsection \<open>Arguments and records\<close>

definition arg_str :: "json \<Rightarrow> string \<Rightarrow> string option" where
  "arg_str args key = Option.bind (jget args key) as_str"

definition arg_i64 :: "json \<Rightarrow> string \<Rightarrow> int option" where
  "arg_i64 args key = Option.bind (jget args key) as_i64"

definition or_default :: "'a option \<Rightarrow> 'a \<Rightarrow> 'a" where
  "or_default x d = (case x of Some y \<Rightarrow> y | None \<Rightarrow> d)"

definition or_else :: "'a option \<Rightarrow> 'a option \<Rightarrow> 'a option" where
  "or_else x y = (case x of Some v \<Rightarrow> Some v | None \<Rightarrow> y)"

definition arg_strings :: "json \<Rightarrow> string \<Rightarrow> string list option" where
  "arg_strings args key = map_option (List.map_filter as_str) (Option.bind (jget args key) as_array)"

definition require_str :: "json \<Rightarrow> string \<Rightarrow> mcp_error + string" where
  "require_str args key =
     (case arg_str args key of
        Some s \<Rightarrow> if trim s \<noteq> [] then Inr s
                   else Inl (invalid_argument ([CHR 0x27] @ key @ [CHR 0x27] @ '' is required and must be a non-empty string''))
      | None \<Rightarrow> Inl (invalid_argument ([CHR 0x27] @ key @ [CHR 0x27] @ '' is required and must be a non-empty string'')))"

definition symbol_to_dict :: "symbol \<Rightarrow> json" where
  "symbol_to_dict s = JObj
     [(''id'', JStr (sid s)), (''kind'', JStr (kind_json (skind s))), (''name'', JStr (sname s)),
      (''qualified_name'', JStr (qualified_name s)), (''language'', JStr (language s)), (''module'', JStr (smodule s)),
      (''file_path'', JStr (file_path s)), (''line_start'', JInt (int (line_start s))), (''line_end'', JInt (int (line_end s))),
      (''signature'', opt_str (signature s)), (''docstring'', opt_str (docstring s)),
      (''content_hash'', JStr (content_hash s)), (''body_excerpt'', opt_str (body_excerpt s)),
      (''risk_score'', JFloat (risk_score s))]"

definition search_hit :: "symbol \<Rightarrow> f64 \<Rightarrow> string \<Rightarrow> json" where
  "search_hit s sc because = JObj
     [(''symbol_id'', JStr (sid s)), (''id'', JStr (sid s)), (''name'', JStr (sname s)),
      (''qualified_name'', JStr (qualified_name s)), (''kind'', JStr (kind_json (skind s))),
      (''file_path'', JStr (file_path s)), (''line_start'', JInt (int (line_start s))), (''line_end'', JInt (int (line_end s))),
      (''score'', JFloat sc), (''match_reason'', JStr because), (''snippet'', opt_str (body_excerpt s)),
      (''body_excerpt'', opt_str (body_excerpt s))]"

text \<open>The hydrated symbols by id: a hash map, here its entries.\<close>

type_synonym hydrated = "(string \<times> symbol) list"

definition hydrate_map :: "'s retrieval_engine \<Rightarrow> string list \<Rightarrow> ('s, hydrated) handler" where
  "hydrate_map E ids =
     hbind (from_engine (en_hydrate E ids)) (\<lambda>ss. hret (fold (\<lambda>s. AList.update (sid s) s) ss []))"

definition hit_ids :: "hit list list \<Rightarrow> string list" where
  "hit_ids layers = dedup_from [] (map symbol_id (concat layers))"

text \<open>The hits whose symbol was hydrated, in their order.\<close>

definition hydrated_hits :: "hydrated \<Rightarrow> hit list \<Rightarrow> (hit \<times> symbol) list" where
  "hydrated_hits by_id hits = List.map_filter (\<lambda>h. map_option (Pair h) (map_of by_id (symbol_id h))) hits"

subsection \<open>Search tools\<close>

definition symbol_search :: "'s retrieval_engine \<Rightarrow> json \<Rightarrow> ('s, json) handler" where
  "symbol_search E args =
     hbind (hsum (require_str args ''query'')) (\<lambda>query.
     hbind (clamped clamp_k (or_default (arg_i64 args ''k'') 8)) (\<lambda>k.
     hbind (staged ''symbol_search'' [] (from_engine (en_fts E query k))) (\<lambda>hits.
     hbind (staged ''symbol_search'' [] (hydrate_map E (hit_ids [hits]))) (\<lambda>by_id.
     hret (JArr (map (\<lambda>(h, s). search_hit s (score h) ''fts_bm25'') (hydrated_hits by_id hits)))))))"

definition semantic_search :: "'s retrieval_engine \<Rightarrow> json \<Rightarrow> ('s, json) handler" where
  "semantic_search E args =
     hbind (hsum (require_str args ''query'')) (\<lambda>query.
     hbind (clamped clamp_k (or_default (arg_i64 args ''k'') DEFAULT_K)) (\<lambda>k.
     hbind (staged ''semantic_search'' [] (from_engine (en_semantic E query k))) (\<lambda>hits.
     hbind (staged ''semantic_search'' [] (hydrate_map E (hit_ids [hits]))) (\<lambda>by_id.
       let out = map (\<lambda>(h, s). jset (search_hit s (score h) ''semantic_knn'') ''match_sources'' (JArr [JStr ''semantic'']))
                   (hydrated_hits by_id hits)
       in hbind (note_included (out \<noteq> [])) (\<lambda>_. hret (JArr out))))))"

definition match_sources :: "hit list \<Rightarrow> hit list \<Rightarrow> string \<Rightarrow> string list" where
  "match_sources lexical semantic i =
     bset (map (\<lambda>_. ''lexical'') (filter (\<lambda>h. symbol_id h = i) lexical)
           @ map (\<lambda>_. ''semantic'') (filter (\<lambda>h. symbol_id h = i) semantic))"

definition discover_symbols :: "'s retrieval_engine \<Rightarrow> json \<Rightarrow> ('s, json) handler" where
  "discover_symbols E args =
     hbind (hsum (require_str args ''query'')) (\<lambda>query.
     hbind (clamped clamp_k (or_default (arg_i64 args ''k'') DEFAULT_K)) (\<lambda>k.
     hbind (staged ''discover_symbols'' [] (from_engine (en_fts E query k))) (\<lambda>lexical.
     hbind (staged ''discover_symbols'' [] (from_engine (en_semantic E query k))) (\<lambda>semantic.
       let fused = rrf_fuse [lexical, semantic] k DEFAULT_RRF_K
       in hbind (staged ''discover_symbols'' [] (hydrate_map E (hit_ids [fused]))) (\<lambda>by_id.
          let found = hydrated_hits by_id fused; src = match_sources lexical semantic
          in hbind (note_included (\<exists>(h, _) \<in> set found. ''semantic'' \<in> set (src (symbol_id h)))) (\<lambda>_.
             hret (JArr (map (\<lambda>(h, s). jset (search_hit s (score h) ''hybrid_rrf'') ''match_sources''
                                         (JArr (map JStr (src (symbol_id h))))) found))))))))"

definition diffuse_hit :: "hit \<Rightarrow> symbol \<Rightarrow> json" where
  "diffuse_hit h s =
     jset (jset (jset (search_hit s (score h) ''csar_diffusion'') ''match_sources'' (JArr [JStr ''csar'']))
       ''on_path'' (JBool (or_default (Option.bind (jget (evidence h) ''on_path'') as_bool) False)))
       ''ppr_score'' (JFloat (or_default (Option.bind (jget (evidence h) ''ppr_score'') as_f64) (score h)))"

definition diffuse_context :: "'s retrieval_engine \<Rightarrow> json \<Rightarrow> ('s, json) handler" where
  "diffuse_context E args =
     hbind (hsum (require_str args ''query'')) (\<lambda>query.
     hbind (clamped clamp_k (or_default (arg_i64 args ''k'') DEFAULT_K)) (\<lambda>k.
       let alpha = or_default (Option.bind (jget args ''alpha'') as_f64) CSAR_ALPHA;
           eps = or_default (Option.bind (jget args ''eps'') as_f64) CSAR_EPS
       in hbind (staged ''diffuse_context'' [] (from_engine (en_fts E query CSAR_SEED_K))) (\<lambda>lexical.
          hbind (staged ''diffuse_context'' []
                  (hbind (hget (\<lambda>s _. en_semantic_available E s)) (\<lambda>available.
                   if available then from_engine (en_semantic E query CSAR_SEED_K) else hret []))) (\<lambda>semantic.
          hbind (staged ''diffuse_context'' [] (from_engine (en_diffuse E [lexical, semantic] k alpha eps))) (\<lambda>diffused.
          hbind (staged ''diffuse_context'' [] (hydrate_map E (hit_ids [diffused]))) (\<lambda>by_id.
            let found = hydrated_hits by_id diffused
            in hbind (note_included (\<exists>(h, _) \<in> set found. symbol_id h \<in> symbol_id ` set semantic)) (\<lambda>_.
               hret (JArr (map (\<lambda>(h, s). diffuse_hit h s) found)))))))))"

subsection \<open>Lookups and traces\<close>

definition symbol_lookup :: "'s retrieval_engine \<Rightarrow> json \<Rightarrow> ('s, json) handler" where
  "symbol_lookup E args =
     hbind (hsum (require_str args ''name_or_id'')) (\<lambda>name_or_id.
     staged ''symbol_lookup'' (JObj [])
       (hbind (from_engine (en_lookup E name_or_id (arg_str args ''kind''))) (\<lambda>found.
        case found of
          Some s \<Rightarrow> hret (symbol_to_dict s)
        | None \<Rightarrow> hfail (not_found (''No symbol matched '' @ [CHR 0x27] @ name_or_id @ [CHR 0x27])))))"

definition trace_entry :: "hydrated \<Rightarrow> hit \<Rightarrow> json" where
  "trace_entry by_id h =
     JObj ([(''symbol_id'', JStr (symbol_id h)), (''score'', JFloat (score h)),
            (''depth'', or_default (jget (evidence h) ''depth'') JNull)]
           @ (case map_of by_id (symbol_id h) of
                None \<Rightarrow> []
              | Some s \<Rightarrow> [(''qualified_name'', JStr (qualified_name s)), (''kind'', JStr (kind_json (skind s))),
                           (''file_path'', JStr (file_path s)), (''line_start'', JInt (int (line_start s))),
                           (''line_end'', JInt (int (line_end s)))]))"

definition dependency_trace :: "'s retrieval_engine \<Rightarrow> json \<Rightarrow> ('s, json) handler" where
  "dependency_trace E args =
     hbind (hsum (require_str args ''symbol_id'')) (\<lambda>i.
       let direction = or_default (arg_str args ''direction'') ''out''
       in if direction \<notin> {''out'', ''in'', ''both''}
          then hfail (invalid_argument ([CHR 0x27] @ ''direction'' @ [CHR 0x27] @ '' must be one of: out, in, both''))
          else hbind (clamped clamp_depth (or_default (arg_i64 args ''depth'') 3)) (\<lambda>depth.
               hbind (staged ''dependency_trace'' [] (from_engine (en_trace E i direction depth))) (\<lambda>hits.
               hbind (staged ''dependency_trace'' [] (hydrate_map E (hit_ids [hits]))) (\<lambda>by_id.
               hret (JObj [(''start'', JStr i), (''direction'', JStr direction), (''depth'', JInt (int depth)),
                           (''hits'', JArr (map (trace_entry by_id) hits))])))))"

definition resolved_json :: "string list \<Rightarrow> symbol list \<Rightarrow> string list \<Rightarrow> json" where
  "resolved_json ids symbols missing =
     JObj [(''symbols'', JArr (map symbol_to_dict symbols)), (''missing'', JArr (map JStr missing)),
           (''requested_count'', JInt (int (length ids))), (''resolved_count'', JInt (int (length symbols)))]"

definition resolve_symbols :: "'s retrieval_engine \<Rightarrow> json \<Rightarrow> ('s, json) handler" where
  "resolve_symbols E args =
     (case arg_strings args ''symbol_ids'' of
        None \<Rightarrow> hfail (invalid_argument
                  ([CHR 0x27] @ ''symbol_ids'' @ [CHR 0x27] @ '' is required and must be an array of strings''))
      | Some ids \<Rightarrow>
          hbind (hget (\<lambda>_ ctx. check_resolve_ids (ccaps ctx) (length ids))) (\<lambda>r. hbind (hsum r) (\<lambda>_.
          staged ''resolve_symbols'' (resolved_json ids [] ids)
            (hbind (hydrate_map E ids) (\<lambda>by_id.
             hret (resolved_json ids (List.map_filter (map_of by_id) ids) (filter (\<lambda>i. map_of by_id i = None) ids)))))))"


subsection \<open>Reports as JSON\<close>

definition step_json :: "bottleneck_step \<Rightarrow> json" where
  "step_json b = JObj
     [(''symbol_id'', JStr (bt_symbol b)), (''qualified_name'', JStr (bt_qualified b)), (''file_path'', JStr (bt_file b)),
      (''line'', JInt (int (bt_line b))), (''local_contribution'', JStr (bt_local b)),
      (''call_loop_multiplier'', JStr (bt_multiplier b)), (''cumulative_complexity'', JStr (bt_cumulative b)),
      (''reason'', JStr (bt_reason b))]"

definition present :: "string \<Rightarrow> string option \<Rightarrow> (string \<times> json) list" where
  "present key v = (case v of None \<Rightarrow> [] | Some t \<Rightarrow> [(key, JStr t)])"

definition advisory_json :: "advisory \<Rightarrow> json" where
  "advisory_json a = JObj
     ([(''rule_id'', JStr (ad_rule a)), (''title'', JStr (ad_title a)), (''severity'', JStr (ad_severity a)),
       (''symbol_id'', JStr (ad_symbol a)), (''qualified_name'', JStr (ad_qualified a)), (''file_path'', JStr (ad_file a)),
       (''hotspot_line'', JInt (int (ad_line a))), (''current_complexity'', JStr (ad_current a)),
       (''target_complexity'', JStr (ad_target a)), (''problem'', JStr (ad_problem a)),
       (''prescription'', JStr (ad_prescription a))]
      @ present ''repo_asset_ref'' (ad_asset a) @ present ''suggested_diff'' (ad_diff a))"

definition report_json :: "complexity_report \<Rightarrow> json" where
  "report_json r = JObj
     [(''symbol_id'', JStr (rp_symbol r)), (''qualified_name'', JStr (rp_qualified r)), (''kind'', JStr (rp_kind r)),
      (''file_path'', JStr (rp_file r)), (''line_start'', JInt (int (rp_line_start r))), (''line_end'', JInt (int (rp_line_end r))),
      (''local_time'', JStr (rp_local_time r)), (''propagated_time'', JStr (rp_time r)),
      (''space_complexity'', JStr (rp_space r)), (''effective_degree'', JFloat (rp_degree r)),
      (''risk_score'', JFloat (rp_risk r)), (''max_loop_depth'', JInt (uint (rp_max_depth r))),
      (''cyclomatic'', JInt (int (rp_cyclomatic r))), (''cognitive'', JInt (int (rp_cognitive r))),
      (''recursion_kind'', JStr (rp_recursion r)), (''io_in_loop'', JArr (map JStr (rp_io r))),
      (''bottleneck_chain'', JArr (map step_json (rp_chain r))), (''advisories'', JArr (map advisory_json (rp_advisories r)))]"

definition dimensions_json :: "impact_dimensions \<Rightarrow> json" where
  "dimensions_json d = JObj
     [(''structural_blast_radius'', JFloat (structural_blast_radius d)),
      (''complexity_amplification'', JFloat (complexity_amplification d)),
      (''contract_breakage_risk'', JFloat (contract_breakage_risk d)), (''test_coverage_gap'', JFloat (test_coverage_gap d))]"

definition amplification_json :: "amplification_path \<Rightarrow> json" where
  "amplification_json a = JObj
     [(''caller_id'', JStr (ap_caller_id a)), (''caller_name'', JStr (ap_caller_name a)), (''caller_file'', JStr (ap_caller_file a)),
      (''caller_line'', JInt (int (ap_caller_line a))), (''cumulative_loop_depth'', JInt (uint (cumulative_loop_depth a))),
      (''amplification_factor'', JFloat (amplification_factor a)), (''time_before'', JStr (time_before a)),
      (''time_after'', JStr (time_after a)), (''call_chain'', JArr (map JStr (call_chain a)))]"

definition breakage_json :: "breakage_site \<Rightarrow> json" where
  "breakage_json b = JObj
     [(''caller_id'', JStr (bs_caller_id b)), (''caller_name'', JStr (bs_caller_name b)), (''caller_file'', JStr (bs_caller_file b)),
      (''caller_line'', JInt (int (bs_caller_line b))), (''target_symbol'', JStr (target_symbol b)),
      (''reason'', JStr (bs_reason b)), (''severity'', JFloat (severity b))]"

definition impact_json :: "impact_report \<Rightarrow> (string \<times> json) list" where
  "impact_json r =
     [(''impact_level'', JStr (impact_level r)), (''composite_risk_score'', JFloat (composite_risk_score r)),
      (''dimensions'', dimensions_json (dimensions r)), (''breaking_call_sites'', JArr (map breakage_json (breaking_call_sites r))),
      (''complexity_amplifications'', JArr (map amplification_json (complexity_amplifications r))),
      (''affected_entrypoints'', JArr (map JStr (affected_entrypoints r))),
      (''minimal_test_suite'', JArr (map JStr (minimal_test_suite r))),
      (''untested_high_risk_paths'', JArr (map JStr (untested_high_risk_paths r))),
      (''reached_symbol_count'', JInt (int (reached_symbol_count r))),
      (''reached_module_count'', JInt (int (reached_module_count r)))]"

definition guardrail_json :: "guardrail \<Rightarrow> json" where
  "guardrail_json c = JObj
     [(''verdict'', JStr (gc_verdict c)), (''latency_ms'', JFloat (gc_latency_ms c)), (''generation'', JStr (gc_generation c)),
      (''summary_markdown'', JStr (gc_summary c)), (''complexity_reports'', JArr (map report_json (gc_reports c))),
      (''impact_report'', JObj (impact_json (gc_impact c))), (''advisories'', JArr (map advisory_json (gc_advisories c)))]"

subsection \<open>The context capsule\<close>

definition classify_task_mode :: "(string \<Rightarrow> string) \<Rightarrow> string \<Rightarrow> string" where
  "classify_task_mode to_lower task =
     (let has = list_ex (str_contains (to_lower task))
      in if has [''bug'', ''fix'', ''error'', ''fail'', ''crash'', ''broken''] then ''bugfix''
         else if has [''refactor'', ''rename'', ''clean up'', ''restructure''] then ''refactor''
         else if has [''test'', ''coverage'', ''assert''] then ''test''
         else if has [''add'', ''implement'', ''feature'', ''build'', ''create''] then ''feature''
         else if has [''how'', ''why'', ''explain'', ''understand'', ''what''] then ''explain''
         else ''chore'')"

text \<open>The length is cast to \<open>u32\<close>.\<close>

definition estimate_tokens :: "string \<Rightarrow> nat" where
  "estimate_tokens text = max 1 (length text mod 2 ^ 32 div 4)"

text \<open>\<open>String::truncate\<close> panics inside a character.\<close>

definition char_boundary :: "string \<Rightarrow> nat \<Rightarrow> bool" where
  "char_boundary s n \<longleftrightarrow> n = 0 \<or> n = length s
     \<or> (n < length s \<and> \<not> (128 \<le> (of_char (s ! n) :: nat) \<and> (of_char (s ! n) :: nat) < 192))"

definition truncate_chars :: "nat \<Rightarrow> string \<Rightarrow> string option" where
  "truncate_chars n s = (if length s \<le> n then Some s else if char_boundary s n then Some (take n s) else None)"

definition relevant_symbol :: "complexity_report option \<Rightarrow> hit \<Rightarrow> symbol \<Rightarrow> json" where
  "relevant_symbol r h s = JObj
     [(''symbol_id'', JStr (sid s)), (''qualified_name'', JStr (qualified_name s)), (''kind'', JStr (kind_json (skind s))),
      (''file_path'', JStr (file_path s)), (''score'', JFloat (score h)), (''layer'', JStr (layer h)),
      (''time_complexity'', JStr (case r of Some c \<Rightarrow> rp_time c | None \<Rightarrow> ''O(1)'')),
      (''space_complexity'', JStr (case r of Some c \<Rightarrow> rp_space c | None \<Rightarrow> ''O(1)'')),
      (''risk_score'', JFloat (case r of Some c \<Rightarrow> rp_risk c | None \<Rightarrow> risk_score s))]"

definition risk_area :: "complexity_report option \<Rightarrow> symbol \<Rightarrow> json list" where
  "risk_area r s =
     (case r of
        None \<Rightarrow> []
      | Some c \<Rightarrow>
          if 2 \<le> rp_degree c \<or> rp_advisories c \<noteq> []
          then [JObj [(''symbol_id'', JStr (sid s)), (''qualified_name'', JStr (qualified_name s)),
                  (''file_path'', JStr (file_path s)), (''line_start'', JInt (int (line_start s))),
                  (''time_complexity'', JStr (rp_time c)), (''risk_score'', JFloat (rp_risk c)),
                  (''advisories'', JArr (map advisory_json (rp_advisories c)))]]
          else [])"

definition capsule_excerpt :: "complexity_report option \<Rightarrow> symbol \<Rightarrow> string" where
  "capsule_excerpt r s =
     (case body_excerpt s of
        None \<Rightarrow> []
      | Some body \<Rightarrow>
          ''// '' @ qualified_name s @ '' [time: '' @ (case r of Some c \<Rightarrow> rp_time c | None \<Rightarrow> ''O(1)'')
          @ '', space: '' @ (case r of Some c \<Rightarrow> rp_space c | None \<Rightarrow> ''O(1)'') @ '']'' @ [CHR 0x0A] @ body
          @ [CHR 0x0A, CHR 0x0A])"

definition capsule_json ::
  "string \<Rightarrow> string \<Rightarrow> nat \<Rightarrow> (string \<rightharpoonup> complexity_report) \<Rightarrow> (hit \<times> symbol) list \<Rightarrow> string \<Rightarrow> json" where
  "capsule_json task mode budget reports found compressed = JObj
     [(''goal'', JStr task), (''task_mode'', JStr mode), (''confidence'', JFloat (if found = [] then 0 else 75/100)),
      (''root_cause_candidates'', JArr []),
      (''relevant_symbols'', JArr (map (\<lambda>(h, s). relevant_symbol (reports (sid s)) h s) found)),
      (''call_chain'', JArr []), (''runtime_evidence'', JArr []), (''neighbor_patterns'', JArr []),
      (''risk_areas'', JArr (concat (map (\<lambda>(h, s). risk_area (reports (sid s)) s) found))),
      (''compressed_context'', JStr compressed),
      (''sources'', JArr (map JStr (bset (map (file_path \<circ> snd) found)))),
      (''untrusted_sections'', JArr []), (''token_estimate'', JInt (int (min (estimate_tokens compressed) budget))),
      (''version'', JStr ''1'')]"

text \<open>From the composed hits to the answer.\<close>

definition capsule_answer ::
  "tools_env \<Rightarrow> snapshot \<Rightarrow> string \<Rightarrow> nat \<Rightarrow> hit list \<Rightarrow> hydrated \<Rightarrow> ('s, json) handler" where
  "capsule_answer te sn task budget composed by_id =
     hbind (hopt (analyze_workspace_complexity (se_analyze (te_shadow te)) (te_symbols te (map snd by_id))
                   (edges_incident (sn_db sn) (hit_ids [composed]) Both) Map.empty)) (\<lambda>analysis.
       let reports = map_of (fst analysis); found = hydrated_hits by_id composed
       in hbind (note_included (\<exists>(h, _) \<in> set found. layer h = ''semantic'')) (\<lambda>_.
          hbind (hopt (truncate_chars (budget * 4) (concat (map (\<lambda>(h, s). capsule_excerpt (reports (sid s)) s) found)))) (\<lambda>compressed.
          hret (capsule_json task (classify_task_mode (te_lowercase te) task) budget reports found compressed))))"

definition capsule_stages ::
  "tools_env \<Rightarrow> snapshot \<Rightarrow> 's retrieval_engine \<Rightarrow> string \<Rightarrow> nat \<Rightarrow> ('s, json) handler" where
  "capsule_stages te sn E task budget =
     hbind (staged ''retrieve_context_capsule'' [] (from_engine (en_fts E task CSAR_SEED_K))) (\<lambda>lexical.
     hbind (staged ''retrieve_context_capsule'' []
             (hbind (hget (\<lambda>s _. en_semantic_available E s)) (\<lambda>available.
              if available then from_engine (en_semantic E task CSAR_SEED_K) else hret []))) (\<lambda>semantic.
     hbind (staged ''retrieve_context_capsule'' []
             (from_engine (en_diffuse E [lexical, semantic] CSAR_SEED_K CSAR_ALPHA CSAR_EPS))) (\<lambda>csar.
     hbind (hget (\<lambda>s _. en_edge_context E s)) (\<lambda>edge_context.
       let composed = compose_capsule_with_edges [lexical, semantic] csar [] (max 1 (budget div 50)) DEFAULT_RRF_K edge_context
       in hbind (staged ''retrieve_context_capsule'' [] (hydrate_map E (hit_ids [composed])))
            (capsule_answer te sn task budget composed)))))"

definition retrieve_context_capsule ::
  "tools_env \<Rightarrow> snapshot \<Rightarrow> 's retrieval_engine \<Rightarrow> json \<Rightarrow> ('s, json) handler" where
  "retrieve_context_capsule te sn E args =
     hbind (hsum (require_str args ''task'')) (\<lambda>task.
     hbind (clamped clamp_tokens (or_default (arg_i64 args ''max_tokens'') 8000)) (capsule_stages te sn E task))"

subsection \<open>The subgraph under analysis\<close>

text \<open>
  The ids are listed in the order they are found; a set of those seen and a list of seeds hold the same ids
  until the hops begin, which only add to the set.
\<close>

definition add_ids :: "string list \<Rightarrow> string list \<Rightarrow> string list" where
  "add_ids ids new = fold (\<lambda>i ids. if i \<in> set ids then ids else ids @ [i]) new ids"

definition seed_query :: "snapshot \<Rightarrow> 's retrieval_engine \<Rightarrow> string \<Rightarrow> string list \<Rightarrow> ('s, string list) handler" where
  "seed_query sn E query ids =
     (let q = trim query
      in if q = [] then hret ids
         else hbind (if_ok (en_lookup E q None)) (\<lambda>found.
              hbind (case found of
                       Some (Some s) \<Rightarrow> hret (add_ids ids [sid s])
                     | _ \<Rightarrow> hbind (if_ok (en_fts E q 10)) (\<lambda>hits. hret (add_ids ids (map symbol_id (or_default hits []))))) (\<lambda>ids.
              hret (add_ids ids (symbol_ids_in_file (sn_db sn) q)))))"

definition seed_resident :: "'s retrieval_engine \<Rightarrow> string list \<Rightarrow> ('s, string list) handler" where
  "seed_resident E ids =
     hbind (if_ok (en_graph E)) (\<lambda>g.
       hret (case g of
               None \<Rightarrow> ids
             | Some g \<Rightarrow>
                 if ids = [] \<or> length (node_ids g) \<le> ANALYSIS_SUBGRAPH_CAP
                 then add_ids ids (take ANALYSIS_SUBGRAPH_CAP (node_ids g)) else ids))"

record expansion =
  x_seen :: "string list"
  x_next :: "string list"
  x_edges :: "edge list"

definition see_node :: "string \<Rightarrow> expansion \<Rightarrow> expansion" where
  "see_node i x =
     (if length (x_seen x) < ANALYSIS_SUBGRAPH_CAP \<and> i \<notin> set (x_seen x)
      then x\<lparr>x_seen := x_seen x @ [i], x_next := x_next x @ [i]\<rparr> else x)"

definition expand_edge :: "edge \<Rightarrow> expansion \<Rightarrow> expansion" where
  "expand_edge e x =
     (if ekind e = Imports \<or> edge_key e \<in> edge_key ` set (x_edges x) then x
      else let x = see_node (dst_id e) (see_node (src_id e) x) in x\<lparr>x_edges := x_edges x @ [e]\<rparr>)"

fun expand_hops :: "database \<Rightarrow> nat \<Rightarrow> string list \<Rightarrow> expansion \<Rightarrow> expansion" where
  "expand_hops db 0 frontier x = x"
| "expand_hops db (Suc n) frontier x =
     (if frontier = [] \<or> ANALYSIS_SUBGRAPH_CAP \<le> length (x_seen x) then x
      else let x = fold expand_edge (edges_incident db frontier Both) (x\<lparr>x_next := []\<rparr>)
           in expand_hops db n (x_next x) x)"

text \<open>Edges made up from traces when the snapshot has none.\<close>

definition traced_edges :: "'s retrieval_engine \<Rightarrow> symbol list \<Rightarrow> edge list \<Rightarrow> ('s, edge list) handler" where
  "traced_edges E ss es =
     (if es \<noteq> [] then hret es
      else hfold (\<lambda>s es. hbind (if_ok (en_trace E (sid s) ''out'' 1)) (\<lambda>hits.
             hret (es @ map (\<lambda>h. \<lparr>src_id = sid s, dst_id = symbol_id h, ekind = Calls, confidence = 1, meta = JNull\<rparr>)
                          (or_default hits [])))) (take 16 ss) es)"

definition load_analysis_subgraph ::
  "tools_env \<Rightarrow> snapshot \<Rightarrow> 's retrieval_engine \<Rightarrow> string list \<Rightarrow> string list \<Rightarrow> ('s, symbol list \<times> edge list) handler" where
  "load_analysis_subgraph te sn E queries paths =
     hbind (hfold (seed_query sn E) queries (fold (\<lambda>p ids. add_ids ids (symbol_ids_in_file (sn_db sn) p)) paths [])) (\<lambda>ids.
     hbind (seed_resident E ids) (\<lambda>ids.
       let x = expand_hops (sn_db sn) 2 ids \<lparr>x_seen = ids, x_next = [], x_edges = []\<rparr>
       in hbind (from_engine (en_hydrate E (te_ids te (x_seen x)))) (\<lambda>found.
          let ss = sort_key sid found
          in hbind (traced_edges E ss (x_edges x)) (\<lambda>es. hret (ss, es)))))"

subsection \<open>Analysis tools\<close>

definition edit_item :: "json \<Rightarrow> file_edit option" where
  "edit_item item =
     (case (Option.bind (jget item ''file_path'') as_str,
            Option.bind (or_else (jget item ''new_content'') (jget item ''proposed_content'')) as_str) of
        (Some p, Some c) \<Rightarrow> Some \<lparr>fe_path = p, fe_content = c\<rparr>
      | _ \<Rightarrow> None)"

definition patch_edits :: "json \<Rightarrow> file_edit list" where
  "patch_edits args =
     (let edits = List.map_filter edit_item (or_default (Option.bind (jget args ''file_edits'') as_array) [])
      in case (arg_str args ''file_path'', or_else (arg_str args ''new_content'') (arg_str args ''proposed_content'')) of
           (Some p, Some c) \<Rightarrow> if p \<in> fe_path ` set edits then edits else edits @ [\<lparr>fe_path = p, fe_content = c\<rparr>]
         | _ \<Rightarrow> edits)"

definition patch_targets :: "json \<Rightarrow> string list" where
  "patch_targets args =
     (let ts = or_default (arg_strings args ''targets'') [];
          ts = (case arg_str args ''file_path'' of Some p \<Rightarrow> if p \<in> set ts then ts else ts @ [p] | None \<Rightarrow> ts)
      in case arg_str args ''query'' of Some q \<Rightarrow> ts @ [q] | None \<Rightarrow> ts)"

definition show_int :: "int \<Rightarrow> string" where
  "show_int i = (if i < 0 then ''-'' @ show_nat (nat (- i)) else show_nat (nat i))"

definition analyze_patch_impact ::
  "tools_env \<Rightarrow> snapshot \<Rightarrow> 's retrieval_engine \<Rightarrow> json \<Rightarrow> ('s, json) handler" where
  "analyze_patch_impact te sn E args =
     staged ''analyze_patch_impact'' (JObj [])
       (let edits = patch_edits args; targets = patch_targets args
        in hbind (load_analysis_subgraph te sn E targets (map fe_path edits)) (\<lambda>(ss, es).
           hbind (hget (\<lambda>_ ctx. show_int (pinned ctx) @ (if edits = [] then [] else ''+shadow''))) (\<lambda>label.
           hbind (hopt (analyze_shadow_patch (te_shadow te) ss es edits targets label)) (\<lambda>c. hret (guardrail_json c)))))"

definition names_report :: "string list \<Rightarrow> complexity_report \<Rightarrow> bool" where
  "names_report queries r \<longleftrightarrow>
     (\<exists>query \<in> set queries. let q = trim query
        in rp_symbol r = q \<or> rp_qualified r = q \<or> ends_with (rp_qualified r) (''.'' @ q) \<or> rp_file r = q
           \<or> str_contains (rp_qualified r) q)"

definition inspected :: "string list \<Rightarrow> complexity_report list \<Rightarrow> complexity_report list" where
  "inspected queries reports =
     (let hits = filter (names_report queries) reports
      in sort_key (\<lambda>r. (- rp_degree r, - rp_risk r)) (if queries = [] \<or> hits = [] then reports else hits))"

definition inspection_json :: "string list \<Rightarrow> complexity_report list \<Rightarrow> json" where
  "inspection_json queries rs = JObj
     [(''query'', JStr (case queries of q # _ \<Rightarrow> q | [] \<Rightarrow> [])),
      (''highest_complexity'', JStr (case rs of r # _ \<Rightarrow> rp_time r | [] \<Rightarrow> ''O(1)'')),
      (''max_risk_score'', JFloat (fold (\<lambda>r m. max m (rp_risk r)) rs 0)),
      (''advisory_count'', JInt (int (sum_list (map (length \<circ> rp_advisories) rs)))),
      (''reports'', JArr (map report_json rs))]"

definition inspect_symbol_complexity ::
  "tools_env \<Rightarrow> snapshot \<Rightarrow> 's retrieval_engine \<Rightarrow> json \<Rightarrow> ('s, json) handler" where
  "inspect_symbol_complexity te sn E args =
     staged ''inspect_symbol_complexity'' (JObj [])
       (hbind (clamped clamp_k (or_default (arg_i64 args ''k'') DEFAULT_K)) (\<lambda>k.
          let queries = (case or_else (arg_str args ''name_or_id'') (arg_str args ''query'') of Some q \<Rightarrow> [q] | None \<Rightarrow> [])
                @ or_default (arg_strings args ''symbol_ids'') []
          in hbind (load_analysis_subgraph te sn E queries []) (\<lambda>(ss, es).
             hbind (hopt (analyze_workspace_complexity (se_analyze (te_shadow te)) ss es Map.empty)) (\<lambda>(reports, _).
             hret (inspection_json queries (take k (inspected queries (se_reports (te_shadow te) (map snd reports)))))))))"

definition blast_target :: "json \<Rightarrow> string option" where
  "blast_target args =
     or_else (arg_str args ''symbol_id'')
       (or_else (arg_str args ''name_or_id'')
         (or_else (arg_str args ''query'')
           (case Option.bind (jget args ''symbol_ids'') as_array of
              Some (v # _) \<Rightarrow> Option.bind (as_str v) (\<lambda>s. if trim s = [] then None else Some (trim s))
            | _ \<Rightarrow> None)))"

definition blast_seed :: "json \<Rightarrow> symbol \<Rightarrow> complexity_class \<Rightarrow> complexity_class \<Rightarrow> impact_seed" where
  "blast_seed args s old new =
     (if or_default (Option.bind (jget args ''signature_changed'') as_bool) False
      then signature_edit (sid s) (85/100) (''Signature or contract modification on `'' @ qualified_name s @ ''`'') old new
      else body_edit (sid s) old new)"

definition trace_blast_radius ::
  "tools_env \<Rightarrow> snapshot \<Rightarrow> 's retrieval_engine \<Rightarrow> json \<Rightarrow> ('s, json) handler" where
  "trace_blast_radius te sn E args =
     (case blast_target args of
        None \<Rightarrow> hfail (invalid_argument ([CHR 0x27] @ ''symbol_id'' @ [CHR 0x27] @ '' (or '' @ [CHR 0x27] @ ''name_or_id''
                  @ [CHR 0x27] @ '') is required''))
      | Some target \<Rightarrow>
          staged ''trace_blast_radius'' (JObj [])
            (hbind (load_analysis_subgraph te sn E [target] []) (\<lambda>(ss, es).
             hbind (hopt (analyze_workspace_complexity (se_analyze (te_shadow te)) ss es Map.empty)) (\<lambda>(reports, depths).
             hbind (from_engine (en_lookup E target None)) (\<lambda>found.
             case or_else found (find (\<lambda>s. target \<in> {sid s, qualified_name s, sname s}) ss) of
               None \<Rightarrow> hfail (not_found (''No symbol matched '' @ [CHR 0x27] @ target @ [CHR 0x27]))
             | Some s \<Rightarrow>
                 let current = (case map_of reports (sid s) of Some r \<Rightarrow> parse_notation_to_class (rp_time r) | None \<Rightarrow> Constant);
                     simulated = (case arg_str args ''new_complexity'' of Some t \<Rightarrow> parse_notation_to_class t | None \<Rightarrow> current)
                 in hbind (hopt (evaluate_change_impact (se_show (te_shadow te)) (se_iter (te_shadow te))
                              (impact_graph_build (map sid ss) es depths) (symbols_by_id ss)
                              [blast_seed args s current simulated] depths)) (\<lambda>r. case r of
                      Inl e \<Rightarrow> hfail (engine_err e)
                    | Inr r \<Rightarrow> hret (JObj (impact_json r
                        @ [(''start'', JStr (sid s)), (''symbol'', symbol_to_dict s),
                           (''current_complexity'', JStr (notation_of current)),
                           (''simulated_complexity'', JStr (notation_of simulated))])))))))) "

definition refactor_json :: "string \<Rightarrow> guardrail \<Rightarrow> json" where
  "refactor_json target c =
     (let current = (case gc_reports c of r # _ \<Rightarrow> rp_time r | [] \<Rightarrow> ''O(1)'')
      in JObj [(''target'', JStr target), (''verdict'', JStr (gc_verdict c)), (''current_complexity'', JStr current),
           (''target_complexity'', JStr (case gc_advisories c of a # _ \<Rightarrow> ad_target a | [] \<Rightarrow> current)),
           (''advisories'', JArr (map advisory_json (gc_advisories c))),
           (''bottleneck_chain'', JArr (case gc_reports c of r # _ \<Rightarrow> map step_json (rp_chain r) | [] \<Rightarrow> [])),
           (''reusable_repo_assets'', JArr (map JStr (List.map_filter ad_asset (gc_advisories c)))),
           (''summary_markdown'', JStr (gc_summary c))])"

definition suggest_optimal_refactor ::
  "tools_env \<Rightarrow> snapshot \<Rightarrow> 's retrieval_engine \<Rightarrow> json \<Rightarrow> ('s, json) handler" where
  "suggest_optimal_refactor te sn E args =
     staged ''suggest_optimal_refactor'' (JObj [])
       (let target = or_default (or_else (arg_str args ''target'') (or_else (arg_str args ''name_or_id'') (arg_str args ''query''))) [];
            edits = (case arg_str args ''code_snippet'' of
                       Some t \<Rightarrow> [\<lparr>fe_path = or_default (arg_str args ''file_path'') ''src/snippet.ts'', fe_content = t\<rparr>]
                     | None \<Rightarrow> []);
            queries = (if target = [] then [] else [target])
        in hbind (load_analysis_subgraph te sn E queries (map fe_path edits)) (\<lambda>(ss, es).
           hbind (hget (\<lambda>_ ctx. show_int (pinned ctx))) (\<lambda>label.
           hbind (hopt (analyze_shadow_patch (te_shadow te) ss es edits queries label)) (\<lambda>c. hret (refactor_json target c)))))"

text \<open>The dispatcher's choice of a handler.\<close>

definition run_tool :: "tools_env \<Rightarrow> snapshot \<Rightarrow> 's retrieval_engine \<Rightarrow> string \<Rightarrow> json \<Rightarrow> ('s, json) handler" where
  "run_tool te sn E name args =
     (if name = ''symbol_search'' then symbol_search E args
      else if name = ''semantic_search'' then semantic_search E args
      else if name = ''discover_symbols'' then discover_symbols E args
      else if name = ''diffuse_context'' then diffuse_context E args
      else if name = ''symbol_lookup'' then symbol_lookup E args
      else if name = ''dependency_trace'' then dependency_trace E args
      else if name = ''resolve_symbols'' then resolve_symbols E args
      else if name = ''retrieve_context_capsule'' then retrieve_context_capsule te sn E args
      else if name = ''analyze_patch_impact'' then analyze_patch_impact te sn E args
      else if name = ''inspect_symbol_complexity'' then inspect_symbol_complexity te sn E args
      else if name = ''trace_blast_radius'' then trace_blast_radius te sn E args
      else if name = ''suggest_optimal_refactor'' then suggest_optimal_refactor te sn E args
      else hfail (invalid_argument (''unknown tool '' @ [CHR 0x27] @ name @ [CHR 0x27])))"


subsection \<open>What a call may do to the engine\<close>

definition keeps :: "('s \<Rightarrow> 's \<Rightarrow> bool) \<Rightarrow> ('s, 'a) handler \<Rightarrow> bool" where
  "keeps R h \<longleftrightarrow> (\<forall>s ctx r s' ctx'. h s ctx = Some (r, s', ctx') \<longrightarrow> R s s')"

text \<open>
  The tools use an engine only through its operations: a reflexive and transitive relation that every operation
  keeps is kept by every tool, whatever its arguments, on every path through its stages.
\<close>

locale engine_relation =
  fixes E :: "'s retrieval_engine" and R :: "'s \<Rightarrow> 's \<Rightarrow> bool"
  assumes R_refl: "R s s" and R_trans: "R s t \<Longrightarrow> R t u \<Longrightarrow> R s u"
    and R_fts: "en_fts E q k s = Some (fr, s') \<Longrightarrow> R s s'"
    and R_semantic: "en_semantic E q k s = Some (mr, s') \<Longrightarrow> R s s'"
    and R_diffuse: "en_diffuse E seeds k a eps s = Some (dr, s') \<Longrightarrow> R s s'"
    and R_hydrate: "en_hydrate E ids s = Some (hr, s') \<Longrightarrow> R s s'"
    and R_lookup: "en_lookup E name kd s = Some (lr, s') \<Longrightarrow> R s s'"
    and R_trace: "en_trace E i d n s = Some (tr, s') \<Longrightarrow> R s s'"
    and R_graph: "en_graph E s = Some (gr, s') \<Longrightarrow> R s s'"
begin

lemma keeps_hbind: "keeps R m \<Longrightarrow> (\<And>x. keeps R (k x)) \<Longrightarrow> keeps R (hbind m k)"
  using R_trans unfolding keeps_def hbind_def by (fastforce split: option.splits sum.splits)

lemma keeps_pure: "keeps R (hret x)" "keeps R (hfail e)" "keeps R (hsum r)" "keeps R (hopt y)" "keeps R (hget f)"
    "keeps R (from_tool t)" "keeps R (note_included b)"
  using R_refl
  by (auto simp: keeps_def hret_def hfail_def hsum_def hopt_def hget_def from_tool_def note_included_def split: prod.splits)

lemma keeps_engine:
  assumes "\<And>s r s'. m s = Some (r, s') \<Longrightarrow> R s s'"
  shows "keeps R (from_engine m)" "keeps R (if_ok m)"
  using assms by (auto simp: keeps_def from_engine_def if_ok_def split: option.splits sum.splits)

lemma keeps_ops:
  "keeps R (from_engine (en_fts E q k))" "keeps R (if_ok (en_fts E q k))"
  "keeps R (from_engine (en_semantic E q k))" "keeps R (if_ok (en_semantic E q k))"
  "keeps R (from_engine (en_diffuse E seeds k a eps))" "keeps R (if_ok (en_diffuse E seeds k a eps))"
  "keeps R (from_engine (en_hydrate E ids))" "keeps R (if_ok (en_hydrate E ids))"
  "keeps R (from_engine (en_lookup E name kd))" "keeps R (if_ok (en_lookup E name kd))"
  "keeps R (from_engine (en_trace E name d n))" "keeps R (if_ok (en_trace E name d n))"
  "keeps R (from_engine (en_graph E))" "keeps R (if_ok (en_graph E))"
  by (rule keeps_engine, (erule R_fts | erule R_semantic | erule R_diffuse | erule R_hydrate | erule R_lookup | erule R_trace
      | erule R_graph))+

lemma keeps_staged: "keeps R m \<Longrightarrow> keeps R (staged t x m)"
  unfolding staged_def by (intro keeps_hbind) (simp_all add: keeps_pure)

lemma keeps_clamped: "keeps R (clamped f x)"
  unfolding clamped_def by (intro keeps_hbind keeps_pure)

lemma keeps_hfold: "(\<And>x b. keeps R (f x b)) \<Longrightarrow> keeps R (hfold f xs b)"
  by (induction xs arbitrary: b) (simp_all add: keeps_pure keeps_hbind)

lemma keeps_hydrate: "keeps R (hydrate_map E ids)"
  unfolding hydrate_map_def by (intro keeps_hbind keeps_ops keeps_pure)

lemmas keeps_rules = keeps_staged keeps_clamped keeps_hydrate keeps_ops keeps_pure

lemma keeps_searches:
  "keeps R (symbol_search E args)" "keeps R (semantic_search E args)" "keeps R (discover_symbols E args)"
  "keeps R (diffuse_context E args)"
  unfolding symbol_search_def semantic_search_def discover_symbols_def diffuse_context_def Let_def
  by (intro keeps_hbind keeps_rules allI; simp add: keeps_rules)+

lemma keeps_lookups:
  "keeps R (symbol_lookup E args)" "keeps R (dependency_trace E args)" "keeps R (resolve_symbols E args)"
  unfolding symbol_lookup_def dependency_trace_def resolve_symbols_def Let_def
  by (auto intro!: keeps_hbind keeps_rules split: option.split)

lemma keeps_capsule: "keeps R (retrieve_context_capsule te sn E args)"
  unfolding retrieve_context_capsule_def capsule_stages_def capsule_answer_def Let_def
  by (intro keeps_hbind keeps_rules; simp add: keeps_rules)

lemma keeps_subgraph: "keeps R (load_analysis_subgraph te sn E queries paths)"
  unfolding load_analysis_subgraph_def seed_query_def seed_resident_def traced_edges_def Let_def
  by (auto intro!: keeps_hbind keeps_hfold keeps_rules split: option.split)

lemma keeps_analyses:
  "keeps R (analyze_patch_impact te sn E args)" "keeps R (inspect_symbol_complexity te sn E args)"
  "keeps R (trace_blast_radius te sn E args)" "keeps R (suggest_optimal_refactor te sn E args)"
  unfolding analyze_patch_impact_def inspect_symbol_complexity_def trace_blast_radius_def suggest_optimal_refactor_def
    Let_def case_prod_beta
  by (auto intro!: keeps_hbind keeps_subgraph keeps_rules split: option.split sum.split)

lemma keeps_tool: "keeps R (run_tool te sn E name args)"
  unfolding run_tool_def by (simp add: keeps_searches keeps_lookups keeps_capsule keeps_analyses keeps_pure)

end

end
