(* ===== verification/Tool_Calls.thy ===== *)
theory Tool_Calls
  imports Tools
begin

text \<open>
  What the tools guarantee: with the store's engine behind them, at their deadlines, and in the size of what they
  answer. The tools themselves are in the theory \<open>Tools\<close>.
\<close>

subsection \<open>The store's engine behind the tools\<close>

text \<open>With a vector space that is not the query embedder's, only the resident graph may change.\<close>

definition only_graph :: "snapshot \<Rightarrow> store_engine \<Rightarrow> store_engine \<Rightarrow> bool" where
  "only_graph sn s s' \<longleftrightarrow> (\<not> vector_space_allows sn s \<longrightarrow> s' = s\<lparr>resident_graph := resident_graph s'\<rparr>)"

lemma resident_graph_effect: "resident_code_graph en sn s = Some (r, s') \<Longrightarrow> s' = s\<lparr>resident_graph := resident_graph s'\<rparr>"
  by (auto simp: resident_code_graph_def split: option.splits prod.splits if_splits sum.splits)

interpretation withheld: engine_relation "store_ops en sn" "only_graph sn" for en sn
proof unfold_locales
  fix s t u
  assume st: "only_graph sn s t" and tu: "only_graph sn t u"
  show "only_graph sn s u"
    unfolding only_graph_def
  proof
    assume no: "\<not> vector_space_allows sn s"
    then have t: "t = s\<lparr>resident_graph := resident_graph t\<rparr>" using st by (simp add: only_graph_def)
    then have "query_digest t = query_digest s" by (cases s; cases t) simp
    then have "\<not> vector_space_allows sn t" using no by (simp add: vector_space_allows_def)
    then have "u = t\<lparr>resident_graph := resident_graph u\<rparr>" using tu by (simp add: only_graph_def)
    with t show "u = s\<lparr>resident_graph := resident_graph u\<rparr>" by (cases s; cases t; cases u) simp
  qed
next
  show "only_graph sn s s'" if "en_diffuse (store_ops en sn) seeds k a eps s = Some (dr, s')" for seeds k a eps s dr s'
    using that resident_graph_effect [of en sn s]
    by (auto simp: only_graph_def store_ops_def engine_diffuse_def split: option.splits prod.splits sum.splits)
qed (auto simp: only_graph_def store_ops_def engine_semantic_search_def dest: resident_graph_effect)

text \<open>
  C12: A tool call never touches the model, nor scores a vector, when the index was embedded in another vector space
  than the query would be: the slot, its uses and the counter of similarity computations are as they were, whatever the
  tool, its arguments and its outcome.
\<close>

theorem mismatched_space_is_never_scored:
  assumes "\<not> vector_space_allows sn s" "run_tool te sn (store_ops en sn) name args s ctx = Some (r, s', ctx')"
  shows "model s' = model s \<and> model_uses s' = model_uses s \<and> similarity_computations s' = similarity_computations s
    \<and> \<not> vector_space_allows sn s'"
proof -
  have "only_graph sn s s'" using withheld.keeps_tool assms(2) unfolding keeps_def by blast
  then have s': "s' = s\<lparr>resident_graph := resident_graph s'\<rparr>" using assms(1) by (simp add: only_graph_def)
  then have "model s' = model s" "model_uses s' = model_uses s" "similarity_computations s' = similarity_computations s"
    "query_digest s' = query_digest s" by (cases s; cases s'; simp)+
  then show ?thesis using assms(1) by (simp add: vector_space_allows_def)
qed

text \<open>The graphs of a history of generations; the resident graph is that of its generation.\<close>

definition cache_ok :: "(int \<Rightarrow> cognis_error + code_graph) \<Rightarrow> store_engine \<Rightarrow> bool" where
  "cache_ok G s \<longleftrightarrow> (\<forall>gen g. resident_graph s = Some (gen, g) \<longrightarrow> G gen = Inr g)"

definition snapshot_graph :: "engine_env \<Rightarrow> snapshot \<Rightarrow> cognis_error + code_graph" where
  "snapshot_graph en sn = build_code_graph (ee_scan_ids en) (ee_scan_edges en) (sn_db sn) None"

definition keeps_cache :: "engine_env \<Rightarrow> snapshot \<Rightarrow> (int \<Rightarrow> cognis_error + code_graph) \<Rightarrow> store_engine \<Rightarrow> store_engine \<Rightarrow> bool" where
  "keeps_cache en sn G s s' \<longleftrightarrow> (snapshot_graph en sn = G (sn_source sn) \<longrightarrow> cache_ok G s \<longrightarrow> cache_ok G s')"

lemma resident_graph_fresh:
  assumes "cache_ok G s" "snapshot_graph en sn = G (sn_source sn)"
  shows "\<exists>s'. resident_code_graph en sn s = Some (snapshot_graph en sn, s') \<and> cache_ok G s'"
proof -
  have "\<exists>s'. (case snapshot_graph en sn of
        Inl e \<Rightarrow> Some (Inl e, s)
      | Inr g \<Rightarrow> Some (Inr g, s\<lparr>resident_graph := Some (sn_source sn, g)\<rparr>)) = Some (snapshot_graph en sn, s') \<and> cache_ok G s'"
    using assms by (auto simp: cache_ok_def split: sum.split)
  moreover have "resident_code_graph en sn s = Some (snapshot_graph en sn, s)"
    if "resident_graph s = Some (sn_source sn, g)" "\<not> is_empty g" for g
    using that assms by (simp add: resident_code_graph_def cache_ok_def)
  ultimately show ?thesis
    using assms(1) unfolding resident_code_graph_def snapshot_graph_def
    by (auto split: option.split prod.split)
qed

lemma model_and_graph:
  "demand_embedder en s = Some (e, s') \<Longrightarrow> resident_graph s' = resident_graph s"
  "resident_graph (give_back en s) = resident_graph s"
  by (auto simp: demand_embedder_def give_back_def Let_def split: option.splits prod.splits if_splits)

lemma search_keeps_graph: "engine_semantic_search en sn q k s = Some (r, s') \<Longrightarrow> resident_graph s' = resident_graph s"
  by (auto simp: engine_semantic_search_def Let_def model_and_graph dest: model_and_graph(1)
      split: if_splits option.splits prod.splits sum.splits)

interpretation caching: engine_relation "store_ops en sn" "keeps_cache en sn G" for en sn G
proof unfold_locales
  show "keeps_cache en sn G s s'" if "en_semantic (store_ops en sn) q k s = Some (mr, s')" for q k s mr s'
    using search_keeps_graph [of en sn q k s mr s'] that by (simp add: keeps_cache_def cache_ok_def store_ops_def)
  show "keeps_cache en sn G s s'" if "en_graph (store_ops en sn) s = Some (gr, s')" for s gr s'
    using resident_graph_fresh [of G s en sn] that by (auto simp: keeps_cache_def store_ops_def)
  show "keeps_cache en sn G s s'" if "en_diffuse (store_ops en sn) seeds k a eps s = Some (dr, s')" for seeds k a eps s dr s'
    using resident_graph_fresh [of G s en sn] that
    by (auto simp: keeps_cache_def store_ops_def engine_diffuse_def split: option.splits prod.splits sum.splits)
qed (auto simp: keeps_cache_def store_ops_def)

text \<open>One call after another, each on its own snapshot.\<close>

fun session :: "engine_env \<Rightarrow> (tools_env \<times> snapshot \<times> string \<times> json \<times> tool_ctx) list \<Rightarrow> store_engine \<Rightarrow> store_engine option" where
  "session en [] s = Some s"
| "session en ((te, sn, name, args, ctx) # calls) s =
     (case run_tool te sn (store_ops en sn) name args s ctx of None \<Rightarrow> None | Some (_, s, _) \<Rightarrow> session en calls s)"

lemma session_cache:
  assumes "\<forall>(te, sn, name, args, ctx) \<in> set calls. snapshot_graph en sn = G (sn_source sn)"
    and "session en calls s = Some s'" "cache_ok G s"
  shows "cache_ok G s'"
  using assms
proof (induction en calls s rule: session.induct)
  case (2 en te sn name args ctx calls s)
  then obtain r t ctx' where t: "run_tool te sn (store_ops en sn) name args s ctx = Some (r, t, ctx')" "session en calls t = Some s'"
    by (auto split: option.splits)
  then have "keeps_cache en sn G s t" using caching.keeps_tool unfolding keeps_def by blast
  with 2 t show ?case by (auto simp: keeps_cache_def)
qed simp

text \<open>
  C13: The code graph kept between calls is never stale: after any calls on snapshots of any generations, newer or older,
  a call is given exactly the graph that its own snapshot would build, as long as a generation determines its graph.
\<close>

theorem resident_graph_never_stale:
  assumes "\<forall>(te, sn, name, args, ctx) \<in> set calls. snapshot_graph en sn = G (sn_source sn)"
    and "session en calls s = Some s'" "resident_graph s = None" "snapshot_graph en sn = G (sn_source sn)"
  shows "\<exists>t. resident_code_graph en sn s' = Some (snapshot_graph en sn, t)"
  using resident_graph_fresh [OF session_cache [OF assms(1,2)] assms(4)] assms(3) by (auto simp: cache_ok_def)


subsection \<open>Deadlines and cancellation\<close>

definition stopped :: "tool_ctx \<Rightarrow> bool" where
  "stopped ctx \<longleftrightarrow> (case world ctx (gates ctx) of (now, cancelled) \<Rightarrow>
     cancelled \<or> hard (cdeadline ctx) \<le> observed_elapsed ctx now)"

definition caps_ordered :: "caps \<Rightarrow> bool" where
  "caps_ordered c \<longleftrightarrow> 1 \<le> max_k c \<and> 1 \<le> max_depth c \<and> min_tokens c \<le> max_tokens c"

definition gives_up :: "('s, 'a) handler \<Rightarrow> 's \<Rightarrow> tool_ctx \<Rightarrow> bool" where
  "gives_up h s ctx \<longleftrightarrow> (\<exists>e ctx'. h s ctx = Some (Inl e, s, ctx') \<and> code e \<in> {TIMEOUT, INVALID_ARGUMENT})"

lemma gives_up_hbind: "gives_up m s ctx \<Longrightarrow> gives_up (hbind m k) s ctx"
  by (auto simp: gives_up_def hbind_def)

lemma gives_up_later: "m s ctx = Some (Inr x, s, ctx) \<Longrightarrow> gives_up (k x) s ctx \<Longrightarrow> gives_up (hbind m k) s ctx"
  by (simp add: gives_up_def hbind_def)

lemma gives_up_sum:
  assumes "\<And>e. r = Inl e \<Longrightarrow> code e = INVALID_ARGUMENT" "\<And>x. gives_up (k x) s ctx"
  shows "gives_up (hbind (hsum r) k) s ctx"
  using assms by (cases r) (auto simp: gives_up_def hbind_def hsum_def)

lemma code_invalid: "code (invalid_argument m) = INVALID_ARGUMENT"
  by (simp add: invalid_argument_def with_retryable_def)

lemma require_str_code: "require_str args key = Inl e \<Longrightarrow> code e = INVALID_ARGUMENT"
  by (auto simp: require_str_def code_invalid split: option.splits if_splits)

lemma gives_up_require: "(\<And>x. gives_up (k x) s ctx) \<Longrightarrow> gives_up (hbind (hsum (require_str args key)) k) s ctx"
  using require_str_code by (rule gives_up_sum)

lemma gives_up_staged: "stopped ctx \<Longrightarrow> gives_up (staged t x m) s ctx"
  by (auto simp: gives_up_def staged_def hbind_def from_tool_def continue_stage_def tbind_def stage_gate_def stopped_def
      observed_elapsed_def timeout_def with_retryable_def Let_def split: prod.splits)

lemma gives_up_clamped:
  assumes "f (ccaps ctx) i = Some n" "\<And>n. gives_up (k n) s ctx"
  shows "gives_up (hbind (clamped f i) k) s ctx"
  by (rule gives_up_later [OF _ assms(2)]) (simp add: clamped_def hbind_def hget_def hopt_def assms(1))

lemma clamps_defined:
  assumes "caps_ordered c"
  shows "\<exists>n. clamp_k c i = Some n" "\<exists>n. clamp_depth c i = Some n" "\<exists>n. clamp_tokens c i = Some n"
  using assms by (simp_all add: caps_ordered_def clamp_k_def clamp_depth_def clamp_tokens_def Caps.clamp_def)

lemma gives_up_clamps:
  assumes "caps_ordered (ccaps ctx)" "\<And>n. gives_up (k n) s ctx"
  shows "gives_up (hbind (clamped clamp_k i) k) s ctx" "gives_up (hbind (clamped clamp_depth i) k) s ctx"
    "gives_up (hbind (clamped clamp_tokens i) k) s ctx"
proof -
  obtain a b c where "clamp_k (ccaps ctx) i = Some a" "clamp_depth (ccaps ctx) i = Some b" "clamp_tokens (ccaps ctx) i = Some c"
    using clamps_defined [OF assms(1), of i] by blast
  then show "gives_up (hbind (clamped clamp_k i) k) s ctx" "gives_up (hbind (clamped clamp_depth i) k) s ctx"
    "gives_up (hbind (clamped clamp_tokens i) k) s ctx"
    by (auto intro: gives_up_clamped [OF _ assms(2)])
qed

lemma gives_up_fail: "code e = INVALID_ARGUMENT \<Longrightarrow> gives_up (hfail e) s ctx"
  by (simp add: gives_up_def hfail_def)

text \<open>
  C27: A call that is cancelled or past its hard deadline at its first gate ends with a timeout (or with an invalid
  argument found before the gate), and has not used the engine at all.
\<close>

theorem expired_call_touches_nothing:
  assumes "stopped ctx" "caps_ordered (ccaps ctx)"
  shows "\<exists>e ctx'. run_tool te sn E name args s ctx = Some (Inl e, s, ctx') \<and> code e \<in> {TIMEOUT, INVALID_ARGUMENT}"
proof -
  note stop = gives_up_staged [OF assms(1)] gives_up_clamps [OF assms(2)]
  have "gives_up (symbol_search E args) s ctx" "gives_up (semantic_search E args) s ctx" "gives_up (discover_symbols E args) s ctx"
    unfolding symbol_search_def semantic_search_def discover_symbols_def
    by (intro gives_up_require stop(2) gives_up_hbind [OF stop(1)])+
  moreover have "gives_up (diffuse_context E args) s ctx" "gives_up (retrieve_context_capsule te sn E args) s ctx"
    unfolding diffuse_context_def retrieve_context_capsule_def capsule_stages_def Let_def
    by (intro gives_up_require stop(2,4) gives_up_hbind [OF stop(1)])+
  moreover have "gives_up (symbol_lookup E args) s ctx"
    unfolding symbol_lookup_def by (intro gives_up_require stop(1))
  moreover have "gives_up (dependency_trace E args) s ctx"
    unfolding dependency_trace_def Let_def
    by (auto intro!: gives_up_require stop(3) gives_up_hbind [OF stop(1)] gives_up_fail simp: code_invalid)
  moreover have "gives_up (resolve_symbols E args) s ctx"
  proof (cases "arg_strings args ''symbol_ids''")
    case (Some ids)
    have "gives_up (hbind (hsum (check_resolve_ids (ccaps ctx) (length ids))) (\<lambda>_. staged ''resolve_symbols'' x m)) s ctx" for x m
      by (rule gives_up_sum) (auto simp: check_resolve_ids_def code_invalid stop(1) split: if_splits)
    then show ?thesis
      by (simp add: resolve_symbols_def Some) (rule gives_up_later, simp add: hget_def, assumption)
  qed (simp add: resolve_symbols_def gives_up_fail code_invalid)
  moreover have "gives_up (trace_blast_radius te sn E args) s ctx"
    unfolding trace_blast_radius_def
    by (cases "blast_target args") (simp_all add: gives_up_fail code_invalid stop(1))
  moreover have "gives_up (analyze_patch_impact te sn E args) s ctx" "gives_up (inspect_symbol_complexity te sn E args) s ctx"
    "gives_up (suggest_optimal_refactor te sn E args) s ctx"
    unfolding analyze_patch_impact_def inspect_symbol_complexity_def suggest_optimal_refactor_def by (rule stop(1))+
  ultimately have "gives_up (run_tool te sn E name args) s ctx"
    unfolding run_tool_def by (simp add: gives_up_fail code_invalid)
  then show ?thesis by (simp add: gives_up_def)
qed


subsection \<open>The context capsule's budget and flag\<close>

lemma hbindD:
  assumes "hbind m k s ctx = Some (Inr v, s', ctx')"
  shows "\<exists>x t c. m s ctx = Some (Inr x, t, c) \<and> k x t c = Some (Inr v, s', ctx')"
  using assms by (auto simp: hbind_def split: option.splits sum.splits)

lemma hoptD: "hopt r s ctx = Some (Inr x, t, c) \<Longrightarrow> r = Some x"
  by (auto simp: hopt_def)

lemma hbind_hsumD: "hbind (hsum r) k s ctx = Some (Inr v, s', ctx') \<Longrightarrow> \<exists>x. k x s ctx = Some (Inr v, s', ctx')"
  by (auto simp: hbind_def hsum_def split: sum.splits)

lemma hbind_clampedD:
  "hbind (clamped f i) k s ctx = Some (Inr v, s', ctx') \<Longrightarrow> \<exists>n. f (ccaps ctx) i = Some n \<and> k n s ctx = Some (Inr v, s', ctx')"
  by (cases "f (ccaps ctx) i") (auto simp: hbind_def clamped_def hget_def hopt_def)

lemma capsule_answerD:
  assumes "capsule_answer te sn task budget composed by_id s c = Some (Inr v, s', ctx')"
  shows "\<exists>mode reports found text. v = capsule_json task mode budget reports found text \<and> length text \<le> 4 * budget"
proof -
  have "length t \<le> 4 * budget" if "truncate_chars (budget * 4) x = Some t" for x t
    using that by (auto simp: truncate_chars_def split: if_splits)
  then show ?thesis
    using assms unfolding capsule_answer_def Let_def by (auto dest!: hbindD hoptD simp: hret_def) blast
qed

text \<open>
  C28: The excerpts of a capsule fill at most four bytes per token of the budget, which is the caller's wish clamped to
  the server's caps, and the reported estimate is within it.
\<close>

theorem capsule_in_budget:
  assumes "retrieve_context_capsule te sn E args s ctx = Some (Inr v, s', ctx')"
  shows "\<exists>budget text n. clamp_tokens (ccaps ctx) (or_default (arg_i64 args ''max_tokens'') 8000) = Some budget
    \<and> jget v ''compressed_context'' = Some (JStr text) \<and> length text \<le> 4 * budget
    \<and> jget v ''token_estimate'' = Some (JInt (int n)) \<and> n \<le> budget"
proof -
  obtain task budget where b: "clamp_tokens (ccaps ctx) (or_default (arg_i64 args ''max_tokens'') 8000) = Some budget"
    and a: "capsule_stages te sn E task budget s ctx = Some (Inr v, s', ctx')"
    using assms unfolding retrieve_context_capsule_def by (blast dest: hbind_hsumD hbind_clampedD)
  obtain composed by_id s0 c0 where "capsule_answer te sn task budget composed by_id s0 c0 = Some (Inr v, s', ctx')"
    using a unfolding capsule_stages_def Let_def by (blast dest: hbindD)
  from capsule_answerD [OF this] obtain mode reports found excerpts where
    v: "v = capsule_json task mode budget reports found excerpts" "length excerpts \<le> 4 * budget" by blast
  then show ?thesis using b by (auto simp: capsule_json_def)
qed

text \<open>Handlers that leave the flag for semantic results alone, and what a handler's result satisfies.\<close>

definition quiet :: "('s, 'a) handler \<Rightarrow> bool" where
  "quiet h \<longleftrightarrow> (\<forall>s ctx r s' ctx'. h s ctx = Some (r, s', ctx') \<longrightarrow> semantic_included ctx' = semantic_included ctx)"

definition yields :: "('a \<Rightarrow> bool) \<Rightarrow> ('s, 'a) handler \<Rightarrow> bool" where
  "yields P h \<longleftrightarrow> (\<forall>s ctx x s' ctx'. h s ctx = Some (Inr x, s', ctx') \<longrightarrow> P x)"

lemma quiet_bind: "quiet m \<Longrightarrow> yields P m \<Longrightarrow> (\<And>x. P x \<Longrightarrow> quiet (k x)) \<Longrightarrow> quiet (hbind m k)"
  unfolding quiet_def yields_def hbind_def by (fastforce split: option.splits sum.splits)

lemma quiet_hbind: "quiet m \<Longrightarrow> (\<And>x. quiet (k x)) \<Longrightarrow> quiet (hbind m k)"
  by (rule quiet_bind [where P = "\<lambda>_. True"]) (simp_all add: yields_def)

lemma quiet_pure: "quiet (hret x)" "quiet (hfail e)" "quiet (hsum r)" "quiet (hopt y)" "quiet (hget f)" "quiet (from_engine m)"
    "quiet (note_included False)"
  by (auto simp: quiet_def hret_def hfail_def hsum_def hopt_def hget_def from_engine_def note_included_def
      split: option.splits sum.splits)

lemma quiet_stage: "quiet (from_tool (continue_stage t))"
  by (auto simp: quiet_def from_tool_def continue_stage_def tbind_def stage_gate_def ret_def Let_def split: prod.splits)

lemma quiet_staged: "quiet m \<Longrightarrow> quiet (staged t x m)"
  unfolding staged_def by (intro quiet_hbind quiet_stage) (simp add: quiet_pure)

lemma quiet_clamped: "quiet (clamped f i)"
  unfolding clamped_def by (intro quiet_hbind quiet_pure)

lemma quiet_hydrate: "quiet (hydrate_map E ids)"
  unfolding hydrate_map_def by (intro quiet_hbind quiet_pure)

lemmas quiet_rules = quiet_staged quiet_clamped quiet_hydrate quiet_pure

lemma yields_staged: "P x \<Longrightarrow> yields P m \<Longrightarrow> yields P (staged t x m)"
  by (auto simp: yields_def staged_def hbind_def hret_def split: option.splits sum.splits if_splits)

lemma layer_csar: "layer (csar_hit g nodes alpha p) = ''csar''"
  by (simp add: csar_hit_def Let_def case_prod_beta)

lemma diffused_layers: "yields (\<lambda>hits. \<forall>h \<in> set hits. layer h = ''csar'') (from_engine (en_diffuse (store_ops en sn) seeds k a eps))"
proof -
  have "layer h = ''csar''" if "diffuse_seed_hits sh it g seeds k a eps = Some (Inr hits)" "h \<in> set hits" for sh it g hits h
  proof (cases "approximate_ppr_push sh g (build_seed_distribution seeds g) a eps")
    case (Some r)
    with that show ?thesis by (cases r) (auto simp: diffuse_seed_hits_def Let_def layer_csar split: if_splits)
  qed (use that in \<open>simp add: diffuse_seed_hits_def Let_def split: if_splits\<close>)
  then show ?thesis
    by (auto simp: yields_def from_engine_def store_ops_def engine_diffuse_def split: option.splits sum.splits prod.splits)
qed

lemma composed_layers:
  assumes "\<forall>h \<in> set csar. layer h = ''csar''" "h \<in> set (compose_capsule_with_edges layers csar [] k c flag)"
  shows "layer h \<noteq> ''semantic''"
proof -
  have "set (new_context k n seen hs) \<subseteq> set hs" for n seen hs
    by (induction k n seen hs rule: new_context.induct) auto
  then have "set (compose_capsule_with_edges layers csar [] k c flag) \<subseteq> set (rrf_fuse layers k c) \<union> set csar"
    by (auto simp: compose_capsule_with_edges_def compose_capsule_def Let_def)
  then have "h \<in> set (rrf_fuse layers k c) \<or> h \<in> set csar" using assms(2) by blast
  moreover have "layer h' = ''fused''" if "h' \<in> set (rrf_fuse layers k c)" for h'
    using that by (auto simp: rrf_fuse_def Let_def fused_hit_def split: if_splits)
  ultimately show ?thesis
    using assms(1) by fastforce
qed

lemma hydrated_hits_subset: "(h, s) \<in> set (hydrated_hits by_id hits) \<Longrightarrow> h \<in> set hits"
  by (auto simp: hydrated_hits_def in_map_filter)

lemma quiet_answer:
  assumes "\<forall>h \<in> set csar. layer h = ''csar''"
  shows "quiet (capsule_answer te sn task budget (compose_capsule_with_edges ls csar [] k c flag) by_id)"
proof -
  have "(\<exists>(h, _) \<in> set (hydrated_hits by_id (compose_capsule_with_edges ls csar [] k c flag)). layer h = ''semantic'') = False"
    using composed_layers [OF assms] hydrated_hits_subset by fastforce
  note none = this
  show ?thesis unfolding capsule_answer_def Let_def none by (intro quiet_hbind quiet_rules)
qed

text \<open>
  A context capsule never says that it includes semantic results, although they are among its layers: fusion gives
  every hit the layer \<open>fused\<close>, and the handler tests for the layer \<open>semantic\<close>.
\<close>

theorem capsule_never_notes_semantic:
  "quiet (retrieve_context_capsule te sn (store_ops en sn) args)"
proof -
  have tail: "quiet (hbind (staged ''retrieve_context_capsule'' []
            (from_engine (en_diffuse (store_ops en sn) [lexical, semantic] CSAR_SEED_K CSAR_ALPHA CSAR_EPS))) (\<lambda>csar.
          hbind (hget (\<lambda>s _. en_edge_context (store_ops en sn) s)) (\<lambda>edge_context.
          hbind (staged ''retrieve_context_capsule'' [] (hydrate_map (store_ops en sn)
                  (hit_ids [compose_capsule_with_edges [lexical, semantic] csar [] k DEFAULT_RRF_K edge_context])))
            (capsule_answer te sn task budget (compose_capsule_with_edges [lexical, semantic] csar [] k DEFAULT_RRF_K edge_context)))))"
    for lexical semantic task budget k
    by (rule quiet_bind [OF quiet_staged yields_staged [where P = "\<lambda>hits. \<forall>h \<in> set hits. layer h = ''csar''"]])
       (auto intro!: quiet_hbind quiet_rules quiet_answer simp: diffused_layers)
  have choice: "quiet (if b then from_engine m else hret [])" for b m
    by (simp add: quiet_pure)
  have "quiet (capsule_stages te sn (store_ops en sn) task budget)" for task budget
    unfolding capsule_stages_def Let_def
    by (rule quiet_hbind [OF quiet_staged [OF quiet_pure(6)]], rule quiet_hbind [OF quiet_staged [OF quiet_hbind [OF quiet_pure(5)]]], rule choice, rule tail)
  then show ?thesis
    unfolding retrieve_context_capsule_def by (intro quiet_hbind quiet_rules)
qed


subsection \<open>Resolving ids\<close>

lemma map_of_hydrated:
  assumes "distinct (map sid ss)"
  shows "map_of (fold (\<lambda>s. AList.update (sid s) s) ss []) i = find (\<lambda>s. sid s = i) ss"
proof -
  have "find (\<lambda>s. sid s = i) (rev ss) = find (\<lambda>s. sid s = i) ss"
  proof (cases "find (\<lambda>s. sid s = i) ss")
    case (Some x)
    then have "x \<in> set (rev ss)" "sid x = i" by (auto simp: find_Some_iff)
    with find_unique [of sid "rev ss" x] assms Some show ?thesis by (simp add: rev_map [symmetric])
  next
    case None
    then have "find (\<lambda>s. sid s = i) (rev ss) = None" by (simp add: find_None_iff)
    then show ?thesis using None by simp
  qed
  then show ?thesis by (simp add: map_of_fold_update split: option.split)
qed

lemma staged_result:
  assumes "staged t x m s ctx = Some (Inr v, s', ctx')"
  shows "(v = x \<and> truncated ctx') \<or> (\<exists>c. m s c = Some (Inr v, s', ctx'))"
proof -
  obtain d c where g: "stage_gate t ctx = (Inr d, c)" "d = Truncate \<longrightarrow> truncated c"
    and m: "(if d = Continue then m else hret x) s c = Some (Inr v, s', ctx')"
    using assms
    by (auto simp: staged_def hbind_def from_tool_def continue_stage_def tbind_def ret_def stage_gate_def Let_def
        split: prod.splits if_splits)
  then show ?thesis by (cases d) (auto simp: hret_def)
qed

lemma found_and_missing:
  "length (List.map_filter f xs) + length (filter (\<lambda>x. f x = None) xs) = length xs"
  by (induction xs) (auto simp: List.map_filter_simps split: option.split)

lemma hydrate_mapD:
  assumes "hydrate_map (store_ops en sn) ids s c = Some (Inr by_id, t, c')" "db_ok (sn_db sn)"
  shows "map_of by_id i = (if i \<in> set ids then find (\<lambda>s. sid s = i) (list_symbols (sn_db sn)) else None)"
proof -
  let ?rows = "filter (\<lambda>s. sid s \<in> set ids) (list_symbols (sn_db sn))"
  have "engine_hydrate sn ids = ?rows"
    using symbols_by_values_filter [OF assms(2), of ColId ids] by (simp add: engine_hydrate_def)
  then have b: "by_id = fold (\<lambda>s. AList.update (sid s) s) ?rows []"
    using assms(1) by (auto simp: hydrate_map_def hbind_def from_engine_def store_ops_def hret_def)
  have "sorted_wrt (<) (map sid (list_symbols (sn_db sn)))"
    using db_ok_symbols(2) [OF assms(2)] by (simp add: sorted_wrt_map)
  then have "distinct (map sid ?rows)" by (simp add: strict_sorted_iff distinct_map_filter)
  from map_of_hydrated [OF this, of i] show ?thesis
    unfolding b by (auto simp: find_filter find_None_iff intro!: find_same)
qed

text \<open>
  Every id asked for is accounted for, in order and with its repetitions: the answer holds the stored symbols of those
  that exist and lists the others as missing (all of them if the call was truncated); more ids than the cap are refused.
\<close>

theorem resolve_accounts_for_ids:
  assumes "resolve_symbols (store_ops en sn) args s ctx = Some (Inr v, s', ctx')" "db_ok (sn_db sn)"
  shows "\<exists>ids found missing. arg_strings args ''symbol_ids'' = Some ids \<and> length ids \<le> max_resolve_ids (ccaps ctx)
    \<and> v = resolved_json ids found missing \<and> length found + length missing = length ids
    \<and> set (map sid found) \<union> set missing = set ids \<and> set found \<subseteq> set (list_symbols (sn_db sn))
    \<and> (truncated ctx' \<or> set missing \<inter> sid ` set (list_symbols (sn_db sn)) = {})"
proof -
  let ?db = "sn_db sn"
  obtain ids where ids: "arg_strings args ''symbol_ids'' = Some ids"
    using assms(1) by (auto simp: resolve_symbols_def hfail_def split: option.splits)
  have "\<exists>u. check_resolve_ids (ccaps ctx) (length ids) = Inr u \<and>
    staged ''resolve_symbols'' (resolved_json ids [] ids)
      (hbind (hydrate_map (store_ops en sn) ids) (\<lambda>by_id. hret (resolved_json ids (List.map_filter (map_of by_id) ids)
         (filter (\<lambda>i. map_of by_id i = None) ids)))) s ctx = Some (Inr v, s', ctx')"
    using assms(1) by (auto simp: resolve_symbols_def ids hbind_def [of "hget _"] hbind_def [of "hsum _"] hget_def hsum_def split: sum.splits)
  then have len: "length ids \<le> max_resolve_ids (ccaps ctx)" and st: "staged ''resolve_symbols'' (resolved_json ids [] ids)
      (hbind (hydrate_map (store_ops en sn) ids) (\<lambda>by_id. hret (resolved_json ids (List.map_filter (map_of by_id) ids)
         (filter (\<lambda>i. map_of by_id i = None) ids)))) s ctx = Some (Inr v, s', ctx')"
    by (auto simp: check_resolve_ids_def split: if_splits)
  from staged_result [OF st] show ?thesis
  proof
    assume "v = resolved_json ids [] ids \<and> truncated ctx'"
    then show ?thesis using ids len by (intro exI [of _ ids] exI [of _ "[]"]) simp
  next
    assume "\<exists>c. hbind (hydrate_map (store_ops en sn) ids) (\<lambda>by_id. hret (resolved_json ids (List.map_filter (map_of by_id) ids)
         (filter (\<lambda>i. map_of by_id i = None) ids))) s c = Some (Inr v, s', ctx')"
    then obtain by_id t c c' where b: "hydrate_map (store_ops en sn) ids s c = Some (Inr by_id, t, c')"
      and v: "v = resolved_json ids (List.map_filter (map_of by_id) ids) (filter (\<lambda>i. map_of by_id i = None) ids)"
      by (auto dest!: hbindD simp: hret_def)
    note look = hydrate_mapD [OF b assms(2)]
    have "x \<in> set (list_symbols ?db) \<and> sid x = i" if "map_of by_id i = Some x" for i x
      using that look [of i] by (auto simp: find_Some_iff split: if_splits)
    then have "set (map sid (List.map_filter (map_of by_id) ids)) = {i \<in> set ids. map_of by_id i \<noteq> None}"
      "set (List.map_filter (map_of by_id) ids) \<subseteq> set (list_symbols ?db)"
      by (force simp: in_map_filter)+
    moreover have "set (filter (\<lambda>i. map_of by_id i = None) ids) \<inter> sid ` set (list_symbols ?db) = {}"
      using look by (auto simp: find_None_iff split: if_splits)
    ultimately show ?thesis
      using ids len v found_and_missing [of "map_of by_id" ids]
      by (intro exI [of _ ids] exI [of _ "List.map_filter (map_of by_id) ids"] exI [of _ "filter (\<lambda>i. map_of by_id i = None) ids"]) auto
  qed
qed

subsection \<open>The size of the subgraph\<close>

text \<open>What the hops keep: ids are listed once, within the cap or the seeds; edges once, incident to what was seen.\<close>

definition expanded :: "database \<Rightarrow> string list \<Rightarrow> expansion \<Rightarrow> bool" where
  "expanded db ids x \<longleftrightarrow> distinct (x_seen x) \<and> length (x_seen x) \<le> max ANALYSIS_SUBGRAPH_CAP (length ids)
     \<and> set ids \<subseteq> set (x_seen x) \<and> set (x_next x) \<subseteq> set (x_seen x) \<and> distinct (map edge_key (x_edges x))
     \<and> (\<forall>e \<in> set (x_edges x). e \<in> set (list_edges db) \<and> ekind e \<noteq> Imports \<and> (src_id e \<in> set (x_seen x) \<or> dst_id e \<in> set (x_seen x)))"

lemma see_node_fields: "x_edges (see_node i x) = x_edges x" "set (x_seen x) \<subseteq> set (x_seen (see_node i x))"
  by (auto simp: see_node_def)

lemma expanded_see: "expanded db ids x \<Longrightarrow> expanded db ids (see_node i x)"
  unfolding expanded_def see_node_def by auto

lemma expanded_edge:
  assumes "expanded db ids x" "e \<in> set (list_edges db)" "src_id e \<in> set (x_seen x) \<or> dst_id e \<in> set (x_seen x)"
  shows "expanded db ids (expand_edge e x) \<and> set (x_seen x) \<subseteq> set (x_seen (expand_edge e x))"
proof -
  let ?y = "see_node (dst_id e) (see_node (src_id e) x)"
  have y: "expanded db ids ?y" "x_edges ?y = x_edges x" "set (x_seen x) \<subseteq> set (x_seen ?y)"
    using expanded_see [OF expanded_see [OF assms(1)]] see_node_fields by (simp, simp add: see_node_fields, meson subset_trans)
  then have "expanded db ids (?y\<lparr>x_edges := x_edges ?y @ [e]\<rparr>)" if "ekind e \<noteq> Imports" "edge_key e \<notin> edge_key ` set (x_edges x)"
    using that assms(2,3) unfolding expanded_def by auto
  then show ?thesis using assms(1) y(3) by (simp add: expand_edge_def Let_def)
qed

lemma expanded_hops:
  assumes "db_ok db" "expanded db ids x" "set frontier \<subseteq> set (x_seen x)"
  shows "expanded db ids (expand_hops db n frontier x)"
  using assms(2,3)
proof (induction n arbitrary: frontier x)
  case (Suc n)
  let ?x = "x\<lparr>x_next := []\<rparr>" and ?es = "edges_incident db frontier Both"
  have start: "expanded db ids ?x" "set frontier \<subseteq> set (x_seen ?x)" using Suc.prems by (auto simp: expanded_def)
  have "expanded db ids (fold expand_edge ?es ?x) \<and> set frontier \<subseteq> set (x_seen (fold expand_edge ?es ?x))"
  proof (rule fold_inv [where P = "\<lambda>y. expanded db ids y \<and> set frontier \<subseteq> set (x_seen y)"])
    fix e y assume e: "e \<in> set ?es" and y: "expanded db ids y \<and> set frontier \<subseteq> set (x_seen y)"
    have "e \<in> set (list_edges db)" "src_id e \<in> set frontier \<or> dst_id e \<in> set frontier"
      using e by (auto simp: edges_incident_filter [OF assms(1)] incident_def)
    then show "expanded db ids (expand_edge e y) \<and> set frontier \<subseteq> set (x_seen (expand_edge e y))"
      using expanded_edge [of db ids y e] y by blast
  qed (use start in simp)
  then have "expanded db ids (fold expand_edge ?es ?x)" "set (x_next (fold expand_edge ?es ?x)) \<subseteq> set (x_seen (fold expand_edge ?es ?x))"
    by (simp_all add: expanded_def)
  then show ?case using Suc.IH Suc.prems(1) by (simp add: Let_def)
qed simp

text \<open>
  The hops around the seeds add ids only up to the cap of 96 (more seeds than that are kept, but not expanded), list no
  id or edge twice, follow no import, and bring only stored edges that touch an id of the subgraph.
\<close>

theorem subgraph_bounded:
  assumes "db_ok db" "distinct ids" "x = expand_hops db 2 ids \<lparr>x_seen = ids, x_next = [], x_edges = []\<rparr>"
  shows "distinct (x_seen x) \<and> length (x_seen x) \<le> max ANALYSIS_SUBGRAPH_CAP (length ids) \<and> set ids \<subseteq> set (x_seen x)
    \<and> distinct (map edge_key (x_edges x))
    \<and> (\<forall>e \<in> set (x_edges x). e \<in> set (list_edges db) \<and> ekind e \<noteq> Imports
         \<and> (src_id e \<in> set (x_seen x) \<or> dst_id e \<in> set (x_seen x)))"
proof -
  have "expanded db ids \<lparr>x_seen = ids, x_next = [], x_edges = []\<rparr>" using assms(2) by (simp add: expanded_def)
  from expanded_hops [OF assms(1) this, of ids 2] show ?thesis unfolding assms(3) expanded_def by simp
qed

subsection \<open>Sample calls\<close>

definition sample_tools :: tools_env where
  "sample_tools = \<lparr>te_shadow = sample_shadow, te_symbols = id, te_ids = id, te_lowercase = to_ascii_lowercase\<rparr>"

text \<open>The clock stands still at \<open>now\<close> nanoseconds: the soft deadline is at five seconds, the hard one at ten.\<close>

definition sample_ctx :: "nat \<Rightarrow> tool_ctx" where
  "sample_ctx now = ctx_new default_caps (1, 0, 0) (deadline_start default_caps 0) (\<lambda>_. (now, False))"

definition sample_query :: json where
  "sample_query = JObj [(''query'', JStr ''a''), (''task'', JStr ''a''), (''symbol_ids'', JArr [JStr ''a'', JStr ''z''])]"

lemma hbind_hsum: "hbind (hsum (Inr x)) k s ctx = k x s ctx"
  by (simp add: hbind_def hsum_def)

lemma hbind_engine: "m s = Some (Inr x, t) \<Longrightarrow> hbind (from_engine m) k s ctx = k x t ctx"
  by (simp add: hbind_def from_engine_def)

lemma hbind_pure: "hbind (hret x) k s ctx = k x s ctx" "hbind (hget f) k s ctx = k (f s ctx) s ctx"
  "hbind (hopt (Some x)) k s ctx = k x s ctx" "hbind (note_included b) k' s ctx = k' () s (if b then note_semantic_included ctx else ctx)"
  "hret x s ctx = Some (Inr x, s, ctx)"
  by (simp_all add: hbind_def hret_def hget_def hopt_def note_included_def)

text \<open>An engine that panics when it is used.\<close>

definition no_engine :: "unit retrieval_engine" where
  "no_engine = \<lparr>en_fts = (\<lambda>_ _ _. None), en_semantic = (\<lambda>_ _ _. None), en_diffuse = (\<lambda>_ _ _ _ _. None), en_hydrate = (\<lambda>_ _. None),
     en_lookup = (\<lambda>_ _ _. None), en_trace = (\<lambda>_ _ _ _. None), en_graph = (\<lambda>_. None), en_semantic_available = (\<lambda>_. True),
     en_edge_context = (\<lambda>_. False)\<rparr>"

lemma sample_arguments: "require_str sample_query ''query'' = Inr ''a''" "require_str sample_query ''task'' = Inr ''a''"
  "arg_i64 sample_query ''k'' = None" "arg_i64 sample_query ''max_tokens'' = None"
  "arg_strings sample_query ''symbol_ids'' = Some [''a'', ''z'']"
  by code_simp+

lemma sample_gate:
  "from_tool (continue_stage t) s ((sample_ctx 0)\<lparr>gates := n\<rparr>) = Some (Inr True, s, (sample_ctx 0)\<lparr>gates := Suc n\<rparr>)"
  "from_tool (continue_stage t) s ((sample_ctx (6000000000))\<lparr>gates := n, truncated := b\<rparr>)
     = Some (Inr False, s, (sample_ctx (6000000000))\<lparr>gates := Suc n, truncated := True\<rparr>)"
  by (simp_all add: from_tool_def continue_stage_def tbind_def stage_gate_def ret_def sample_ctx_def ctx_new_def deadline_start_def
      observed_elapsed_def elapsed_def default_caps_def DEFAULT_HARD_TIMEOUT_def DEFAULT_SOFT_TIMEOUT_def Caps.secs_def Let_def)

lemma sample_stage:
  "hbind (staged t x m) k s ((sample_ctx 0)\<lparr>gates := n\<rparr>) = hbind m k s ((sample_ctx 0)\<lparr>gates := Suc n\<rparr>)"
  "hbind (staged t x m) k s ((sample_ctx (6000000000))\<lparr>gates := n, truncated := b\<rparr>)
     = k x s ((sample_ctx (6000000000))\<lparr>gates := Suc n, truncated := True\<rparr>)"
  unfolding hbind_def staged_def sample_gate by (simp_all add: hret_def)

lemma sample_ctx_self: "sample_ctx now = (sample_ctx now)\<lparr>gates := 0\<rparr>" "sample_ctx now = (sample_ctx now)\<lparr>gates := 0, truncated := False\<rparr>"
  by (simp_all add: sample_ctx_def ctx_new_def)

lemma sample_caps: "hbind (clamped clamp_k 10) k s ((sample_ctx now)\<lparr>gates := n\<rparr>) = k 10 s ((sample_ctx now)\<lparr>gates := n\<rparr>)"
  "hbind (clamped clamp_tokens 8000) k' s ((sample_ctx now)\<lparr>gates := n, truncated := b\<rparr>) = k' 8000 s ((sample_ctx now)\<lparr>gates := n, truncated := b\<rparr>)"
  by (simp_all add: hbind_def clamped_def hget_def hopt_def sample_ctx_def ctx_new_def default_caps_def clamp_k_def clamp_tokens_def
      Caps.clamp_def MAX_K_def MAX_TOKENS_def MIN_TOKENS_def)

lemma sample_space: "\<not> vector_space_allows sample_snapshot s"
  by (simp add: vector_space_allows_def guard_def sample_snapshot_def sample_store_def upsert_edge_def upsert_symbol_def empty_database_def)


lemma sample_semantic_result: "en_semantic (store_ops sample_engine_env sample_snapshot) q k s = Some (Inr [], s)"
  by (simp add: store_ops_def engine_semantic_search_def sample_space)

lemma sample_no_ids: "hydrate_map (store_ops sample_engine_env sample_snapshot) [] s ctx = Some (Inr [], s, ctx)"
  by (simp add: hydrate_map_def hbind_def from_engine_def hret_def store_ops_def engine_hydrate_def)

lemma hbind_value: "m s ctx = Some (Inr x, t, c) \<Longrightarrow> hbind m k s ctx = k x t c"
  by (simp add: hbind_def)

lemma sample_semantic:
  "\<exists>s ctx. run_tool sample_tools sample_snapshot (store_ops sample_engine_env sample_snapshot) ''semantic_search'' sample_query
     (engine_new ''d'') (sample_ctx 0) = Some (Inr (JArr []), s, ctx) \<and> resident_graph s = None"
proof -
  show ?thesis
    by (subst sample_ctx_self(1)) (simp add: run_tool_def semantic_search_def sample_arguments or_default_def DEFAULT_K_def sample_caps sample_stage hbind_hsum
        hbind_engine sample_semantic_result hit_ids_def hydrated_hits_def List.map_filter_def note_included_def hbind_pure engine_new_def
        hbind_value [OF sample_no_ids])
qed

lemma sample_capsule:
  "\<exists>v s ctx. retrieve_context_capsule sample_tools sample_snapshot no_engine sample_query () (sample_ctx 6000000000) = Some (Inr v, s, ctx)"
proof -
  obtain rs where rs: "analyze_workspace_complexity sample_walk [] (edges_incident (sn_db sample_snapshot) [] Both) Map.empty = Some rs"
    using analysis_returns by fast
  have none: "compose_capsule_with_edges [[], []] [] [] k c b = []" for k c b
    by (simp add: compose_capsule_with_edges_def compose_capsule_def rrf_fuse_def group_by_layer_def)
  have walk: "se_analyze (te_shadow sample_tools) = sample_walk"
    by (simp add: sample_tools_def sample_shadow_def)
  have parts: "te_symbols sample_tools [] = []" "hit_ids [[]] = []" "truncate_chars n [] = Some []" for n
    by (simp_all add: sample_tools_def hit_ids_def truncate_chars_def)
  show ?thesis
    by (subst sample_ctx_self(2)) (simp add: retrieve_context_capsule_def capsule_stages_def sample_arguments or_default_def sample_caps sample_stage hbind_hsum
        hbind_pure Let_def none capsule_answer_def hydrated_hits_def List.map_filter_def  walk
        parts rs hbind_pure)
qed


theorem mismatched_space_is_never_scored_witness:
  "\<exists>r s ctx. run_tool sample_tools sample_snapshot (store_ops sample_engine_env sample_snapshot) ''semantic_search'' sample_query
     (engine_new ''d'') (sample_ctx 0) = Some (r, s, ctx) \<and> model s = model (engine_new ''d'')"
proof -
  obtain s ctx where run: "run_tool sample_tools sample_snapshot (store_ops sample_engine_env sample_snapshot) ''semantic_search''
     sample_query (engine_new ''d'') (sample_ctx 0) = Some (Inr (JArr []), s, ctx)" using sample_semantic by blast
  then show ?thesis using mismatched_space_is_never_scored [OF sample_space run] by blast
qed

theorem resident_graph_never_stale_witness:
  "\<exists>s t. session sample_engine_env [(sample_tools, sample_snapshot, ''semantic_search'', sample_query, sample_ctx 0)] (engine_new ''d'') = Some s
     \<and> resident_code_graph sample_engine_env sample_snapshot s = Some (snapshot_graph sample_engine_env sample_snapshot, t)"
proof -
  obtain s where run: "session sample_engine_env [(sample_tools, sample_snapshot, ''semantic_search'', sample_query, sample_ctx 0)]
      (engine_new ''d'') = Some s"
    using sample_semantic by auto
  have "resident_graph (engine_new ''d'') = None" by (simp add: engine_new_def)
  with resident_graph_never_stale [where G = "\<lambda>_. snapshot_graph sample_engine_env sample_snapshot", OF _ run] show ?thesis
    using run by auto
qed

theorem expired_call_touches_nothing_witness:
  "\<exists>e ctx. run_tool sample_tools sample_snapshot no_engine ''symbol_search'' sample_query () (sample_ctx 60000000000) = Some (Inl e, (), ctx)"
proof -
  have "stopped (sample_ctx 60000000000)" "caps_ordered (ccaps (sample_ctx 60000000000))"
    by (simp_all add: stopped_def caps_ordered_def sample_ctx_def ctx_new_def deadline_start_def observed_elapsed_def elapsed_def
        default_caps_def DEFAULT_HARD_TIMEOUT_def DEFAULT_SOFT_TIMEOUT_def Caps.secs_def MAX_K_def MAX_TOKENS_def MIN_TOKENS_def MAX_DEPTH_def)
  from expired_call_touches_nothing [OF this, of sample_tools sample_snapshot no_engine "''symbol_search''" sample_query "()"]
  show ?thesis by auto
qed

theorem capsule_in_budget_witness:
  "\<exists>v s ctx n. retrieve_context_capsule sample_tools sample_snapshot no_engine sample_query () (sample_ctx 6000000000) = Some (Inr v, s, ctx)
     \<and> jget v ''token_estimate'' = Some (JInt (int n)) \<and> n \<le> 8000"
proof -
  obtain v s ctx where run: "retrieve_context_capsule sample_tools sample_snapshot no_engine sample_query () (sample_ctx 6000000000)
      = Some (Inr v, s, ctx)" using sample_capsule by blast
  have "clamp_tokens (ccaps (sample_ctx 6000000000)) 8000 = Some 8000"
    by (simp add: sample_ctx_def ctx_new_def default_caps_def clamp_tokens_def Caps.clamp_def MAX_TOKENS_def MIN_TOKENS_def)
  then show ?thesis using capsule_in_budget [OF run] run by (auto simp: sample_arguments or_default_def)
qed

lemma sample_staged: "staged t x m s ((sample_ctx 0)\<lparr>gates := n\<rparr>) = m s ((sample_ctx 0)\<lparr>gates := Suc n\<rparr>)"
  unfolding staged_def hbind_def sample_gate by simp

lemma sample_resolve:
  assumes "arg_strings args ''symbol_ids'' = Some ids" "check_resolve_ids (ccaps (sample_ctx 0)) (length ids) = Inr ()"
    and "\<And>c. hydrate_map E ids s c = Some (Inr by_id, s, c)"
  shows "resolve_symbols E args s (sample_ctx 0)
    = Some (Inr (resolved_json ids (List.map_filter (map_of by_id) ids) (filter (\<lambda>i. map_of by_id i = None) ids)), s, (sample_ctx 0)\<lparr>gates := 1\<rparr>)"
proof -
  have "check_resolve_ids (ccaps ((sample_ctx 0)\<lparr>gates := 0\<rparr>)) (length ids) = Inr ()" using assms(2) by simp
  then show ?thesis
    by (subst sample_ctx_self(1))
       (simp add: resolve_symbols_def assms(1) hbind_pure(2,5) hbind_hsum sample_staged hbind_def [of "hydrate_map E ids"] assms(3))
qed

theorem resolve_accounts_for_ids_witness:
  "\<exists>v s ctx found. resolve_symbols (store_ops sample_engine_env sample_snapshot) sample_query (engine_new ''d'') (sample_ctx 0) = Some (Inr v, s, ctx)
     \<and> v = resolved_json [''a'', ''z''] [found] [''z''] \<and> sid found = ''a''"
proof -
  obtain by_id where look: "hydrate_map (store_ops sample_engine_env sample_snapshot) [''a'', ''z''] s c = Some (Inr by_id, s, c)" for s c
    by (simp add: hydrate_map_def hbind_def from_engine_def hret_def store_ops_def)
  have ids: "check_resolve_ids (ccaps (sample_ctx 0)) (length [''a'', ''z'']) = Inr ()"
    by (simp add: check_resolve_ids_def sample_ctx_def ctx_new_def default_caps_def MAX_RESOLVE_IDS_def)
  let ?v = "resolved_json [''a'', ''z''] (List.map_filter (map_of by_id) [''a'', ''z'']) (filter (\<lambda>i. map_of by_id i = None) [''a'', ''z''])"
  have run: "resolve_symbols (store_ops sample_engine_env sample_snapshot) sample_query (engine_new ''d'') (sample_ctx 0)
      = Some (Inr ?v, engine_new ''d'', (sample_ctx 0)\<lparr>gates := 1\<rparr>)"
    by (rule sample_resolve [OF sample_arguments(5) ids look])
  obtain found missing where f: "?v = resolved_json [''a'', ''z''] found missing" "length found + length missing = 2"
    "set (map sid found) \<union> set missing = {''a'', ''z''}" "set found \<subseteq> set (list_symbols (sn_db sample_snapshot))"
    "set missing \<inter> sid ` set (list_symbols (sn_db sample_snapshot)) = {}"
    using resolve_accounts_for_ids [OF run db_ok_sample] by (auto simp: sample_arguments sample_ctx_def ctx_new_def)
  have stored: "sid ` set (list_symbols (sn_db sample_snapshot)) = {''a'', ''b''}"
    by (simp add: sample_rows flagged_symbol_def)
  have sub: "set (map sid found) \<subseteq> {''a'', ''b''}"
    using image_mono [OF f(4), of sid] unfolding stored by simp
  have "''z'' \<in> set (map sid found) \<union> set missing" "''a'' \<in> set (map sid found) \<union> set missing" unfolding f(3) by simp_all
  moreover have "''z'' \<notin> {''a'', ''b''}" by simp
  moreover have "''a'' \<notin> set missing" using f(5) unfolding stored by blast
  ultimately have z: "''z'' \<in> set missing" and a: "''a'' \<in> set (map sid found)" using sub by blast+
  have "0 < length found" "0 < length missing" using a z by (cases found, simp, simp, cases missing, simp, simp)
  then have "length found = Suc 0" "length missing = Suc 0" using f(2) by linarith+
  then obtain x y where xy: "found = [x]" "missing = [y]" by (metis length_0_conv length_Suc_conv)
  then have "missing = [''z'']" "sid x = ''a''" using z a by simp_all
  note xy(1) this
  then show ?thesis using run f(1) by auto
qed

theorem subgraph_bounded_witness:
  "length (x_seen (expand_hops (sn_db sample_snapshot) 2 [''a''] \<lparr>x_seen = [''a''], x_next = [], x_edges = []\<rparr>)) \<le> 96"
  using subgraph_bounded [OF db_ok_sample, of "[''a'']"] by (simp add: ANALYSIS_SUBGRAPH_CAP_def)

end
