(* ===== verification/Identity.thy ===== *)
theory Identity
  imports Json
begin

text \<open>
  Who may share a server: the repository identity (\<open>crates/cognis-core/src/identity.rs\<close>) and the model
  fingerprint (\<open>crates/cognis-embed/src/fingerprint.rs\<close>). SHA-256 is the argument \<open>sha\<close>; the file system is a record
  of what its calls answer; a path that has been parsed is the list of its components, as on Unix.
\<close>

subsection \<open>Digests\<close>

definition hex_digit :: "nat \<Rightarrow> char" where
  "hex_digit n = (if n < 10 then char_of (48 + n) else char_of (87 + n))"

definition hex_lower :: "u8 list \<Rightarrow> string" where
  "hex_lower bytes = concat (map (\<lambda>b. [hex_digit (unat b div 16), hex_digit (unat b mod 16)]) bytes)"

subsection \<open>Canonical paths\<close>

type_synonym components = "string list"

text \<open>\<open>Path::canonicalize\<close> answers only for a path that exists.\<close>

record fs_view =
  fs_cwd :: components
  fs_real :: "components \<Rightarrow> components option"
  fs_exists :: "components \<Rightarrow> bool"

definition path_text :: "components \<Rightarrow> string" where
  "path_text p = ''/'' @ join ''/'' p"

text \<open>\<open>file_name\<close> answers nothing for a path that ends in two dots.\<close>

definition file_name :: "components \<Rightarrow> string option" where
  "file_name p = (if p = [] \<or> last p = ''..'' then None else Some (last p))"

fun existing_ancestor :: "fs_view \<Rightarrow> nat \<Rightarrow> components \<Rightarrow> string list \<Rightarrow> (components \<times> string list) option" where
  "existing_ancestor fs 0 ancestor below = Some (ancestor, below)"
| "existing_ancestor fs (Suc n) ancestor below =
     (if fs_exists fs ancestor then Some (ancestor, below)
      else if ancestor = [] then None
      else existing_ancestor fs n (butlast ancestor)
             (case file_name ancestor of Some name \<Rightarrow> below @ [name] | None \<Rightarrow> below))"

definition canonicalize_via_existing_ancestor :: "fs_view \<Rightarrow> components \<Rightarrow> components" where
  "canonicalize_via_existing_ancestor fs absolute =
     (case existing_ancestor fs 4096 absolute [] of
        None \<Rightarrow> absolute
      | Some (ancestor, below) \<Rightarrow>
          (case fs_real fs ancestor of Some p \<Rightarrow> p | None \<Rightarrow> ancestor) @ rev below)"

definition strip_verbatim :: "string \<Rightarrow> string" where
  "strip_verbatim s = (if starts_with s [CHR 0x5C, CHR 0x5C, CHR ''?'', CHR 0x5C] \<or> starts_with s ''//?/'' then drop 4 s else s)"

definition normalize_canonical :: "components \<Rightarrow> string" where
  "normalize_canonical p =
     to_ascii_lowercase (rev (dropWhile (\<lambda>c. c = CHR ''/'')
       (rev (map (\<lambda>c. if c = CHR 0x5C then CHR ''/'' else c) (strip_verbatim (path_text p))))))"

text \<open>\<open>absolute\<close> tells whether the path as given is.\<close>

definition canonicalize_path :: "fs_view \<Rightarrow> bool \<Rightarrow> components \<Rightarrow> string" where
  "canonicalize_path fs is_abs target =
     (let absolute = (if is_abs then target else fs_cwd fs @ target)
      in normalize_canonical
           (case fs_real fs absolute of Some p \<Rightarrow> p | None \<Rightarrow> canonicalize_via_existing_ancestor fs absolute))"

subsection \<open>Repository identity\<close>

record repo_identity =
  ri_root :: string
  ri_db_path :: string
  ri_key :: string

definition from_paths :: "fs_view \<Rightarrow> bool \<times> components \<Rightarrow> bool \<times> components \<Rightarrow> repo_identity" where
  "from_paths fs repo_root db_path =
     (let root = case_prod (canonicalize_path fs) repo_root; db = case_prod (canonicalize_path fs) db_path
      in \<lparr>ri_root = root, ri_db_path = db, ri_key = root @ [CHR 0x00] @ db\<rparr>)"

definition default_db_path :: "components \<Rightarrow> components" where
  "default_db_path repo_root = repo_root @ [''.cognis'', ''uckg.db'']"

text \<open>The root is resolved elsewhere; \<open>parse\<close> parses the text of the environment variable.\<close>

definition identity_from_env ::
  "fs_view \<Rightarrow> (string \<Rightarrow> bool \<times> components) \<Rightarrow> bool \<times> components \<Rightarrow> string option \<Rightarrow> repo_identity" where
  "identity_from_env fs parse repo_root db_var =
     from_paths fs repo_root
       (case db_var of
          Some v \<Rightarrow> if trim v \<noteq> [] then parse (trim v) else (fst repo_root, default_db_path (snd repo_root))
        | None \<Rightarrow> (fst repo_root, default_db_path (snd repo_root)))"

definition wire_key :: "(string \<Rightarrow> u8 list) \<Rightarrow> repo_identity \<Rightarrow> string" where
  "wire_key sha r = hex_lower (sha (ri_key r))"

definition same_as :: "repo_identity \<Rightarrow> repo_identity \<Rightarrow> bool" where
  "same_as a b \<longleftrightarrow> ri_key a = ri_key b"

datatype attachment_decision = Allow | RejectCrossRepository (owner_key: string) (presented_key: string)

definition is_allowed :: "attachment_decision \<Rightarrow> bool" where
  "is_allowed d \<longleftrightarrow> d = Allow"

definition verify_repo_attachment :: "(string \<Rightarrow> u8 list) \<Rightarrow> repo_identity \<Rightarrow> repo_identity \<Rightarrow> attachment_decision" where
  "verify_repo_attachment sha own presented =
     (if same_as own presented then Allow
      else RejectCrossRepository (wire_key sha own) (wire_key sha presented))"

definition verify_repo_wire_key :: "(string \<Rightarrow> u8 list) \<Rightarrow> repo_identity \<Rightarrow> string \<Rightarrow> attachment_decision" where
  "verify_repo_wire_key sha own presented_wire_key =
     (let presented = to_ascii_lowercase (trim presented_wire_key)
      in if presented \<noteq> [] \<and> presented = wire_key sha own then Allow
         else RejectCrossRepository (wire_key sha own) presented)"

subsection \<open>Model fingerprints\<close>

text \<open>A fingerprint is its digest.\<close>

type_synonym model_fingerprint = string

definition from_digest :: "string \<Rightarrow> model_fingerprint" where
  "from_digest digest = to_ascii_lowercase (trim digest)"

definition session_reuse_allowed :: "model_fingerprint \<Rightarrow> model_fingerprint \<Rightarrow> bool" where
  "session_reuse_allowed own presented \<longleftrightarrow> own \<noteq> [] \<and> presented \<noteq> [] \<and> own = presented"

record embedder_config =
  ec_backend :: string
  ec_model :: string
  ec_dim :: nat
  ec_batch_size :: nat

text \<open>The model directory: its files as text and as bytes.\<close>

record model_dir =
  md_text :: "string \<Rightarrow> string option"
  md_bytes :: "string \<Rightarrow> string option"

definition MODEL_ASSET_FILES :: "string list" where
  "MODEL_ASSET_FILES = [''model.onnx'', ''tokenizer.json'', ''pooling.json'']"

definition normalize_backend :: "string \<Rightarrow> string" where
  "normalize_backend backend =
     (let b = trim backend in if b = ''local'' \<or> b = ''onnx-local'' then ''onnx-local'' else b)"

definition parse_pooling_json :: "(string \<Rightarrow> string + json) \<Rightarrow> string \<Rightarrow> string \<times> bool" where
  "parse_pooling_json from_str text =
     (case from_str text of
        Inl _ \<Rightarrow> (''cls'', True)
      | Inr v \<Rightarrow>
          (case Option.bind (jget v ''pooling'') as_str of
             Some s \<Rightarrow> if to_ascii_lowercase s = ''mean'' then ''mean'' else ''cls''
           | None \<Rightarrow> ''cls'',
           case Option.bind (jget v ''normalize'') as_bool of Some b \<Rightarrow> b | None \<Rightarrow> True))"

definition pooling_and_normalization :: "(string \<Rightarrow> string + json) \<Rightarrow> model_dir \<Rightarrow> string \<times> string" where
  "pooling_and_normalization from_str dir =
     (let (pooling, normalize) =
            (case md_text dir ''pooling.json'' of Some t \<Rightarrow> parse_pooling_json from_str t | None \<Rightarrow> (''cls'', True))
      in (pooling, if normalize then ''l2'' else ''none''))"

text \<open>\<open>split_whitespace().next()\<close> of a trimmed line: up to the first white space.\<close>

fun first_word :: "string \<Rightarrow> string" where
  "first_word [] = []"
| "first_word (c # cs) = (if trim_start (c # cs) \<noteq> c # cs then [] else c # first_word cs)"

definition is_hexdigit :: "char \<Rightarrow> bool" where
  "is_hexdigit c \<longleftrightarrow> is_digit c \<or> (97 \<le> (of_char c :: nat) \<and> (of_char c :: nat) \<le> 102)
     \<or> (65 \<le> (of_char c :: nat) \<and> (of_char c :: nat) \<le> 70)"

definition parse_sha256_sidecar :: "string \<Rightarrow> string option" where
  "parse_sha256_sidecar text =
     (let line = trim (takeWhile (\<lambda>c. c \<noteq> CHR 0x0A) text); hex = to_ascii_lowercase (first_word line)
      in if text \<noteq> [] \<and> line \<noteq> [] \<and> length hex = 64 \<and> list_all is_hexdigit hex then Some hex else None)"

definition asset_checksum :: "(string \<Rightarrow> u8 list) \<Rightarrow> model_dir \<Rightarrow> string \<Rightarrow> string" where
  "asset_checksum sha dir asset =
     (case Option.bind (md_text dir (asset @ ''.sha256'')) parse_sha256_sidecar of
        Some hex \<Rightarrow> hex
      | None \<Rightarrow> (case md_bytes dir asset of Some bytes \<Rightarrow> hex_lower (sha bytes) | None \<Rightarrow> ''missing''))"

definition fingerprint_material ::
  "(string \<Rightarrow> u8 list) \<Rightarrow> (string \<Rightarrow> string + json) \<Rightarrow> embedder_config \<Rightarrow> model_dir \<Rightarrow> string" where
  "fingerprint_material sha from_str cfg dir =
     (let (pooling, normalization) = pooling_and_normalization from_str dir
      in join [CHR 0x0A]
           ([''backend='' @ normalize_backend (ec_backend cfg), ''dim='' @ show_nat (ec_dim cfg),
             ''model='' @ trim (ec_model cfg), ''batch_size='' @ show_nat (ec_batch_size cfg),
             ''pooling='' @ pooling, ''normalization='' @ normalization]
            @ map (\<lambda>asset. ''asset.'' @ asset @ ''='' @ asset_checksum sha dir asset) MODEL_ASSET_FILES))"

definition derive_with_model_dir ::
  "(string \<Rightarrow> u8 list) \<Rightarrow> (string \<Rightarrow> string + json) \<Rightarrow> embedder_config \<Rightarrow> model_dir \<Rightarrow> model_fingerprint" where
  "derive_with_model_dir sha from_str cfg dir = hex_lower (sha (fingerprint_material sha from_str cfg dir))"

definition from_env_or_derive ::
  "(string \<Rightarrow> u8 list) \<Rightarrow> (string \<Rightarrow> string + json) \<Rightarrow> string option \<Rightarrow> embedder_config \<Rightarrow> model_dir \<Rightarrow> model_fingerprint" where
  "from_env_or_derive sha from_str var cfg dir =
     (case var of
        Some v \<Rightarrow> if trim v \<noteq> [] then from_digest v else derive_with_model_dir sha from_str cfg dir
      | None \<Rightarrow> derive_with_model_dir sha from_str cfg dir)"

subsection \<open>Hexadecimal digests\<close>

lemma hex_digit_nth: "n < 16 \<Longrightarrow> hex_digit n = ''0123456789abcdef'' ! n"
proof -
  have "list_all (\<lambda>n. hex_digit n = ''0123456789abcdef'' ! n) [0..<16]" by code_simp
  then show "n < 16 \<Longrightarrow> ?thesis" by (simp add: list_all_iff)
qed

lemma hex_digit_inj:
  assumes "hex_digit a = hex_digit b" "a < 16" "b < 16"
  shows "a = b"
proof -
  have "distinct ''0123456789abcdef''" "length ''0123456789abcdef'' = 16" by code_simp+
  then show ?thesis using assms nth_eq_iff_index_eq [of "''0123456789abcdef''" a b] by (simp add: hex_digit_nth)
qed

lemma byte_digits: "unat (b :: u8) div 16 < 16" "unat b mod 16 < 16"
proof -
  have "unat b < 2 ^ LENGTH(8)" by (rule unsigned_less)
  then show "unat b div 16 < 16" "unat b mod 16 < 16" by auto
qed

lemma hex_lower_inj: "hex_lower xs = hex_lower ys \<Longrightarrow> xs = ys"
proof (induction xs arbitrary: ys)
  case Nil
  then show ?case by (cases ys) (simp_all add: hex_lower_def)
next
  case (Cons x xs)
  then obtain y ys' where ys: "ys = y # ys'" by (cases ys) (simp_all add: hex_lower_def)
  then have "hex_digit (unat x div 16) = hex_digit (unat y div 16)" "hex_digit (unat x mod 16) = hex_digit (unat y mod 16)"
    and tl: "hex_lower xs = hex_lower ys'"
    using Cons.prems by (simp_all add: hex_lower_def)
  then have "unat x div 16 = unat y div 16" "unat x mod 16 = unat y mod 16"
    using hex_digit_inj byte_digits by blast+
  then have "unat x = unat y" by (metis div_mult_mod_eq)
  then show ?case using ys Cons.IH [OF tl] by (simp add: word_unat_eq_iff)
qed

lemma hex_lower_chars: "set (hex_lower bytes) \<subseteq> set ''0123456789abcdef''"
proof -
  have "hex_digit n \<in> set ''0123456789abcdef''" if "n < 16" for n
    using that nth_mem [of n "''0123456789abcdef''"] unfolding hex_digit_nth [OF that] by simp
  then have "set [hex_digit (unat b div 16), hex_digit (unat b mod 16)] \<subseteq> set ''0123456789abcdef''" for b :: u8
    using byte_digits [of b] by simp
  then show ?thesis unfolding hex_lower_def by (induction bytes) auto
qed

lemma strip_plain:
  assumes "\<forall>w \<in> set ws. w \<noteq> [] \<longrightarrow> hd w \<notin> set s"
  shows "strip_all ws s = s"
proof -
  have "find (\<lambda>w. w \<noteq> [] \<and> starts_with s w) ws = None"
    using assms by (fastforce simp: find_None_iff starts_with_iff neq_Nil_conv)
  then show ?thesis by (simp add: strip_all.simps)
qed

lemma trim_plain:
  assumes "\<forall>w \<in> set ws_encodings. hd w \<notin> set s \<and> last w \<notin> set s"
  shows "trim s = s"
proof -
  have "strip_all (map rev ws_encodings) (rev s) = rev s"
    by (rule strip_plain) (use assms in \<open>auto simp: hd_rev\<close>)
  moreover have "strip_all ws_encodings s = s" by (rule strip_plain) (use assms in auto)
  ultimately show ?thesis by (simp add: trim_def trim_start_def trim_end_def)
qed

lemma hex_plain:
  assumes "set s \<subseteq> set ''0123456789abcdef''"
  shows "trim s = s" "to_ascii_lowercase s = s" "CHR 0x0A \<notin> set s"
proof -
  have "list_all (\<lambda>w. hd w \<notin> set ''0123456789abcdef'' \<and> last w \<notin> set ''0123456789abcdef'') ws_encodings" by code_simp
  then show "trim s = s" using assms by (intro trim_plain) (auto simp: list_all_iff)
  have "list_all (\<lambda>c. ascii_lower c = c) ''0123456789abcdef''" by code_simp
  then have "\<forall>c \<in> set s. ascii_lower c = c" using assms by (auto simp: list_all_iff)
  then show "to_ascii_lowercase s = s" by (simp add: to_ascii_lowercase_def map_idI)
  have "CHR 0x0A \<notin> set ''0123456789abcdef''" by simp
  then show "CHR 0x0A \<notin> set s" using assms by blast
qed

lemmas hex_lower_plain = hex_plain [OF hex_lower_chars]

lemma hex_lower_empty: "hex_lower bytes = [] \<longleftrightarrow> bytes = []"
  by (cases bytes) (simp_all add: hex_lower_def)

subsection \<open>Isolation\<close>

lemma wire_key_checked:
  assumes "sha (ri_key r) \<noteq> []"
  shows "verify_repo_wire_key sha own (wire_key sha r) = Allow \<longleftrightarrow> sha (ri_key r) = sha (ri_key own)"
  using assms hex_lower_inj [of "sha (ri_key r)" "sha (ri_key own)"]
  by (auto simp: verify_repo_wire_key_def wire_key_def hex_lower_plain hex_lower_empty Let_def)

lemma split_at_first:
  assumes "x @ d # r = y @ d # s" "d \<notin> set x" "d \<notin> set y"
  shows "x = y \<and> r = s"
proof -
  have "takeWhile (\<lambda>c. c \<noteq> d) (x @ d # r) = x" "takeWhile (\<lambda>c. c \<noteq> d) (y @ d # s) = y"
    using assms(2,3) by (auto simp: takeWhile_tail)
  then show ?thesis using assms(1) by simp
qed

text \<open>
  C11: A client attaches exactly when it was started for the same canonical root and the same canonical database,
  unless the digests of the two identities collide: root and database are told apart by the NUL between them, which no
  path contains.
\<close>

theorem attachment_needs_same_repository:
  assumes "own = from_paths fs r d" "client = from_paths fs' r' d'"
    and "CHR 0x00 \<notin> set (ri_root own) \<union> set (ri_root client)"
    and "\<forall>x. length (sha x) = 32" "sha (ri_key client) = sha (ri_key own) \<longrightarrow> ri_key client = ri_key own"
  shows "(verify_repo_wire_key sha own (wire_key sha client) = Allow
      \<longleftrightarrow> ri_root client = ri_root own \<and> ri_db_path client = ri_db_path own)
    \<and> (is_allowed (verify_repo_attachment sha own client) \<longleftrightarrow> verify_repo_wire_key sha own (wire_key sha client) = Allow)"
proof -
  have "sha (ri_key client) \<noteq> []" using assms(4) by (metis list.size(3) zero_neq_numeral)
  then have checked: "verify_repo_wire_key sha own (wire_key sha client) = Allow \<longleftrightarrow> sha (ri_key client) = sha (ri_key own)"
    by (rule wire_key_checked)
  have keys: "ri_key own = ri_root own @ CHR 0x00 # ri_db_path own" "ri_key client = ri_root client @ CHR 0x00 # ri_db_path client"
    using assms(1,2) by (simp_all add: from_paths_def Let_def)
  have "ri_key client = ri_key own \<longleftrightarrow> ri_root client = ri_root own \<and> ri_db_path client = ri_db_path own"
    using split_at_first [of "ri_root client" "CHR 0x00" "ri_db_path client" "ri_root own" "ri_db_path own"] assms(3)
    unfolding keys by auto
  moreover have "verify_repo_wire_key sha own (wire_key sha client) = Allow \<longleftrightarrow> ri_key client = ri_key own"
    using assms(5) unfolding checked by metis
  moreover have "is_allowed (verify_repo_attachment sha own client) \<longleftrightarrow> ri_key client = ri_key own"
    unfolding is_allowed_def verify_repo_attachment_def same_as_def by (cases "ri_key own = ri_key client") simp_all
  ultimately show ?thesis by simp
qed

text \<open>A file system in which every path exists under its own name.\<close>

definition plain_fs :: fs_view where
  "plain_fs = \<lparr>fs_cwd = [], fs_real = Some, fs_exists = (\<lambda>_. True)\<rparr>"

definition sample_identity :: "string \<Rightarrow> repo_identity" where
  "sample_identity repo = from_paths plain_fs (True, [''srv'', repo]) (True, default_db_path [''srv'', repo])"

text \<open>
  The components of a path on Unix, none with a backslash: the text of the path is normalised component by component.
\<close>

definition plain_path :: "components \<Rightarrow> bool" where
  "plain_path p \<longleftrightarrow> (\<forall>c \<in> set p. c \<noteq> [] \<and> set c \<inter> {CHR ''/'', CHR 0x5C, CHR 0x00} = {})"

lemma ascii_lower_cases:
  "ascii_lower c = c \<or> 65 \<le> (of_char c :: nat) \<and> (of_char c :: nat) \<le> 90 \<and> (of_char (ascii_lower c) :: nat) = of_char c + 32"
proof (cases "65 \<le> (of_char c :: nat) \<and> (of_char c :: nat) \<le> 90")
  case True
  then show ?thesis by (simp add: ascii_lower_def)
next
  case False
  then show ?thesis unfolding ascii_lower_def by (subst if_not_P) simp_all
qed

lemma ascii_lower_other:
  assumes "d \<in> {CHR ''/'', CHR 0x00}"
  shows "ascii_lower c = d \<longleftrightarrow> c = d"
proof -
  have "(of_char d :: nat) \<le> 47" using assms by auto
  then show ?thesis using ascii_lower_cases [of c] by force
qed

lemma plain_lowercase:
  assumes "plain_path p" "c \<in> set p" "d \<in> {CHR ''/'', CHR 0x00}"
  shows "d \<notin> set (to_ascii_lowercase c)"
proof
  assume "d \<in> set (to_ascii_lowercase c)"
  then obtain x where "x \<in> set c" "d = ascii_lower x" by (auto simp: to_ascii_lowercase_def)
  then have "d \<in> set c" using ascii_lower_other [OF assms(3), of x] by metis
  then show False using assms unfolding plain_path_def by blast
qed

lemma path_text_concat: "p \<noteq> [] \<Longrightarrow> path_text p = concat (map (Cons (CHR ''/'')) p)"
proof -
  have "CHR ''/'' # join ''/'' (c # p) = concat (map (Cons (CHR ''/'')) (c # p))" for c p
    by (induction p arbitrary: c) simp_all
  then show "p \<noteq> [] \<Longrightarrow> ?thesis" by (cases p) (simp_all add: path_text_def)
qed

lemma normalize_plain:
  assumes "plain_path p"
  shows "normalize_canonical p = concat (map (\<lambda>c. CHR ''/'' # to_ascii_lowercase c) p)"
proof (cases p rule: rev_cases)
  case Nil
  then show ?thesis by (simp add: normalize_canonical_def path_text_def strip_verbatim_def to_ascii_lowercase_def)
next
  case (snoc q c)
  let ?t = "concat (map (Cons (CHR ''/'')) p)"
  have t: "path_text p = ?t" using snoc by (simp add: path_text_concat)
  have "CHR 0x5C \<notin> set ?t" using assms by (auto simp: plain_path_def)
  then have slashes: "map (\<lambda>c. if c = CHR 0x5C then CHR ''/'' else c) ?t = ?t" by (intro map_idI) auto
  have c: "c \<noteq> []" "CHR ''/'' \<notin> set c" using assms snoc by (simp_all add: plain_path_def)
  obtain a r where "p = a # r" using snoc by (metis neq_Nil_conv snoc_eq_iff_butlast)
  moreover then obtain x xs where "a = x # xs" "x \<noteq> CHR ''/''" using assms by (cases a) (auto simp: plain_path_def)
  ultimately have strip: "strip_verbatim ?t = ?t" by (simp add: strip_verbatim_def)
  have "rev (dropWhile (\<lambda>c. c = CHR ''/'') (rev ?t)) = ?t"
    using c by (cases c rule: rev_cases) (auto simp: snoc)
  then show ?thesis
    unfolding normalize_canonical_def t strip slashes by (simp add: to_ascii_lowercase_def map_concat comp_def ascii_lower_def)
qed

lemma path_inj:
  assumes "concat (map (Cons d) p) = concat (map (Cons d) q)" "\<forall>c \<in> set p \<union> set q. d \<notin> set c"
  shows "p = q"
  using assms
proof (induction p arbitrary: q)
  case Nil
  then show ?case by (cases q) simp_all
next
  case (Cons c p)
  then obtain e r where q: "q = e # r" by (cases q) simp_all
  have first: "takeWhile (\<lambda>x. x \<noteq> d) (c @ concat (map (Cons d) p)) = c" if "d \<notin> set c" for c p
    using that by (cases p) (auto simp: takeWhile_append2 takeWhile_tail)
  have eq: "c @ concat (map (Cons d) p) = e @ concat (map (Cons d) r)" using Cons.prems(1) q by simp
  moreover have "d \<notin> set c" "d \<notin> set e" using Cons.prems(2) q by simp_all
  ultimately have "c = e" using first by metis
  then show ?case using eq Cons.IH [of r] Cons.prems(2) q by simp
qed

text \<open>
  C38: A client may attach exactly when its repository root and its database are, once resolved, those of the server up
  to the case of ASCII letters. So on a file system that tells case apart, two repositories whose paths differ only
  in case share one identity, and a client of one of them may attach to the server of the other. The
  four paths exist, and have no backslash in a name.
\<close>

theorem case_variants_share_identity:
  assumes "fs_real fs p = Some rp" "fs_real fs dp = Some rdp" "fs_real fs q = Some rq" "fs_real fs dq = Some rdq"
    and "plain_path rp" "plain_path rdp" "plain_path rq" "plain_path rdq"
  shows "is_allowed (verify_repo_attachment sha (from_paths fs (True, p) (True, dp)) (from_paths fs (True, q) (True, dq)))
    \<longleftrightarrow> map to_ascii_lowercase rp = map to_ascii_lowercase rq \<and> map to_ascii_lowercase rdp = map to_ascii_lowercase rdq"
proof -
  let ?text = "\<lambda>x. concat (map (\<lambda>c. CHR ''/'' # to_ascii_lowercase c) x)"
  have same: "?text x = ?text y \<longleftrightarrow> map to_ascii_lowercase x = map to_ascii_lowercase y" if "plain_path x" "plain_path y" for x y
  proof
    assume "?text x = ?text y"
    then have "concat (map (Cons (CHR ''/'')) (map to_ascii_lowercase x)) = concat (map (Cons (CHR ''/'')) (map to_ascii_lowercase y))"
      by (simp add: comp_def)
    then show "map to_ascii_lowercase x = map to_ascii_lowercase y"
    proof (rule path_inj)
      show "\<forall>c \<in> set (map to_ascii_lowercase x) \<union> set (map to_ascii_lowercase y). CHR ''/'' \<notin> set c"
        using plain_lowercase that by fastforce
    qed
  next
    assume "map to_ascii_lowercase x = map to_ascii_lowercase y"
    then have "map (Cons (CHR ''/'')) (map to_ascii_lowercase x) = map (Cons (CHR ''/'')) (map to_ascii_lowercase y)" by simp
    then show "?text x = ?text y" by (simp add: comp_def)
  qed
  have no_nul: "CHR 0x00 \<notin> set (?text x)" if "plain_path x" for x
    using plain_lowercase [OF that] by auto
  have "ri_key (from_paths fs (True, p) (True, dp)) = ?text rp @ CHR 0x00 # ?text rdp"
    "ri_key (from_paths fs (True, q) (True, dq)) = ?text rq @ CHR 0x00 # ?text rdq"
    using assms by (simp_all add: from_paths_def canonicalize_path_def normalize_plain Let_def)
  moreover have "?text rp @ CHR 0x00 # ?text rdp = ?text rq @ CHR 0x00 # ?text rdq \<longleftrightarrow> ?text rp = ?text rq \<and> ?text rdp = ?text rdq"
    using split_at_first [OF _ no_nul no_nul, OF _ assms(5,7)] by auto
  ultimately have "ri_key (from_paths fs (True, p) (True, dp)) = ri_key (from_paths fs (True, q) (True, dq))
      \<longleftrightarrow> map to_ascii_lowercase rp = map to_ascii_lowercase rq \<and> map to_ascii_lowercase rdp = map to_ascii_lowercase rdq"
    using same [OF assms(5,7)] same [OF assms(6,8)] by simp
  then show ?thesis by (simp add: is_allowed_def verify_repo_attachment_def same_as_def)
qed

text \<open>\<open>/srv/Repo\<close> and \<open>/srv/repo\<close>, two repositories of one file system.\<close>

theorem case_variants_share_identity_witness:
  "plain_path [''srv'', ''Repo''] \<and> [''srv'', ''Repo''] \<noteq> [''srv'', ''repo'']
   \<and> (\<forall>sha. is_allowed (verify_repo_attachment sha (sample_identity ''Repo'') (sample_identity ''repo'')))"
proof -
  have "is_allowed (verify_repo_attachment sha (sample_identity ''Repo'') (sample_identity ''repo''))" for sha
    unfolding sample_identity_def
  proof (subst case_variants_share_identity)
    show "fs_real plain_fs x = Some x" for x by (simp add: plain_fs_def)
    then show "fs_real plain_fs x = Some x" for x .
    show "plain_path [''srv'', ''Repo'']" "plain_path [''srv'', ''repo'']"
      "plain_path (default_db_path [''srv'', ''Repo''])" "plain_path (default_db_path [''srv'', ''repo''])"
      by code_simp+
    show "map to_ascii_lowercase [''srv'', ''Repo''] = map to_ascii_lowercase [''srv'', ''repo'']
        \<and> map to_ascii_lowercase (default_db_path [''srv'', ''Repo'']) = map to_ascii_lowercase (default_db_path [''srv'', ''repo''])"
      by code_simp
  qed (simp_all add: plain_fs_def)
  moreover have "plain_path [''srv'', ''Repo'']" by code_simp
  ultimately show ?thesis by simp
qed

theorem attachment_needs_same_repository_witness:
  "verify_repo_wire_key (\<lambda>x. replicate 31 0 @ [of_nat (length x)]) (sample_identity ''a'')
     (wire_key (\<lambda>x. replicate 31 0 @ [of_nat (length x)]) (sample_identity ''bc'')) \<noteq> Allow"
proof -
  let ?sha = "\<lambda>x :: string. replicate 31 0 @ [of_nat (length x) :: u8]"
  have ids: "sample_identity ''a'' = \<lparr>ri_root = ''/srv/a'', ri_db_path = ''/srv/a/.cognis/uckg.db'', ri_key = ''/srv/a'' @ [CHR 0x00] @ ''/srv/a/.cognis/uckg.db''\<rparr>"
    "sample_identity ''bc'' = \<lparr>ri_root = ''/srv/bc'', ri_db_path = ''/srv/bc/.cognis/uckg.db'', ri_key = ''/srv/bc'' @ [CHR 0x00] @ ''/srv/bc/.cognis/uckg.db''\<rparr>"
    by code_simp+
  have "CHR 0x00 \<notin> set (ri_root (sample_identity ''a'')) \<union> set (ri_root (sample_identity ''bc''))" unfolding ids by simp
  moreover have "?sha (ri_key (sample_identity ''bc'')) \<noteq> ?sha (ri_key (sample_identity ''a''))" unfolding ids by simp
  ultimately show ?thesis
    using attachment_needs_same_repository [OF sample_identity_def sample_identity_def, of "''a''" "''bc''" ?sha] unfolding ids by simp
qed

text \<open>Dots after a directory that does not exist are dropped: two spellings of one location get two keys.\<close>

lemma dotdot_of_missing_directory:
  fixes fs :: fs_view
  defines "fs \<equiv> \<lparr>fs_cwd = [], fs_real = (\<lambda>p. if p = [''srv''] then Some p else None), fs_exists = (\<lambda>p. p = [''srv''])\<rparr>"
  shows "canonicalize_path fs True [''srv'', ''new'', ''..'', ''db''] = ''/srv/new/db''"
    and "canonicalize_path fs True [''srv'', ''db''] = ''/srv/db''"
  unfolding fs_def by code_simp+

subsection \<open>What a fingerprint tells apart\<close>

lemma join_lines_inj:
  assumes "join [d] xs = join [d] ys" "length xs = length ys" "\<forall>x \<in> set xs \<union> set ys. d \<notin> set x"
  shows "xs = ys"
  using assms
proof (induction xs arbitrary: ys)
  case (Cons x xs)
  then obtain y ys' where ys: "ys = y # ys'" "length xs = length ys'" by (cases ys) auto
  show ?case
  proof (cases xs)
    case Nil
    then show ?thesis using Cons.prems(1) ys by simp
  next
    case (Cons x' xs')
    then obtain y' ys'' where y': "ys' = y' # ys''" using ys(2) by (cases ys') auto
    have "x @ d # join [d] xs = y @ d # join [d] ys'" using Cons.prems(1) ys(1) Cons y' by simp
    then have "x = y \<and> join [d] xs = join [d] ys'" using Cons.prems(3) ys(1) by (intro split_at_first) auto
    then show ?thesis using Cons.IH [of ys'] ys Cons.prems(3) by simp
  qed
qed simp

lemma show_nat_inj: "show_nat m = show_nat n \<Longrightarrow> m = n"
  by (metis show_nat_digits)

lemma show_nat_line: "CHR 0x0A \<notin> set (show_nat n)"
  using show_nat_digits [of n] by (auto simp: list_all_iff is_digit_def)

lemma pooling_names: "fst (pooling_and_normalization f dir) \<in> {''mean'', ''cls''}" "snd (pooling_and_normalization f dir) \<in> {''l2'', ''none''}"
  by (auto simp: pooling_and_normalization_def parse_pooling_json_def Let_def split: option.splits sum.splits prod.splits if_splits)

lemma hex_lowercase_line: "list_all is_hexdigit s \<Longrightarrow> CHR 0x0A \<notin> set s"
  by (auto simp: list_all_iff is_hexdigit_def is_digit_def)

lemma checksum_line: "CHR 0x0A \<notin> set (asset_checksum sha dir asset)"
  using hex_lower_plain(3)
  by (auto simp: asset_checksum_def parse_sha256_sidecar_def Let_def bind_eq_Some_conv hex_lowercase_line
      split: option.splits if_splits)

lemma trim_subset: "set (trim s) \<subseteq> set s"
proof -
  have strip: "set (strip_all ws t) \<subseteq> set t" for ws t
    using strip_all_suffix [of t ws] by (metis Un_upper2 set_append)
  have "set (trim s) \<subseteq> set (strip_all ws_encodings s)"
    unfolding trim_def trim_end_def trim_start_def using strip by (metis set_rev)
  with strip show ?thesis by blast
qed

text \<open>
  Two configurations have the same fingerprint material exactly when they have the same backend up to its alias, the
  same dimension, model, batch size, pooling and normalization, and the same checksum of each of the model's files; no
  component can stand in for another, as long as the configured names are single lines.
\<close>

theorem fingerprint_tells_components_apart:
  assumes "CHR 0x0A \<notin> set (ec_backend c) \<union> set (ec_model c) \<union> set (ec_backend c') \<union> set (ec_model c')"
  shows "fingerprint_material sha f c dir = fingerprint_material sha f c' dir' \<longleftrightarrow>
    normalize_backend (ec_backend c) = normalize_backend (ec_backend c') \<and> ec_dim c = ec_dim c'
    \<and> trim (ec_model c) = trim (ec_model c') \<and> ec_batch_size c = ec_batch_size c'
    \<and> pooling_and_normalization f dir = pooling_and_normalization f dir'
    \<and> (\<forall>asset \<in> set MODEL_ASSET_FILES. asset_checksum sha dir asset = asset_checksum sha dir' asset)"
proof -
  define ls where "ls = (\<lambda>(c :: embedder_config) dir. [''backend='' @ normalize_backend (ec_backend c), ''dim='' @ show_nat (ec_dim c),
      ''model='' @ trim (ec_model c), ''batch_size='' @ show_nat (ec_batch_size c),
      ''pooling='' @ fst (pooling_and_normalization f dir), ''normalization='' @ snd (pooling_and_normalization f dir)]
      @ map (\<lambda>asset. ''asset.'' @ asset @ ''='' @ asset_checksum sha dir asset) MODEL_ASSET_FILES)"
  have material: "fingerprint_material sha f c dir = join [CHR 0x0A] (ls c dir)" for c :: embedder_config and dir
    by (simp add: fingerprint_material_def ls_def case_prod_beta)
  have trimmed: "set (trim s) \<subseteq> set s" for s
    by (rule trim_subset)
  have line: "\<forall>l \<in> set (ls c dir). CHR 0x0A \<notin> set l" if "CHR 0x0A \<notin> set (ec_backend c) \<union> set (ec_model c)" for c :: embedder_config and dir
  proof -
    have "CHR 0x0A \<notin> set (normalize_backend (ec_backend c))" "CHR 0x0A \<notin> set (trim (ec_model c))"
      using that trimmed by (auto simp: normalize_backend_def Let_def)
    moreover have "CHR 0x0A \<notin> set (fst (pooling_and_normalization f dir))" "CHR 0x0A \<notin> set (snd (pooling_and_normalization f dir))"
      using pooling_names [of f dir] by auto
    ultimately show ?thesis
      using show_nat_line checksum_line by (simp add: ls_def MODEL_ASSET_FILES_def)
  qed
  have "length (ls c dir) = length (ls c' dir')" by (simp add: ls_def)
  moreover have "\<forall>l \<in> set (ls c dir) \<union> set (ls c' dir'). CHR 0x0A \<notin> set l"
    using assms by (intro ballI) (metis Un_iff line)
  ultimately have "join [CHR 0x0A] (ls c dir) = join [CHR 0x0A] (ls c' dir') \<longleftrightarrow> ls c dir = ls c' dir'"
    using join_lines_inj by metis
  also have "\<dots> \<longleftrightarrow> normalize_backend (ec_backend c) = normalize_backend (ec_backend c') \<and> ec_dim c = ec_dim c'
    \<and> trim (ec_model c) = trim (ec_model c') \<and> ec_batch_size c = ec_batch_size c'
    \<and> pooling_and_normalization f dir = pooling_and_normalization f dir'
    \<and> (\<forall>asset \<in> set MODEL_ASSET_FILES. asset_checksum sha dir asset = asset_checksum sha dir' asset)"
    unfolding ls_def MODEL_ASSET_FILES_def prod_eq_iff by (auto dest: show_nat_inj)
  finally show ?thesis unfolding material .
qed

theorem fingerprint_tells_components_apart_witness:
  "fingerprint_material (\<lambda>_. []) (\<lambda>_. Inl []) \<lparr>ec_backend = ''local'', ec_model = ''m'', ec_dim = 3, ec_batch_size = 1\<rparr>
       \<lparr>md_text = Map.empty, md_bytes = Map.empty\<rparr>
     \<noteq> fingerprint_material (\<lambda>_. []) (\<lambda>_. Inl []) \<lparr>ec_backend = ''onnx-local'', ec_model = ''m'', ec_dim = 31, ec_batch_size = 1\<rparr>
       \<lparr>md_text = Map.empty, md_bytes = Map.empty\<rparr>"
  using fingerprint_tells_components_apart
    [of "\<lparr>ec_backend = ''local'', ec_model = ''m'', ec_dim = 3, ec_batch_size = 1\<rparr>"
        "\<lparr>ec_backend = ''onnx-local'', ec_model = ''m'', ec_dim = 31, ec_batch_size = 1\<rparr>"] by simp

end
