(* ===== verification/Http.thy ===== *)
theory Http
  imports Mcp_Server Identity "HOL-Library.Multiset"
begin

text \<open>
  The HTTP transport (\<open>crates/cognis-mcp/src/http.rs\<close>): the bind policy, the route credential, one connection from
  its bytes to its response, the dispatch of a body, and the bounded pool of workers as a step relation.
  The JSON codec, SHA-256, UTF-8 validation, name resolution and a freshly minted token are arguments.
\<close>

subsection \<open>Where the server may listen\<close>

datatype ip_addr = V4 u8 u8 u8 u8 | V6 "16 word list"

fun ip_is_loopback :: "ip_addr \<Rightarrow> bool" where
  "ip_is_loopback (V4 a b c d) = (a = 127)"
| "ip_is_loopback (V6 groups) = (groups = [0, 0, 0, 0, 0, 0, 0, 1])"

record network =
  net_parse :: "string \<Rightarrow> ip_addr option"
  net_resolve :: "string \<Rightarrow> ip_addr list option"

datatype io_error = PermissionDenied string | InvalidInput string | ResolveFailed

definition is_loopback_host :: "network \<Rightarrow> string \<Rightarrow> bool" where
  "is_loopback_host net host =
     (let h = trim host
      in if h = [] then False
         else if to_ascii_lowercase h = ''localhost'' \<or> h = ''127.0.0.1'' \<or> h = ''::1'' \<or> to_ascii_lowercase h = ''ip6-localhost''
         then True
         else case net_parse net h of
                Some ip \<Rightarrow> ip_is_loopback ip
              | None \<Rightarrow> (case net_resolve net h of Some ips \<Rightarrow> ips \<noteq> [] \<and> list_all ip_is_loopback ips | None \<Rightarrow> False))"

definition refused_host :: "string \<Rightarrow> string" where
  "refused_host host =
     ''refusing to bind non-loopback host '' @ [CHR 0x27] @ host @ [CHR 0x27] @ '': MCP HTTP binds loopback-only by default (Requirement 2.12). Set COGNIS_MCP_ALLOW_REMOTE=1 or pass BindOptions { allow_non_loopback: true } to opt in explicitly.''"

text \<open>The address that is bound; \<open>show_ip\<close> prints it.\<close>

definition bind_with :: "network \<Rightarrow> (ip_addr \<Rightarrow> string) \<Rightarrow> bool \<Rightarrow> string \<Rightarrow> io_error + ip_addr" where
  "bind_with net show_ip allow_non_loopback host =
     (if \<not> is_loopback_host net host \<and> \<not> allow_non_loopback then Inl (PermissionDenied (refused_host host))
      else case net_resolve net host of
             None \<Rightarrow> Inl ResolveFailed
           | Some [] \<Rightarrow> Inl (InvalidInput ''no socket address'')
           | Some (ip # _) \<Rightarrow>
               if \<not> ip_is_loopback ip \<and> \<not> allow_non_loopback
               then Inl (PermissionDenied (''refusing to bind non-loopback address '' @ show_ip ip
                      @ '': MCP HTTP binds loopback-only by default (Requirement 2.12). Set COGNIS_MCP_ALLOW_REMOTE=1 to opt in explicitly.''))
               else Inr ip)"

definition bind_options_from_env :: "string option \<Rightarrow> bool" where
  "bind_options_from_env var \<longleftrightarrow> var = Some ''1''"

definition bind :: "network \<Rightarrow> (ip_addr \<Rightarrow> string) \<Rightarrow> string option \<Rightarrow> string \<Rightarrow> io_error + ip_addr" where
  "bind net show_ip var host = bind_with net show_ip (bind_options_from_env var) host"

subsection \<open>The route credential\<close>

definition MIN_CREDENTIAL_LEN :: nat where "MIN_CREDENTIAL_LEN = 16"

text \<open>A credential is its token.\<close>

type_synonym credential = string

definition from_token :: "string \<Rightarrow> io_error + credential" where
  "from_token token =
     (let t = trim token
      in if length t < MIN_CREDENTIAL_LEN
         then Inl (InvalidInput (''route credential must be at least '' @ show_nat MIN_CREDENTIAL_LEN @ '' characters (got ''
                @ show_nat (length t) @ ''); generate one with RouteCredential::generate() or set COGNIS_MCP_ROUTE_TOKEN''))
         else Inr t)"

definition from_env_or_generate :: "credential \<Rightarrow> string option \<Rightarrow> io_error + credential" where
  "from_env_or_generate fresh var =
     (case var of Some v \<Rightarrow> if trim v \<noteq> [] then from_token v else Inr fresh | None \<Rightarrow> Inr fresh)"

text \<open>Every byte of both is looked at, whatever has been found.\<close>

definition byte_at :: "string \<Rightarrow> nat \<Rightarrow> u8" where
  "byte_at s i = (if i < length s then of_char (s ! i) else 0)"

definition constant_time_eq :: "string \<Rightarrow> string \<Rightarrow> bool" where
  "constant_time_eq a b =
     (fold (\<lambda>i diff. or diff (xor (byte_at a i) (byte_at b i))) [0..<max (length a) (length b)]
        (if length a = length b then 0 else 1) = 0)"

subsection \<open>Limits\<close>

definition MAX_BODY_BYTES :: nat where "MAX_BODY_BYTES = 4 * 1024 * 1024"
definition DEFAULT_HTTP_WORKERS :: nat where "DEFAULT_HTTP_WORKERS = DEFAULT_MAX_CONCURRENCY"
definition DEFAULT_HTTP_QUEUE_CAPACITY :: nat where "DEFAULT_HTTP_QUEUE_CAPACITY = DEFAULT_HTTP_WORKERS * 2"
definition DEFAULT_HTTP_REQUEST_TIMEOUT :: nat where "DEFAULT_HTTP_REQUEST_TIMEOUT = Caps.secs 30"

record http_config =
  worker_count :: nat
  queue_capacity :: nat
  request_timeout :: nat
  overload_retry_after_secs :: nat
  route_credential :: "credential option"
  cfg_repo :: "repo_identity option"
  cfg_fingerprint :: "model_fingerprint option"

definition default_limits :: http_config where
  "default_limits =
     \<lparr>worker_count = DEFAULT_HTTP_WORKERS, queue_capacity = DEFAULT_HTTP_QUEUE_CAPACITY,
      request_timeout = DEFAULT_HTTP_REQUEST_TIMEOUT, overload_retry_after_secs = 1, route_credential = None,
      cfg_repo = None, cfg_fingerprint = None\<rparr>"

definition config_default :: "credential \<Rightarrow> http_config" where
  "config_default fresh = default_limits\<lparr>route_credential := Some fresh\<rparr>"

definition with_credential :: "credential \<Rightarrow> http_config" where
  "with_credential c = default_limits\<lparr>route_credential := Some c\<rparr>"

definition normalized :: "credential \<Rightarrow> http_config \<Rightarrow> http_config" where
  "normalized fresh c =
     c\<lparr>worker_count := max 1 (worker_count c), queue_capacity := max 1 (queue_capacity c),
       request_timeout := (if request_timeout c = 0 then DEFAULT_HTTP_REQUEST_TIMEOUT else request_timeout c),
       overload_retry_after_secs := max 1 (overload_retry_after_secs c),
       route_credential := Some (case route_credential c of Some t \<Rightarrow> t | None \<Rightarrow> fresh)\<rparr>"

subsection \<open>Reading a request\<close>

record http_env =
  he_sha :: "string \<Rightarrow> u8 list"
  he_utf8 :: "string \<Rightarrow> bool"
  he_lossy :: "string \<Rightarrow> string"
  he_from_str :: "string \<Rightarrow> string + json"
  he_from_value :: "json \<Rightarrow> string + request"
  he_to_text :: "json \<Rightarrow> string"
  he_version :: string

text \<open>What a peer sends until it stops: by closing its side, or by an error or a timeout of the read.\<close>

record peer =
  peer_bytes :: string
  peer_closes :: bool

text \<open>\<open>read_line\<close>: up to and with the newline; the last line of a closed stream may lack it. \<open>None\<close> is an error.\<close>

definition read_line :: "(string \<Rightarrow> bool) \<Rightarrow> bool \<Rightarrow> string \<Rightarrow> (string \<times> string) option" where
  "read_line utf8 closes bs =
     (let l = takeWhile (\<lambda>c. c \<noteq> CHR 0x0A) bs
      in case dropWhile (\<lambda>c. c \<noteq> CHR 0x0A) bs of
           [] \<Rightarrow> if closes \<and> utf8 l then Some (l, []) else None
         | c # rest \<Rightarrow> if utf8 (l @ [c]) then Some (l @ [c], rest) else None)"

record headers =
  content_length :: nat
  presented_credential :: "string option"
  presented_repo_key :: "string option"
  presented_fingerprint :: "string option"

definition no_headers :: headers where
  "no_headers = \<lparr>content_length = 0, presented_credential = None, presented_repo_key = None, presented_fingerprint = None\<rparr>"

definition split_once :: "char \<Rightarrow> string \<Rightarrow> (string \<times> string) option" where
  "split_once d s =
     (if d \<in> set s then Some (takeWhile (\<lambda>c. c \<noteq> d) s, tl (dropWhile (\<lambda>c. c \<noteq> d) s)) else None)"

definition bearer_token :: "string \<Rightarrow> string option" where
  "bearer_token v = (if starts_with v ''Bearer '' \<or> starts_with v ''bearer '' then Some (trim (drop 7 v)) else None)"

definition header_line :: "string \<Rightarrow> headers \<Rightarrow> headers" where
  "header_line l h =
     (case split_once (CHR '':'') l of
        None \<Rightarrow> h
      | Some (n, v) \<Rightarrow>
          let header = to_ascii_lowercase (trim n); v = trim v
          in if header = ''content-length''
             then h\<lparr>content_length := min (case parse_u64 v of Some n \<Rightarrow> n | None \<Rightarrow> 0) MAX_BODY_BYTES\<rparr>
             else if header = ''authorization''
             then (case bearer_token v of Some t \<Rightarrow> h\<lparr>presented_credential := Some t\<rparr> | None \<Rightarrow> h)
             else if header = ''x-cognis-route-token'' then h\<lparr>presented_credential := Some v\<rparr>
             else if header = ''x-cognis-repo-key'' then h\<lparr>presented_repo_key := Some v\<rparr>
             else if header = ''x-cognis-model-fingerprint'' then h\<lparr>presented_fingerprint := Some v\<rparr>
             else h)"

function read_headers :: "(string \<Rightarrow> bool) \<Rightarrow> bool \<Rightarrow> string \<Rightarrow> headers \<Rightarrow> (headers \<times> string) option" where
  "read_headers utf8 closes bs h =
     (case read_line utf8 closes bs of
        None \<Rightarrow> None
      | Some (l, rest) \<Rightarrow> if trim l = [] then Some (h, rest) else read_headers utf8 closes rest (header_line l h))"
  by pat_completeness auto

lemma read_line_parts:
  assumes "read_line utf8 closes bs = Some (l, rest)"
  shows "bs = l @ rest"
proof -
  let ?P = "\<lambda>c. c \<noteq> CHR 0x0A"
  have parts: "takeWhile ?P bs @ dropWhile ?P bs = bs" by (rule takeWhile_dropWhile_id)
  show ?thesis
  proof (cases "dropWhile ?P bs")
    case Nil
    then have "l = takeWhile ?P bs" "rest = []"
      using assms unfolding read_line_def Let_def Nil list.case by (metis option.distinct(1) option.inject prod.inject)+
    then show ?thesis using parts unfolding Nil by (metis append_Nil2)
  next
    case (Cons c cs)
    then have "l = takeWhile ?P bs @ [c]" "rest = cs"
      using assms unfolding read_line_def Let_def Cons list.case by (metis option.distinct(1) option.inject prod.inject)+
    then show ?thesis using parts unfolding Cons by (metis append.assoc append_Cons append_Nil)
  qed
qed

termination read_headers
proof (relation "measure (\<lambda>(utf8, closes, bs, h). length bs)")
  fix utf8 closes bs h x l rest
  assume read: "read_line utf8 closes bs = Some x" "(l, rest) = x" "trim l \<noteq> []"
  have "trim [] = []" by code_simp
  then have "l \<noteq> []" using read(3) by metis
  moreover have "bs = l @ rest" using read_line_parts [of utf8 closes bs l rest] read(1,2) by simp
  ultimately show "((utf8, closes, rest, header_line l h), (utf8, closes, bs, h)) \<in> measure (\<lambda>(utf8, closes, bs, h). length bs)"
    by simp
qed simp

declare read_headers.simps [simp del]

subsection \<open>Responses\<close>

record http_response =
  hr_status :: string
  hr_type :: string
  hr_body :: string
  hr_headers :: "(string \<times> string) list"

text \<open>The bytes written: one header block, a blank line, the body.\<close>

definition CRLF :: string where "CRLF = [CHR 0x0D, CHR 0x0A]"

definition render_http :: "http_response \<Rightarrow> string" where
  "render_http r =
     ''HTTP/1.1 '' @ hr_status r @ CRLF @ ''Content-Type: '' @ hr_type r @ CRLF @ ''Content-Length: ''
     @ show_nat (length (hr_body r)) @ CRLF @ ''Connection: close'' @ CRLF
     @ concat (map (\<lambda>(n, v). n @ '': '' @ v @ CRLF) (hr_headers r)) @ CRLF @ hr_body r"

definition DQ :: string where "DQ = [CHR 0x22]"

definition refusal_body :: "string \<Rightarrow> string \<Rightarrow> bool \<Rightarrow> string" where
  "refusal_body c m retry =
     ''{'' @ DQ @ ''error'' @ DQ @ '':{'' @ DQ @ ''code'' @ DQ @ '':'' @ DQ @ c @ DQ @ '','' @ DQ @ ''message'' @ DQ @ '':''
     @ DQ @ m @ DQ @ '','' @ DQ @ ''retryable'' @ DQ @ '':'' @ (if retry then ''true'' else ''false'') @ ''}}''"

definition unauthorized :: http_response where
  "unauthorized =
     \<lparr>hr_status = ''401 Unauthorized'', hr_type = ''application/json'',
      hr_body = refusal_body ''UNAUTHORIZED''
        ''missing or invalid MCP route credential; present Authorization: Bearer <token> or X-Cognis-Route-Token'' False,
      hr_headers = [(''WWW-Authenticate'', ''Bearer''), (''X-Cognis-Auth'', ''route-credential-required'')]\<rparr>"

definition cross_repository :: http_response where
  "cross_repository =
     \<lparr>hr_status = ''403 Forbidden'', hr_type = ''application/json'',
      hr_body = refusal_body ''CROSS_REPOSITORY''
        ''repository identity mismatch; cross-repository access is rejected (present matching X-Cognis-Repo-Key)'' False,
      hr_headers = [(''X-Cognis-Isolation'', ''repo-identity-rejected'')]\<rparr>"

definition fingerprint_mismatch :: http_response where
  "fingerprint_mismatch =
     \<lparr>hr_status = ''403 Forbidden'', hr_type = ''application/json'',
      hr_body = refusal_body ''MODEL_FINGERPRINT_MISMATCH''
        ''model fingerprint mismatch; session reuse refused (present matching X-Cognis-Model-Fingerprint)'' False,
      hr_headers = [(''X-Cognis-Isolation'', ''model-fingerprint-rejected'')]\<rparr>"

definition method_not_allowed :: http_response where
  "method_not_allowed =
     \<lparr>hr_status = ''405 Method Not Allowed'', hr_type = ''text/plain'', hr_body = ''MCP over HTTP: POST JSON-RPC to /mcp'',
      hr_headers = [(''Allow'', ''POST'')]\<rparr>"

definition overload_response :: "nat \<Rightarrow> http_response" where
  "overload_response retry_after =
     \<lparr>hr_status = ''503 Service Unavailable'', hr_type = ''application/json'',
      hr_body = refusal_body ''TIMEOUT'' ''MCP HTTP server is at capacity (bounded queue full); retry shortly.'' True,
      hr_headers = [(''Retry-After'', show_nat retry_after)]\<rparr>"

definition answered :: "string option \<Rightarrow> http_response" where
  "answered out =
     (case out of
        Some text \<Rightarrow> \<lparr>hr_status = ''200 OK'', hr_type = ''application/json'', hr_body = text, hr_headers = []\<rparr>
      | None \<Rightarrow> \<lparr>hr_status = ''202 Accepted'', hr_type = ''application/json'', hr_body = [], hr_headers = []\<rparr>)"

subsection \<open>Dispatch of a body\<close>

definition rpc_error_json :: "rpc_error \<Rightarrow> json" where
  "rpc_error_json e = JObj ([(''code'', JInt (rpc_code e)), (''message'', JStr (rpc_message e))]
     @ (case rpc_data e of Some d \<Rightarrow> [(''data'', d)] | None \<Rightarrow> []))"

definition response_json :: "response \<Rightarrow> json" where
  "response_json r = JObj ([(''jsonrpc'', JStr (resp_jsonrpc r)), (''id'', resp_id r)]
     @ (case resp_result r of Some v \<Rightarrow> [(''result'', v)] | None \<Rightarrow> [])
     @ (case resp_error r of Some e \<Rightarrow> [(''error'', rpc_error_json e)] | None \<Rightarrow> []))"

text \<open>What the \<open>n\<close>-th request of a body meets: the engine, the time, and what its gates observe.\<close>

type_synonym world_view = "engine_view \<times> nat \<times> (nat \<Rightarrow> nat \<times> bool)"

definition dispatch_one :: "http_env \<Rightarrow> tool_handlers \<Rightarrow> world_view \<Rightarrow> json \<Rightarrow> server \<Rightarrow> response option \<times> server" where
  "dispatch_one he tools = (\<lambda>(eng, now, w) v srv.
     case he_from_value he v of
       Inr req \<Rightarrow> handle_request (he_version he) (he_to_text he) tools eng now w req srv
     | Inl e \<Rightarrow> (Some (response_error JNull (rpc_error_new INVALID_REQUEST (''invalid Request object: '' @ e))), srv))"

fun dispatch_items ::
  "http_env \<Rightarrow> tool_handlers \<Rightarrow> (nat \<Rightarrow> world_view) \<Rightarrow> nat \<Rightarrow> json list \<Rightarrow> server \<Rightarrow> response list \<times> server" where
  "dispatch_items he tools ws n [] srv = ([], srv)"
| "dispatch_items he tools ws n (v # vs) srv =
     (case dispatch_one he tools (ws n) v srv of
        (r, srv) \<Rightarrow>
          (case dispatch_items he tools ws (Suc n) vs srv of
             (rs, srv) \<Rightarrow> (case r of Some x \<Rightarrow> x # rs | None \<Rightarrow> rs, srv)))"

definition dispatch ::
  "http_env \<Rightarrow> tool_handlers \<Rightarrow> (nat \<Rightarrow> world_view) \<Rightarrow> string \<Rightarrow> server \<Rightarrow> string option \<times> server" where
  "dispatch he tools ws body srv =
     (case he_from_str he body of
        Inl e \<Rightarrow> (Some (he_to_text he (response_json (response_error JNull (rpc_error_new (- 32700) (''parse error: '' @ e))))), srv)
      | Inr (JArr items) \<Rightarrow>
          (case dispatch_items he tools ws 0 items srv of
             (rs, srv) \<Rightarrow> (if rs = [] then None else Some (he_to_text he (JArr (map response_json rs))), srv))
      | Inr v \<Rightarrow>
          (case dispatch_one he tools (ws 0) v srv of
             (r, srv) \<Rightarrow> (map_option (\<lambda>r. he_to_text he (response_json r)) r, srv)))"

text \<open>The watcher of the peer: what its reads answer until the dispatch is over; whether it cancels.\<close>

datatype read_outcome = ReadEnd | ReadBytes | WouldBlock | ReadFailed

fun watch_peer_disconnect :: "read_outcome list \<Rightarrow> bool" where
  "watch_peer_disconnect [] = False"
| "watch_peer_disconnect (ReadEnd # rest) = True"
| "watch_peer_disconnect (ReadFailed # rest) = True"
| "watch_peer_disconnect (_ # rest) = watch_peer_disconnect rest"

subsection \<open>One connection\<close>

definition authorized :: "credential \<Rightarrow> headers \<Rightarrow> bool" where
  "authorized token h \<longleftrightarrow> (case presented_credential h of Some t \<Rightarrow> constant_time_eq token t | None \<Rightarrow> False)"

definition same_repository :: "http_env \<Rightarrow> repo_identity option \<Rightarrow> headers \<Rightarrow> bool" where
  "same_repository he own h \<longleftrightarrow>
     (case own of
        None \<Rightarrow> True
      | Some r \<Rightarrow> is_allowed (verify_repo_wire_key (he_sha he) r (case presented_repo_key h of Some k \<Rightarrow> k | None \<Rightarrow> [])))"

definition same_model :: "model_fingerprint option \<Rightarrow> headers \<Rightarrow> bool" where
  "same_model own h \<longleftrightarrow>
     (case own of
        None \<Rightarrow> True
      | Some f \<Rightarrow> session_reuse_allowed f (from_digest (case presented_fingerprint h of Some d \<Rightarrow> d | None \<Rightarrow> [])))"

definition method_of :: "string \<Rightarrow> string" where
  "method_of l = first_word (trim_start l)"

text \<open>The refusal of a request by its headers and method.\<close>

definition refusal ::
  "http_env \<Rightarrow> credential \<Rightarrow> repo_identity option \<Rightarrow> model_fingerprint option \<Rightarrow> string \<Rightarrow> headers \<Rightarrow> http_response option" where
  "refusal he token repo fp meth h =
     (if \<not> authorized token h then Some unauthorized
      else if \<not> same_repository he repo h then Some cross_repository
      else if \<not> same_model fp h then Some fingerprint_mismatch
      else if to_ascii_lowercase meth \<noteq> ''post'' then Some method_not_allowed
      else None)"

text \<open>\<open>None\<close> as response: the connection is dropped without one.\<close>

definition handle_connection ::
  "http_env \<Rightarrow> credential \<Rightarrow> repo_identity option \<Rightarrow> model_fingerprint option \<Rightarrow> tool_handlers \<Rightarrow> (nat \<Rightarrow> world_view)
   \<Rightarrow> peer \<Rightarrow> server \<Rightarrow> http_response option \<times> server" where
  "handle_connection he token repo fp tools ws p srv =
     (case read_line (he_utf8 he) (peer_closes p) (peer_bytes p) of
        None \<Rightarrow> (None, srv)
      | Some (l, rest) \<Rightarrow>
          if l = [] then (None, srv)
          else case read_headers (he_utf8 he) (peer_closes p) rest no_headers of
                 None \<Rightarrow> (None, srv)
               | Some (h, body) \<Rightarrow>
                   (case refusal he token repo fp (method_of l) h of
                      Some r \<Rightarrow> (Some r, srv)
                    | None \<Rightarrow>
                        if length body < content_length h then (None, srv)
                        else case dispatch he tools ws (he_lossy he (take (content_length h) body)) srv of
                               (out, srv) \<Rightarrow> (Some (answered out), srv)))"

subsection \<open>Who gets in\<close>

lemma fold_or_zero:
  "fold (\<lambda>i diff. or diff (f i)) xs d = 0 \<longleftrightarrow> d = 0 \<and> (\<forall>i \<in> set xs. f i = 0)" for d :: u8
  by (induction xs arbitrary: d) (auto simp: or_eq_0_iff)

lemma xor_zero: "xor a b = 0 \<longleftrightarrow> a = b" for a b :: u8
proof
  assume "xor a b = 0"
  then have "xor (xor a b) b = b" by simp
  then show "a = b" by (simp add: xor.assoc)
qed simp

lemma byte_inj: "(of_char c :: u8) = of_char d \<Longrightarrow> c = d"
proof -
  assume eq: "(of_char c :: u8) = of_char d"
  have "unat (of_char x :: u8) = of_char x" for x :: char
  proof -
    have "(of_char x :: u8) = of_nat (of_char x)" by (simp only: of_nat_of_char)
    moreover have "(of_char x :: nat) < 2 ^ LENGTH(8)" by simp
    ultimately show ?thesis by (simp add: unat_of_nat)
  qed
  with eq have "(of_char c :: nat) = of_char d" by metis
  then show "c = d" by simp
qed

lemma constant_time_eq_iff: "constant_time_eq a b \<longleftrightarrow> a = b"
proof -
  have "constant_time_eq a b \<longleftrightarrow> length a = length b \<and> (\<forall>i < max (length a) (length b). byte_at a i = byte_at b i)"
    by (auto simp: constant_time_eq_def fold_or_zero xor_zero)
  also have "\<dots> \<longleftrightarrow> a = b"
    by (auto simp: byte_at_def list_eq_iff_nth_eq dest: byte_inj)
  finally show ?thesis .
qed

lemma authorized_iff: "authorized token h \<longleftrightarrow> presented_credential h = Some token"
  by (auto simp: authorized_def constant_time_eq_iff split: option.splits)

definition identified :: "http_env \<Rightarrow> repo_identity option \<Rightarrow> model_fingerprint option \<Rightarrow> headers \<Rightarrow> bool" where
  "identified he repo fp h \<longleftrightarrow>
     (case repo of None \<Rightarrow> True | Some own \<Rightarrow> map_option (\<lambda>k. to_ascii_lowercase (trim k)) (presented_repo_key h) = Some (wire_key (he_sha he) own))
     \<and> (case fp of None \<Rightarrow> True | Some f \<Rightarrow> map_option from_digest (presented_fingerprint h) = Some f)"

lemma trim_Nil: "trim [] = []"
  by code_simp

lemma same_repository_presented:
  assumes "same_repository he (Some own) h"
  shows "map_option (\<lambda>k. to_ascii_lowercase (trim k)) (presented_repo_key h) = Some (wire_key (he_sha he) own)"
  using assms trim_Nil
  by (cases "presented_repo_key h")
     (auto simp: same_repository_def is_allowed_def verify_repo_wire_key_def Let_def to_ascii_lowercase_def split: if_splits)

lemma same_model_presented: "same_model (Some f) h \<Longrightarrow> map_option from_digest (presented_fingerprint h) = Some f"
  using trim_Nil
  by (cases "presented_fingerprint h") (auto simp: same_model_def session_reuse_allowed_def from_digest_def to_ascii_lowercase_def)

lemma refusal_None:
  assumes "refusal he token repo fp meth h = None"
  shows "presented_credential h = Some token \<and> identified he repo fp h \<and> to_ascii_lowercase meth = ''post''"
  using assms same_repository_presented same_model_presented
  by (auto simp: refusal_def authorized_iff identified_def split: if_splits option.split)

lemma refusal_Some:
  "refusal he token repo fp meth h = Some r \<Longrightarrow> r \<in> {unauthorized, cross_repository, fingerprint_mismatch, method_not_allowed}"
  by (auto simp: refusal_def split: if_splits)

text \<open>
  C10: A request reaches the server only with the exact route credential, the owner's repository key and the owner's
  model fingerprint in its headers (where the owner enforces them) and as a POST; then the answer is that of the dispatch
  of its body. Any other connection is refused or dropped and leaves the server as it was.
\<close>

theorem only_identified_requests_dispatched:
  assumes "handle_connection he token repo fp tools ws p srv = (r, srv')"
  shows "(srv' = srv \<and> r \<in> insert None (Some ` {unauthorized, cross_repository, fingerprint_mismatch, method_not_allowed}))
    \<or> (\<exists>l rest h body out. read_line (he_utf8 he) (peer_closes p) (peer_bytes p) = Some (l, rest)
         \<and> read_headers (he_utf8 he) (peer_closes p) rest no_headers = Some (h, body)
         \<and> presented_credential h = Some token \<and> identified he repo fp h \<and> to_ascii_lowercase (method_of l) = ''post''
         \<and> dispatch he tools ws (he_lossy he (take (content_length h) body)) srv = (out, srv') \<and> r = Some (answered out))"
proof (cases "read_line (he_utf8 he) (peer_closes p) (peer_bytes p)")
  case None
  then show ?thesis using assms by (simp add: handle_connection_def)
next
  case (Some lr)
  obtain l rest where l: "read_line (he_utf8 he) (peer_closes p) (peer_bytes p) = Some (l, rest)" using Some by (cases lr) auto
  show ?thesis
  proof (cases "l = [] \<or> read_headers (he_utf8 he) (peer_closes p) rest no_headers = None")
    case True
    then have "(r, srv') = (None, srv)" using assms l by (auto simp: handle_connection_def split: if_splits)
    then show ?thesis by simp
  next
    case False
    then obtain h body where h: "l \<noteq> []" "read_headers (he_utf8 he) (peer_closes p) rest no_headers = Some (h, body)" by auto
    show ?thesis
    proof (cases "refusal he token repo fp (method_of l) h")
      case (Some r')
      then show ?thesis using assms l h refusal_Some [OF Some] by (auto simp: handle_connection_def)
    next
      case None
      obtain out srv2 where d: "dispatch he tools ws (he_lossy he (take (content_length h) body)) srv = (out, srv2)" by fastforce
      show ?thesis
      proof (cases "length body < content_length h")
        case True
        then show ?thesis using assms l h None by (simp add: handle_connection_def)
      next
        case False
        then have "r = Some (answered out)" "srv' = srv2" using assms l h None d by (simp_all add: handle_connection_def)
        then show ?thesis using l h(2) d refusal_None [OF None] by blast
      qed
    qed
  qed
qed

definition sample_http :: http_env where
  "sample_http = \<lparr>he_sha = (\<lambda>_. replicate 32 0), he_utf8 = (\<lambda>_. True), he_lossy = id, he_from_str = (\<lambda>_. Inl ''no JSON''),
     he_from_value = (\<lambda>_. Inl ''no request''), he_to_text = (\<lambda>_. ''{}''), he_version = ''0''\<rparr>"

definition sample_server :: server where
  "sample_server = \<lparr>scaps = default_caps, slots_cap = 1, slots_used = 0, audit = []\<rparr>"

definition sample_tool_handlers :: tool_handlers where
  "sample_tool_handlers = (\<lambda>_ _. fail (timeout []))"

definition sample_world :: world_view where
  "sample_world = (\<lparr>missing_required_indexes = Inl [], open_snapshot = Inl []\<rparr>, 0, \<lambda>_. (0, False))"

definition sample_peer :: peer where
  "sample_peer = \<lparr>peer_bytes = ''POST /'' @ [CHR 0x0A] @ ''X-Cognis-Route-Token: t'' @ [CHR 0x0A, CHR 0x0A], peer_closes = True\<rparr>"

lemma sample_request:
  "read_line (\<lambda>_. True) True (''POST /'' @ [CHR 0x0A] @ ''X-Cognis-Route-Token: t'' @ [CHR 0x0A, CHR 0x0A])
     = Some (''POST /'' @ [CHR 0x0A], ''X-Cognis-Route-Token: t'' @ [CHR 0x0A, CHR 0x0A])"
  "read_line (\<lambda>_. True) True (''X-Cognis-Route-Token: t'' @ [CHR 0x0A, CHR 0x0A]) = Some (''X-Cognis-Route-Token: t'' @ [CHR 0x0A], [CHR 0x0A])"
  "read_line (\<lambda>_. True) True [CHR 0x0A] = Some ([CHR 0x0A], [])"
  "header_line (''X-Cognis-Route-Token: t'' @ [CHR 0x0A]) no_headers = no_headers\<lparr>presented_credential := Some ''t''\<rparr>"
  "trim (''X-Cognis-Route-Token: t'' @ [CHR 0x0A]) \<noteq> []" "trim [CHR 0x0A] = []"
  "to_ascii_lowercase (method_of (''POST /'' @ [CHR 0x0A])) = ''post''"
  by code_simp+

lemma sample_headers:
  "read_headers (\<lambda>_. True) True (''X-Cognis-Route-Token: t'' @ [CHR 0x0A, CHR 0x0A]) no_headers
     = Some (no_headers\<lparr>presented_credential := Some ''t''\<rparr>, [])"
  by (subst read_headers.simps, simp only: sample_request option.case prod.case if_False,
      subst read_headers.simps, simp only: sample_request option.case prod.case, simp)

theorem only_identified_requests_dispatched_witness:
  "\<exists>r. handle_connection sample_http ''t'' None None sample_tool_handlers (\<lambda>_. sample_world) sample_peer sample_server = (Some r, sample_server)
   \<and> r \<notin> {unauthorized, cross_repository, fingerprint_mismatch, method_not_allowed}
   \<and> (\<exists>h. presented_credential h = Some ''t'' \<and> identified sample_http None None h)"
proof -
  have "refusal sample_http ''t'' None None (method_of (''POST /'' @ [CHR 0x0A])) (no_headers\<lparr>presented_credential := Some ''t''\<rparr>) = None"
    unfolding refusal_def authorized_iff sample_request by (simp add: same_repository_def same_model_def)
  then have run: "handle_connection sample_http ''t'' None None sample_tool_handlers (\<lambda>_. sample_world) sample_peer sample_server
      = (Some (answered (Some ''{}'')), sample_server)"
    unfolding handle_connection_def sample_peer_def sample_http_def
    by (simp only: sample_request sample_headers peer.simps http_env.simps option.case prod.case)
       (simp add: dispatch_def no_headers_def)
  have "answered (Some ''{}'') \<notin> {unauthorized, cross_repository, fingerprint_mismatch, method_not_allowed}"
    by (simp add: answered_def unauthorized_def cross_repository_def fingerprint_mismatch_def method_not_allowed_def)
  then show ?thesis using only_identified_requests_dispatched [OF run] run by blast
qed

subsection \<open>Bodies and batches\<close>

text \<open>The messages of a body, and the id of the answer each is owed: the null id if it is no request.\<close>

fun messages :: "json \<Rightarrow> json list" where
  "messages (JArr items) = items"
| "messages v = [v]"

definition owed :: "http_env \<Rightarrow> json \<Rightarrow> json option" where
  "owed he v = (case he_from_value he v of Inl _ \<Rightarrow> Some JNull | Inr req \<Rightarrow> req_id req)"

lemma dispatch_one_answers:
  "case owed he v of
     None \<Rightarrow> dispatch_one he tools x v srv = (None, srv)
   | Some i \<Rightarrow> (\<exists>r. fst (dispatch_one he tools x v srv) = Some r \<and> answers i r)"
proof (cases "he_from_value he v")
  case (Inl e)
  then show ?thesis by (cases x) (simp add: owed_def dispatch_one_def)
next
  case (Inr req)
  then show ?thesis
    using handle_request_answers [of req _ "he_version he" "he_to_text he" tools "fst x" "fst (snd x)" "snd (snd x)" srv]
    by (cases x; cases "req_id req") (simp_all add: owed_def dispatch_one_def handle_request_def)
qed

lemma dispatch_items_answers:
  "list_all2 answers (List.map_filter (owed he) vs) (fst (dispatch_items he tools ws n vs srv))"
proof (induction vs arbitrary: n srv)
  case (Cons v vs)
  obtain r srv1 where d: "dispatch_one he tools (ws n) v srv = (r, srv1)" by fastforce
  obtain rs srv2 where i: "dispatch_items he tools ws (Suc n) vs srv1 = (rs, srv2)" by fastforce
  have "list_all2 answers (List.map_filter (owed he) vs) rs" using Cons.IH [of "Suc n" srv1] i by simp
  then show ?case
    using dispatch_one_answers [of he tools "ws n" v srv] d i
    by (cases "owed he v") (auto simp: List.map_filter_simps)
qed (simp add: List.map_filter_simps)

text \<open>
  Every request of a body is answered once, in order, under its own id, and an item that is no request under the null id;
  a body of notifications gets no answer, and one that is not JSON gets a single parse error.
\<close>

theorem http_body_answered:
  "case he_from_str he body of
     Inl e \<Rightarrow> dispatch he tools ws body srv
       = (Some (he_to_text he (response_json (response_error JNull (rpc_error_new PARSE_ERROR (''parse error: '' @ e))))), srv)
   | Inr v \<Rightarrow> (\<exists>rs. list_all2 answers (List.map_filter (owed he) (messages v)) rs
       \<and> fst (dispatch he tools ws body srv) =
           (if rs = [] then None
            else Some (he_to_text he (if v = JArr (messages v) then JArr (map response_json rs) else response_json (hd rs)))))"
proof (cases "he_from_str he body")
  case (Inl e)
  then show ?thesis by (simp add: dispatch_def PARSE_ERROR_def)
next
  case (Inr v)
  have single: "\<exists>rs. list_all2 answers (List.map_filter (owed he) [v]) rs
      \<and> map_option (\<lambda>r. he_to_text he (response_json r)) (fst (dispatch_one he tools (ws 0) v srv))
        = (if rs = [] then None else Some (he_to_text he (response_json (hd rs))))"
  proof (cases "owed he v")
    case None
    then show ?thesis using dispatch_one_answers [of he tools "ws 0" v srv] by (intro exI [of _ "[]"]) (simp add: List.map_filter_simps)
  next
    case (Some i)
    then obtain r where "fst (dispatch_one he tools (ws 0) v srv) = Some r" "answers i r"
      using dispatch_one_answers [of he tools "ws 0" v srv] by auto
    then show ?thesis using Some by (intro exI [of _ "[r]"]) (simp add: List.map_filter_simps)
  qed
  then obtain rs where rs: "list_all2 answers (List.map_filter (owed he) [v]) rs"
      "map_option (\<lambda>r. he_to_text he (response_json r)) (fst (dispatch_one he tools (ws 0) v srv))
        = (if rs = [] then None else Some (he_to_text he (response_json (hd rs))))" by blast
  show ?thesis
  proof (cases "v = JArr (messages v)")
    case True
    define items where "items = messages v"
    obtain rs srv2 where i: "dispatch_items he tools ws 0 items srv = (rs, srv2)" by fastforce
    have answered: "list_all2 answers (List.map_filter (owed he) items) rs"
      using dispatch_items_answers [of he items tools ws 0 srv] i by simp
    have v: "v = JArr items" using True items_def by simp
    have out: "fst (dispatch he tools ws body srv) = (if rs = [] then None else Some (he_to_text he (JArr (map response_json rs))))"
      using Inr i unfolding v by (simp add: dispatch_def)
    show ?thesis unfolding Inr sum.case by (rule exI [of _ rs]) (use answered out v in \<open>simp del: List.map_filter_simps\<close>)
  next
    case False
    then have one: "messages v = [v]" "fst (dispatch he tools ws body srv) = map_option (\<lambda>r. he_to_text he (response_json r)) (fst (dispatch_one he tools (ws 0) v srv))"
      using Inr by (cases v; simp add: dispatch_def case_prod_beta)+
    show ?thesis unfolding Inr sum.case one rs(2) by (rule exI [of _ rs]) (use False one(1) rs(1) in \<open>simp del: List.map_filter_simps\<close>)
  qed
qed

subsection \<open>The pool of workers\<close>

text \<open>
  The acceptor and the workers around the bounded queue. A handler that panics ends its worker (the thread unwinds,
  and nothing starts another); a worker exits when the acceptor is gone and the queue empty.
\<close>

datatype worker = Idle | Busy nat | Exited | Dead

record pool =
  pl_cap :: nat
  pl_queue :: "nat list"
  pl_workers :: "worker list"
  pl_open :: bool
  pl_arrived :: "nat list"
  pl_served :: "nat list"
  pl_refused :: "nat list"
  pl_lost :: "nat list"

definition pool_init :: "http_config \<Rightarrow> pool" where
  "pool_init c =
     \<lparr>pl_cap = queue_capacity c, pl_queue = [], pl_workers = replicate (worker_count c) Idle, pl_open = True,
      pl_arrived = [], pl_served = [], pl_refused = [], pl_lost = []\<rparr>"

inductive pool_step :: "pool \<Rightarrow> pool \<Rightarrow> bool" where
  accept: "pl_open p \<Longrightarrow> length (pl_queue p) < pl_cap p
    \<Longrightarrow> pool_step p (p\<lparr>pl_queue := pl_queue p @ [c], pl_arrived := c # pl_arrived p\<rparr>)"
| overload: "pl_open p \<Longrightarrow> pl_cap p \<le> length (pl_queue p)
    \<Longrightarrow> pool_step p (p\<lparr>pl_refused := c # pl_refused p, pl_arrived := c # pl_arrived p\<rparr>)"
| take: "w < length (pl_workers p) \<Longrightarrow> pl_workers p ! w = Idle \<Longrightarrow> pl_queue p = c # cs
    \<Longrightarrow> pool_step p (p\<lparr>pl_queue := cs, pl_workers := (pl_workers p)[w := Busy c]\<rparr>)"
| finish: "w < length (pl_workers p) \<Longrightarrow> pl_workers p ! w = Busy c
    \<Longrightarrow> pool_step p (p\<lparr>pl_workers := (pl_workers p)[w := Idle], pl_served := c # pl_served p\<rparr>)"
| panic: "w < length (pl_workers p) \<Longrightarrow> pl_workers p ! w = Busy c
    \<Longrightarrow> pool_step p (p\<lparr>pl_workers := (pl_workers p)[w := Dead], pl_lost := c # pl_lost p\<rparr>)"
| close: "pl_open p \<Longrightarrow> pool_step p (p\<lparr>pl_open := False\<rparr>)"
| exit: "w < length (pl_workers p) \<Longrightarrow> pl_workers p ! w = Idle \<Longrightarrow> \<not> pl_open p \<Longrightarrow> pl_queue p = []
    \<Longrightarrow> pool_step p (p\<lparr>pl_workers := (pl_workers p)[w := Exited]\<rparr>)"

definition in_hand :: "worker list \<Rightarrow> nat multiset" where
  "in_hand ws = mset (List.map_filter (\<lambda>w. case w of Busy c \<Rightarrow> Some c | _ \<Rightarrow> None) ws)"

lemma in_hand_update:
  assumes "w < length ws"
  shows "in_hand (ws[w := x]) + in_hand [ws ! w] = in_hand ws + in_hand [x]"
proof -
  have ws: "ws = take w ws @ [ws ! w] @ drop (Suc w) ws" using assms by (simp add: Cons_nth_drop_Suc)
  have upd: "ws[w := x] = take w ws @ [x] @ drop (Suc w) ws" using assms by (simp add: upd_conv_take_nth_drop)
  have app: "in_hand (as @ bs) = in_hand as + in_hand bs" for as bs
    by (simp add: in_hand_def List.map_filter_def)
  have "in_hand ws = in_hand (take w ws) + in_hand [ws ! w] + in_hand (drop (Suc w) ws)"
    by (subst ws) (simp only: app add.assoc)
  then show ?thesis unfolding upd app by (simp add: ac_simps)
qed

lemma in_hand_one [simp]: "in_hand [Idle] = {#}" "in_hand [Busy c] = {#c#}" "in_hand [Exited] = {#}" "in_hand [Dead] = {#}"
  by (simp_all add: in_hand_def List.map_filter_simps)

definition pool_ok :: "http_config \<Rightarrow> pool \<Rightarrow> bool" where
  "pool_ok cfg p \<longleftrightarrow>
     pl_cap p = queue_capacity cfg \<and> length (pl_queue p) \<le> pl_cap p \<and> length (pl_workers p) = worker_count cfg
     \<and> mset (pl_arrived p) = mset (pl_queue p) + in_hand (pl_workers p) + mset (pl_served p) + mset (pl_refused p) + mset (pl_lost p)
     \<and> (Exited \<in> set (pl_workers p) \<longrightarrow> \<not> pl_open p \<and> pl_queue p = [])"

lemma pool_ok_init: "pool_ok cfg (pool_init cfg)"
proof -
  have "in_hand (replicate n Idle) = {#}" for n by (induction n) (simp_all add: in_hand_def List.map_filter_simps)
  then show ?thesis by (simp add: pool_ok_def pool_init_def)
qed

lemma exited_update: "Exited \<in> set (ws[w := x]) \<Longrightarrow> x \<noteq> Exited \<Longrightarrow> Exited \<in> set ws"
  using set_update_subset_insert [of ws w x] by blast

lemma pool_ok_step:
  assumes "pool_step p p'" "pool_ok cfg p"
  shows "pool_ok cfg p'"
  using assms(1)
proof (cases rule: pool_step.cases)
  case (take w c cs)
  then show ?thesis using assms(2) in_hand_update [of w "pl_workers p" "Busy c"] exited_update [of "pl_workers p" w "Busy c"]
    by (auto simp: pool_ok_def)
next
  case (finish w c)
  then show ?thesis using assms(2) in_hand_update [of w "pl_workers p" Idle] exited_update [of "pl_workers p" w Idle]
    by (auto simp: pool_ok_def)
next
  case (panic w c)
  then show ?thesis using assms(2) in_hand_update [of w "pl_workers p" Dead] exited_update [of "pl_workers p" w Dead]
    by (auto simp: pool_ok_def)
next
  case (exit w)
  then show ?thesis using assms(2) in_hand_update [of w "pl_workers p" Exited] by (auto simp: pool_ok_def)
qed (use assms(2) in \<open>auto simp: pool_ok_def\<close>)

lemma pool_ok_run: "pool_step\<^sup>*\<^sup>* p p' \<Longrightarrow> pool_ok cfg p \<Longrightarrow> pool_ok cfg p'"
  by (induction rule: rtranclp_induct) (auto intro: pool_ok_step)


text \<open>Once the acceptor is gone, every step brings the pool closer to rest.\<close>

fun weight :: "worker \<Rightarrow> nat" where
  "weight Idle = 1"
| "weight (Busy c) = 2"
| "weight Exited = 0"
| "weight Dead = 0"

definition pool_work :: "pool \<Rightarrow> nat" where
  "pool_work p = 2 * length (pl_queue p) + sum_list (map weight (pl_workers p))"

lemma weight_update:
  "w < length ws \<Longrightarrow> sum_list (map weight (ws[w := x])) + weight (ws ! w) = sum_list (map weight ws) + weight x"
  using elem_le_sum_list [of w "map weight ws"] by (simp add: map_update sum_list_update)

lemma closed_step:
  assumes "pool_step p p'" "\<not> pl_open p"
  shows "\<not> pl_open p' \<and> pool_work p' < pool_work p"
  using assms(1)
proof (cases rule: pool_step.cases)
  case (take w c cs)
  then show ?thesis using assms(2) weight_update [of w "pl_workers p" "Busy c"] by (simp add: pool_work_def)
next
  case (finish w c)
  then show ?thesis using assms(2) weight_update [of w "pl_workers p" Idle] by (simp add: pool_work_def)
next
  case (panic w c)
  then show ?thesis using assms(2) weight_update [of w "pl_workers p" Dead] by (simp add: pool_work_def)
next
  case (exit w)
  then show ?thesis using assms(2) weight_update [of w "pl_workers p" Exited] by (simp add: pool_work_def)
qed (use assms(2) in auto)

lemma closed_run: "\<not> pl_open p \<Longrightarrow> (pool_step ^^ n) p q \<Longrightarrow> \<not> pl_open q \<and> n + pool_work q \<le> pool_work p"
proof (induction n arbitrary: q)
  case (Suc n)
  then obtain m where "(pool_step ^^ n) p m" "pool_step m q" by auto
  with Suc.IH Suc.prems(1) closed_step [of m q] show ?case by fastforce
qed simp

lemma pool_rests: "\<not> pl_open p \<Longrightarrow> \<exists>q. pool_step\<^sup>*\<^sup>* p q \<and> (\<forall>q'. \<not> pool_step q q')"
proof (induction "pool_work p" arbitrary: p rule: less_induct)
  case less
  show ?case
  proof (cases "\<exists>p'. pool_step p p'")
    case True
    then obtain p' where "pool_step p p'" by blast
    moreover from closed_step [OF this less.prems] less.hyps obtain q where
      "pool_step\<^sup>*\<^sup>* p' q" "\<forall>q'. \<not> pool_step q q'" by blast
    ultimately show ?thesis by (meson converse_rtranclp_into_rtranclp)
  qed blast
qed

lemma pool_work_bound: "pool_ok cfg p \<Longrightarrow> pool_work p \<le> 2 * (queue_capacity cfg + worker_count cfg)"
proof -
  have "sum_list (map weight ws) \<le> 2 * length ws" for ws
  proof (induction ws)
    case (Cons w ws)
    then show ?case by (cases w) simp_all
  qed simp
  from this [of "pl_workers p"] show "pool_ok cfg p \<Longrightarrow> ?thesis" by (simp add: pool_ok_def pool_work_def)
qed

lemma resting_pool:
  assumes "\<forall>q'. \<not> pool_step q q'" "\<not> pl_open q"
  shows "in_hand (pl_workers q) = {#} \<and> (pl_queue q = [] \<or> set (pl_workers q) \<subseteq> {Exited, Dead})"
proof -
  have busy: "pl_workers q ! w \<noteq> Busy c" if "w < length (pl_workers q)" for w c
    using pool_step.finish [OF that] assms(1) by blast
  have idle: "pl_workers q ! w \<noteq> Idle" if "w < length (pl_workers q)" for w
    using pool_step.take [OF that] pool_step.exit [OF that _ assms(2)] assms(1) by (cases "pl_queue q") blast+
  have "x \<in> {Exited, Dead}" if x: "x \<in> set (pl_workers q)" for x
  proof -
    obtain w where w: "w < length (pl_workers q)" "pl_workers q ! w = x" using x by (auto simp: in_set_conv_nth)
    show ?thesis
    proof (cases x)
      case Idle
      then show ?thesis using idle [OF w(1)] w(2) by simp
    next
      case (Busy c)
      then show ?thesis using busy [OF w(1), of c] w(2) by simp
    qed simp_all
  qed
  then have sub: "set (pl_workers q) \<subseteq> {Exited, Dead}" by blast
  then have "in_hand (pl_workers q) = {#}"
    by (auto simp: in_hand_def List.map_filter_def filter_empty_conv)
  with sub show ?thesis by blast
qed

text \<open>
  C24: At every moment of every run the queue is within its capacity, and each connection that arrived is in exactly one place:
  waiting, in a worker's hands, served, refused with the overload response, or lost to a panic. Once the
  acceptor is gone, every run ends, whichever step is taken at each moment: it has at most two steps for each place
  in the queue and each worker (a request in hand being one whose handler returns or panics in the end), and where it
  can go no further nobody is in hand, and nobody is waiting unless every worker has died; such a state can always
  be reached.
\<close>

theorem pool_accounts_for_connections:
  assumes "pool_step\<^sup>*\<^sup>* (pool_init (normalized fresh cfg)) p"
  shows "length (pl_queue p) \<le> max 1 (queue_capacity cfg) \<and> size (in_hand (pl_workers p)) \<le> max 1 (worker_count cfg)
    \<and> mset (pl_arrived p) = mset (pl_queue p) + in_hand (pl_workers p) + mset (pl_served p) + mset (pl_refused p) + mset (pl_lost p)
    \<and> (\<not> pl_open p \<longrightarrow>
          (\<forall>n q. (pool_step ^^ n) p q \<longrightarrow> n \<le> 2 * (max 1 (queue_capacity cfg) + max 1 (worker_count cfg)))
        \<and> (\<forall>q. pool_step\<^sup>*\<^sup>* p q \<and> (\<forall>q'. \<not> pool_step q q') \<longrightarrow>
              in_hand (pl_workers q) = {#} \<and> (pl_queue q = [] \<or> set (pl_workers q) = {Dead}))
        \<and> (\<exists>q. pool_step\<^sup>*\<^sup>* p q \<and> (\<forall>q'. \<not> pool_step q q')))"
proof -
  let ?c = "normalized fresh cfg"
  have ok: "pool_ok ?c p" by (rule pool_ok_run [OF assms pool_ok_init])
  have limits: "queue_capacity ?c = max 1 (queue_capacity cfg)" "worker_count ?c = max 1 (worker_count cfg)"
    by (simp_all add: normalized_def)
  have hand: "size (in_hand ws) \<le> length ws" for ws
    by (induction ws) (auto simp: in_hand_def List.map_filter_simps split: worker.split)
  have steps: "n \<le> 2 * (max 1 (queue_capacity cfg) + max 1 (worker_count cfg))"
    if "\<not> pl_open p" "(pool_step ^^ n) p q" for n q
    using closed_run [OF that] pool_work_bound [OF ok] unfolding limits by linarith
  have rest: "in_hand (pl_workers q) = {#} \<and> (pl_queue q = [] \<or> set (pl_workers q) = {Dead})"
    if closed: "\<not> pl_open p" and q: "pool_step\<^sup>*\<^sup>* p q" "\<forall>q'. \<not> pool_step q q'" for q
  proof -
    have okq: "pool_ok ?c q" by (rule pool_ok_run [OF q(1) ok])
    then have "pl_workers q \<noteq> []" by (auto simp: pool_ok_def normalized_def)
    moreover have "Exited \<in> set (pl_workers q) \<longrightarrow> pl_queue q = []" using okq by (simp add: pool_ok_def)
    moreover have "\<not> pl_open q" using q(1) closed closed_run by (meson rtranclp_imp_relpowp)
    ultimately show ?thesis
      using resting_pool [OF q(2)] by (metis (no_types, lifting) insertE set_empty2 subset_insert subset_singletonD)
  qed
  have "length (pl_queue p) \<le> max 1 (queue_capacity cfg)" using ok by (simp add: pool_ok_def normalized_def)
  moreover have "size (in_hand (pl_workers p)) \<le> max 1 (worker_count cfg)"
    using ok hand [of "pl_workers p"] by (simp add: pool_ok_def normalized_def)
  moreover have "mset (pl_arrived p) = mset (pl_queue p) + in_hand (pl_workers p) + mset (pl_served p) + mset (pl_refused p) + mset (pl_lost p)"
    using ok by (simp add: pool_ok_def)
  ultimately show ?thesis using steps rest pool_rests by blast
qed

text \<open>
  C39: A panic in a handler costs a worker for good: when each has panicked once, the acceptor goes on, and every later
  connection waits for ever or is refused; none is served again.
\<close>

theorem dead_pool_serves_nobody:
  assumes "set (pl_workers p) \<subseteq> {Dead}" "pool_step\<^sup>*\<^sup>* p q"
  shows "pl_served q = pl_served p \<and> pl_workers q = pl_workers p \<and> (\<exists>more. pl_queue q = pl_queue p @ more)"
  using assms(2)
proof (induction rule: rtranclp_induct)
  case (step q r)
  have dead: "pl_workers q ! w = Dead" if "w < length (pl_workers q)" for w
    using that step.IH assms(1) nth_mem by fastforce
  from step.hyps(2) show ?case
    by (cases rule: pool_step.cases) (use step.IH dead in auto)
qed simp

theorem pool_accounts_for_connections_witness:
  "\<exists>p. pool_step\<^sup>*\<^sup>* (pool_init (normalized ''t'' default_limits)) p \<and> pl_arrived p = [7]
     \<and> mset (pl_arrived p) = mset (pl_queue p) + in_hand (pl_workers p) + mset (pl_served p) + mset (pl_refused p) + mset (pl_lost p)"
proof -
  let ?p = "pool_init (normalized ''t'' default_limits)"
  have "pool_step ?p (?p\<lparr>pl_queue := pl_queue ?p @ [7], pl_arrived := 7 # pl_arrived ?p\<rparr>)"
    by (rule pool_step.accept) (simp_all add: pool_init_def normalized_def)
  then have "pool_step\<^sup>*\<^sup>* ?p (?p\<lparr>pl_queue := pl_queue ?p @ [7], pl_arrived := 7 # pl_arrived ?p\<rparr>)" by (rule r_into_rtranclp)
  from pool_accounts_for_connections [OF this] this show ?thesis by (intro exI) (auto simp: pool_init_def)
qed

text \<open>The pool of one worker, after its only request has panicked.\<close>

definition one_worker :: http_config where
  "one_worker = default_limits\<lparr>worker_count := 1, queue_capacity := 1\<rparr>"

definition panicked_pool :: pool where
  "panicked_pool = (pool_init one_worker)\<lparr>pl_workers := [Dead], pl_arrived := [0], pl_lost := [0]\<rparr>"

lemma panicked_pool_reachable: "pool_step\<^sup>*\<^sup>* (pool_init one_worker) panicked_pool"
proof -
  let ?a = "(pool_init one_worker)\<lparr>pl_queue := [0], pl_arrived := [0]\<rparr>" and ?b = "(pool_init one_worker)\<lparr>pl_workers := [Busy 0], pl_arrived := [0]\<rparr>"
  have "pool_step (pool_init one_worker) ?a"
    using pool_step.accept [of "pool_init one_worker" 0] by (simp add: pool_init_def one_worker_def)
  moreover have "pool_step ?a ?b"
    using pool_step.take [of 0 ?a 0 "[]"] by (simp add: pool_init_def one_worker_def)
  moreover have "pool_step ?b panicked_pool"
    using pool_step.panic [of 0 ?b 0] by (simp add: pool_init_def one_worker_def panicked_pool_def)
  ultimately show ?thesis by (meson converse_rtranclp_into_rtranclp rtranclp.rtrancl_refl)
qed

theorem dead_pool_serves_nobody_witness:
  "\<exists>q. pool_step\<^sup>*\<^sup>* (pool_init one_worker) q \<and> pl_open q \<and> pl_queue q = [1] \<and> pl_served q = []
     \<and> (\<forall>r. pool_step\<^sup>*\<^sup>* q r \<longrightarrow> pl_served r = [])"
proof -
  let ?q = "panicked_pool\<lparr>pl_queue := [1], pl_arrived := [1, 0]\<rparr>"
  have "pool_step panicked_pool ?q"
    using pool_step.accept [of panicked_pool 1] by (simp add: panicked_pool_def pool_init_def one_worker_def)
  then have run: "pool_step\<^sup>*\<^sup>* (pool_init one_worker) ?q" using panicked_pool_reachable by (rule rtranclp.rtrancl_into_rtrancl [rotated])
  have "set (pl_workers ?q) \<subseteq> {Dead}" "pl_served ?q = []" by (simp_all add: panicked_pool_def pool_init_def)
  then have "\<forall>r. pool_step\<^sup>*\<^sup>* ?q r \<longrightarrow> pl_served r = []" using dead_pool_serves_nobody by metis
  then show ?thesis using run by (intro exI [of _ ?q]) (simp add: panicked_pool_def pool_init_def)
qed

subsection \<open>Binding and credentials\<close>

lemma bind_loopback_only: "bind_with net show_ip False host = Inr ip \<Longrightarrow> ip_is_loopback ip \<and> is_loopback_host net host"
  by (auto simp: bind_with_def split: if_splits option.splits list.splits)

lemma short_token_refused: "from_env_or_generate fresh (Some v) = Inr t \<Longrightarrow> trim v \<noteq> [] \<Longrightarrow> t = trim v \<and> MIN_CREDENTIAL_LEN \<le> length t"
  by (auto simp: from_env_or_generate_def from_token_def Let_def split: if_splits)

end
