(* ===== verification/Spec2Isabelle.thy ===== *)
theory Spec2Isabelle
  imports Prelude Complexity Watcher Json Caps Models Mcp_Server Retrieval Graph Push Diffuse Solvers Store Publish Embed_Queue Resolver Planner Pipeline Impact
    Lifecycle Lease Store_Engine Tarjan Workspace Shadow Tools Tool_Calls Identity Http
begin

text \<open>
  A verification library for the Cognis code-intelligence engine (the Rust workspace under
  \<open>crates/\<close>). Cognis watches a repository, keeps an index of its symbols and of the edges between
  them, and answers the questions of coding agents over the Model Context Protocol: lexical and
  semantic search, diffusion over the code graph, complexity, and the impact of a change.

  \<^bold>\<open>How the parts interact.\<close> The owner process holds a lease on the repository and offers every
  file event to a bounded queue. The planner turns a request into a batch of files to publish, the
  resolver proposes the edges between their symbols, and the pipeline publishes the batch in one
  transaction of the store; symbols whose vectors are missing wait in the embedding queue for a
  model from the lazily loaded slot. A tool call enters through the JSON-RPC loop on standard input or
  through HTTP, passes the concurrency limiter, gets a deadline and a snapshot of the index, and
  runs a handler between whose stages the deadline is checked. Handlers search retrieval layers, fuse
  their hits by rank, and add symbols reached by a personalized PageRank over the resident graph; the
  analysis tools propagate complexity classes over the call graph and run the same solver over
  reverse graphs.

  \<^bold>\<open>Theories and the code they model.\<close>
  \<^item> \<open>Prelude\<close>: Rust's primitive types and the standard-library operations the sources call.
  \<^item> \<open>Complexity\<close>: \<open>cognis-core/src/complexity.rs\<close>, the growth classes with their composition and
    order; the locale \<open>keyed_choice\<close> is sequential composition as a choice by degree.
  \<^item> \<open>Watcher\<close>: \<open>cognis-owner/src/queue.rs\<close>, the change queue; the locale \<open>change_queue\<close> is what the
    planner relies on.
  \<^item> \<open>Json\<close>, \<open>Models\<close>: JSON values and the error envelope (\<open>cognis-mcp/src/errors.rs\<close>); symbols,
    edges, hits and the extension contract (\<open>cognis-core/src/models.rs\<close>, \<open>hit.rs\<close>, \<open>error.rs\<close>,
    \<open>contract.rs\<close>).
  \<^item> \<open>Caps\<close>, \<open>Mcp_Server\<close>: \<open>cognis-mcp/src/caps.rs\<close> (clamps, deadlines, the limiter as its
    compare-and-swap loop over threads, a cap of zero being none), \<open>server.rs\<close> and \<open>jsonrpc.rs\<close> (the
    request loop, with the reads, writes and panics that end a session).
  \<^item> \<open>Identity\<close>, \<open>Http\<close>: \<open>cognis-core/src/identity.rs\<close>, \<open>cognis-embed/src/fingerprint.rs\<close> and
    \<open>cognis-mcp/src/http.rs\<close>: who may share a server, a connection from its bytes to its response, and
    the pool of workers.
  \<^item> \<open>Retrieval\<close>: \<open>cognis-retrieval/src\<close>, rank fusion and capsules. The locale \<open>budgeted_ranking\<close> is
    what appending context needs of a ranking.
  \<^item> \<open>Graph\<close>, \<open>Push\<close>, \<open>Diffuse\<close>, \<open>Impact\<close>, \<open>Solvers\<close>: \<open>cognis-core/src/graph.rs\<close> and
    \<open>cognis-csar/src\<close> (\<open>push.rs\<close>, \<open>diffuse.rs\<close>, \<open>impact.rs\<close>, \<open>solvers.rs\<close>), from the sparse matrix to
    the impact report, and the dense reference solvers.
  \<^item> \<open>Lifecycle\<close>, \<open>Lease\<close>: \<open>cognis-embed/src/lifecycle.rs\<close>, the model slot and its interleavings;
    \<open>cognis-core/src/lease.rs\<close>, the repository lease as interleaved file operations.
  \<^item> \<open>Store\<close>, \<open>Publish\<close>: \<open>cognis-store/src/lib.rs\<close> and \<open>publish.rs\<close>, the tables with their row codecs,
    reads and searches, and the transaction that publishes a batch in sixteen stages.
  \<^item> \<open>Embed_Queue\<close>: \<open>cognis-indexer/src/embed_queue.rs\<close>, the drain of the durable embedding queue. The
    locale \<open>index_writer\<close> is what every writer of the index promises about it; it is interpreted on
    each writer of the store, the queue and, in \<open>Pipeline\<close>, on whole requests.
  \<^item> \<open>Resolver\<close>: \<open>cognis-indexer/src/resolver.rs\<close>, five heuristics and the merge of their proposals; the
    locale \<open>lowercasing\<close> is what they need of case mapping.
  \<^item> \<open>Planner\<close>, \<open>Pipeline\<close>: \<open>cognis-indexer/src/planner.rs\<close>, \<open>pipeline.rs\<close> and \<open>writer.rs\<close>, from a request to
    the published batch.
  \<^item> \<open>Store_Engine\<close>: \<open>cognis-mcp/src/store_engine.rs\<close>, \<open>engine.rs\<close>, \<open>reference_scan.rs\<close> and
    \<open>cognis-store/src/snapshot.rs\<close>, the retrieval engine over a pinned snapshot.
  \<^item> \<open>Tarjan\<close>, \<open>Workspace\<close>: \<open>cognis-indexer/src/complexity.rs\<close>, the components of the call graph and the
    complexity of every function of a workspace.
  \<^item> \<open>Shadow\<close>, \<open>Tools\<close>, \<open>Tool_Calls\<close>: \<open>cognis-indexer/src/shadow.rs\<close>, the guardrail for unsaved edits;
    \<open>cognis-mcp/src/tools.rs\<close>, the twelve tools; and what a call guarantees whatever the tool. The locale
    \<open>engine_relation\<close> lifts a relation that every operation of an engine keeps to whole tool calls;
    \<open>Tool_Calls\<close> interprets it twice on the store's engine.

  Structs are records, enums datatypes, fallible functions sums with the error on the left, loops
  recursive functions or folds over the same items in the same order. State that the code mutates
  is passed and returned; what the code shares between threads or processes is the state of a step
  relation, one step per atomic action (a critical section, a compare-and-swap, a file operation, a
  queue operation). A panic, or a run that would not end, is the value \<open>None\<close>.

  \<^bold>\<open>What the lemmas show.\<close>
  \<^item> Queue, limiter, model slot, worker pool: invariants of every interleaving, and what they give a
    caller (no change is lost, the cap is respected, a borrowed session is never evicted, each
    connection is accounted for, and every run of a closed pool ends). Lease: calls that do not overlap respect it; calls that overlap need not.
  \<^item> Server and transport: each request that a session reads is answered once under its id, up to the read,
    write or panic that ends it; a call refused at capacity touches nothing, and over HTTP nothing reaches the server without credential, repository key and fingerprint.
  \<^item> Publication and index: a batch is published whole or not at all, with the contents the batch
    describes; every writer keeps the index consistent; the embedding queue loses no request, whichever of
    the drain's reads, writes and embeddings fail; a full plan makes the index converge to the files, and a watched plan to what a full plan would publish.
  \<^item> Engine: bounded reads and searches agree with the reference scans they replace; traces find
    shortest paths; the resident graph is never stale; a vector of another space is never scored.
  \<^item> Resolver: the merge keeps the strongest proposal of each key.
  \<^item> Fusion and capsules: the loops compute the reciprocal-rank definition, and the context stays in its budget.
  \<^item> Graph and solvers: well-formed rows; forward push ends with bounded work and small residuals,
    conserves every weighted walk value, and agrees with the exact solution up to its tolerance.
  \<^item> Complexity and impact: Tarjan's algorithm finds the strongly connected components, a function is
    never reported below its body and the calls it makes, the guardrail says OK only if nothing was found, and
    edits that keep the declarations of their files break no call site.

  \<^bold>\<open>Idealisations.\<close> Floats are real numbers: no rounding, infinity or NaN. Strings are lists of UTF-8
  bytes. Instants and durations are nanoseconds (seconds in the lease) as numbers without an upper
  bound. Counters are natural numbers except where the code saturates, truncates or casts them:
  the \<open>u8\<close> of the complexity classes and loop depths, the \<open>i32\<close> of the graph's arrays, the \<open>u64\<close> of
  the engine's counters, the \<open>u32\<close> of the token estimate. A hash map is a finite function or the list of
  its entries; where its iteration order can be seen it is an argument.

  \<^bold>\<open>Bounds and fuel.\<close> The push loop is a \<open>while_option\<close>, so non-termination is a value, and it is
  proved to return on every well-formed graph. The call-graph walk of the impact analysis is a
  function whose measure counts queued and unvisited nodes. The recursion of Tarjan's algorithm has
  as much fuel as there are nodes, which is proved to be enough. Running the lease alone takes at most six
  file operations, which is the fuel of \<open>acquire_or_attach\<close>. The path of a missing file is followed
  upwards 4096 times, as in the code. Graph facts ask that the entries fit the 32-bit row pointers,
  as the code does silently.

  \<^bold>\<open>Not modelled.\<close> The syntax-tree walks of the source parsers and of the complexity extraction (node kinds
  belong to tree-sitter grammars of other packages), the artifact parsers of the source tree and
  the enrichers that work on patterns of the regex library (their results are arguments of the planner), the execution of SQL by SQLite (tables are
  lists of rows and statements functions on them), model inference (ONNX), the audit file, configuration
  defaults, the threads and timers of the owner process, process start-up and proxying, the benchmark and
  test-generation crates, and the TypeScript extension.
\<close>

end
